(* ===== verification/Xrtc_Prelude.thy ===== *)
theory Xrtc_Prelude
  imports Main "HOL-Library.Word"
begin

text \<open>
  The prelude of the development: the names of the machine types the C and C++ sources use,
  the faults a memory-unsafe operation can end in, the conversions between C integer types,
  little- and big-endian byte strings, writes into a byte buffer, and paths of next pointers
  in a heap. Every component theory imports it.
\<close>

section \<open>Machine types\<close>

type_synonym byte = "8 word"
type_synonym u16 = "16 word"
type_synonym u32 = "32 word"
type_synonym u64 = "64 word"

text \<open>An address of a heap object; the null pointer is \<open>None\<close> of \<open>addr option\<close>.\<close>

type_synonym addr = nat

text \<open>A file descriptor is a C \<open>int\<close>.\<close>

type_synonym fd = int

text \<open>The ways a run can go wrong that C and C++ do not report as an ordinary result.\<close>

datatype fault =
    NullDeref        \<comment> \<open>a null pointer is dereferenced\<close>
  | UseAfterFree     \<comment> \<open>an object that is not allocated is accessed\<close>
  | OutOfBounds      \<comment> \<open>an access outside an array or a buffer\<close>
  | AssertFail       \<comment> \<open>an \<open>assert\<close>, \<open>RTC_CHECK\<close> or \<open>RTC_DCHECK\<close> fails\<close>
  | OutOfMemory      \<comment> \<open>\<open>zmalloc_default_oom\<close> aborts the process\<close>
  | DivByZero        \<comment> \<open>an integer division by zero\<close>
  | Terminate        \<comment> \<open>the process ends: \<open>std::terminate\<close>, \<open>abort\<close> or a signal that is not caught\<close>

type_synonym 'a res = "fault + 'a"

text \<open>Sequencing of fallible steps: the first fault ends the run.\<close>

fun rbind :: "'a res \<Rightarrow> ('a \<Rightarrow> 'b res) \<Rightarrow> 'b res" where
  "rbind (Inl e) f = Inl e"
| "rbind (Inr x) f = f x"

named_theorems wf_intro \<open>introduction rules for well-formedness invariants\<close>
named_theorems op_simps \<open>equations of the operations under their invariant\<close>

lemma rbind_eq_Inr [simp]: "rbind m f = Inr y \<longleftrightarrow> (\<exists>x. m = Inr x \<and> f x = Inr y)"
  by (cases m) auto

lemma rbind_InrE: "rbind m f = Inr y \<Longrightarrow> (\<And>x. m = Inr x \<Longrightarrow> f x = Inr y \<Longrightarrow> P) \<Longrightarrow> P"
  by (cases m) auto

lemma rbind_eq_Inl: "rbind m f = Inl e \<longleftrightarrow> m = Inl e \<or> (\<exists>x. m = Inr x \<and> f x = Inl e)"
  by (cases m) auto

lemma rbind_assoc: "rbind (rbind m f) g = rbind m (\<lambda>x. rbind (f x) g)"
  by (cases m) auto

text \<open>The same where a step may also not return, which is \<open>None\<close>.\<close>

fun obind :: "'a res option \<Rightarrow> ('a \<Rightarrow> 'b res option) \<Rightarrow> 'b res option" where
  "obind None f = None"
| "obind (Some (Inl e)) f = Some (Inl e)"
| "obind (Some (Inr x)) f = f x"

section \<open>Conversions between C integer types\<close>

text \<open>
  A value of type \<open>int\<close> or \<open>size_t\<close> is an integer of HOL; a conversion to the type
  keeps the low 32 or 64 bits, as the compilers the build uses do (two's complement).
\<close>

definition to_int32 :: "int \<Rightarrow> int" where
  "to_int32 x = (x + 2 ^ 31) mod 2 ^ 32 - 2 ^ 31"

definition to_size_t :: "int \<Rightarrow> int" where
  "to_size_t x = x mod 2 ^ 64"

lemma to_int32_range: "- (2 ^ 31) \<le> to_int32 x \<and> to_int32 x < 2 ^ 31"
proof -
  have "0 \<le> (x + 2 ^ 31) mod 2 ^ 32" "(x + 2 ^ 31) mod 2 ^ 32 < (2 ^ 32 :: int)"
    by (rule pos_mod_sign, simp) (rule pos_mod_bound, simp)
  then show ?thesis unfolding to_int32_def by simp
qed

lemma to_int32_id [simp]: "- (2 ^ 31) \<le> x \<Longrightarrow> x < 2 ^ 31 \<Longrightarrow> to_int32 x = x"
  unfolding to_int32_def by (subst mod_pos_pos_trivial) auto

lemma to_size_t_range: "0 \<le> to_size_t x" "to_size_t x < 2 ^ 64"
  unfolding to_size_t_def by (rule pos_mod_sign, simp) (rule pos_mod_bound, simp)

lemma to_size_t_id [simp]: "0 \<le> x \<Longrightarrow> x < 2 ^ 64 \<Longrightarrow> to_size_t x = x"
  unfolding to_size_t_def by simp

lemma to_size_t_neg: "- (2 ^ 64) \<le> x \<Longrightarrow> x < 0 \<Longrightarrow> to_size_t x = 2 ^ 64 + x"
proof -
  assume a: "- (2 ^ 64) \<le> x" "x < 0"
  have "x mod 2 ^ 64 = (x + 2 ^ 64) mod 2 ^ 64" by simp
  also have "\<dots> = x + 2 ^ 64" using a by (intro mod_pos_pos_trivial) auto
  finally show ?thesis by (simp add: to_size_t_def)
qed

section \<open>Bytes and their order\<close>

text \<open>\<open>le_bytes n v\<close>: the \<open>n\<close> bytes of \<open>v\<close>, least significant first.\<close>

fun le_bytes :: "nat \<Rightarrow> nat \<Rightarrow> byte list" where
  "le_bytes 0 v = []"
| "le_bytes (Suc n) v = of_nat (v mod 256) # le_bytes n (v div 256)"

fun le_val :: "byte list \<Rightarrow> nat" where
  "le_val [] = 0"
| "le_val (b # bs) = unat b + 256 * le_val bs"

definition be_bytes :: "nat \<Rightarrow> nat \<Rightarrow> byte list" where
  "be_bytes n v = rev (le_bytes n v)"

definition be_val :: "byte list \<Rightarrow> nat" where
  "be_val bs = le_val (rev bs)"

lemma length_le_bytes [simp]: "length (le_bytes n v) = n"
  by (induction n arbitrary: v) auto

lemma length_be_bytes [simp]: "length (be_bytes n v) = n"
  by (simp add: be_bytes_def)

lemma unat_byte_of_nat [simp]: "unat (of_nat n :: byte) = n mod 256"
  by (simp add: unat_of_nat)

lemma unat_byte_less [simp]: "unat (b :: byte) < 256"
  by (rule order.strict_trans2 [OF unsigned_less]) simp

lemma le_val_le_bytes: "le_val (le_bytes n v) = v mod 256 ^ n"
proof (induction n arbitrary: v)
  case 0
  then show ?case by simp
next
  case (Suc n)
  have "v mod 256 + 256 * (v div 256 mod 256 ^ n) = v mod (256 * 256 ^ n)"
    by (simp add: mod_mult2_eq)
  then show ?case by (simp add: Suc)
qed

lemma le_bytes_le_val: "le_bytes (length bs) (le_val bs) = bs"
proof (induction bs)
  case (Cons b bs)
  have "(unat b + 256 * le_val bs) mod 256 = unat b"
    "(unat b + 256 * le_val bs) div 256 = le_val bs"
    by (simp_all add: div_mult_self1)
  then show ?case by (simp add: Cons)
qed simp

lemma le_val_less: "le_val bs < 256 ^ length bs"
proof (induction bs)
  case (Cons b bs)
  have "unat b + 256 * le_val bs < 256 + 256 * le_val bs" by simp
  also have "\<dots> \<le> 256 * 256 ^ length bs" using Cons by simp
  finally show ?case by simp
qed simp

lemma be_val_be_bytes: "be_val (be_bytes n v) = v mod 256 ^ n"
  by (simp add: be_val_def be_bytes_def le_val_le_bytes)

lemma be_bytes_be_val: "be_bytes (length bs) (be_val bs) = bs"
  using le_bytes_le_val [of "rev bs"] by (simp add: be_val_def be_bytes_def)

text \<open>The bytes of a C string literal, without its terminating null.\<close>

definition cstr :: "string \<Rightarrow> byte list" where
  "cstr s = map (\<lambda>c. of_char c) s"

lemma length_cstr [simp]: "length (cstr s) = length s"
  by (simp add: cstr_def)

section \<open>Writing into a buffer\<close>

text \<open>
  \<open>write_at xs i ys\<close>: \<open>memcpy (xs + i, ys, length ys)\<close>, where the buffer is long
  enough; the operations that use it check that.
\<close>

definition write_at :: "'a list \<Rightarrow> nat \<Rightarrow> 'a list \<Rightarrow> 'a list" where
  "write_at xs i ys = take i xs @ ys @ drop (i + length ys) xs"

lemma length_write_at [simp]: "i + length ys \<le> length xs \<Longrightarrow> length (write_at xs i ys) = length xs"
  by (simp add: write_at_def)

lemma take_write_at: "i + length ys \<le> length xs \<Longrightarrow> take (i + length ys) (write_at xs i ys) = take i xs @ ys"
  by (simp add: write_at_def)

lemma take_write_at_before: "n \<le> i \<Longrightarrow> i \<le> length xs \<Longrightarrow> take n (write_at xs i ys) = take n xs"
  by (simp add: write_at_def min_def)

lemma drop_write_at: "i + length ys \<le> length xs \<Longrightarrow> drop (i + length ys) (write_at xs i ys) = drop (i + length ys) xs"
  by (simp add: write_at_def)

lemma nth_write_at_after:
  "i + length ys \<le> k \<Longrightarrow> k < length xs \<Longrightarrow> write_at xs i ys ! k = xs ! k"
  by (auto simp: write_at_def nth_append)

section \<open>Paths in a heap\<close>

text \<open>
  \<open>path nx p as q\<close>: following the partial next function \<open>nx\<close> from \<open>p\<close> visits the
  addresses \<open>as\<close> and ends at \<open>q\<close>.
\<close>

fun path :: "(addr \<rightharpoonup> addr option) \<Rightarrow> addr option \<Rightarrow> addr list \<Rightarrow> addr option \<Rightarrow> bool" where
  "path nx p [] q \<longleftrightarrow> p = q"
| "path nx p (a # as) q \<longleftrightarrow> p = Some a \<and> (\<exists>r. nx a = Some r \<and> path nx r as q)"

lemma path_append [simp]:
  "path nx p (as @ bs) q \<longleftrightarrow> (\<exists>r. path nx p as r \<and> path nx r bs q)"
  by (induction as arbitrary: p) auto

lemma path_cong:
  "(\<And>a. a \<in> set as \<Longrightarrow> nx a = ny a) \<Longrightarrow> path nx p as q = path ny p as q"
  by (induction as arbitrary: p) auto

lemma path_upd [simp]: "a \<notin> set as \<Longrightarrow> path (nx(a := v)) p as q = path nx p as q"
  by (rule path_cong) auto

lemma path_dom: "path nx p as q \<Longrightarrow> set as \<subseteq> dom nx"
  by (induction as arbitrary: p) auto

end
