(* ===== verification/Fifo_Spec.thy ===== *)
theory Fifo_Spec
  imports Xrtc_Prelude
begin

text \<open>
  The interface every message queue of the server offers its clients: elements leave in the
  order they entered. Two providers implement it, the lock-free queue of
  \<open>base/lock_free_queue.h\<close> (theory \<open>Lock_Free_Queue\<close>) and the \<open>std::queue\<close> guarded by
  a mutex of \<open>RtcServer\<close> and \<open>SignalingWorker\<close> (theory \<open>Msg_Queue\<close>). An enqueue takes a
  resource \<open>p\<close>, the address \<open>new\<close> returns, which must be available.
\<close>

datatype ('p, 'a) qop = Enq 'p 'a | Deq

text \<open>
  A run of queue operations: the results of the dequeues, in order, and the final queue.
  \<open>avail\<close> is checked before each enqueue; \<open>None\<close> when it does not hold.
\<close>

fun qrun :: "('p \<Rightarrow> 'a \<Rightarrow> 'q \<Rightarrow> 'q res) \<Rightarrow> ('q \<Rightarrow> ('a option \<times> 'q) res) \<Rightarrow> ('p \<Rightarrow> 'q \<Rightarrow> bool) \<Rightarrow>
    ('p, 'a) qop list \<Rightarrow> 'q \<Rightarrow> ('a option list \<times> 'q) res option" where
  "qrun enq deq avail [] q = Some (Inr ([], q))"
| "qrun enq deq avail (Enq p x # ops) q =
     (if avail p q then (case enq p x q of Inl e \<Rightarrow> Some (Inl e) | Inr q' \<Rightarrow> qrun enq deq avail ops q')
      else None)"
| "qrun enq deq avail (Deq # ops) q =
     (case deq q of Inl e \<Rightarrow> Some (Inl e)
      | Inr (r, q') \<Rightarrow> map_option (\<lambda>m. rbind m (\<lambda>(rs, q''). Inr (r # rs, q''))) (qrun enq deq avail ops q'))"

fun enqueued :: "('p, 'a) qop list \<Rightarrow> 'a list" where
  "enqueued [] = []"
| "enqueued (Enq p x # ops) = x # enqueued ops"
| "enqueued (Deq # ops) = enqueued ops"

definition received :: "'a option list \<Rightarrow> 'a list" where
  "received rs = List.map_filter (\<lambda>r. r) rs"

lemma received_simps [simp]:
  "received [] = []" "received (None # rs) = received rs" "received (Some x # rs) = x # received rs"
  by (simp_all add: received_def map_filter_simps)

locale fifo_queue =
  fixes enq :: "'p \<Rightarrow> 'a \<Rightarrow> 'q \<Rightarrow> 'q res"
    and deq :: "'q \<Rightarrow> ('a option \<times> 'q) res"
    and avail :: "'p \<Rightarrow> 'q \<Rightarrow> bool"
    and holds :: "'q \<Rightarrow> 'a list \<Rightarrow> bool"
  assumes enq_holds: "holds q xs \<Longrightarrow> avail p q \<Longrightarrow> \<exists>q'. enq p x q = Inr q' \<and> holds q' (xs @ [x])"
    and deq_empty: "holds q [] \<Longrightarrow> deq q = Inr (None, q)"
    and deq_holds: "holds q (x # xs) \<Longrightarrow> \<exists>q'. deq q = Inr (Some x, q') \<and> holds q' xs"
begin

text \<open>Every run without an unavailable resource succeeds, and what left the queue followed by
  what is still in it is what was in it followed by what entered.\<close>

lemma run_fifo:
  assumes "holds q xs" and "qrun enq deq avail ops q = Some m"
  shows "\<exists>rs q' ys. m = Inr (rs, q') \<and> holds q' ys \<and> received rs @ ys = xs @ enqueued ops"
  using assms
proof (induction ops arbitrary: q xs m)
  case Nil
  then show ?case by auto
next
  case (Cons op ops)
  show ?case
  proof (cases op)
    case (Enq p x)
    with Cons.prems have av: "avail p q" by (simp split: if_splits)
    with Cons.prems obtain q1 where q1: "enq p x q = Inr q1" "holds q1 (xs @ [x])"
      using enq_holds by blast
    with Cons.prems Enq av have "qrun enq deq avail ops q1 = Some m" by simp
    from Cons.IH [OF q1(2) this] Enq show ?thesis by simp
  next
    case Deq
    show ?thesis
    proof (cases xs)
      case Nil
      with Cons.prems have "deq q = Inr (None, q)" using deq_empty by simp
      with Cons.prems Deq obtain m' where m': "qrun enq deq avail ops q = Some m'"
        "m = rbind m' (\<lambda>(rs, q''). Inr (None # rs, q''))" by auto
      from Cons.IH [OF Cons.prems(1) m'(1)] m'(2) Deq show ?thesis by fastforce
    next
      case (Cons x xs')
      with Cons.prems obtain q1 where q1: "deq q = Inr (Some x, q1)" "holds q1 xs'"
        using deq_holds by blast
      with Cons.prems Deq obtain m' where m': "qrun enq deq avail ops q1 = Some m'"
        "m = rbind m' (\<lambda>(rs, q''). Inr (Some x # rs, q''))" by auto
      from Cons.IH [OF q1(2) m'(1)] m'(2) Deq Cons show ?thesis by fastforce
    qed
  qed
qed

end

end
