(* ===== verification/Lock_Free_Queue.thy ===== *)
theory Lock_Free_Queue
  imports Fifo_Spec
begin

text \<open>
  The single-producer single-consumer queue of \<open>base/lock_free_queue.h\<close>: a linked list of
  nodes on the heap with three pointers, \<open>first\<close> (oldest node not yet deleted),
  \<open>divider\<close> (last consumed node) and \<open>last\<close>. The model keeps the heap as a map from
  addresses to nodes, so that dereferencing a deleted node is a fault. The first part models
  the operations as calls that run to the end; the second part interleaves the two threads
  statement by statement, on sequentially consistent memory.
\<close>

section \<open>The operations\<close>

record 'a qnode =
  n_data :: 'a
  n_next :: "addr option"

record 'a lfq =
  q_heap :: "addr \<rightharpoonup> 'a qnode"
  q_first :: "addr option"
  q_divider :: "addr option"
  q_last :: "addr option"
  q_size :: int

definition lfq_init :: "addr \<Rightarrow> 'a \<Rightarrow> 'a lfq" where
  "lfq_init p t0 = \<lparr>q_heap = [p \<mapsto> \<lparr>n_data = t0, n_next = None\<rparr>],
     q_first = Some p, q_divider = Some p, q_last = Some p, q_size = 0\<rparr>"

text \<open>The loop of \<open>produce\<close> that deletes the consumed nodes.\<close>

partial_function (option) lfq_reclaim :: "'a lfq \<Rightarrow> 'a lfq res option" where
  "lfq_reclaim q =
     (if q_divider q \<noteq> q_first q then
        (case q_first q of
           None \<Rightarrow> Some (Inl NullDeref)
         | Some t \<Rightarrow> (case q_heap q t of
             None \<Rightarrow> Some (Inl UseAfterFree)
           | Some n \<Rightarrow> lfq_reclaim (q\<lparr>q_first := n_next n, q_heap := (q_heap q)(t := None)\<rparr>)))
      else Some (Inr q))"

definition lfq_produce :: "addr \<Rightarrow> 'a \<Rightarrow> 'a lfq \<Rightarrow> 'a lfq res option" where
  "lfq_produce p t q =
     (case q_last q of
        None \<Rightarrow> Some (Inl NullDeref)
      | Some l \<Rightarrow> (case q_heap q l of
          None \<Rightarrow> Some (Inl UseAfterFree)
        | Some n \<Rightarrow> lfq_reclaim
            (q\<lparr>q_heap := (q_heap q)(p \<mapsto> \<lparr>n_data = t, n_next = None\<rparr>, l \<mapsto> n\<lparr>n_next := Some p\<rparr>),
               q_last := Some p, q_size := to_int32 (q_size q + 1)\<rparr>)))"

text \<open>\<open>*result = divider->next->data\<close>: the two dereferences, each of which can fault.\<close>

definition lfq_next :: "'a lfq \<Rightarrow> addr option \<Rightarrow> addr option res" where
  "lfq_next q p = (case p of None \<Rightarrow> Inl NullDeref
     | Some a \<Rightarrow> (case q_heap q a of None \<Rightarrow> Inl UseAfterFree | Some n \<Rightarrow> Inr (n_next n)))"

definition lfq_data :: "'a lfq \<Rightarrow> addr option \<Rightarrow> 'a res" where
  "lfq_data q p = (case p of None \<Rightarrow> Inl NullDeref
     | Some a \<Rightarrow> (case q_heap q a of None \<Rightarrow> Inl UseAfterFree | Some n \<Rightarrow> Inr (n_data n)))"

definition lfq_consume :: "'a lfq \<Rightarrow> ('a option \<times> 'a lfq) res" where
  "lfq_consume q =
     (if q_divider q \<noteq> q_last q then
        rbind (lfq_next q (q_divider q)) (\<lambda>e.
        rbind (lfq_data q e) (\<lambda>x.
        Inr (Some x, q\<lparr>q_divider := e, q_size := to_int32 (q_size q - 1)\<rparr>)))
      else Inr (None, q))"

definition lfq_empty :: "'a lfq \<Rightarrow> bool" where
  "lfq_empty q \<longleftrightarrow> q_size q = 0"

text \<open>The destructor: every node from \<open>first\<close> on is deleted.\<close>

partial_function (option) lfq_destroy :: "'a lfq \<Rightarrow> 'a lfq res option" where
  "lfq_destroy q =
     (case q_first q of
        None \<Rightarrow> Some (Inr (q\<lparr>q_size := 0\<rparr>))
      | Some t \<Rightarrow> (case q_heap q t of
          None \<Rightarrow> Some (Inl UseAfterFree)
        | Some n \<Rightarrow> lfq_destroy (q\<lparr>q_first := n_next n, q_heap := (q_heap q)(t := None)\<rparr>)))"

section \<open>Shape invariant\<close>

definition nexts :: "(addr \<rightharpoonup> 'a qnode) \<Rightarrow> addr \<rightharpoonup> addr option" where
  "nexts h a = map_option n_next (h a)"

definition datas :: "(addr \<rightharpoonup> 'a qnode) \<Rightarrow> addr list \<Rightarrow> 'a list" where
  "datas h as = map (\<lambda>a. n_data (the (h a))) as"

text \<open>
  \<open>lfq_shape q dead d live\<close>: the allocated nodes are exactly the consumed ones \<open>dead\<close>, the
  divider \<open>d\<close> and the unconsumed ones \<open>live\<close>, linked in this order.
\<close>

definition lfq_shape :: "'a lfq \<Rightarrow> addr list \<Rightarrow> addr \<Rightarrow> addr list \<Rightarrow> bool" where
  "lfq_shape q dead d live \<longleftrightarrow>
     path (nexts (q_heap q)) (q_first q) (dead @ d # live) None \<and>
     distinct (dead @ d # live) \<and> dom (q_heap q) = set (dead @ d # live) \<and>
     q_divider q = Some d"

definition lfq_holds :: "'a lfq \<Rightarrow> 'a list \<Rightarrow> bool" where
  "lfq_holds q xs \<longleftrightarrow> (\<exists>dead d live. lfq_shape q dead d live \<and> q_last q = Some (last (d # live)) \<and>
     datas (q_heap q) live = xs \<and> q_size q = to_int32 (int (length xs)))"

definition lfq_avail :: "addr \<Rightarrow> 'a lfq \<Rightarrow> bool" where
  "lfq_avail p q \<longleftrightarrow> q_heap q p = None"

lemma nexts_upd [simp]: "nexts (h(a \<mapsto> n)) = (nexts h)(a \<mapsto> n_next n)"
  by (auto simp: nexts_def)

lemma nexts_del [simp]: "nexts (h(a := None)) = (nexts h)(a := None)"
  by (auto simp: nexts_def)

lemma nexts_eq_Some: "nexts h a = Some r \<longleftrightarrow> (\<exists>n. h a = Some n \<and> r = n_next n)"
  by (auto simp: nexts_def)

lemma datas_cong: "(\<And>a. a \<in> set as \<Longrightarrow> h a = h' a) \<Longrightarrow> datas h as = datas h' as"
  by (simp add: datas_def)

lemma datas_simps [simp]:
  "datas h [] = []" "datas h (a # as) = n_data (the (h a)) # datas h as"
  "datas h (as @ bs) = datas h as @ datas h bs" "length (datas h as) = length as"
  "datas h as = [] \<longleftrightarrow> as = []"
  by (simp_all add: datas_def)

lemma to_int32_step: "to_int32 (to_int32 x + y) = to_int32 (x + y)"
  "to_int32 (y + to_int32 x) = to_int32 (y + x)"
proof -
  show *: "to_int32 (to_int32 x + y) = to_int32 (x + y)" for x y
    unfolding to_int32_def by (simp add: mod_simps algebra_simps)
  show "to_int32 (y + to_int32 x) = to_int32 (y + x)"
    using * [of x y] by (simp add: add.commute)
qed

lemma lfq_shape_frame [simp]:
  "lfq_shape (q\<lparr>q_size := n\<rparr>) = lfq_shape q" "lfq_shape (q\<lparr>q_last := l\<rparr>) = lfq_shape q"
  by (simp_all add: lfq_shape_def fun_eq_iff)

lemma lfq_shape_first: "lfq_shape q dead d live \<Longrightarrow> q_first q = Some (hd (dead @ [d]))"
  unfolding lfq_shape_def by (cases dead) auto

lemma lfq_shape_no_dead: "lfq_shape q [] d live \<Longrightarrow> q_divider q = q_first q"
  by (simp add: lfq_shape_def)

lemma lfq_shape_free:
  assumes "lfq_shape q (t # dead) d live"
  obtains n where "q_heap q t = Some n" "q_first q = Some t" "t \<noteq> d"
    "lfq_shape (q\<lparr>q_first := n_next n, q_heap := (q_heap q)(t := None)\<rparr>) dead d live"
  using assms unfolding lfq_shape_def nexts_def [symmetric]
  by (auto simp: nexts_def)

lemma path_unique: "path nx p as None \<Longrightarrow> path nx p bs None \<Longrightarrow> as = bs"
proof (induction as arbitrary: p bs)
  case Nil
  then show ?case by (cases bs) auto
next
  case (Cons a as)
  then show ?case by (cases bs) auto
qed

lemma lfq_shape_unique:
  assumes "lfq_shape q dead d live" "lfq_shape q dead2 d2 live2"
  shows "dead2 = dead \<and> d2 = d \<and> live2 = live"
proof -
  have eq: "dead2 @ d2 # live2 = dead @ d # live"
    by (rule path_unique [of "nexts (q_heap q)" "q_first q"]) (use assms in \<open>simp_all only: lfq_shape_def\<close>)
  moreover have "d2 = d" using assms by (simp add: lfq_shape_def)
  moreover have "d \<notin> set dead" "d \<notin> set live"
    using assms unfolding lfq_shape_def by auto
  ultimately show ?thesis
    using append_Cons_eq_iff [of d dead live dead2 live2] by simp
qed

lemma datas_del: "t \<notin> set as \<Longrightarrow> datas (h(t := None)) as = datas h as"
  by (rule datas_cong) auto

text \<open>The loop of \<open>produce\<close> returns, and leaves no consumed node allocated.\<close>

lemma lfq_reclaim_shape:
  assumes "lfq_shape q dead d live"
  shows "\<exists>q'. lfq_reclaim q = Some (Inr q') \<and> lfq_shape q' [] d live \<and>
    datas (q_heap q') live = datas (q_heap q) live \<and> q_last q' = q_last q \<and> q_size q' = q_size q"
  using assms
proof (induction dead arbitrary: q)
  case Nil
  then have "q_divider q = q_first q"
    using lfq_shape_first [OF Nil] by (simp add: lfq_shape_def)
  with Nil show ?case by (simp add: lfq_reclaim.simps)
next
  case (Cons t dead)
  obtain n where n: "q_heap q t = Some n" "q_first q = Some t" "t \<noteq> d"
    "lfq_shape (q\<lparr>q_first := n_next n, q_heap := (q_heap q)(t := None)\<rparr>) dead d live"
    using lfq_shape_free [OF Cons.prems] .
  have "q_divider q \<noteq> q_first q" "t \<notin> set live"
    using n Cons.prems by (auto simp: lfq_shape_def)
  moreover from \<open>t \<notin> set live\<close> have "datas ((q_heap q)(t := None)) live = datas (q_heap q) live"
    by (rule datas_del)
  ultimately show ?case using Cons.IH [OF n(4)] n
    by (subst lfq_reclaim.simps) (simp del: fun_upd_apply)
qed

lemma path_snoc_link:
  assumes "path nx p (ini @ [l]) None" "l \<notin> set ini" "a \<notin> set ini" "a \<noteq> l"
  shows "path (nx(a \<mapsto> None, l \<mapsto> Some a)) p (ini @ [l, a]) None"
  using assms by auto

lemma lfq_shape_push:
  assumes sh: "lfq_shape q dead d live" and l: "last (d # live) = l"
    and p: "q_heap q p = None" and n: "q_heap q l = Some n"
  shows "lfq_shape (q\<lparr>q_heap := (q_heap q)(p \<mapsto> \<lparr>n_data = t, n_next = None\<rparr>,
      l \<mapsto> n\<lparr>n_next := Some p\<rparr>)\<rparr>) dead d (live @ [p])"
    and "datas ((q_heap q)(p \<mapsto> \<lparr>n_data = t, n_next = None\<rparr>,
      l \<mapsto> n\<lparr>n_next := Some p\<rparr>)) (live @ [p]) = datas (q_heap q) live @ [t]"
proof -
  obtain ini where ini: "dead @ d # live = ini @ [l]"
    using l by (metis append_butlast_last_id append_is_Nil_conv last_appendR list.distinct(1))
  have notp: "p \<notin> set (dead @ d # live)"
    using sh p unfolding lfq_shape_def by (metis domIff)
  have dist: "distinct (ini @ [l])" and "path (nexts (q_heap q)) (q_first q) (ini @ [l]) None"
    and dm: "dom (q_heap q) = set (dead @ d # live)" and dv: "q_divider q = Some d"
    using sh unfolding lfq_shape_def ini by blast+
  then have "path ((nexts (q_heap q))(p \<mapsto> None, l \<mapsto> Some p)) (q_first q) (ini @ [l, p]) None"
    using notp unfolding ini by (intro path_snoc_link) auto
  moreover have app: "dead @ d # live @ [p] = ini @ [l, p]"
    using ini by (metis append.assoc append_Cons append_Nil)
  moreover have "distinct (ini @ [l, p])" using dist notp unfolding ini by auto
  moreover have "dom ((q_heap q)(p \<mapsto> \<lparr>n_data = t, n_next = None\<rparr>, l \<mapsto> n\<lparr>n_next := Some p\<rparr>))
      = set (ini @ [l, p])"
    using dm unfolding ini by auto
  ultimately show "lfq_shape (q\<lparr>q_heap := (q_heap q)(p \<mapsto> \<lparr>n_data = t, n_next = None\<rparr>,
      l \<mapsto> n\<lparr>n_next := Some p\<rparr>)\<rparr>) dead d (live @ [p])"
    using dv unfolding lfq_shape_def app by simp
  have "p \<notin> set live" "p \<noteq> l" using notp n p by auto
  then show "datas ((q_heap q)(p \<mapsto> \<lparr>n_data = t, n_next = None\<rparr>, l \<mapsto> n\<lparr>n_next := Some p\<rparr>)) (live @ [p])
      = datas (q_heap q) live @ [t]"
    using n by (auto simp: datas_def)
qed

lemma lfq_last_alloc: "lfq_shape q dead d live \<Longrightarrow> \<exists>n. q_heap q (last (d # live)) = Some n"
  unfolding lfq_shape_def by (metis domD in_set_conv_decomp last_in_set list.distinct(1) set_append UnI2)

lemma lfq_produce_holds:
  assumes h: "lfq_holds q xs" and av: "lfq_avail p q"
  shows "\<exists>q'. lfq_produce p t q = Some (Inr q') \<and> lfq_holds q' (xs @ [t]) \<and>
    (\<exists>d live. lfq_shape q' [] d live)"
proof -
  obtain dead d live where s: "lfq_shape q dead d live" "q_last q = Some (last (d # live))"
    "datas (q_heap q) live = xs" "q_size q = to_int32 (int (length xs))"
    using h by (auto simp: lfq_holds_def)
  obtain n where n: "q_heap q (last (d # live)) = Some n" using lfq_last_alloc [OF s(1)] by blast
  from av have p: "q_heap q p = None" by (simp add: lfq_avail_def)
  let ?q1 = "q\<lparr>q_heap := (q_heap q)(p \<mapsto> \<lparr>n_data = t, n_next = None\<rparr>,
      last (d # live) \<mapsto> n\<lparr>n_next := Some p\<rparr>), q_last := Some p, q_size := to_int32 (q_size q + 1)\<rparr>"
  have push: "lfq_shape ?q1 dead d (live @ [p])"
    using lfq_shape_push(1) [OF s(1) refl p n, where t = t] by (simp del: last.simps)
  note dpush = lfq_shape_push(2) [OF s(1) refl p n, where t = t]
  from lfq_reclaim_shape [OF push] obtain q' where
    q': "lfq_produce p t q = Some (Inr q')" "lfq_shape q' [] d (live @ [p])"
      "datas (q_heap q') (live @ [p]) = xs @ [t]" "q_last q' = Some p"
      "q_size q' = to_int32 (q_size q + 1)"
    using s(2,3) n dpush by (auto simp: lfq_produce_def simp del: last.simps datas_simps)
  have "q_size q' = to_int32 (int (length (xs @ [t])))"
    using q'(5) s(4) by (simp add: to_int32_step algebra_simps)
  then have "lfq_holds q' (xs @ [t])"
    unfolding lfq_holds_def using q' by (intro exI [of _ "[]"] exI [of _ d] exI [of _ "live @ [p]"]) simp
  with q' show ?thesis by blast
qed

lemma lfq_shape_pop:
  assumes "lfq_shape q dead d (e # live)"
  shows "lfq_next q (q_divider q) = Inr (Some e)"
    and "lfq_data q (Some e) = Inr (n_data (the (q_heap q e)))"
    and "lfq_shape (q\<lparr>q_divider := Some e\<rparr>) (dead @ [d]) e live"
  using assms by (auto simp: lfq_shape_def lfq_next_def lfq_data_def nexts_def dom_def split: option.splits)

lemma lfq_shape_divider_last:
  "lfq_shape q dead d live \<Longrightarrow> q_last q = Some (last (d # live)) \<Longrightarrow> q_divider q = q_last q \<longleftrightarrow> live = []"
  by (auto simp: lfq_shape_def split: if_splits)

lemma lfq_consume_holds:
  "lfq_holds q [] \<Longrightarrow> lfq_consume q = Inr (None, q)"
  "lfq_holds q (x # xs) \<Longrightarrow> \<exists>q'. lfq_consume q = Inr (Some x, q') \<and> lfq_holds q' xs"
proof -
  assume "lfq_holds q []"
  then obtain dead d where "lfq_shape q dead d []" "q_last q = Some d"
    by (auto simp: lfq_holds_def)
  then show "lfq_consume q = Inr (None, q)"
    by (simp add: lfq_consume_def lfq_shape_def)
next
  assume "lfq_holds q (x # xs)"
  then obtain dead d e live where s: "lfq_shape q dead d (e # live)"
    "q_last q = Some (last (d # e # live))" "n_data (the (q_heap q e)) = x"
    "datas (q_heap q) live = xs" "q_size q = to_int32 (int (length xs) + 1)"
    by (auto simp: lfq_holds_def datas_def map_eq_Cons_conv add.commute)
  note pop = lfq_shape_pop [OF s(1)]
  let ?q' = "q\<lparr>q_divider := Some e, q_size := to_int32 (q_size q - 1)\<rparr>"
  have "lfq_consume q = Inr (Some x, ?q')"
    using s lfq_shape_divider_last [OF s(1,2)] pop(1,2) by (simp add: lfq_consume_def)
  moreover have "lfq_shape ?q' (dead @ [d]) e live" using pop(3) by (simp add: lfq_shape_def)
  then have "lfq_holds ?q' xs"
    unfolding lfq_holds_def using s
    by (intro exI [of _ "dead @ [d]"] exI [of _ e] exI [of _ live])
      (simp add: to_int32_step(1) [of _ "-1", simplified])
  ultimately show "\<exists>q'. lfq_consume q = Inr (Some x, q') \<and> lfq_holds q' xs" by blast
qed

section \<open>The queue as a first-in first-out queue\<close>

text \<open>
  \<open>lfq_enq\<close> is \<open>lfq_produce\<close> with divergence of its loop, which \<open>lfq_produce_holds\<close>
  excludes, reported as a fault.
\<close>

definition lfq_enq :: "addr \<Rightarrow> 'a \<Rightarrow> 'a lfq \<Rightarrow> 'a lfq res" where
  "lfq_enq p t q = (case lfq_produce p t q of None \<Rightarrow> Inl Terminate | Some m \<Rightarrow> m)"

interpretation lfq: fifo_queue lfq_enq lfq_consume lfq_avail lfq_holds
proof
  fix q :: "'b lfq" and xs p x
  assume "lfq_holds q xs" "lfq_avail p q"
  then show "\<exists>q'. lfq_enq p x q = Inr q' \<and> lfq_holds q' (xs @ [x])"
    using lfq_produce_holds [of q xs p x] by (auto simp: lfq_enq_def)
qed (rule lfq_consume_holds, assumption)+

lemma lfq_init_holds: "lfq_holds (lfq_init p t0) []"
  unfolding lfq_holds_def lfq_shape_def
  by (intro exI [of _ "[]"] exI [of _ p]) (auto simp: lfq_init_def nexts_def)

lemma lfq_destroy_path:
  assumes "path (nexts (q_heap q)) (q_first q) as None" "distinct as" "dom (q_heap q) = set as"
  shows "\<exists>q'. lfq_destroy q = Some (Inr q') \<and> q_heap q' = Map.empty \<and> q_first q' = None \<and> q_size q' = 0"
  using assms
proof (induction as arbitrary: q)
  case Nil
  then show ?case by (simp add: lfq_destroy.simps)
next
  case (Cons a as)
  then obtain n where n: "q_first q = Some a" "q_heap q a = Some n"
    "path (nexts (q_heap q)) (n_next n) as None"
    by (auto simp: nexts_eq_Some)
  have "\<exists>q'. lfq_destroy (q\<lparr>q_first := n_next n, q_heap := (q_heap q)(a := None)\<rparr>) = Some (Inr q') \<and>
      q_heap q' = Map.empty \<and> q_first q' = None \<and> q_size q' = 0"
    using Cons.prems n by (intro Cons.IH) (auto simp del: fun_upd_apply)
  with n show ?case by (subst lfq_destroy.simps) simp
qed

section \<open>Interleaving of the producer and the consumer\<close>

text \<open>
  The program counters of the two threads, between the shared-memory accesses of
  \<open>produce\<close> and \<open>consume\<close>.
\<close>

datatype ppc = PIdle | PLinked | PMoved | PCheck | PFree

datatype 'a cpc = CIdle | CRead | CMove 'a | CCount 'a

record 'a lfq_sys =
  s_q :: "'a lfq"
  s_ppc :: ppc
  s_cpc :: "'a cpc"
  s_sent :: "'a list"      \<comment> \<open>ghost: the values of the completed \<open>last = last->next\<close>\<close>
  s_got :: "'a list"       \<comment> \<open>ghost: the values of the completed \<open>divider = divider->next\<close>\<close>

text \<open>
  One step of the thread that calls \<open>produce(t)\<close> over and over; \<open>p\<close> is the address the
  allocator returns.
\<close>

definition producer_step :: "addr \<Rightarrow> 'a \<Rightarrow> 'a lfq_sys \<Rightarrow> 'a lfq_sys res" where
  "producer_step p t s = (let q = s_q s in
     case s_ppc s of
       PIdle \<Rightarrow> (case q_last q of None \<Rightarrow> Inl NullDeref
         | Some l \<Rightarrow> (case q_heap q l of None \<Rightarrow> Inl UseAfterFree
           | Some n \<Rightarrow> Inr (s\<lparr>s_q := q\<lparr>q_heap := (q_heap q)(p \<mapsto> \<lparr>n_data = t, n_next = None\<rparr>,
                 l \<mapsto> n\<lparr>n_next := Some p\<rparr>)\<rparr>, s_ppc := PLinked\<rparr>)))
     | PLinked \<Rightarrow> rbind (lfq_next q (q_last q)) (\<lambda>e. rbind (lfq_data q e) (\<lambda>x.
           Inr (s\<lparr>s_q := q\<lparr>q_last := e\<rparr>, s_ppc := PMoved, s_sent := s_sent s @ [x]\<rparr>)))
     | PMoved \<Rightarrow> Inr (s\<lparr>s_q := q\<lparr>q_size := to_int32 (q_size q + 1)\<rparr>, s_ppc := PCheck\<rparr>)
     | PCheck \<Rightarrow> Inr (s\<lparr>s_ppc := (if q_divider q \<noteq> q_first q then PFree else PIdle)\<rparr>)
     | PFree \<Rightarrow> (case q_first q of None \<Rightarrow> Inl NullDeref
         | Some f \<Rightarrow> (case q_heap q f of None \<Rightarrow> Inl UseAfterFree
           | Some n \<Rightarrow> Inr (s\<lparr>s_q := q\<lparr>q_first := n_next n, q_heap := (q_heap q)(f := None)\<rparr>,
                 s_ppc := PCheck\<rparr>))))"

text \<open>One step of the thread that calls \<open>consume\<close> over and over.\<close>

definition consumer_step :: "'a lfq_sys \<Rightarrow> 'a lfq_sys res" where
  "consumer_step s = (let q = s_q s in
     case s_cpc s of
       CIdle \<Rightarrow> Inr (s\<lparr>s_cpc := (if q_divider q \<noteq> q_last q then CRead else CIdle)\<rparr>)
     | CRead \<Rightarrow> rbind (lfq_next q (q_divider q)) (\<lambda>e. rbind (lfq_data q e) (\<lambda>x.
           Inr (s\<lparr>s_cpc := CMove x\<rparr>)))
     | CMove x \<Rightarrow> rbind (lfq_next q (q_divider q)) (\<lambda>e.
           Inr (s\<lparr>s_q := q\<lparr>q_divider := e\<rparr>, s_cpc := CCount x, s_got := s_got s @ [x]\<rparr>))
     | CCount x \<Rightarrow> Inr (s\<lparr>s_q := q\<lparr>q_size := to_int32 (q_size q - 1)\<rparr>, s_cpc := CIdle\<rparr>))"

inductive lfq_step :: "'a lfq_sys \<Rightarrow> 'a lfq_sys \<Rightarrow> bool" where
  producer: "q_heap (s_q s) p = None \<Longrightarrow> producer_step p t s = Inr s' \<Longrightarrow> lfq_step s s'"
| consumer: "consumer_step s = Inr s' \<Longrightarrow> lfq_step s s'"

inductive lfq_reach :: "'a lfq_sys \<Rightarrow> bool" where
  start: "lfq_reach \<lparr>s_q = lfq_init p t0, s_ppc = PIdle, s_cpc = CIdle, s_sent = [], s_got = []\<rparr>"
| step: "lfq_reach s \<Longrightarrow> lfq_step s s' \<Longrightarrow> lfq_reach s'"

text \<open>
  The invariant: between \<open>last->next = new Node(t)\<close> and \<open>last = last->next\<close> one node,
  \<open>pend\<close>, is linked but not yet visible to the consumer.
\<close>

definition lfq_sys_shape :: "'a lfq_sys \<Rightarrow> addr list \<Rightarrow> addr \<Rightarrow> addr list \<Rightarrow> addr list \<Rightarrow> bool" where
  "lfq_sys_shape s dead d live pend \<longleftrightarrow>
     lfq_shape (s_q s) dead d (live @ pend) \<and> q_last (s_q s) = Some (last (d # live)) \<and>
     length pend = (if s_ppc s = PLinked then 1 else 0) \<and>
     (s_ppc s = PFree \<longrightarrow> dead \<noteq> []) \<and>
     s_sent s = s_got s @ datas (q_heap (s_q s)) live \<and>
     (case s_cpc s of CIdle \<Rightarrow> True | CCount x \<Rightarrow> True | CRead \<Rightarrow> live \<noteq> []
      | CMove x \<Rightarrow> live \<noteq> [] \<and> x = hd (datas (q_heap (s_q s)) live))"

definition lfq_sys_inv :: "'a lfq_sys \<Rightarrow> bool" where
  "lfq_sys_inv s \<longleftrightarrow> (\<exists>dead d live pend. lfq_sys_shape s dead d live pend)"

lemma lfq_sys_invI: "lfq_sys_shape s dead d live pend \<Longrightarrow> lfq_sys_inv s"
  by (auto simp: lfq_sys_inv_def)

lemma lfq_shape_last_next:
  assumes sh: "lfq_shape q dead d (live @ [p])"
  shows "lfq_next q (Some (last (d # live))) = Inr (Some p)"
    and "lfq_data q (Some p) = Inr (n_data (the (q_heap q p)))"
proof -
  obtain ini where ini: "dead @ d # live = ini @ [last (d # live)]"
    by (metis append_butlast_last_id append_is_Nil_conv last_appendR list.distinct(1))
  then have "dead @ d # live @ [p] = ini @ [last (d # live), p]"
    by (metis append.assoc append_Cons append_Nil)
  with sh have "path (nexts (q_heap q)) (q_first q) (ini @ [last (d # live), p]) None"
    by (simp add: lfq_shape_def del: last.simps path_append)
  then show "lfq_next q (Some (last (d # live))) = Inr (Some p)"
    and "lfq_data q (Some p) = Inr (n_data (the (q_heap q p)))"
    by (auto simp: lfq_next_def lfq_data_def nexts_eq_Some simp del: last.simps)
qed

lemma sys_stepI:
  "lfq_sys_shape s' dead d live pend \<Longrightarrow> m = Inr s' \<Longrightarrow> \<exists>s'. m = Inr s' \<and> lfq_sys_inv s'"
  using lfq_sys_invI by blast

lemma lfq_sys_shape_count:
  assumes "lfq_sys_shape s dead d live pend" "s_ppc s \<noteq> PLinked" "pc \<noteq> PLinked" "pc \<noteq> PFree"
  shows "lfq_sys_shape (s\<lparr>s_q := (s_q s)\<lparr>q_size := n\<rparr>, s_ppc := pc\<rparr>) dead d live pend"
  using assms unfolding lfq_sys_shape_def by (auto simp del: last.simps split: cpc.splits)

lemma hd_datas_append: "live \<noteq> [] \<Longrightarrow> hd (datas h (live @ as)) = hd (datas h live)"
  by (cases live) auto

lemma producer_step_inv:
  assumes inv: "lfq_sys_inv s" and p: "q_heap (s_q s) p = None"
  shows "\<exists>s'. producer_step p t s = Inr s' \<and> lfq_sys_inv s'"
proof -
  obtain dead d live pend where sh: "lfq_sys_shape s dead d live pend"
    using inv by (auto simp: lfq_sys_inv_def)
  note i = sh [unfolded lfq_sys_shape_def]
  show ?thesis
  proof (cases "s_ppc s")
    case PIdle
    with i have l: "lfq_shape (s_q s) dead d live" "q_last (s_q s) = Some (last (d # live))" by auto
    obtain n where n: "q_heap (s_q s) (last (d # live)) = Some n" using lfq_last_alloc [OF l(1)] by blast
    note push = lfq_shape_push [OF l(1) refl p n, where t = t]
    let ?s = "s\<lparr>s_q := (s_q s)\<lparr>q_heap := (q_heap (s_q s))(p \<mapsto> \<lparr>n_data = t, n_next = None\<rparr>,
                 last (d # live) \<mapsto> n\<lparr>n_next := Some p\<rparr>)\<rparr>, s_ppc := PLinked\<rparr>"
    have "lfq_sys_shape ?s dead d live [p]"
      using i push l PIdle by (simp add: lfq_sys_shape_def del: last.simps fun_upd_apply split: cpc.splits)
    moreover have "producer_step p t s = Inr ?s"
      using PIdle l n by (simp add: producer_step_def Let_def del: last.simps)
    ultimately show ?thesis by (rule sys_stepI)
  next
    case PLinked
    then obtain e where pend: "pend = [e]" using i by (auto simp: length_Suc_conv)
    note nx = lfq_shape_last_next [of "s_q s" dead d live e]
    let ?s = "s\<lparr>s_q := (s_q s)\<lparr>q_last := Some e\<rparr>, s_ppc := PMoved,
        s_sent := s_sent s @ [n_data (the (q_heap (s_q s) e))]\<rparr>"
    have "lfq_sys_shape ?s dead d (live @ [e]) []"
      using i pend by (simp add: lfq_sys_shape_def hd_datas_append split: cpc.splits)
    moreover have "producer_step p t s = Inr ?s"
      using PLinked nx i pend by (simp add: producer_step_def Let_def del: last.simps)
    ultimately show ?thesis by (rule sys_stepI)
  next
    case PMoved
    have "lfq_sys_shape (s\<lparr>s_q := (s_q s)\<lparr>q_size := to_int32 (q_size (s_q s) + 1)\<rparr>, s_ppc := PCheck\<rparr>)
        dead d live pend"
      using lfq_sys_shape_count [OF sh] PMoved by simp
    then show ?thesis by (rule sys_stepI) (simp add: PMoved producer_step_def Let_def)
  next
    case PCheck
    from i have "lfq_shape (s_q s) dead d (live @ pend)" by simp
    then have "q_divider (s_q s) \<noteq> q_first (s_q s) \<Longrightarrow> dead \<noteq> []"
      using lfq_shape_no_dead by blast
    then have "lfq_sys_shape (s\<lparr>s_ppc := (if q_divider (s_q s) \<noteq> q_first (s_q s) then PFree else PIdle)\<rparr>)
        dead d live pend"
      using i PCheck by (auto simp: lfq_sys_shape_def simp del: last.simps split: cpc.splits)
    then show ?thesis by (rule sys_stepI) (simp add: PCheck producer_step_def Let_def)
  next
    case PFree
    then obtain f dead' where dead: "dead = f # dead'" using i by (cases dead) auto
    with i have fs: "lfq_shape (s_q s) (f # dead') d (live @ pend)" by simp
    obtain n where n: "q_heap (s_q s) f = Some n" "q_first (s_q s) = Some f" "f \<noteq> d"
      "lfq_shape ((s_q s)\<lparr>q_first := n_next n, q_heap := (q_heap (s_q s))(f := None)\<rparr>) dead' d (live @ pend)"
      using lfq_shape_free [OF fs] .
    have "f \<notin> set live" using fs by (auto simp: lfq_shape_def)
    then have dt: "datas ((q_heap (s_q s))(f := None)) live = datas (q_heap (s_q s)) live"
      by (rule datas_del)
    let ?s = "s\<lparr>s_q := (s_q s)\<lparr>q_first := n_next n, q_heap := (q_heap (s_q s))(f := None)\<rparr>, s_ppc := PCheck\<rparr>"
    have "lfq_sys_shape ?s dead' d live pend"
      using i n dt PFree by (auto simp: lfq_sys_shape_def simp del: last.simps fun_upd_apply split: cpc.splits)
    moreover have "producer_step p t s = Inr ?s"
      using PFree n by (simp add: producer_step_def Let_def)
    ultimately show ?thesis by (rule sys_stepI)
  qed
qed

lemma consumer_step_inv:
  assumes inv: "lfq_sys_inv s"
  shows "\<exists>s'. consumer_step s = Inr s' \<and> lfq_sys_inv s'"
proof -
  obtain dead d live pend where sh: "lfq_sys_shape s dead d live pend"
    using inv by (auto simp: lfq_sys_inv_def)
  note i = sh [unfolded lfq_sys_shape_def]
  show ?thesis
  proof (cases "s_cpc s")
    case CIdle
    have "q_divider (s_q s) \<noteq> q_last (s_q s) \<Longrightarrow> live \<noteq> []"
      using i by (auto simp: lfq_shape_def)
    then have "lfq_sys_shape (s\<lparr>s_cpc := (if q_divider (s_q s) \<noteq> q_last (s_q s) then CRead else CIdle)\<rparr>)
        dead d live pend"
      using i by (simp add: lfq_sys_shape_def del: last.simps split: cpc.splits)
    then show ?thesis by (rule sys_stepI) (simp add: CIdle consumer_step_def Let_def)
  next
    case CRead
    then obtain e live' where live: "live = e # live'" using i by (cases live) auto
    with i have pop: "lfq_next (s_q s) (q_divider (s_q s)) = Inr (Some e)"
      "lfq_data (s_q s) (Some e) = Inr (n_data (the (q_heap (s_q s) e)))"
      using lfq_shape_pop [of "s_q s" dead d e "live' @ pend"] by simp_all
    have "lfq_sys_shape (s\<lparr>s_cpc := CMove (n_data (the (q_heap (s_q s) e)))\<rparr>) dead d live pend"
      using i live by (simp add: lfq_sys_shape_def)
    then show ?thesis by (rule sys_stepI) (simp add: CRead pop consumer_step_def Let_def)
  next
    case (CMove x)
    then obtain e live' where live: "live = e # live'" using i by (cases live) auto
    with i have pop: "lfq_next (s_q s) (q_divider (s_q s)) = Inr (Some e)"
      "lfq_shape ((s_q s)\<lparr>q_divider := Some e\<rparr>) (dead @ [d]) e (live' @ pend)"
      using lfq_shape_pop [of "s_q s" dead d e "live' @ pend"] by simp_all
    have "lfq_sys_shape (s\<lparr>s_q := (s_q s)\<lparr>q_divider := Some e\<rparr>, s_cpc := CCount x,
        s_got := s_got s @ [x]\<rparr>) (dead @ [d]) e live' pend"
      using i live CMove pop by (simp add: lfq_sys_shape_def)
    then show ?thesis by (rule sys_stepI) (simp add: CMove pop consumer_step_def Let_def)
  next
    case (CCount x)
    have "lfq_sys_shape (s\<lparr>s_q := (s_q s)\<lparr>q_size := to_int32 (q_size (s_q s) - 1)\<rparr>, s_cpc := CIdle\<rparr>)
        dead d live pend"
      using i by (simp add: lfq_sys_shape_def del: last.simps split: cpc.splits)
    then show ?thesis by (rule sys_stepI) (simp add: CCount consumer_step_def Let_def)
  qed
qed

lemma lfq_reach_inv: "lfq_reach s \<Longrightarrow> lfq_sys_inv s"
proof (induction rule: lfq_reach.induct)
  case (start p t0)
  then show ?case
    by (intro lfq_sys_invI [of _ "[]" p "[]" "[]"])
      (auto simp: lfq_sys_shape_def lfq_shape_def lfq_init_def nexts_def)
next
  case (step s s')
  from step.hyps(2) show ?case
  proof cases
    case (producer p t)
    with producer_step_inv [OF step.IH, of p t] show ?thesis by simp
  next
    case consumer
    with consumer_step_inv [OF step.IH] show ?thesis by simp
  qed
qed

section \<open>Properties\<close>

text \<open>Two steps of a producer of 7 into a new queue.\<close>

definition lfq_demo :: "int lfq_sys" where
  "lfq_demo = \<lparr>s_q = \<lparr>q_heap = [1 \<mapsto> \<lparr>n_data = 7, n_next = None\<rparr>, 0 \<mapsto> \<lparr>n_data = 0, n_next = Some 1\<rparr>],
     q_first = Some 0, q_divider = Some 0, q_last = Some 1, q_size = 0\<rparr>,
     s_ppc = PMoved, s_cpc = CIdle, s_sent = [7], s_got = []\<rparr>"

lemma lfq_demo_reach: "lfq_reach lfq_demo"
proof -
  let ?s0 = "\<lparr>s_q = lfq_init 0 0, s_ppc = PIdle, s_cpc = CIdle, s_sent = [], s_got = []\<rparr> :: int lfq_sys"
  have "lfq_reach ?s0" by (rule lfq_reach.start)
  moreover have "\<exists>s1. producer_step 1 7 ?s0 = Inr s1 \<and> producer_step 2 8 s1 = Inr lfq_demo \<and> q_heap (s_q s1) 2 = None"
    by (simp add: producer_step_def lfq_init_def lfq_next_def lfq_data_def lfq_demo_def fun_upd_twist)
  then obtain s1 where "producer_step 1 7 ?s0 = Inr s1" "producer_step 2 8 s1 = Inr lfq_demo" "q_heap (s_q s1) 2 = None" by blast
  moreover have "q_heap (s_q ?s0) 1 = None" by (simp add: lfq_init_def)
  ultimately show ?thesis by (meson lfq_step.producer lfq_reach.step)
qed

text \<open>
  C4: under every interleaving of one producer and one consumer (statement by statement, with
  any allocator that returns unused addresses), neither thread ever dereferences a null or a
  deleted node: from every reachable state both threads can take their next step without a
  fault.
\<close>

theorem lfq_interleaving_safe:
  assumes "lfq_reach s"
  shows "(\<exists>s'. consumer_step s = Inr s') \<and>
    (\<forall>p t. q_heap (s_q s) p = None \<longrightarrow> (\<exists>s'. producer_step p t s = Inr s'))"
proof -
  have inv: "lfq_sys_inv s" using assms by (rule lfq_reach_inv)
  show ?thesis
    using consumer_step_inv [OF inv] producer_step_inv [OF inv] by metis
qed

theorem lfq_interleaving_safe_witness:
  "lfq_reach lfq_demo \<and> (\<exists>s'. consumer_step lfq_demo = Inr s') \<and> (\<exists>s'. producer_step 2 9 lfq_demo = Inr s')"
proof -
  have "q_heap (s_q lfq_demo) 2 = None" by (simp add: lfq_demo_def)
  with lfq_interleaving_safe [OF lfq_demo_reach] lfq_demo_reach show ?thesis by blast
qed

text \<open>
  C5: under every such interleaving the queue is first-in first-out: the values the consumer
  has taken are a prefix of the values the producer has published, and the rest are exactly
  the nodes between \<open>divider\<close> and \<open>last\<close>, so that no value is lost, duplicated or reordered.
\<close>

theorem lfq_interleaving_fifo:
  assumes "lfq_reach s"
  shows "\<exists>dead d live pend. lfq_shape (s_q s) dead d (live @ pend) \<and>
    q_last (s_q s) = Some (last (d # live)) \<and> s_sent s = s_got s @ datas (q_heap (s_q s)) live"
  using lfq_reach_inv [OF assms] unfolding lfq_sys_inv_def lfq_sys_shape_def by blast

theorem lfq_interleaving_fifo_witness:
  "s_sent lfq_demo = [7] \<and> (\<exists>dead d live pend. lfq_shape (s_q lfq_demo) dead d (live @ pend) \<and>
     s_sent lfq_demo = s_got lfq_demo @ datas (q_heap (s_q lfq_demo)) live)"
  using lfq_interleaving_fifo [OF lfq_demo_reach] by (auto simp: lfq_demo_def)

text \<open>
  Run as whole calls, any sequence of \<open>produce\<close> and \<open>consume\<close> calls on a new queue
  returns (the deletion loop ends) without a fault, and the consumed values followed by the
  ones still queued are the produced ones in order.
\<close>

theorem lfq_run_fifo:
  assumes "qrun lfq_enq lfq_consume lfq_avail ops (lfq_init p t0) = Some m"
  shows "\<exists>rs q' ys. m = Inr (rs, q') \<and> lfq_holds q' ys \<and> received rs @ ys = enqueued ops"
  using lfq.run_fifo [OF lfq_init_holds assms] by simp

theorem lfq_run_fifo_witness:
  "\<exists>rs q' ys. qrun lfq_enq lfq_consume lfq_avail [Enq 1 (5 :: int), Deq, Deq] (lfq_init 0 0) = Some (Inr (rs, q')) \<and>
     received rs @ ys = [5]"
proof -
  let ?ops = "[Enq 1 (5 :: int), Deq, Deq]"
  have "\<exists>m. qrun lfq_enq lfq_consume lfq_avail ?ops (lfq_init 0 0) = Some m"
    by (simp add: lfq_enq_def lfq_produce_def lfq_init_def lfq_avail_def lfq_reclaim.simps lfq_consume_def lfq_next_def lfq_data_def)
  then obtain m where "qrun lfq_enq lfq_consume lfq_avail ?ops (lfq_init 0 0) = Some m" by blast
  from this lfq_run_fifo [OF this] show ?thesis by auto
qed

text \<open>
  C21: \<open>produce\<close> always returns, appends its argument and leaves exactly one consumed node
  (the divider) allocated; the destructor returns with nothing allocated.
\<close>

theorem lfq_produce_no_leak:
  assumes "lfq_holds q xs" and "lfq_avail p q"
  shows "\<exists>q'. lfq_produce p t q = Some (Inr q') \<and> lfq_holds q' (xs @ [t]) \<and>
    card (dom (q_heap q')) = Suc (length (xs @ [t])) \<and>
    (\<exists>q''. lfq_destroy q' = Some (Inr q'') \<and> q_heap q'' = Map.empty)"
proof -
  obtain q' d live where q': "lfq_produce p t q = Some (Inr q')" "lfq_holds q' (xs @ [t])"
    "lfq_shape q' [] d live"
    using lfq_produce_holds [OF assms] by blast
  obtain dead2 d2 live2 where s2: "lfq_shape q' dead2 d2 live2" "datas (q_heap q') live2 = xs @ [t]"
    using q'(2) by (auto simp: lfq_holds_def)
  have "d2 = d" "live2 = live"
    using lfq_shape_unique [OF q'(3) s2(1)] by auto
  then have len: "length live = length (xs @ [t])" using s2(2) by (metis datas_simps(4))
  have path: "path (nexts (q_heap q')) (q_first q') (d # live) None" "distinct (d # live)"
    "dom (q_heap q') = set (d # live)"
    using q'(3) by (simp_all add: lfq_shape_def)
  have "card (dom (q_heap q')) = length (d # live)"
    unfolding path(3) using path(2) by (rule distinct_card)
  with len lfq_destroy_path [OF path] q' show ?thesis by auto
qed

theorem lfq_produce_no_leak_witness:
  "\<exists>q'. lfq_produce 1 (5 :: int) (lfq_init 0 0) = Some (Inr q') \<and> card (dom (q_heap q')) = 2"
  using lfq_produce_no_leak [OF lfq_init_holds, of 1 0 0 "5 :: int"] by (auto simp: lfq_avail_def lfq_init_def)

end
