(* ===== verification/Xhead.thy ===== *)
theory Xhead
  imports Xrtc_Prelude
begin

text \<open>
  The 36-byte header of the signalling protocol, \<open>base/xhead.h\<close>. The server never parses it
  field by field: it casts the receive buffer to \<open>xhead_t*\<close>, so the wire format is the memory
  layout of the struct on the little-endian target (no padding, as every field is aligned).
\<close>

definition XHEAD_SIZE :: nat where
  "XHEAD_SIZE = 36"

definition XHEAD_MAGIC_NUM :: u32 where
  "XHEAD_MAGIC_NUM = 0xfb202202"

record xhead_t =
  xh_id :: u16
  xh_version :: u16
  xh_log_id :: u32
  xh_provider :: "byte list"
  xh_magic_num :: u32
  xh_reserved :: u32
  xh_body_len :: u32

text \<open>
  \<open>reinterpret_cast<xhead_t*>(buf)\<close> followed by reads of the fields: a fault when the
  buffer is shorter than the struct.
\<close>

definition xhead_of_bytes :: "byte list \<Rightarrow> xhead_t res" where
  "xhead_of_bytes bs = (if length bs < XHEAD_SIZE then Inl OutOfBounds else Inr
     \<lparr>xh_id = of_nat (le_val (take 2 bs)),
      xh_version = of_nat (le_val (take 2 (drop 2 bs))),
      xh_log_id = of_nat (le_val (take 4 (drop 4 bs))),
      xh_provider = take 16 (drop 8 bs),
      xh_magic_num = of_nat (le_val (take 4 (drop 24 bs))),
      xh_reserved = of_nat (le_val (take 4 (drop 28 bs))),
      xh_body_len = of_nat (le_val (take 4 (drop 32 bs)))\<rparr>)"

text \<open>The bytes of a struct with the given fields, as a peer writes them.\<close>

definition bytes_of_xhead :: "xhead_t \<Rightarrow> byte list" where
  "bytes_of_xhead h = le_bytes 2 (unat (xh_id h)) @ le_bytes 2 (unat (xh_version h)) @
     le_bytes 4 (unat (xh_log_id h)) @ xh_provider h @ le_bytes 4 (unat (xh_magic_num h)) @
     le_bytes 4 (unat (xh_reserved h)) @ le_bytes 4 (unat (xh_body_len h))"

text \<open>\<open>res_xh->body_len = n\<close> on a buffer that starts with a header.\<close>

definition set_body_len :: "byte list \<Rightarrow> u32 \<Rightarrow> byte list" where
  "set_body_len bs n = write_at bs 32 (le_bytes 4 (unat n))"

definition xhead_wf :: "xhead_t \<Rightarrow> bool" where
  "xhead_wf h \<longleftrightarrow> length (xh_provider h) = 16"

lemma length_bytes_of_xhead [simp]: "xhead_wf h \<Longrightarrow> length (bytes_of_xhead h) = XHEAD_SIZE"
  by (simp add: bytes_of_xhead_def xhead_wf_def XHEAD_SIZE_def)

lemma u16_le_roundtrip: "of_nat (le_val (le_bytes 2 (unat (w :: u16)))) = w"
  using unsigned_less [of w, where 'a = nat] by (simp add: le_val_le_bytes)

lemma u32_le_roundtrip: "of_nat (le_val (le_bytes 4 (unat (w :: u32)))) = w"
  using unsigned_less [of w, where 'a = nat] by (simp add: le_val_le_bytes)

lemma xhead_of_bytes_of_xhead:
  assumes "xhead_wf h"
  shows "xhead_of_bytes (bytes_of_xhead h @ rest) = Inr h"
  using assms unfolding xhead_of_bytes_def bytes_of_xhead_def xhead_wf_def XHEAD_SIZE_def
  by (simp add: u16_le_roundtrip u32_le_roundtrip)

lemma le_bytes_unat_u16: "length bs = 2 \<Longrightarrow> le_bytes 2 (unat (of_nat (le_val bs) :: u16)) = bs"
  using le_val_less [of bs] le_bytes_le_val [of bs] by (simp add: unat_of_nat)

lemma le_bytes_unat_u32: "length bs = 4 \<Longrightarrow> le_bytes 4 (unat (of_nat (le_val bs) :: u32)) = bs"
  using le_val_less [of bs] le_bytes_le_val [of bs] by (simp add: unat_of_nat)

lemma take_drop_glue: "take a (drop n bs) @ take b (drop (n + a) bs) = take (a + b) (drop n bs)"
  by (simp add: take_add add.commute)

lemma bytes_of_xhead_of_bytes:
  assumes "xhead_of_bytes bs = Inr h"
  shows "bytes_of_xhead h = take XHEAD_SIZE bs"
proof -
  have len: "36 \<le> length bs" using assms by (simp add: xhead_of_bytes_def XHEAD_SIZE_def split: if_splits)
  have "bytes_of_xhead h = take 2 bs @ take 2 (drop 2 bs) @ take 4 (drop 4 bs) @
      take 16 (drop 8 bs) @ take 4 (drop 24 bs) @ take 4 (drop 28 bs) @ take 4 (drop 32 bs)"
    using assms len by (auto simp: xhead_of_bytes_def bytes_of_xhead_def XHEAD_SIZE_def
        le_bytes_unat_u16 le_bytes_unat_u32 split: if_splits)
  also have "\<dots> = take 36 bs"
    using take_add [of 2 34 bs] take_drop_glue [of 2 2 bs 32] take_drop_glue [of 4 4 bs 28]
      take_drop_glue [of 16 8 bs 12] take_drop_glue [of 4 24 bs 8] take_drop_glue [of 4 28 bs 4]
    by simp
  finally show ?thesis by (simp add: XHEAD_SIZE_def)
qed

lemma xhead_of_bytes_total: "XHEAD_SIZE \<le> length bs \<Longrightarrow> \<exists>h. xhead_of_bytes bs = Inr h \<and> xhead_wf h"
  by (simp add: xhead_of_bytes_def xhead_wf_def XHEAD_SIZE_def)

lemma xhead_of_bytes_take:
  "XHEAD_SIZE \<le> n \<Longrightarrow> n \<le> length bs \<Longrightarrow> xhead_of_bytes (take n bs) = xhead_of_bytes bs"
  by (simp add: xhead_of_bytes_def XHEAD_SIZE_def drop_take min_def)

lemma length_set_body_len [simp]: "XHEAD_SIZE \<le> length bs \<Longrightarrow> length (set_body_len bs n) = length bs"
  by (simp add: set_body_len_def XHEAD_SIZE_def)

text \<open>Overwriting the length of a header changes that field and no other.\<close>

lemma xhead_of_set_body_len:
  assumes "xhead_of_bytes bs = Inr h"
  shows "xhead_of_bytes (set_body_len bs n) = Inr (h\<lparr>xh_body_len := n\<rparr>)"
proof -
  have len: "XHEAD_SIZE \<le> length bs" using assms by (simp add: xhead_of_bytes_def split: if_splits)
  then have split: "set_body_len bs n = take 32 bs @ le_bytes 4 (unat n) @ drop 36 bs"
    by (simp add: set_body_len_def write_at_def)
  show ?thesis
    using assms len unfolding split xhead_of_bytes_def XHEAD_SIZE_def
    by (auto simp: u32_le_roundtrip drop_take min_def)
qed

section \<open>Properties\<close>

text \<open>
  Casting the receive buffer to the header struct and writing the struct out are inverse to
  each other: every header is read back from its bytes, whatever follows them; every buffer of at
  least 36 bytes starts with the bytes of the header read from it; and storing a new length
  changes that field only.
\<close>

theorem xhead_roundtrip:
  assumes "xhead_wf h"
  shows "xhead_of_bytes (bytes_of_xhead h @ rest) = Inr h \<and>
    xhead_of_bytes (set_body_len (bytes_of_xhead h @ rest) n) = Inr (h\<lparr>xh_body_len := n\<rparr>) \<and>
    (XHEAD_SIZE \<le> length bs \<longrightarrow> (\<exists>g. xhead_of_bytes bs = Inr g \<and> bytes_of_xhead g = take XHEAD_SIZE bs))"
  using xhead_of_bytes_of_xhead [OF assms, of rest] xhead_of_set_body_len bytes_of_xhead_of_bytes
    xhead_of_bytes_total [of bs] by blast

definition demo_xhead :: xhead_t where
  "demo_xhead = \<lparr>xh_id = 1, xh_version = 2, xh_log_id = 3, xh_provider = replicate 16 4,
     xh_magic_num = XHEAD_MAGIC_NUM, xh_reserved = 0, xh_body_len = 5\<rparr>"

theorem xhead_roundtrip_witness:
  "xhead_of_bytes (bytes_of_xhead demo_xhead) = Inr demo_xhead \<and>
   xhead_of_bytes (set_body_len (bytes_of_xhead demo_xhead) 9) = Inr (demo_xhead\<lparr>xh_body_len := 9\<rparr>)"
  using xhead_roundtrip [of demo_xhead "[]" 9 "[]"] by (simp add: xhead_wf_def demo_xhead_def)

end
