(* ===== verification/Crc32.thy ===== *)
theory Crc32
  imports Xrtc_Prelude
begin

text \<open>
  The table-driven CRC-32 of \<open>rtc_base/crc32.cc\<close>, which \<open>RtcServer\<close> uses to assign a stream
  to a worker, and its equivalence with the bit-by-bit definition of RFC 1952.
\<close>

unbundle bit_operations_syntax

definition kCrc32Polynomial :: u32 where
  "kCrc32Polynomial = 0xEDB88320"

text \<open>The inner loop of \<open>LoadCrc32Table\<close>: one of eight steps.\<close>

definition crc_bit :: "u32 \<Rightarrow> u32" where
  "crc_bit c = (if c AND 1 \<noteq> 0 then kCrc32Polynomial XOR drop_bit 1 c else drop_bit 1 c)"

definition crc_entry :: "u32 \<Rightarrow> u32" where
  "crc_entry i = (crc_bit ^^ 8) i"

definition LoadCrc32Table :: "u32 list" where
  "LoadCrc32Table = map (\<lambda>i. crc_entry (of_nat i)) [0..<256]"

fun crc_loop :: "u32 list \<Rightarrow> u32 \<Rightarrow> byte list \<Rightarrow> u32" where
  "crc_loop tbl c [] = c"
| "crc_loop tbl c (b # u) = crc_loop tbl (tbl ! unat ((c XOR ucast b) AND 0xFF) XOR drop_bit 8 c) u"

definition UpdateCrc32 :: "u32 \<Rightarrow> byte list \<Rightarrow> u32" where
  "UpdateCrc32 start buf = crc_loop LoadCrc32Table (start XOR 0xFFFFFFFF) buf XOR 0xFFFFFFFF"

definition ComputeCrc32 :: "byte list \<Rightarrow> u32" where
  "ComputeCrc32 buf = UpdateCrc32 0 buf"

text \<open>
  The reference: a shift register that takes the message bit by bit, least significant bit of
  each byte first.
\<close>

fun crc_ref :: "u32 \<Rightarrow> byte list \<Rightarrow> u32" where
  "crc_ref c [] = c"
| "crc_ref c (b # u) = crc_ref ((crc_bit ^^ 8) (c XOR ucast b)) u"

lemma xor_eq_0: "(a XOR b = 0) = (a = (b :: 'w::len word))"
  by (metis xor.right_neutral xor_self_eq xor.assoc)

lemma and_1_xor: "((x XOR y) AND 1 \<noteq> 0) = ((x AND 1 \<noteq> 0) \<noteq> (y AND 1 \<noteq> (0 :: u32)))"
  by (simp add: and_one_eq odd_iff_mod_2_eq_one even_xor_iff flip: odd_iff_mod_2_eq_one)

lemma crc_bit_xor: "crc_bit (x XOR y) = crc_bit x XOR crc_bit y"
  unfolding crc_bit_def and_1_xor by (auto simp: ac_simps drop_bit_xor)

lemma crc_bits_xor: "(crc_bit ^^ n) (x XOR y) = (crc_bit ^^ n) x XOR (crc_bit ^^ n) y"
  by (induction n) (simp_all add: crc_bit_xor)

text \<open>While only zero bits leave the register, a step is a shift.\<close>

lemma crc_bits_high: "take_bit n c = 0 \<Longrightarrow> (crc_bit ^^ n) c = drop_bit n c"
proof (induction n arbitrary: c)
  case 0
  then show ?case by simp
next
  case (Suc n)
  have "bit (take_bit (Suc n) c) 0 = bit c 0" by (simp only: bit_take_bit_iff zero_less_Suc simp_thms)
  with Suc.prems have "\<not> bit c 0" by simp
  then have "c AND 1 = 0" by (simp add: bit_0 and_one_eq even_iff_mod_2_eq_zero)
  moreover have "take_bit n (drop_bit 1 c) = 0"
    using Suc.prems by (simp add: take_bit_drop_bit)
  ultimately show ?case
    using Suc.IH [of "drop_bit 1 c"] by (simp add: funpow_Suc_right crc_bit_def del: funpow.simps)
qed

lemma crc_table_nth: "LoadCrc32Table ! unat (c AND 0xFF) = crc_entry (c AND 0xFF)"
proof -
  have "c AND 0xFF \<le> 0xFF" by (simp add: word_and_le1)
  then have "unat (c AND 0xFF) < 256" by (simp add: word_le_nat_alt)
  then show ?thesis by (simp add: LoadCrc32Table_def)
qed

lemma word_split_8: "(x :: u32) = take_bit 8 x XOR push_bit 8 (drop_bit 8 x)"
proof (rule bit_word_eqI)
  fix n assume "n < LENGTH(32)"
  then show "bit x n = bit (take_bit 8 x XOR push_bit 8 (drop_bit 8 x)) n"
    by (cases "n < 8") (simp_all add: bit_simps)
qed

text \<open>One table lookup does the work of eight bit steps.\<close>

lemma crc_byte:
  "crc_entry ((c XOR ucast (b :: byte)) AND 0xFF) XOR drop_bit 8 c = (crc_bit ^^ 8) (c XOR ucast b)"
proof -
  let ?x = "c XOR ucast b :: u32"
  have lo: "?x AND 0xFF = take_bit 8 ?x" by (simp add: take_bit_eq_mask mask_eq_decr_exp)
  have split: "?x = take_bit 8 ?x XOR push_bit 8 (drop_bit 8 ?x)"
    by (rule word_split_8)
  have "(crc_bit ^^ 8) (push_bit 8 (drop_bit 8 ?x)) = drop_bit 8 (push_bit 8 (drop_bit 8 ?x))"
    by (rule crc_bits_high) (rule bit_word_eqI, auto simp: bit_simps)
  also have "\<dots> = drop_bit 8 c"
    by (rule bit_word_eqI) (auto simp: bit_simps dest: bit_imp_le_length)
  finally have "(crc_bit ^^ 8) ?x = (crc_bit ^^ 8) (take_bit 8 ?x) XOR drop_bit 8 c"
    by (subst split) (simp add: crc_bits_xor)
  then show ?thesis by (simp add: crc_entry_def lo)
qed

lemma crc_loop_ref: "crc_loop LoadCrc32Table c u = crc_ref c u"
  by (induction u arbitrary: c) (simp_all only: crc_loop.simps crc_ref.simps crc_table_nth crc_byte)

lemma crc_loop_append: "crc_loop tbl c (u @ v) = crc_loop tbl (crc_loop tbl c u) v"
  by (induction u arbitrary: c) simp_all

lemma xor_twice [simp]: "(c XOR m) XOR m = (c :: u32)"
  by (simp only: xor.assoc xor_self_eq xor.right_neutral)

section \<open>Properties\<close>

text \<open>
  C34: the table-driven checksum is the bit-serial CRC-32 of RFC 1952, started with all ones and
  complemented at the end; and \<open>UpdateCrc32\<close> continues a checksum: feeding a text in two parts
  gives the checksum of the whole.
\<close>

theorem crc32_reference:
  "ComputeCrc32 buf = crc_ref 0xFFFFFFFF buf XOR 0xFFFFFFFF \<and>
   UpdateCrc32 (ComputeCrc32 u) v = ComputeCrc32 (u @ v)"
  by (simp add: ComputeCrc32_def UpdateCrc32_def crc_loop_ref crc_loop_append)

end
