(* ===== verification/Sds.thy ===== *)
theory Sds
  imports Xrtc_Prelude
begin

text \<open>
  The dynamic strings of \<open>rtc_base/sds.h\<close> and \<open>rtc_base/sds.cc\<close>, which hold the receive
  buffer of every connection. The model keeps the header's \<open>int\<close> fields at their width, so
  that the arithmetic of \<open>sdsMakeRoomFor\<close> and \<open>sdsIncrLen\<close> wraps as the code's does, and
  the whole allocated character array, so that a write past it is a fault.
\<close>

section \<open>Data\<close>

definition SDS_MAX_PREALLOC :: nat where
  "SDS_MAX_PREALLOC = 1024 * 1024"

record sdshdr =
  sh_len :: int
  sh_free :: int
  sh_buf :: "byte list"

text \<open>
  The heap the strings live in: which block sizes \<open>malloc\<close> can serve, and the content of
  fresh memory. The library is compiled with or without \<open>NDEBUG\<close>.
\<close>

record allocator =
  can_alloc :: "nat \<Rightarrow> bool"
  junk :: "nat \<Rightarrow> byte"

text \<open>\<open>malloc(sz + PREFIX_SIZE)\<close> of \<open>zmalloc\<close>, with the sum in \<open>size_t\<close>.\<close>

definition zalloc_ok :: "allocator \<Rightarrow> nat \<Rightarrow> bool" where
  "zalloc_ok al sz = can_alloc al (nat (to_size_t (int sz + 8)))"

text \<open>Every block of less than 4 GiB can be had.\<close>

definition mem_ok :: "allocator \<Rightarrow> bool" where
  "mem_ok al \<longleftrightarrow> (\<forall>n. n < 2 ^ 32 \<longrightarrow> zalloc_ok al n)"

text \<open>A block of \<open>n\<close> characters whose first ones are those of \<open>xs\<close> (\<open>realloc\<close>).\<close>

definition resize :: "allocator \<Rightarrow> nat \<Rightarrow> byte list \<Rightarrow> byte list" where
  "resize al n xs = take n xs @ map (junk al) [length xs..<n]"

section \<open>Operations\<close>

definition sdslen :: "sdshdr \<Rightarrow> nat" where
  "sdslen s = nat (to_size_t (sh_len s))"

definition sdsavail :: "sdshdr \<Rightarrow> nat" where
  "sdsavail s = nat (to_size_t (sh_free s))"

definition sdsnewlen :: "allocator \<Rightarrow> byte list option \<Rightarrow> nat \<Rightarrow> sdshdr res" where
  "sdsnewlen al init initlen =
     (if 2 ^ 64 \<le> 8 + initlen + 1 + 8 then Inl OutOfBounds
      else if \<not> zalloc_ok al (8 + initlen + 1) then Inl OutOfMemory
      else case init of
        None \<Rightarrow> Inr \<lparr>sh_len = to_int32 (int initlen), sh_free = 0, sh_buf = replicate (initlen + 1) 0\<rparr>
      | Some b \<Rightarrow> if initlen \<le> length b
          then Inr \<lparr>sh_len = to_int32 (int initlen), sh_free = 0, sh_buf = take initlen b @ [0]\<rparr>
          else Inl OutOfBounds)"

definition sdsempty :: "allocator \<Rightarrow> sdshdr res" where
  "sdsempty al = sdsnewlen al (Some (cstr '''' @ [0])) 0"

definition sdsdup :: "allocator \<Rightarrow> sdshdr \<Rightarrow> sdshdr res" where
  "sdsdup al s = sdsnewlen al (Some (sh_buf s)) (sdslen s)"

definition sdsclear :: "sdshdr \<Rightarrow> sdshdr res" where
  "sdsclear s = (if sh_buf s = [] then Inl OutOfBounds else
     Inr \<lparr>sh_len = 0, sh_free = to_int32 (sh_free s + sh_len s), sh_buf = (sh_buf s)[0 := 0]\<rparr>)"

text \<open>The new capacity \<open>sdsMakeRoomFor\<close> asks for; every sum is in \<open>size_t\<close>.\<close>

definition sds_newlen :: "nat \<Rightarrow> nat \<Rightarrow> nat" where
  "sds_newlen len addlen =
     (let newlen = (len + addlen) mod 2 ^ 64
      in if newlen < SDS_MAX_PREALLOC then (newlen * 2) mod 2 ^ 64
         else (newlen + SDS_MAX_PREALLOC) mod 2 ^ 64)"

definition sdsMakeRoomFor :: "allocator \<Rightarrow> sdshdr \<Rightarrow> nat \<Rightarrow> sdshdr res" where
  "sdsMakeRoomFor al s addlen =
     (if addlen \<le> sdsavail s then Inr s
      else let len = sdslen s; newlen = sds_newlen len addlen; sz = (8 + newlen + 1) mod 2 ^ 64
        in if \<not> zalloc_ok al sz then Inl OutOfMemory
           else if sz < 8 then Inl OutOfBounds
           else Inr \<lparr>sh_len = sh_len s, sh_free = to_int32 (int newlen - int len),
                     sh_buf = resize al (sz - 8) (sh_buf s)\<rparr>)"

definition sdsRemoveFreeSpace :: "allocator \<Rightarrow> sdshdr \<Rightarrow> sdshdr res" where
  "sdsRemoveFreeSpace al s =
     (let sz = nat (to_size_t (8 + to_size_t (sh_len s) + 1))
      in if \<not> zalloc_ok al sz then Inl OutOfMemory
         else if sz < 8 then Inl OutOfBounds
         else Inr \<lparr>sh_len = sh_len s, sh_free = 0, sh_buf = resize al (sz - 8) (sh_buf s)\<rparr>)"

definition sdsAllocSize :: "sdshdr \<Rightarrow> nat" where
  "sdsAllocSize s = nat (to_size_t (8 + sh_len s + sh_free s + 1))"

text \<open>
  A store of the terminating null at index \<open>i\<close> of the character array.
\<close>

definition put_nul :: "sdshdr \<Rightarrow> int \<Rightarrow> sdshdr res" where
  "put_nul s i = (if 0 \<le> i \<and> nat i < length (sh_buf s)
     then Inr (s\<lparr>sh_buf := (sh_buf s)[nat i := 0]\<rparr>) else Inl OutOfBounds)"

definition sdsIncrLen :: "bool \<Rightarrow> sdshdr \<Rightarrow> int \<Rightarrow> sdshdr res" where
  "sdsIncrLen ndebug s incr =
     (if \<not> ndebug \<and> sh_free s < incr then Inl AssertFail
      else let s' = s\<lparr>sh_len := to_int32 (sh_len s + incr), sh_free := to_int32 (sh_free s - incr)\<rparr>
        in if \<not> ndebug \<and> sh_free s' < 0 then Inl AssertFail
           else put_nul s' (sh_len s'))"

text \<open>\<open>memcpy(s + i, t, length t)\<close>: a fault outside the character array.\<close>

definition sds_write :: "sdshdr \<Rightarrow> nat \<Rightarrow> byte list \<Rightarrow> sdshdr res" where
  "sds_write s i t = (if i + length t \<le> length (sh_buf s)
     then Inr (s\<lparr>sh_buf := write_at (sh_buf s) i t\<rparr>) else Inl OutOfBounds)"

definition sdscatlen :: "allocator \<Rightarrow> sdshdr \<Rightarrow> byte list \<Rightarrow> sdshdr res" where
  "sdscatlen al s t =
     (let curlen = sdslen s; len = length t in
      rbind (sdsMakeRoomFor al s len) (\<lambda>s1.
      rbind (sds_write s1 curlen t) (\<lambda>s2.
      put_nul (s2\<lparr>sh_len := to_int32 (int curlen + int len), sh_free := to_int32 (sh_free s2 - int len)\<rparr>)
        (int curlen + int len))))"

definition sdscatsds :: "allocator \<Rightarrow> sdshdr \<Rightarrow> sdshdr \<Rightarrow> sdshdr res" where
  "sdscatsds al s t = sdscatlen al s (take (sdslen t) (sh_buf t))"

definition sdsgrowzero :: "allocator \<Rightarrow> sdshdr \<Rightarrow> nat \<Rightarrow> sdshdr res" where
  "sdsgrowzero al s len =
     (let curlen = nat (to_size_t (sh_len s)) in
      if len \<le> curlen then Inr s
      else rbind (sdsMakeRoomFor al s (len - curlen)) (\<lambda>s1.
           rbind (sds_write s1 curlen (replicate (len - curlen + 1) 0)) (\<lambda>s2.
           Inr (s2\<lparr>sh_len := to_int32 (int len),
                   sh_free := to_int32 (to_size_t (to_int32 (sh_len s2 + sh_free s2)) - int len)\<rparr>))))"

definition sdscpylen :: "allocator \<Rightarrow> sdshdr \<Rightarrow> byte list \<Rightarrow> sdshdr res" where
  "sdscpylen al s t =
     (let totlen = to_size_t (to_int32 (sh_free s + sh_len s)); len = int (length t) in
      rbind (if totlen < len then sdsMakeRoomFor al s (nat (to_size_t (len - sh_len s))) else Inr s) (\<lambda>s1.
      rbind (sds_write s1 0 t) (\<lambda>s2.
      rbind (put_nul s2 len) (\<lambda>s3.
      Inr (s3\<lparr>sh_len := to_int32 len,
              sh_free := to_int32 (to_size_t (to_int32 (sh_free s1 + sh_len s1)) - len)\<rparr>)))))"

section \<open>Well-formed strings\<close>

definition sds_wf :: "sdshdr \<Rightarrow> bool" where
  "sds_wf s \<longleftrightarrow> 0 \<le> sh_len s \<and> 0 \<le> sh_free s \<and> sh_len s + sh_free s < 2 ^ 31 \<and>
     int (length (sh_buf s)) = sh_len s + sh_free s + 1 \<and> sh_buf s ! nat (sh_len s) = 0"

definition sds_content :: "sdshdr \<Rightarrow> byte list" where
  "sds_content s = take (nat (sh_len s)) (sh_buf s)"

definition sds_str :: "sdshdr \<Rightarrow> byte list \<Rightarrow> bool" where
  "sds_str s xs \<longleftrightarrow> sds_wf s \<and> sds_content s = xs"

lemma sds_wf_len: "sds_wf s \<Longrightarrow> sdslen s = nat (sh_len s)"
  by (simp add: sds_wf_def sdslen_def)

lemma sds_wf_avail: "sds_wf s \<Longrightarrow> sdsavail s = nat (sh_free s)"
  by (simp add: sds_wf_def sdsavail_def)

lemma sds_wf_buf: "sds_wf s \<Longrightarrow> length (sh_buf s) = nat (sh_len s) + nat (sh_free s) + 1"
  by (auto simp: sds_wf_def)

lemma length_sds_content [simp]: "sds_wf s \<Longrightarrow> length (sds_content s) = nat (sh_len s)"
  by (simp add: sds_content_def sds_wf_buf)

lemma sds_str_length: "sds_str s xs \<Longrightarrow> length xs = nat (sh_len s)"
  by (auto simp: sds_str_def)

lemma length_resize [simp]: "length (resize al n xs) = n"
  by (simp add: resize_def)

lemma resize_grow: "length xs \<le> n \<Longrightarrow> resize al n xs = xs @ map (junk al) [length xs..<n]"
  by (simp add: resize_def)

lemma sdsnewlen_str:
  assumes "length xs < 2 ^ 31 - 1" "zalloc_ok al (8 + length xs + 1)"
  shows "\<exists>s. sdsnewlen al (Some (xs @ ys)) (length xs) = Inr s \<and> sds_str s xs \<and> sh_free s = 0"
  using assms by (simp add: sdsnewlen_def sds_str_def sds_wf_def sds_content_def nth_append)

lemma sdsempty_str: "zalloc_ok al 9 \<Longrightarrow> \<exists>s. sdsempty al = Inr s \<and> sds_str s []"
  using sdsnewlen_str [of "[]" al "[0]"] unfolding sdsempty_def by (auto simp: cstr_def)

text \<open>The capacity the code computes when nothing wraps.\<close>

definition sds_grown :: "nat \<Rightarrow> nat" where
  "sds_grown n = (if n < SDS_MAX_PREALLOC then 2 * n else n + SDS_MAX_PREALLOC)"

lemma sds_newlen_grown: "len + addlen < 2 ^ 32 \<Longrightarrow> sds_newlen len addlen = sds_grown (len + addlen)"
  by (simp add: sds_newlen_def sds_grown_def SDS_MAX_PREALLOC_def Let_def)

lemma sdsMakeRoomFor_str:
  assumes str: "sds_str s xs" and room: "sds_grown (length xs + addlen) < 2 ^ 31"
    and mem: "addlen \<le> sdsavail s \<or> zalloc_ok al (8 + sds_grown (length xs + addlen) + 1)"
  shows "\<exists>s'. sdsMakeRoomFor al s addlen = Inr s' \<and> sds_str s' xs \<and> addlen \<le> sdsavail s'"
proof (cases "addlen \<le> sdsavail s")
  case True
  with str show ?thesis by (simp add: sdsMakeRoomFor_def)
next
  case False
  from str have wf: "sds_wf s" and xs: "sds_content s = xs" by (simp_all add: sds_str_def)
  have len: "length xs = nat (sh_len s)" using str by (rule sds_str_length)
  let ?new = "sds_grown (length xs + addlen)"
  have ge: "length xs + addlen \<le> ?new" by (simp add: sds_grown_def)
  have new: "sds_newlen (sdslen s) addlen = ?new"
    using room ge wf len by (simp add: sds_newlen_grown sds_wf_len)
  have av: "nat (sh_free s) < addlen" using False wf by (simp add: sds_wf_avail)
  have old: "length (sh_buf s) \<le> ?new + 1" using wf len av ge by (simp add: sds_wf_buf)
  let ?s = "\<lparr>sh_len = sh_len s, sh_free = int ?new - sh_len s, sh_buf = resize al (?new + 1) (sh_buf s)\<rparr>"
  have mk: "sdsMakeRoomFor al s addlen = Inr ?s"
    using False mem room wf len ge new by (simp add: sdsMakeRoomFor_def Let_def sds_wf_len sds_wf_def)
  have "nat (sh_len s) < length (sh_buf s)" using wf by (simp add: sds_wf_buf)
  then have "resize al (?new + 1) (sh_buf s) ! nat (sh_len s) = sh_buf s ! nat (sh_len s)"
    using old by (simp only: resize_grow nth_append if_True)
  then have "sds_wf ?s"
    using wf len ge room by (simp add: sds_wf_def)
  moreover have "sds_content ?s = xs"
    using xs old wf by (simp add: sds_content_def resize_grow sds_wf_buf)
  moreover have "addlen \<le> nat (int ?new - sh_len s)" using ge len wf by (simp add: sds_wf_def)
  ultimately show ?thesis using mk sds_wf_avail by (fastforce simp: sds_str_def)
qed

lemma sds_write_tail:
  assumes str: "sds_str s xs" and t: "length t \<le> sdsavail s"
  shows "\<exists>s'. sds_write s (sdslen s) t = Inr s' \<and> sh_len s' = sh_len s \<and> sh_free s' = sh_free s \<and>
    length (sh_buf s') = length (sh_buf s) \<and> take (length xs + length t) (sh_buf s') = xs @ t"
proof -
  from str have wf: "sds_wf s" and xs: "xs = take (nat (sh_len s)) (sh_buf s)"
    by (auto simp: sds_str_def sds_content_def)
  have "nat (sh_len s) + length t \<le> length (sh_buf s)" using t wf by (simp add: sds_wf_avail sds_wf_buf)
  moreover have "length xs = nat (sh_len s)" using str by (rule sds_str_length)
  ultimately show ?thesis
    using wf xs by (simp add: sds_write_def sds_wf_len take_write_at)
qed

text \<open>Appending: the caller's schema in the comment of \<open>sdsIncrLen\<close>.\<close>

lemma sdsIncrLen_str:
  assumes wf: "sds_wf s" and n: "int n \<le> sh_free s" and buf: "take (nat (sh_len s) + n) (sh_buf s) = xs"
  shows "\<exists>s'. sdsIncrLen ndebug s (int n) = Inr s' \<and> sds_str s' xs \<and> sh_len s' = sh_len s + int n \<and>
    sh_free s' = sh_free s - int n"
proof -
  have r: "to_int32 (sh_len s + int n) = sh_len s + int n" "to_int32 (sh_free s - int n) = sh_free s - int n"
    using wf n by (simp_all add: sds_wf_def)
  have i: "nat (sh_len s + int n) = nat (sh_len s) + n" using wf by (simp add: sds_wf_def nat_add_distrib)
  have "nat (sh_len s) + n < length (sh_buf s)" using wf n by (simp add: sds_wf_buf)
  then show ?thesis
    using wf n buf by (auto simp: sdsIncrLen_def put_nul_def Let_def r i sds_str_def sds_wf_def sds_content_def)
qed

text \<open>Writing behind the string and then growing it, the way the connection reads.\<close>

lemma sds_write_incr:
  assumes str: "sds_str s xs" and t: "length t \<le> sdsavail s"
  shows "\<exists>s1 s2. sds_write s (sdslen s) t = Inr s1 \<and> sdsIncrLen ndebug s1 (int (length t)) = Inr s2 \<and> sds_str s2 (xs @ t)"
proof -
  from sds_write_tail [OF assms] obtain s1 where s1: "sds_write s (sdslen s) t = Inr s1" "sh_len s1 = sh_len s"
    "sh_free s1 = sh_free s" "length (sh_buf s1) = length (sh_buf s)" "take (length xs + length t) (sh_buf s1) = xs @ t" by blast
  have wf: "sds_wf s" and lx: "length xs = nat (sh_len s)" using str sds_str_length [OF str] by (simp_all add: sds_str_def)
  have fr: "int (length t) \<le> sh_free s" using t wf by (auto simp: sds_wf_avail sds_wf_def)
  have "nat (sh_len s) + length t < length (sh_buf s1)" "0 \<le> sh_len s" "sh_len s + sh_free s < 2 ^ 31"
    "int (length (sh_buf s1)) = sh_len s + sh_free s + 1"
    using wf fr s1(4) by (auto simp: sds_wf_buf sds_wf_def)
  then have "\<exists>s2. sdsIncrLen ndebug s1 (int (length t)) = Inr s2 \<and> sds_str s2 (xs @ t)"
    using s1(2,3,5) fr lx
    by (auto simp: sdsIncrLen_def put_nul_def Let_def sds_str_def sds_wf_def sds_content_def nat_add_distrib)
  with s1(1) show ?thesis by blast
qed

lemma sdscatlen_str:
  assumes str: "sds_str s xs" and room: "sds_grown (length xs + length t) < 2 ^ 31"
    and mem: "length t \<le> sdsavail s \<or> zalloc_ok al (8 + sds_grown (length xs + length t) + 1)"
  shows "\<exists>s'. sdscatlen al s t = Inr s' \<and> sds_str s' (xs @ t)"
proof -
  obtain s1 where s1: "sdsMakeRoomFor al s (length t) = Inr s1" "sds_str s1 xs" "length t \<le> sdsavail s1"
    using sdsMakeRoomFor_str [OF str room mem] by blast
  obtain s2 where s2: "sds_write s1 (sdslen s1) t = Inr s2" "sh_len s2 = sh_len s1" "sh_free s2 = sh_free s1"
    "length (sh_buf s2) = length (sh_buf s1)" "take (length xs + length t) (sh_buf s2) = xs @ t"
    using sds_write_tail [OF s1(2,3)] by blast
  have wf1: "sds_wf s1" and wf: "sds_wf s" and lx: "length xs = nat (sh_len s1)" "length xs = nat (sh_len s)"
    using s1(2) str sds_str_length [OF s1(2)] sds_str_length [OF str] by (simp_all add: sds_str_def)
  have cur: "sdslen s = sdslen s1" using lx wf wf1 by (simp add: sds_wf_len)
  have fr: "int (length t) \<le> sh_free s1" using s1(3) wf1 by (auto simp: sds_wf_avail sds_wf_def)
  have cl: "int (sdslen s1) = sh_len s1" using wf1 by (simp add: sds_wf_len sds_wf_def)
  have r: "to_int32 (sh_len s1 + int (length t)) = sh_len s1 + int (length t)"
    "to_int32 (sh_free s1 - int (length t)) = sh_free s1 - int (length t)"
    using wf1 fr by (simp_all add: sds_wf_def)
  have i: "nat (sh_len s1 + int (length t)) = length xs + length t" "length xs + length t < length (sh_buf s1)"
    using wf1 fr lx by (simp_all add: sds_wf_buf, simp add: sds_wf_def nat_add_distrib)
  show ?thesis
    using s1(1) s2 cur fr wf1 lx i
    by (auto simp: sdscatlen_def Let_def cl r put_nul_def sds_str_def sds_wf_def sds_content_def)
qed

section \<open>Properties\<close>

definition demo_al :: allocator where
  "demo_al = \<lparr>can_alloc = \<lambda>n. True, junk = \<lambda>n. 0xAA\<rparr>"

lemma demo_al_ok [simp]: "zalloc_ok demo_al n"
  by (simp add: zalloc_ok_def demo_al_def)

text \<open>
  Appending to a well-formed string gives a well-formed string whose content is the old one
  followed by the new bytes, without a write outside the block, as long as the grown capacity fits
  an \<open>int\<close> and memory is there.
\<close>

theorem sds_append:
  assumes "sds_str s xs" "sds_grown (length xs + length t) < 2 ^ 31"
    "zalloc_ok al (8 + sds_grown (length xs + length t) + 1)"
  shows "\<exists>s'. sdscatlen al s t = Inr s' \<and> sds_str s' (xs @ t) \<and> sdslen s' = length xs + length t"
  using sdscatlen_str [OF assms(1,2)] assms(3) sds_str_length [of _ "xs @ t"]
  by (metis length_append sds_str_def sds_wf_len)

theorem sds_append_witness:
  "\<exists>s'. sdscatlen demo_al \<lparr>sh_len = 1, sh_free = 0, sh_buf = [7, 0]\<rparr> [8, 9] = Inr s' \<and> sds_str s' [7, 8, 9]"
  using sds_append [of "\<lparr>sh_len = 1, sh_free = 0, sh_buf = [7, 0]\<rparr>" "[7]" "[8, 9]" demo_al]
  by (auto simp: sds_str_def sds_wf_def sds_content_def sds_grown_def SDS_MAX_PREALLOC_def)

text \<open>
  A request for room whose grown capacity exceeds an \<open>int\<close> is granted with a negative \<open>free\<close>
  field: the string is not well formed any more.
\<close>

theorem sdsMakeRoomFor_wraps:
  assumes "sds_str s xs" "sdsavail s < addlen" "2 ^ 31 - SDS_MAX_PREALLOC \<le> addlen" "addlen < 2 ^ 31"
    "zalloc_ok al (8 + (length xs + addlen + SDS_MAX_PREALLOC) + 1)"
  shows "\<exists>s'. sdsMakeRoomFor al s addlen = Inr s' \<and> sh_free s' < 0"
proof -
  have len: "sdslen s = length xs" "length xs < 2 ^ 31"
    using assms(1) sds_str_length [OF assms(1)] by (auto simp: sds_str_def sds_wf_len sds_wf_def)
  have "sds_newlen (sdslen s) addlen = length xs + addlen + SDS_MAX_PREALLOC"
    using sds_newlen_grown [of "sdslen s" addlen] len assms(3,4) by (simp add: sds_grown_def SDS_MAX_PREALLOC_def)
  moreover have "to_int32 (int (length xs + addlen + SDS_MAX_PREALLOC) - int (length xs)) < 0"
  proof -
    let ?x = "int addlen + int SDS_MAX_PREALLOC"
    have "(?x + 2 ^ 31) mod 2 ^ 32 = ?x - 2 ^ 31"
      using assms(3,4) mod_pos_pos_trivial [of "?x - 2 ^ 31" "2 ^ 32"] minus_mod_self2 [of "?x + 2 ^ 31" "2 ^ 32"]
      by (simp add: SDS_MAX_PREALLOC_def)
    then show ?thesis using assms(4) by (simp add: to_int32_def SDS_MAX_PREALLOC_def)
  qed
  ultimately show ?thesis
    using assms(2,4,5) len by (simp add: sdsMakeRoomFor_def Let_def SDS_MAX_PREALLOC_def)
qed

theorem sdsMakeRoomFor_wraps_witness:
  "\<exists>s'. sdsMakeRoomFor demo_al \<lparr>sh_len = 0, sh_free = 0, sh_buf = [0]\<rparr> (2 ^ 31 - 1) = Inr s' \<and> sh_free s' < 0"
  by (rule sdsMakeRoomFor_wraps [of _ "[]"])
     (simp_all add: sds_str_def sds_wf_def sds_content_def sdsavail_def SDS_MAX_PREALLOC_def to_size_t_def)

end
