(* ===== verification/Slice.thy ===== *)
theory Slice
  imports Xrtc_Prelude
begin

text \<open>
  \<open>rtc::Slice\<close> of \<open>rtc_base/slice.h\<close>: a pointer into external storage and a size. The model
  keeps the storage \<open>buffer_\<close> points to as a byte list and \<open>data_\<close> as an offset into it, so
  that reading past the storage is a fault. The header is compiled into the server, whose build
  does not define \<open>NDEBUG\<close>, so its assertions are checked.
\<close>

record slice =
  sl_buffer :: "byte list"
  sl_off :: nat
  sl_size :: nat

definition slice_empty :: slice where
  "slice_empty = \<lparr>sl_buffer = [0], sl_off = 0, sl_size = 0\<rparr>"

definition slice_of :: "byte list \<Rightarrow> nat \<Rightarrow> slice" where
  "slice_of d n = \<lparr>sl_buffer = d, sl_off = 0, sl_size = n\<rparr>"

definition slice_of_string :: "byte list \<Rightarrow> slice" where
  "slice_of_string s = \<lparr>sl_buffer = s @ [0], sl_off = 0, sl_size = length s\<rparr>"

text \<open>\<open>strlen\<close>: reads up to the first null; a fault when the storage has none.\<close>

fun c_strlen :: "byte list \<Rightarrow> nat res" where
  "c_strlen [] = Inl OutOfBounds"
| "c_strlen (b # bs) = (if b = 0 then Inr 0 else rbind (c_strlen bs) (\<lambda>n. Inr (Suc n)))"

definition slice_of_cstr :: "byte list \<Rightarrow> slice res" where
  "slice_of_cstr s = rbind (c_strlen s) (\<lambda>n. Inr \<lparr>sl_buffer = s, sl_off = 0, sl_size = n\<rparr>)"

text \<open>\<open>n\<close> bytes from \<open>data_\<close> on.\<close>

definition slice_read :: "slice \<Rightarrow> nat \<Rightarrow> byte list res" where
  "slice_read s n = (if sl_off s + n \<le> length (sl_buffer s)
     then Inr (take n (drop (sl_off s) (sl_buffer s))) else Inl OutOfBounds)"

definition slice_is_empty :: "slice \<Rightarrow> bool" where
  "slice_is_empty s \<longleftrightarrow> sl_size s = 0"

definition slice_nth :: "slice \<Rightarrow> nat \<Rightarrow> byte res" where
  "slice_nth s n = (if \<not> n < sl_size s then Inl AssertFail
     else if sl_off s + n < length (sl_buffer s) then Inr (sl_buffer s ! (sl_off s + n)) else Inl OutOfBounds)"

definition slice_clear :: "slice \<Rightarrow> slice" where
  "slice_clear s = \<lparr>sl_buffer = [0], sl_off = 0, sl_size = 0\<rparr>"

definition remove_prefix :: "slice \<Rightarrow> nat \<Rightarrow> slice res" where
  "remove_prefix s n = (if \<not> n \<le> sl_size s then Inl AssertFail
     else Inr (s\<lparr>sl_off := sl_off s + n, sl_size := sl_size s - n\<rparr>))"

definition slice_to_string :: "slice \<Rightarrow> byte list res" where
  "slice_to_string s = slice_read s (sl_size s)"

text \<open>The sign of \<open>memcmp\<close> on two byte strings of equal length.\<close>

fun memcmp :: "byte list \<Rightarrow> byte list \<Rightarrow> int" where
  "memcmp (x # xs) (y # ys) = (if x = y then memcmp xs ys else if unat x < unat y then -1 else 1)"
| "memcmp _ _ = 0"

definition starts_with :: "slice \<Rightarrow> slice \<Rightarrow> bool res" where
  "starts_with s x = (if sl_size s \<ge> sl_size x
     then rbind (slice_read s (sl_size x)) (\<lambda>a. rbind (slice_read x (sl_size x)) (\<lambda>b. Inr (memcmp a b = 0)))
     else Inr False)"

definition slice_eq :: "slice \<Rightarrow> slice \<Rightarrow> bool res" where
  "slice_eq x y = (if sl_size x = sl_size y
     then rbind (slice_read x (sl_size x)) (\<lambda>a. rbind (slice_read y (sl_size x)) (\<lambda>b. Inr (memcmp a b = 0)))
     else Inr False)"

text \<open>
  \<open>min_len\<close> is an \<open>int\<close>: the smaller size is truncated to 32 bits, and converted back to
  \<open>size_t\<close> as the argument of \<open>memcmp\<close>.
\<close>

definition slice_compare :: "slice \<Rightarrow> slice \<Rightarrow> int res" where
  "slice_compare s b =
     (let min_len = to_int32 (int (if sl_size s < sl_size b then sl_size s else sl_size b));
          n = nat (to_size_t min_len) in
      rbind (slice_read s n) (\<lambda>x. rbind (slice_read b n) (\<lambda>y.
      let r = memcmp x y in
      Inr (if r = 0 then (if sl_size s < sl_size b then -1 else if sl_size s > sl_size b then 1 else r) else r))))"

section \<open>Lemmas\<close>

definition slice_wf :: "slice \<Rightarrow> bool" where
  "slice_wf s \<longleftrightarrow> sl_off s + sl_size s \<le> length (sl_buffer s)"

definition slice_bytes :: "slice \<Rightarrow> byte list" where
  "slice_bytes s = take (sl_size s) (drop (sl_off s) (sl_buffer s))"

lemma length_slice_bytes [simp]: "slice_wf s \<Longrightarrow> length (slice_bytes s) = sl_size s"
  by (simp add: slice_wf_def slice_bytes_def)

lemma slice_read_wf: "slice_wf s \<Longrightarrow> n \<le> sl_size s \<Longrightarrow> slice_read s n = Inr (take n (slice_bytes s))"
  by (simp add: slice_wf_def slice_bytes_def slice_read_def min_def)

lemma memcmp_eq_0: "length xs = length ys \<Longrightarrow> memcmp xs ys = 0 \<longleftrightarrow> xs = ys"
  by (induction xs ys rule: list_induct2) auto

lemma memcmp_lexord:
  "length xs = length ys \<Longrightarrow> memcmp xs ys < 0 \<longleftrightarrow> (xs, ys) \<in> lexord {(x, y). unat x < unat y}"
  by (induction xs ys rule: list_induct2) auto

lemma slice_eq_iff: "slice_wf x \<Longrightarrow> slice_wf y \<Longrightarrow> slice_eq x y = Inr (slice_bytes x = slice_bytes y)"
  by (auto simp: slice_eq_def slice_read_wf memcmp_eq_0) (metis length_slice_bytes)

lemma starts_with_iff:
  "slice_wf s \<Longrightarrow> slice_wf x \<Longrightarrow> starts_with s x = Inr (\<exists>rest. slice_bytes s = slice_bytes x @ rest)"
proof -
  assume wf: "slice_wf s" "slice_wf x"
  let ?s = "slice_bytes s" and ?x = "slice_bytes x"
  have len: "length ?s = sl_size s" "length ?x = sl_size x" using wf by simp_all
  have "(\<exists>rest. ?s = ?x @ rest) \<longleftrightarrow> sl_size x \<le> sl_size s \<and> take (sl_size x) ?s = ?x"
    using len by (metis append_eq_conv_conj append_take_drop_id le_add1 length_append)
  then show ?thesis using wf len by (auto simp: starts_with_def slice_read_wf memcmp_eq_0 min_def)
qed

lemma slice_of_wf: "n \<le> length d \<Longrightarrow> slice_wf (slice_of d n) \<and> slice_bytes (slice_of d n) = take n d"
  by (simp add: slice_of_def slice_wf_def slice_bytes_def)

lemma remove_prefix_bytes:
  "slice_wf s \<Longrightarrow> n \<le> sl_size s \<Longrightarrow>
   \<exists>s'. remove_prefix s n = Inr s' \<and> slice_wf s' \<and> slice_bytes s' = drop n (slice_bytes s)"
  by (simp add: remove_prefix_def slice_wf_def slice_bytes_def drop_take add.commute)

lemma memcmp_take_lexord:
  assumes "length xs < length ys"
  shows "memcmp xs (take (length xs) ys) \<le> 0 \<longleftrightarrow> (xs, ys) \<in> lexord {(x, y). unat x < unat y}"
  using assms
proof (induction xs arbitrary: ys)
  case Nil
  then show ?case by (cases ys) auto
next
  case (Cons x xs)
  then show ?case by (cases ys) auto
qed

lemma byte_lexord_total:
  "xs \<noteq> ys \<Longrightarrow> (xs, ys) \<in> lexord {(x, y). unat x < unat (y :: byte)} \<or> (ys, xs) \<in> lexord {(x, y). unat x < unat y}"
  by (rule lexord_linear [of "{(x, y). unat x < unat (y :: byte)}" xs ys, THEN disjE])
    (auto simp: word_unat_eq_iff)

lemma byte_lexord_asym:
  "(xs, ys) \<in> lexord {(x, y). unat x < unat (y :: byte)} \<Longrightarrow> (ys, xs) \<notin> lexord {(x, y). unat x < unat y}"
  by (rule lexord_asymmetric) (auto intro: asymI)

lemma memcmp_swap: "memcmp ys xs = - memcmp xs ys"
  by (induction xs ys rule: memcmp.induct) (auto simp: word_unat_eq_iff split: if_splits)

text \<open>
  The contract the comment states: the sign of \<open>compare\<close> is the lexicographic order of the
  byte strings, as long as the shorter size fits the \<open>int\<close> it is stored in.
\<close>

lemma slice_compare_less:
  assumes wf: "slice_wf a" "slice_wf b" and small: "min (sl_size a) (sl_size b) < 2 ^ 31"
  shows "\<exists>r. slice_compare a b = Inr r \<and>
    (r < 0 \<longleftrightarrow> (slice_bytes a, slice_bytes b) \<in> lexord {(x, y). unat x < unat y}) \<and>
    (r = 0 \<longleftrightarrow> slice_bytes a = slice_bytes b)"
proof -
  let ?a = "slice_bytes a" and ?b = "slice_bytes b" and ?n = "min (sl_size a) (sl_size b)"
  have len: "length ?a = sl_size a" "length ?b = sl_size b" using wf by simp_all
  have n: "nat (to_size_t (to_int32 (int ?n))) = ?n" using small by simp
  have cmp: "slice_compare a b = Inr (let r = memcmp (take ?n ?a) (take ?n ?b) in
      if r = 0 then (if sl_size a < sl_size b then -1 else if sl_size a > sl_size b then 1 else r) else r)"
    using n wf by (auto simp: slice_compare_def slice_read_wf Let_def min_def split: if_splits)
  consider "sl_size a < sl_size b" | "sl_size a = sl_size b" | "sl_size b < sl_size a" by linarith
  then show ?thesis
  proof cases
    case 1
    then have "?a \<noteq> ?b" using len by auto
    with 1 len cmp memcmp_take_lexord [of ?a ?b] show ?thesis by (simp add: Let_def min_def) linarith
  next
    case 2
    with len cmp memcmp_lexord [of ?a ?b] memcmp_eq_0 [of ?a ?b] show ?thesis
      by (cases "?a = ?b") (auto simp: Let_def)
  next
    case 3
    then have "?a \<noteq> ?b" using len by auto
    moreover have "memcmp ?b (take (length ?b) ?a) \<le> 0 \<longleftrightarrow> (?b, ?a) \<in> lexord {(x, y). unat x < unat y}"
      using 3 len by (intro memcmp_take_lexord) simp
    moreover have "(?a, ?b) \<in> lexord {(x, y). unat x < unat y} \<longleftrightarrow>
        \<not> (?b, ?a) \<in> lexord {(x, y). unat x < unat y}"
      using \<open>?a \<noteq> ?b\<close> byte_lexord_total byte_lexord_asym by blast
    ultimately show ?thesis
      using 3 len cmp memcmp_swap [of ?b "take (sl_size b) ?a"] by (simp add: Let_def min_def) linarith
  qed
qed

section \<open>Properties\<close>

text \<open>
  On slices that lie inside their storage no access is out of bounds, equality and prefix
  tests are those of the byte strings, and as long as the shorter size fits an \<open>int\<close> the sign of
  \<open>compare\<close> is the lexicographic order of the byte strings, as its comment says.
\<close>

theorem slice_order:
  assumes "slice_wf a" "slice_wf b" "min (sl_size a) (sl_size b) < 2 ^ 31"
  shows "slice_eq a b = Inr (slice_bytes a = slice_bytes b) \<and>
    starts_with a b = Inr (\<exists>rest. slice_bytes a = slice_bytes b @ rest) \<and>
    (\<exists>r. slice_compare a b = Inr r \<and>
      (r < 0 \<longleftrightarrow> (slice_bytes a, slice_bytes b) \<in> lexord {(x, y). unat x < unat y}) \<and>
      (r = 0 \<longleftrightarrow> slice_bytes a = slice_bytes b))"
  using slice_eq_iff [OF assms(1,2)] starts_with_iff [OF assms(1,2)] slice_compare_less [OF assms] by simp

theorem slice_order_witness:
  "slice_eq (slice_of [1, 2] 2) (slice_of [1, 3] 1) = Inr False \<and>
   starts_with (slice_of [1, 2] 2) (slice_of [1, 3] 1) = Inr True \<and>
   (\<exists>r. slice_compare (slice_of [1, 2] 2) (slice_of [1, 3] 1) = Inr r \<and> \<not> r < 0 \<and> r \<noteq> 0)"
  using slice_order [of "slice_of [1, 2] 2" "slice_of [1, 3] 1"]
  by (simp add: slice_of_def slice_wf_def slice_bytes_def)

end
