(* ===== verification/Sds_Text.thy ===== *)
theory Sds_Text
  imports Sds Slice
begin

text \<open>
  The remaining operations of \<open>rtc_base/sds.cc\<close>: trimming, ranges, case, comparison, splitting,
  printing numbers, quoting a string and parsing a line of quoted arguments. A C string that is an
  argument is the list of its bytes before the terminating null.
\<close>

section \<open>Characters\<close>

text \<open>\<open>isspace\<close>, \<open>isprint\<close>, \<open>tolower\<close> and \<open>toupper\<close> of the C locale.\<close>

definition isspace :: "byte \<Rightarrow> bool" where
  "isspace c \<longleftrightarrow> c = 32 \<or> 9 \<le> c \<and> c \<le> 13"

definition isprint :: "byte \<Rightarrow> bool" where
  "isprint c \<longleftrightarrow> 32 \<le> c \<and> c \<le> 126"

definition c_tolower :: "byte \<Rightarrow> byte" where
  "c_tolower c = (if 65 \<le> c \<and> c \<le> 90 then c + 32 else c)"

definition c_toupper :: "byte \<Rightarrow> byte" where
  "c_toupper c = (if 97 \<le> c \<and> c \<le> 122 then c - 32 else c)"

definition is_hex_digit :: "byte \<Rightarrow> bool" where
  "is_hex_digit c \<longleftrightarrow> 48 \<le> c \<and> c \<le> 57 \<or> 97 \<le> c \<and> c \<le> 102 \<or> 65 \<le> c \<and> c \<le> 70"

definition hex_digit_to_int :: "byte \<Rightarrow> nat" where
  "hex_digit_to_int c =
     (if 48 \<le> c \<and> c \<le> 57 then unat (c - 48)
      else if 97 \<le> c \<and> c \<le> 102 then unat (c - 87)
      else if 65 \<le> c \<and> c \<le> 70 then unat (c - 55)
      else 0)"

text \<open>The value of \<open>*(p + i)\<close> for a pointer \<open>p\<close> into a C string of which \<open>ps\<close> is left, where \<open>i\<close> is at most the length.\<close>

definition at0 :: "byte list \<Rightarrow> nat \<Rightarrow> byte" where
  "at0 ps i = (if i < length ps then ps ! i else 0)"

section \<open>Operations on one string\<close>

definition sdsnew :: "allocator \<Rightarrow> byte list option \<Rightarrow> sdshdr res" where
  "sdsnew al init = sdsnewlen al (map_option (\<lambda>b. b @ [0]) init) (case init of None \<Rightarrow> 0 | Some b \<Rightarrow> length b)"

definition sdsupdatelen :: "sdshdr \<Rightarrow> sdshdr res" where
  "sdsupdatelen s = rbind (c_strlen (sh_buf s)) (\<lambda>n.
     let reallen = to_int32 (int n)
     in Inr (s\<lparr>sh_free := to_int32 (sh_free s + to_int32 (sh_len s - reallen)), sh_len := reallen\<rparr>))"

definition sdscat :: "allocator \<Rightarrow> sdshdr \<Rightarrow> byte list \<Rightarrow> sdshdr res" where
  "sdscat al s t = sdscatlen al s t"

definition sdscpy :: "allocator \<Rightarrow> sdshdr \<Rightarrow> byte list \<Rightarrow> sdshdr res" where
  "sdscpy al s t = sdscpylen al s t"

text \<open>
  \<open>sdscatvprintf\<close>: \<open>txt\<close> is the whole text that the format gives. \<open>vsnprintf\<close> stores as much of it as fits
  with a null behind it; the buffer is doubled until its last but one byte is not overwritten. When
  the size wraps to 0, the store of that byte is outside the block.
\<close>

function vprintf_buf :: "allocator \<Rightarrow> byte list \<Rightarrow> nat \<Rightarrow> byte list res" where
  "vprintf_buf al txt buflen =
     (if \<not> zalloc_ok al buflen then Inl OutOfMemory
      else if buflen < 2 then Inl OutOfBounds
      else if buflen - 2 < length txt \<and> txt ! (buflen - 2) \<noteq> 0
      then if 2 ^ 64 \<le> buflen * 2 then Inl OutOfBounds else vprintf_buf al txt (buflen * 2)
      else Inr (take (buflen - 1) txt))"
  by pat_completeness auto
termination by (relation "measure (\<lambda>(al, txt, n). length txt + 2 - n)") auto

definition sdscatvprintf :: "allocator \<Rightarrow> sdshdr \<Rightarrow> byte list \<Rightarrow> sdshdr res" where
  "sdscatvprintf al s txt = rbind (vprintf_buf al txt 16) (\<lambda>buf. sdscat al s (takeWhile (\<lambda>c. c \<noteq> 0) buf))"

text \<open>\<open>strchr(cset, c)\<close>, which also finds the null.\<close>

definition c_strchr :: "byte list \<Rightarrow> byte \<Rightarrow> bool" where
  "c_strchr cset c \<longleftrightarrow> c \<in> set cset \<or> c = 0"

text \<open>The index at which \<open>sp\<close> stops, with \<open>n\<close> characters left, and the one at which \<open>ep\<close> stops.\<close>

fun trim_left :: "byte list \<Rightarrow> byte list \<Rightarrow> nat \<Rightarrow> nat \<Rightarrow> nat" where
  "trim_left cset buf 0 sp = sp"
| "trim_left cset buf (Suc n) sp = (if c_strchr cset (buf ! sp) then trim_left cset buf n (Suc sp) else sp)"

fun trim_right :: "byte list \<Rightarrow> byte list \<Rightarrow> nat \<Rightarrow> nat" where
  "trim_right cset buf 0 = 0"
| "trim_right cset buf (Suc ep) = (if c_strchr cset (buf ! Suc ep) then trim_right cset buf ep else Suc ep)"

text \<open>The end of \<open>sdstrim\<close> and \<open>sdsrange\<close>: \<open>newlen\<close> bytes from \<open>start\<close> on become the string.\<close>

definition sds_shrink :: "sdshdr \<Rightarrow> nat \<Rightarrow> nat \<Rightarrow> sdshdr res" where
  "sds_shrink s start newlen =
     rbind (sds_write s 0 (take newlen (drop start (sh_buf s)))) (\<lambda>s1.
     rbind (put_nul s1 (int newlen)) (\<lambda>s2.
     Inr (s2\<lparr>sh_free := to_int32 (sh_free s + (sh_len s - int newlen)), sh_len := to_int32 (int newlen)\<rparr>)))"

definition sdstrim :: "sdshdr \<Rightarrow> byte list \<Rightarrow> sdshdr res" where
  "sdstrim s cset =
     (let l = sdslen s; buf = sh_buf s in
      if length buf < l then Inl OutOfBounds
      else let sp = trim_left cset buf l 0;
               len = (if l = 0 then 0 else let ep = trim_right cset buf (l - 1) in if sp > ep then 0 else ep - sp + 1)
           in sds_shrink s sp len)"

text \<open>The indices of \<open>sdsrange\<close>; all of them are \<open>int\<close>.\<close>

definition range_index :: "int \<Rightarrow> int \<Rightarrow> int" where
  "range_index len i = (if i < 0 then let j = to_int32 (len + i) in if j < 0 then 0 else j else i)"

definition sdsrange :: "sdshdr \<Rightarrow> int \<Rightarrow> int \<Rightarrow> sdshdr res" where
  "sdsrange s start end' =
     (let len = sdslen s in
      if len = 0 then Inr s
      else let st = range_index (int len) start; en = range_index (int len) end';
               newlen = (if st > en then 0 else en - st + 1);
               (st1, newlen1) =
                 (if newlen \<noteq> 0
                  then if st \<ge> to_int32 (int len) then (st, 0)
                       else if en \<ge> to_int32 (int len)
                       then let en1 = to_int32 (int len - 1) in (st, if st > en1 then 0 else en1 - st + 1)
                       else (st, newlen)
                  else (0, newlen))
           in sds_shrink s (if st1 \<noteq> 0 \<and> newlen1 \<noteq> 0 then nat st1 else 0) (nat newlen1))"

text \<open>A loop that changes each of the first \<open>n\<close> characters.\<close>

definition sds_each :: "(byte \<Rightarrow> byte) \<Rightarrow> int \<Rightarrow> sdshdr \<Rightarrow> sdshdr res" where
  "sds_each f n s = (if int (length (sh_buf s)) < n then Inl OutOfBounds
     else Inr (s\<lparr>sh_buf := map f (take (nat n) (sh_buf s)) @ drop (nat n) (sh_buf s)\<rparr>))"

definition sdstolower :: "sdshdr \<Rightarrow> sdshdr res" where
  "sdstolower s = sds_each c_tolower (to_int32 (int (sdslen s))) s"

definition sdstoupper :: "sdshdr \<Rightarrow> sdshdr res" where
  "sdstoupper s = sds_each c_toupper (to_int32 (int (sdslen s))) s"

text \<open>The inner loop of \<open>sdsmapchars\<close>: the first entry of the set that matches.\<close>

fun map_char :: "byte list \<Rightarrow> byte list \<Rightarrow> byte \<Rightarrow> byte" where
  "map_char (x # xs) (y # ys) c = (if c = x then y else map_char xs ys c)"
| "map_char _ _ c = c"

definition sdsmapchars :: "sdshdr \<Rightarrow> byte list \<Rightarrow> byte list \<Rightarrow> sdshdr res" where
  "sdsmapchars s cs ts = sds_each (map_char cs ts) (int (sdslen s)) s"

section \<open>Comparison, numbers and splitting\<close>

definition sdscmp :: "sdshdr \<Rightarrow> sdshdr \<Rightarrow> int res" where
  "sdscmp s1 s2 =
     (let l1 = sdslen s1; l2 = sdslen s2; minlen = (if l1 < l2 then l1 else l2)
      in if length (sh_buf s1) < minlen \<or> length (sh_buf s2) < minlen then Inl OutOfBounds
         else let cmp = memcmp (take minlen (sh_buf s1)) (take minlen (sh_buf s2))
              in Inr (if cmp = 0 then to_int32 (int l1 - int l2) else cmp))"

text \<open>The digits of \<open>v\<close>, stored from the end of the buffer on, in front of \<open>acc\<close>.\<close>

fun store_digits :: "nat \<Rightarrow> byte list \<Rightarrow> byte list" where
  "store_digits v acc =
     (let acc1 = (48 + of_nat (v mod 10)) # acc; v1 = v div 10 in if v1 \<noteq> 0 then store_digits v1 acc1 else acc1)"

definition sdsfromlonglong :: "allocator \<Rightarrow> int \<Rightarrow> sdshdr res" where
  "sdsfromlonglong al value =
     (let v = nat ((if value < 0 then - value else value) mod 2 ^ 64);
          ds = store_digits v []; p = (if value < 0 then 45 # ds else ds)
      in if 32 < length p then Inl OutOfBounds else sdsnewlen al (Some p) (length p))"

text \<open>
  The loop of \<open>sdssplitlen\<close> over \<open>j\<close>; \<open>toks\<close> are the tokens stored so far in an array of \<open>slots\<close>
  pointers. The result is where the last token starts, and the tokens. A store outside the array is
  a fault.
\<close>

definition sep_at :: "byte list \<Rightarrow> byte list \<Rightarrow> nat \<Rightarrow> bool" where
  "sep_at s sep j \<longleftrightarrow> length sep = 1 \<and> s ! j = sep ! 0 \<or> take (length sep) (drop j s) = sep"

function split_loop ::
    "allocator \<Rightarrow> byte list \<Rightarrow> byte list \<Rightarrow> nat \<Rightarrow> nat \<Rightarrow> nat \<Rightarrow> sdshdr list \<Rightarrow> (nat \<times> nat \<times> sdshdr list) res" where
  "split_loop al s sep j start slots toks =
     (if \<not> j + length sep \<le> length s then Inr (start, slots, toks)
      else let slots1 = (if slots < length toks + 2 then slots * 2 else slots)
           in if slots < length toks + 2 \<and> \<not> zalloc_ok al (8 * slots1) then Inl OutOfMemory
              else if sep \<noteq> [] \<and> sep_at s sep j
              then if slots1 \<le> length toks then Inl OutOfBounds
                   else case sdsnewlen al (Some (drop start s)) (j - start) of
                          Inl e \<Rightarrow> Inl e
                        | Inr t \<Rightarrow> split_loop al s sep (j + length sep) (j + length sep) slots1 (toks @ [t])
              else split_loop al s sep (j + 1) start slots1 toks)"
  by pat_completeness auto
termination
proof (relation "measure (\<lambda>(al, s, sep, j, start, slots, toks). length s + 1 - j)")
qed (auto simp: neq_Nil_conv)

text \<open>The result is the array of tokens, or \<open>NULL\<close>; its length is \<open>*count\<close>.\<close>

definition sdssplitlen :: "allocator \<Rightarrow> byte list \<Rightarrow> byte list \<Rightarrow> sdshdr list option res" where
  "sdssplitlen al s sep =
     (if length sep < 1 then Inr None
      else if \<not> zalloc_ok al (8 * 5) then Inl OutOfMemory
      else if s = [] then Inr (Some [])
      else rbind (split_loop al s sep 0 0 5 []) (\<lambda>(start, slots, toks).
           if slots \<le> length toks then Inl OutOfBounds
           else rbind (sdsnewlen al (Some (drop start s)) (length s - start)) (\<lambda>t. Inr (Some (toks @ [t])))))"

section \<open>Quoting and parsing\<close>

text \<open>One character of \<open>sdscatrepr\<close>; \<open>%02x\<close> prints two lower-case digits.\<close>

definition hex_char :: "nat \<Rightarrow> byte" where
  "hex_char n = (if n < 10 then of_nat (48 + n) else of_nat (87 + n))"

definition repr_char :: "allocator \<Rightarrow> sdshdr \<Rightarrow> byte \<Rightarrow> sdshdr res" where
  "repr_char al s c =
     (if c = 92 \<or> c = 34 then sdscatvprintf al s [92, c]
      else if c = 10 then sdscatlen al s [92, 110]
      else if c = 13 then sdscatlen al s [92, 114]
      else if c = 9 then sdscatlen al s [92, 116]
      else if c = 7 then sdscatlen al s [92, 97]
      else if c = 8 then sdscatlen al s [92, 98]
      else if isprint c then sdscatvprintf al s [c]
      else sdscatvprintf al s [92, 120, hex_char (unat c div 16), hex_char (unat c mod 16)])"

fun repr_loop :: "allocator \<Rightarrow> sdshdr \<Rightarrow> byte list \<Rightarrow> sdshdr res" where
  "repr_loop al s [] = Inr s"
| "repr_loop al s (c # cs) = rbind (repr_char al s c) (\<lambda>s1. repr_loop al s1 cs)"

definition sdscatrepr :: "allocator \<Rightarrow> sdshdr \<Rightarrow> byte list \<Rightarrow> sdshdr res" where
  "sdscatrepr al s p =
     rbind (sdscatlen al s [34]) (\<lambda>s1. rbind (repr_loop al s1 p) (\<lambda>s2. sdscatlen al s2 [34]))"

text \<open>The character that a backslash and \<open>c\<close> stand for.\<close>

definition unescape :: "byte \<Rightarrow> byte" where
  "unescape c = (if c = 110 then 10 else if c = 114 then 13 else if c = 116 then 9 else if c = 98 then 8
     else if c = 97 then 7 else c)"

lemma rbind_cong [fundef_cong]: "m = n \<Longrightarrow> (\<And>x. n = Inr x \<Longrightarrow> f x = g x) \<Longrightarrow> rbind m f = rbind n g"
  by (cases n) auto

text \<open>
  The inner loop of \<open>sdssplitargs\<close>: \<open>ps\<close> is what is left of the line. The result is the token and what
  is left behind it, or nothing when the code jumps to \<open>err\<close>.
\<close>

function token :: "allocator \<Rightarrow> bool \<Rightarrow> bool \<Rightarrow> sdshdr \<Rightarrow> byte list \<Rightarrow> (sdshdr \<times> byte list) option res" where
  "token al inq insq cur ps =
     (let c = at0 ps 0; d = at0 ps 1 in
      if inq
      then if c = 92 \<and> d = 120 \<and> is_hex_digit (at0 ps 2) \<and> is_hex_digit (at0 ps 3)
           then rbind (sdscatlen al cur [of_nat (hex_digit_to_int (at0 ps 2) * 16 + hex_digit_to_int (at0 ps 3))])
                  (\<lambda>cur. token al inq insq cur (drop 4 ps))
           else if c = 92 \<and> d \<noteq> 0
           then rbind (sdscatlen al cur [unescape d]) (\<lambda>cur. token al inq insq cur (drop 2 ps))
           else if c = 34 then if d \<noteq> 0 \<and> \<not> isspace d then Inr None else Inr (Some (cur, drop 1 ps))
           else if c = 0 then Inr None
           else rbind (sdscatlen al cur [c]) (\<lambda>cur. token al inq insq cur (drop 1 ps))
      else if insq
      then if c = 92 \<and> d = 39
           then rbind (sdscatlen al cur [39]) (\<lambda>cur. token al inq insq cur (drop 2 ps))
           else if c = 39 then if d \<noteq> 0 \<and> \<not> isspace d then Inr None else Inr (Some (cur, drop 1 ps))
           else if c = 0 then Inr None
           else rbind (sdscatlen al cur [c]) (\<lambda>cur. token al inq insq cur (drop 1 ps))
      else if c = 32 \<or> c = 10 \<or> c = 13 \<or> c = 9 \<or> c = 0 then Inr (Some (cur, drop 1 ps))
      else if c = 34 then token al True insq cur (drop 1 ps)
      else if c = 39 then token al inq True cur (drop 1 ps)
      else rbind (sdscatlen al cur [c]) (\<lambda>cur. token al inq insq cur (drop 1 ps)))"
  by pat_completeness auto
termination
  by (relation "measure (\<lambda>(al, inq, insq, cur, ps). length ps)") (auto simp: at0_def split: if_splits)

declare token.simps [simp del] store_digits.simps [simp del] split_loop.simps [simp del] vprintf_buf.simps [simp del]

lemma token_shorter: "token al inq insq cur ps = Inr (Some (t, rest)) \<Longrightarrow> length rest \<le> length ps - 1"
proof (induction "length ps" arbitrary: inq insq cur ps rule: less_induct)
  case less
  show ?case
  proof (cases ps)
    case Nil
    then show ?thesis using less.prems by (subst (asm) token.simps) (auto simp: at0_def Let_def split: if_splits)
  next
    case (Cons c cs)
    have r: "length rest \<le> length ps - 1" if "token al a b u (drop k ps) = Inr (Some (t, rest))" "0 < k" for a b u k
      using less.hyps [of "drop k ps" a b u] that Cons by simp
    note r1 = r [where k = 1, simplified] and r2 = r [where k = 2, simplified] and r4 = r [where k = 4, simplified]
    show ?thesis
      using less.prems unfolding token.simps [of al inq insq cur ps] Let_def
      by (auto split: if_split_asm dest: r1 r2 r4)
  qed
qed

text \<open>
  The outer loop, with the tokens in front. The result is \<open>*argc\<close> and the array, which is \<open>NULL\<close>
  when there are no tokens, and also after an error, where the loop that frees the tokens counts
  \<open>*argc\<close> down to -1.
\<close>

function split_args :: "allocator \<Rightarrow> sdshdr list \<Rightarrow> byte list \<Rightarrow> (int \<times> sdshdr list option) res" where
  "split_args al toks ps =
     (case dropWhile isspace ps of
        [] \<Rightarrow> Inr (int (length toks), if toks = [] then None else Some toks)
      | c # cs \<Rightarrow>
          rbind (sdsempty al) (\<lambda>cur.
          case token al False False cur (c # cs) of
            Inl e \<Rightarrow> Inl e
          | Inr None \<Rightarrow> Inr (-1, None)
          | Inr (Some (t, rest)) \<Rightarrow>
              if zalloc_ok al ((length toks + 1) * 8) then split_args al (toks @ [t]) rest else Inl OutOfMemory))"
  by pat_completeness auto
termination
proof (relation "measure (\<lambda>(al, toks, ps). length ps)")
  fix al :: allocator and toks :: "sdshdr list" and ps cs rest :: "byte list" and c and x cur y t
  assume a: "dropWhile isspace ps = c # cs" "token al False False cur (c # cs) = Inr x" "x = Some y" "(t, rest) = y"
  have "length (c # cs) \<le> length ps" unfolding a(1) [symmetric] by (rule length_dropWhile_le)
  moreover have "length rest \<le> length cs" using token_shorter [of al False False cur "c # cs" t rest] a by simp
  ultimately show "((al, toks @ [t], rest), al, toks, ps) \<in> measure (\<lambda>(al, toks, ps). length ps)" by simp
qed simp

definition sdssplitargs :: "allocator \<Rightarrow> byte list \<Rightarrow> (int \<times> sdshdr list option) res" where
  "sdssplitargs al line = split_args al [] line"

declare split_args.simps [simp del]

section \<open>Quoting and parsing are inverse\<close>

text \<open>The text that stands for one character.\<close>

definition repr1 :: "byte \<Rightarrow> byte list" where
  "repr1 c =
     (if c = 92 \<or> c = 34 then [92, c] else if c = 10 then [92, 110] else if c = 13 then [92, 114]
      else if c = 9 then [92, 116] else if c = 7 then [92, 97] else if c = 8 then [92, 98]
      else if isprint c then [c] else [92, 120, hex_char (unat c div 16), hex_char (unat c mod 16)])"

lemma hex_char_digit:
  assumes "n < 16"
  shows "is_hex_digit (hex_char n)" "hex_digit_to_int (hex_char n) = n" "hex_char n \<noteq> 0"
proof -
  have "list_all (\<lambda>n. is_hex_digit (hex_char n) \<and> hex_digit_to_int (hex_char n) = n \<and> hex_char n \<noteq> 0) [0..<16]" by code_simp
  then show "is_hex_digit (hex_char n)" "hex_digit_to_int (hex_char n) = n" "hex_char n \<noteq> 0"
    using assms by (simp_all add: list_all_iff)
qed

lemma hex_pair: "of_nat (unat c div 16 * 16 + unat c mod 16) = (c :: byte)"
  by (simp add: div_mult_mod_eq)

lemma unat_div_16: "unat (c :: byte) div 16 < 16"
  using unat_byte_less [of c] by (simp add: less_mult_imp_div_less)

lemma cat_str:
  assumes "mem_ok al" "sds_str s xs" "length xs + length t \<le> 2 ^ 30"
  shows "\<exists>s'. sdscatlen al s t = Inr s' \<and> sds_str s' (xs @ t)"
proof (rule sdscatlen_str [OF assms(2)])
  show "sds_grown (length xs + length t) < 2 ^ 31" using assms(3) by (simp add: sds_grown_def SDS_MAX_PREALLOC_def)
  then show "length t \<le> sdsavail s \<or> zalloc_ok al (8 + sds_grown (length xs + length t) + 1)"
    using assms(1) by (simp add: mem_ok_def)
qed

lemma printf_str:
  assumes "mem_ok al" "sds_str s xs" "length xs + length t \<le> 2 ^ 30" "0 \<notin> set t" "length t < 15"
  shows "\<exists>s'. sdscatvprintf al s t = Inr s' \<and> sds_str s' (xs @ t)"
proof -
  have "takeWhile (\<lambda>c. c \<noteq> 0) t = t" using assms(4) by (auto simp: takeWhile_eq_all_conv)
  moreover have "vprintf_buf al t 16 = Inr t"
    using assms(1,5) by (subst vprintf_buf.simps) (simp add: mem_ok_def)
  ultimately show ?thesis using cat_str [OF assms(1,2,3)] unfolding sdscatvprintf_def sdscat_def by (simp only: rbind.simps)
qed

lemma length_repr1: "length (repr1 c) \<le> 4"
  by (simp add: repr1_def)

lemma repr1_nonzero: "0 \<notin> set (repr1 c)"
  using hex_char_digit(3) [OF unat_div_16 [of c]] hex_char_digit(3) [of "unat c mod 16"]
  by (auto simp: repr1_def isprint_def)

lemma repr_char_str:
  assumes "mem_ok al" "sds_str s xs" "length xs + 4 \<le> 2 ^ 30"
  shows "\<exists>s'. repr_char al s c = Inr s' \<and> sds_str s' (xs @ repr1 c)"
proof -
  have "length xs + length (repr1 c) \<le> 2 ^ 30" "length (repr1 c) < 15" using assms(3) length_repr1 [of c] by simp_all
  with cat_str [OF assms(1,2)] printf_str [OF assms(1,2) _ repr1_nonzero [of c]]
  have "\<exists>s'. sdscatlen al s (repr1 c) = Inr s' \<and> sds_str s' (xs @ repr1 c)"
    "\<exists>s'. sdscatvprintf al s (repr1 c) = Inr s' \<and> sds_str s' (xs @ repr1 c)" by blast+
  moreover have "repr_char al s c = sdscatlen al s (repr1 c) \<or> repr_char al s c = sdscatvprintf al s (repr1 c)"
    by (simp add: repr_char_def repr1_def)
  ultimately show ?thesis by metis
qed

lemma repr_loop_str:
  assumes "mem_ok al" "sds_str s xs" "length xs + 4 * length cs \<le> 2 ^ 30"
  shows "\<exists>s'. repr_loop al s cs = Inr s' \<and> sds_str s' (xs @ concat (map repr1 cs))"
  using assms(2,3)
proof (induction cs arbitrary: s xs)
  case (Cons c cs)
  obtain s1 where "repr_char al s c = Inr s1" "sds_str s1 (xs @ repr1 c)"
    using repr_char_str [OF assms(1) Cons.prems(1), of c] Cons.prems(2) by auto
  moreover have "length (xs @ repr1 c) + 4 * length cs \<le> 2 ^ 30" using Cons.prems(2) length_repr1 [of c] by simp
  ultimately show ?case using Cons.IH [of s1 "xs @ repr1 c"] by simp
qed simp

lemma sdscatrepr_str:
  assumes "mem_ok al" "sds_str s xs" "length xs + 4 * length cs + 2 \<le> 2 ^ 30"
  shows "\<exists>s'. sdscatrepr al s cs = Inr s' \<and> sds_str s' (xs @ 34 # concat (map repr1 cs) @ [34])"
proof -
  have len: "length (concat (map repr1 cs)) \<le> 4 * length cs"
    by (induction cs) (use length_repr1 in \<open>auto simp: add_mono\<close>)
  obtain s1 where 1: "sdscatlen al s [34] = Inr s1" "sds_str s1 (xs @ [34])" using cat_str [OF assms(1,2), of "[34]"] assms(3) by auto
  obtain s2 where 2: "repr_loop al s1 cs = Inr s2" "sds_str s2 ((xs @ [34]) @ concat (map repr1 cs))"
    using repr_loop_str [OF assms(1) 1(2), of cs] assms(3) by auto
  show ?thesis using cat_str [OF assms(1) 2(2), of "[34]"] 1 2 assms(3) len by (simp add: sdscatrepr_def)
qed

text \<open>Inside quotes the parser takes the text of one character for that character.\<close>

lemma token_repr1:
  assumes "mem_ok al" "sds_str cur xs" "length xs + 1 \<le> 2 ^ 30"
  shows "\<exists>cur'. sds_str cur' (xs @ [c]) \<and> token al True insq cur (repr1 c @ rest) = token al True insq cur' rest"
proof -
  obtain cur' where 1: "sdscatlen al cur [c] = Inr cur'" "sds_str cur' (xs @ [c])" using cat_str [OF assms(1,2), of "[c]"] assms(3) by auto
  have h: "hex_digit_to_int (hex_char (unat c div 16)) = unat c div 16" "hex_digit_to_int (hex_char (unat c mod 16)) = unat c mod 16"
    "is_hex_digit (hex_char (unat c div 16))" "is_hex_digit (hex_char (unat c mod 16))"
    using hex_char_digit unat_div_16 by simp_all
  have "token al True insq cur (repr1 c @ rest) = token al True insq cur' rest"
  proof (cases "c = 92 \<or> c = 34 \<or> c = 10 \<or> c = 13 \<or> c = 9 \<or> c = 7 \<or> c = 8 \<or> isprint c")
    case True
    then show ?thesis
      using 1(1) by (subst token.simps) (auto simp: repr1_def at0_def Let_def unescape_def isprint_def)
  next
    case False
    then show ?thesis
      using 1(1) hex_pair [of c] by (subst token.simps) (auto simp: repr1_def at0_def Let_def h)
  qed
  then show ?thesis using 1(2) by blast
qed

lemma token_repr:
  assumes "mem_ok al" "sds_str cur xs" "length xs + length cs \<le> 2 ^ 30"
  shows "\<exists>cur'. token al True insq cur (concat (map repr1 cs) @ [34]) = Inr (Some (cur', [])) \<and> sds_str cur' (xs @ cs)"
  using assms(2,3)
proof (induction cs arbitrary: cur xs)
  case Nil
  then show ?case by (subst token.simps) (simp add: at0_def)
next
  case (Cons c cs)
  obtain c1 where "sds_str c1 (xs @ [c])"
    "token al True insq cur (repr1 c @ concat (map repr1 cs) @ [34]) = token al True insq c1 (concat (map repr1 cs) @ [34])"
    using token_repr1 [OF assms(1) Cons.prems(1)] Cons.prems(2) by fastforce
  then show ?case using Cons.IH [of c1 "xs @ [c]"] Cons.prems(2) by auto
qed

lemma splitargs_repr:
  assumes "mem_ok al" "length cs \<le> 2 ^ 30"
  shows "\<exists>t. sdssplitargs al (34 # concat (map repr1 cs) @ [34]) = Inr (1, Some [t]) \<and> sds_str t cs"
proof -
  let ?q = "concat (map repr1 cs) @ [34]"
  obtain e where e: "sdsempty al = Inr e" "sds_str e []" using sdsempty_str [of al] assms(1) by (auto simp: mem_ok_def)
  obtain t where t: "token al True False e ?q = Inr (Some (t, []))" "sds_str t cs" using token_repr [OF assms(1) e(2)] assms(2) by auto
  have "token al False False e (34 # ?q) = Inr (Some (t, []))" using t(1) by (subst token.simps) (simp add: at0_def)
  moreover have "split_args al [t] [] = Inr (1, Some [t])" by (simp add: split_args.simps)
  ultimately have "sdssplitargs al (34 # ?q) = Inr (1, Some [t])"
    using e(1) assms(1) unfolding sdssplitargs_def by (subst split_args.simps) (simp add: isspace_def mem_ok_def)
  with t(2) show ?thesis by auto
qed

section \<open>Cutting\<close>

lemma sds_shrink_str:
  assumes str: "sds_str s xs" and n: "start + n \<le> length xs"
  shows "\<exists>s'. sds_shrink s start n = Inr s' \<and> sds_str s' (take n (drop start xs))"
proof -
  have wf: "sds_wf s" and xs: "xs = take (nat (sh_len s)) (sh_buf s)" and lx: "length xs = nat (sh_len s)"
    using str sds_str_length [OF str] by (auto simp: sds_str_def sds_content_def)
  let ?t = "take n (drop start (sh_buf s))"
  have b: "length (sh_buf s) = nat (sh_len s) + nat (sh_free s) + 1" by (rule sds_wf_buf [OF wf])
  have t: "length ?t = n" "?t = take n (drop start xs)" using n lx b xs by (auto simp: drop_take min_def)
  let ?b = "(write_at (sh_buf s) 0 ?t)[n := 0]"
  have w: "n < length (sh_buf s)" "length (write_at (sh_buf s) 0 ?t) = length (sh_buf s)" "take n (write_at (sh_buf s) 0 ?t) = ?t"
    using n lx b take_write_at [of 0 ?t "sh_buf s"] t(1) by simp_all
  have r: "to_int32 (sh_free s + (sh_len s - int n)) = sh_free s + (sh_len s - int n)" "to_int32 (int n) = int n"
    using wf n lx by (auto simp: sds_wf_def intro!: to_int32_id)
  have "sds_shrink s start n = Inr \<lparr>sh_len = int n, sh_free = sh_free s + (sh_len s - int n), sh_buf = ?b\<rparr>"
    using w t(1) by (simp add: sds_shrink_def sds_write_def put_nul_def r)
  moreover have "sds_str \<lparr>sh_len = int n, sh_free = sh_free s + (sh_len s - int n), sh_buf = ?b\<rparr> (take n (drop start xs))"
    using wf w n lx t by (auto simp: sds_str_def sds_wf_def sds_content_def)
  ultimately show ?thesis by blast
qed

text \<open>What is left of a text when the characters of a set are cut off at both ends.\<close>

definition trimmed :: "byte list \<Rightarrow> byte list \<Rightarrow> byte list" where
  "trimmed cset xs = rev (dropWhile (c_strchr cset) (rev (dropWhile (c_strchr cset) xs)))"

lemma trim_left_eq:
  "sp + n \<le> length buf \<Longrightarrow> trim_left cset buf n sp = sp + length (takeWhile (c_strchr cset) (take n (drop sp buf)))"
proof (induction n arbitrary: sp)
  case (Suc n)
  then have "drop sp buf = buf ! sp # drop (Suc sp) buf" by (simp add: Cons_nth_drop_Suc)
  then show ?case using Suc by simp
qed simp

lemma trim_right_le: "trim_right cset buf n \<le> n"
  by (induction n) auto

lemma trim_right_stop:
  "(\<forall>i. trim_right cset buf n < i \<and> i \<le> n \<longrightarrow> c_strchr cset (buf ! i)) \<and>
   (trim_right cset buf n \<noteq> 0 \<longrightarrow> \<not> c_strchr cset (buf ! trim_right cset buf n))"
  by (induction n) (auto simp: le_Suc_eq)

lemma trimmed_between:
  assumes ab: "a \<le> b" "b < length xs" and l: "\<forall>i < a. P (xs ! i)" "\<not> P (xs ! a)" and r: "\<forall>i. b < i \<and> i < length xs \<longrightarrow> P (xs ! i)" "\<not> P (xs ! b)"
  shows "rev (dropWhile P (rev (dropWhile P xs))) = take (b - a + 1) (drop a xs)"
proof -
  have "dropWhile P (take a xs @ drop a xs) = drop a xs"
    using ab l by (subst dropWhile_append2) (auto simp: in_set_conv_nth dropWhile_eq_self_iff hd_drop_conv_nth)
  then have 1: "dropWhile P xs = drop a xs" by simp
  let ?m = "take (b - a + 1) (drop a xs)" and ?e = "drop (b + 1) xs"
  have e: "drop a xs = ?m @ ?e" using append_take_drop_id [of "b - a + 1" "drop a xs"] ab by simp
  have "last ?m = xs ! b" "?m \<noteq> []" using ab by (auto simp: last_conv_nth)
  then have "dropWhile P (rev ?e @ rev ?m) = rev ?m"
    using r by (subst dropWhile_append2) (auto simp: in_set_conv_nth dropWhile_eq_self_iff hd_rev)
  then show ?thesis by (metis 1 e rev_append rev_rev_ident)
qed

lemma sdstrim_str:
  assumes str: "sds_str s xs"
  shows "\<exists>s'. sdstrim s cset = Inr s' \<and> sds_str s' (trimmed cset xs)"
proof -
  have wf: "sds_wf s" and xs: "xs = take (nat (sh_len s)) (sh_buf s)" and lx: "length xs = sdslen s"
    using str sds_str_length [OF str] by (auto simp: sds_str_def sds_content_def sds_wf_len)
  have b: "sdslen s < length (sh_buf s)" using sds_wf_buf [OF wf] sds_wf_len [OF wf] by simp
  have nth: "sh_buf s ! i = xs ! i" if "i < sdslen s" for i using that xs sds_wf_len [OF wf] by simp
  have tk: "take (sdslen s) (sh_buf s) = xs" using xs sds_wf_len [OF wf] by simp
  define sp where "sp = trim_left cset (sh_buf s) (sdslen s) 0"
  have sp: "sp = length (takeWhile (c_strchr cset) xs)" using b trim_left_eq [of 0 "sdslen s" "sh_buf s" cset] tk by (simp add: sp_def)
  have left: "\<forall>i < sp. c_strchr cset (xs ! i)" unfolding sp by (metis nth_mem set_takeWhileD takeWhile_nth)
  show ?thesis
  proof (cases "sp = length xs")
    case True
    then have "trimmed cset xs = []"
      unfolding trimmed_def using left by (simp add: dropWhile_eq_Nil_conv [THEN iffD2] all_set_conv_all_nth)
    moreover have "sdslen s \<noteq> 0 \<Longrightarrow> trim_right cset (sh_buf s) (sdslen s - 1) < sp"
      using trim_right_le [of cset "sh_buf s" "sdslen s - 1"] True lx by simp
    ultimately show ?thesis using sds_shrink_str [OF str, of sp 0] True b by (auto simp: sdstrim_def Let_def sp_def [symmetric])
  next
    case False
    then have spl: "sp < length xs" unfolding sp by (simp add: le_neq_implies_less length_takeWhile_le)
    then have stop: "\<not> c_strchr cset (xs ! sp)" unfolding sp by (rule nth_length_takeWhile)
    define ep where "ep = trim_right cset (sh_buf s) (sdslen s - 1)"
    have epl: "ep \<le> length xs - 1" using trim_right_le lx by (simp add: ep_def)
    note ts = trim_right_stop [of cset "sh_buf s" "sdslen s - 1", folded ep_def]
    have right: "\<forall>i. ep < i \<and> i < length xs \<longrightarrow> c_strchr cset (xs ! i)"
    proof (intro allI impI)
      fix i assume i: "ep < i \<and> i < length xs"
      then have "c_strchr cset (sh_buf s ! i)" using ts lx by auto
      then show "c_strchr cset (xs ! i)" using nth i lx by simp
    qed
    then have le: "sp \<le> ep" using stop spl by (meson not_le_imp_less)
    have "\<not> c_strchr cset (xs ! ep)"
    proof (cases "ep = 0")
      case True
      then show ?thesis using le stop by simp
    next
      case False
      then show ?thesis using ts nth [of ep] epl lx spl by auto
    qed
    then have "trimmed cset xs = take (ep - sp + 1) (drop sp xs)"
      unfolding trimmed_def using trimmed_between [OF le _ left stop right] epl spl by simp
    moreover have "sdstrim s cset = sds_shrink s sp (ep - sp + 1)"
      unfolding sdstrim_def Let_def sp_def [symmetric] ep_def [symmetric] using le spl b lx by auto
    ultimately show ?thesis using sds_shrink_str [OF str, of sp "ep - sp + 1"] le epl spl by simp
  qed
qed

text \<open>
  A range counts negative indices from the end, includes its last index and is cut to the text.
\<close>

definition range_of :: "int \<Rightarrow> int \<Rightarrow> byte list \<Rightarrow> byte list" where
  "range_of i j xs =
     (let n = int (length xs);
          a = (if i < 0 then max 0 (n + i) else i);
          b = min (n - 1) (if j < 0 then max 0 (n + j) else j)
      in take (nat (b - a + 1)) (drop (nat a) xs))"

lemma sdsrange_str:
  assumes str: "sds_str s xs" and i: "- (2 ^ 31) \<le> i" and j: "- (2 ^ 31) \<le> j"
  shows "\<exists>s'. sdsrange s i j = Inr s' \<and> sds_str s' (range_of i j xs)"
proof (cases "xs = []")
  case True
  then show ?thesis using str sds_str_length [OF str] by (simp add: sdsrange_def range_of_def sds_str_def sds_wf_len)
next
  case False
  have wf: "sds_wf s" and lx: "length xs = sdslen s" using str sds_str_length [OF str] by (auto simp: sds_str_def sds_wf_len)
  define n where "n = int (length xs)"
  have n01: "0 < n" using False by (simp add: n_def)
  have n31: "n < 2 ^ 31" using wf sds_str_length [OF str] by (simp add: n_def sds_wf_def)
  have n: "0 < n" "n < 2 ^ 31" "to_int32 n = n" "to_int32 (n - 1) = n - 1" using n01 n31 by simp_all
  define a b where "a = (if i < 0 then max 0 (n + i) else i)" and "b = (if j < 0 then max 0 (n + j) else j)"
  have ri: "range_index n i = a" "range_index n j = b"
    using i j n by (auto simp: range_index_def a_def b_def Let_def)
  have ab: "0 \<le> a" "0 \<le> b" by (simp_all add: a_def b_def)
  have len: "int (sdslen s) = n" "sdslen s \<noteq> 0" using lx n01 by (simp_all add: n_def)
  note eq = sdsrange_def [of s i j, unfolded Let_def len(1) ri n(3,4)]
  have "\<exists>st m. sdsrange s i j = sds_shrink s st m \<and> st + m \<le> length xs \<and> take m (drop st xs) = range_of i j xs"
  proof (cases "a \<le> b \<and> a < n")
    case True
    let ?m = "nat (min (n - 1) b - a + 1)"
    have mb: "min (n - 1) b = (if b < n then b else n - 1)" by auto
    have "sdsrange s i j = sds_shrink s (if a \<noteq> 0 \<and> min (n - 1) b - a + 1 \<noteq> 0 then nat a else 0) ?m"
      using True len(2) mb by (cases "b < n") (simp_all add: eq)
    also have "(if a \<noteq> 0 \<and> min (n - 1) b - a + 1 \<noteq> 0 then nat a else 0) = nat a" using True by auto
    finally have 1: "sdsrange s i j = sds_shrink s (nat a) ?m" .
    have 2: "nat a + ?m \<le> length xs" using True ab n_def by linarith
    have 3: "take ?m (drop (nat a) xs) = range_of i j xs" by (simp add: range_of_def Let_def n_def a_def b_def)
    from 1 2 3 show ?thesis by blast
  next
    case c: False
    have "range_of i j xs = take (nat (min (n - 1) b - a + 1)) (drop (nat a) xs)" by (simp add: range_of_def Let_def n_def a_def b_def)
    moreover have "min (n - 1) b - a + 1 \<le> 0" using c by auto
    ultimately have "range_of i j xs = []" by simp
    moreover have "sdsrange s i j = sds_shrink s 0 0"
      using c len(2) by (cases "a \<le> b") (simp_all add: eq)
    ultimately show ?thesis by fastforce
  qed
  then show ?thesis using sds_shrink_str [OF str] by metis
qed

section \<open>Splitting\<close>

text \<open>The tokens with the separator between them.\<close>

fun join :: "byte list \<Rightarrow> byte list list \<Rightarrow> byte list" where
  "join sep [] = []"
| "join sep [t] = t"
| "join sep (t # ts) = t @ sep @ join sep ts"

lemma join_concat: "join sep (ts @ [t]) = concat (map (\<lambda>t. t @ sep) ts) @ t"
  by (induction sep ts rule: join.induct) auto

definition occurs :: "byte list \<Rightarrow> byte list \<Rightarrow> bool" where
  "occurs sep t \<longleftrightarrow> (\<exists>us vs. t = us @ sep @ vs)"

text \<open>
  What the loop keeps: the tokens so far, each with the separator behind it, are the text before
  \<open>start\<close>, and no separator begins between \<open>start\<close> and \<open>j\<close>.
\<close>

definition split_inv :: "byte list \<Rightarrow> byte list \<Rightarrow> nat \<Rightarrow> nat \<Rightarrow> byte list list \<Rightarrow> bool" where
  "split_inv s sep j start ts \<longleftrightarrow> start \<le> j \<and> start \<le> length s \<and> take start s = concat (map (\<lambda>t. t @ sep) ts) \<and>
     (\<forall>i. start \<le> i \<and> i < j \<longrightarrow> take (length sep) (drop i s) \<noteq> sep) \<and> (\<forall>t \<in> set ts. \<not> occurs sep t)"

lemma sep_at_eq:
  assumes "j + length sep \<le> length s"
  shows "sep_at s sep j \<longleftrightarrow> take (length sep) (drop j s) = sep"
proof -
  have "take (length sep) (drop j s) = sep" if "length sep = 1" "s ! j = sep ! 0"
  proof -
    have "drop j s = s ! j # drop (Suc j) s" using assms that(1) by (simp add: Cons_nth_drop_Suc)
    then show ?thesis using that by (cases sep) auto
  qed
  then show ?thesis by (auto simp: sep_at_def)
qed

lemma no_sep:
  assumes ns: "\<forall>i. start \<le> i \<and> i < j \<longrightarrow> take (length sep) (drop i s) \<noteq> sep" and m: "m < j + length sep" and ne: "sep \<noteq> []"
  shows "\<not> occurs sep (take (m - start) (drop start s))"
proof
  assume "occurs sep (take (m - start) (drop start s))"
  then obtain us vs where t: "take (m - start) (drop start s) = us @ sep @ vs" by (auto simp: occurs_def)
  let ?i = "start + length us"
  have l: "length us + length sep \<le> m - start" using arg_cong [OF t, of length] by simp
  have "drop (length us) (drop start s) = drop (length us) (us @ sep @ vs @ drop (m - start) (drop start s))"
    by (metis t append.assoc append_take_drop_id)
  then have "take (length sep) (drop ?i s) = sep" by (simp add: add.commute)
  moreover have "?i < j" using l m ne by (cases sep) auto
  ultimately show False using ns by (metis le_add1)
qed

lemma split_inv_count:
  assumes "split_inv s sep j start ts" "sep \<noteq> []"
  shows "length ts \<le> start"
proof -
  have "length ts \<le> length (concat (map (\<lambda>t. t @ sep) ts))"
  proof (induction ts)
    case (Cons t ts)
    have "1 \<le> length sep" using assms(2) by (cases sep) auto
    then show ?case using Cons by simp
  qed simp
  moreover have "length (concat (map (\<lambda>t. t @ sep) ts)) = start" using assms(1) by (metis split_inv_def length_take min.absorb2)
  ultimately show ?thesis by simp
qed

lemma split_inv_found:
  assumes inv: "split_inv s sep j start ts" and j: "j + length sep \<le> length s" and at: "take (length sep) (drop j s) = sep"
    and ne: "sep \<noteq> []"
  shows "split_inv s sep (j + length sep) (j + length sep) (ts @ [take (j - start) (drop start s)])"
proof -
  let ?t = "take (j - start) (drop start s)"
  have sj: "start \<le> j" "take start s = concat (map (\<lambda>t. t @ sep) ts)" "\<forall>t \<in> set ts. \<not> occurs sep t"
    and ns: "\<forall>i. start \<le> i \<and> i < j \<longrightarrow> take (length sep) (drop i s) \<noteq> sep" using inv by (auto simp: split_inv_def)
  have "take (j + length sep) s = take j s @ sep" using at by (simp add: take_add)
  moreover have "take j s = take start s @ ?t" using sj(1) by (metis le_add_diff_inverse take_add)
  moreover have "\<not> occurs sep ?t" using no_sep [OF ns _ ne, of j] ne by simp
  ultimately show ?thesis using sj j by (auto simp: split_inv_def)
qed

lemma split_loop_ok:
  assumes mem: "mem_ok al" and ne: "sep \<noteq> []" and big: "length s < 2 ^ 27"
    and "split_inv s sep j start ts" "list_all2 sds_str toks ts" "length toks < slots" "slots \<le> 2 * length s + 10"
  shows "\<exists>start' slots' toks' ts'. split_loop al s sep j start slots toks = Inr (start', slots', toks') \<and> length toks' < slots' \<and>
    list_all2 sds_str toks' ts' \<and> start' \<le> length s \<and> take start' s = concat (map (\<lambda>t. t @ sep) ts') \<and>
    (\<forall>t \<in> set ts'. \<not> occurs sep t) \<and> \<not> occurs sep (drop start' s)"
  using assms(4-7)
proof (induction "length s + 1 - j" arbitrary: j start slots toks ts rule: less_induct)
  case less
  note inv = less.prems(1)
  define slots1 where "slots1 = (if slots < length toks + 2 then slots * 2 else slots)"
  have lt: "length toks = length ts" "length ts \<le> length s"
    using less.prems(2) split_inv_count [OF inv ne] inv by (auto simp: list_all2_lengthD split_inv_def)
  have s1: "length toks + 1 < slots1" "slots1 \<le> 2 * length s + 10" "8 * slots1 < 2 ^ 32"
    using less.prems(3,4) lt big by (auto simp: slots1_def)
  show ?case
  proof (cases "j + length sep \<le> length s")
    case False
    have "\<not> occurs sep (take (length s - start) (drop start s))"
      using no_sep [of start j sep s "length s"] inv False ne by (simp add: split_inv_def)
    then show ?thesis
      using False less.prems inv by (subst split_loop.simps) (auto simp: split_inv_def intro!: exI [of _ ts])
  next
    case True
    have eq: "split_loop al s sep j start slots toks =
       (if sep_at s sep j
        then case sdsnewlen al (Some (drop start s)) (j - start) of Inl e \<Rightarrow> Inl e
             | Inr t \<Rightarrow> split_loop al s sep (j + length sep) (j + length sep) slots1 (toks @ [t])
        else split_loop al s sep (j + 1) start slots1 toks)"
    proof -
      have z: "zalloc_ok al (8 * slots1)" using mem s1(3) unfolding mem_ok_def by blast
      have "\<not> slots1 \<le> length toks" using s1(1) by simp
      then show ?thesis
        unfolding split_loop.simps [of al s sep j start slots toks] Let_def slots1_def [symmetric]
        by (simp only: True z ne not_True_eq_False not_False_eq_True simp_thms if_False if_True cong: if_cong)
    qed
    show ?thesis
    proof (cases "take (length sep) (drop j s) = sep")
      case found: True
      let ?t = "take (j - start) (drop start s)"
      have len: "length ?t = j - start" using inv True by (auto simp: split_inv_def)
      have "length ?t < 2 ^ 31 - 1" "zalloc_ok al (8 + length ?t + 1)" using len True big mem by (auto simp: mem_ok_def)
      from sdsnewlen_str [OF this, of "drop (j - start) (drop start s)"] obtain t where
        t: "sdsnewlen al (Some (drop start s)) (j - start) = Inr t" "sds_str t ?t" using len by (metis append_take_drop_id)
      have "length s + 1 - (j + length sep) < length s + 1 - j" using True ne by (cases sep) auto
      from less.hyps [OF this split_inv_found [OF inv True found ne], of "toks @ [t]" slots1] show ?thesis
        using eq t less.prems(2) s1 sep_at_eq [OF True] found by (simp add: list_all2_appendI)
    next
      case nf: False
      have "split_inv s sep (j + 1) start ts" using inv nf by (auto simp: split_inv_def less_Suc_eq)
      moreover have "length s + 1 - (j + 1) < length s + 1 - j" using True by simp
      ultimately show ?thesis
        using less.hyps [of "j + 1" start ts toks slots1] eq less.prems(2) s1 sep_at_eq [OF True] nf by simp
    qed
  qed
qed

lemma sdssplitlen_join:
  assumes "mem_ok al" "sep \<noteq> []" "s \<noteq> []" "length s < 2 ^ 27"
  shows "\<exists>toks ts. sdssplitlen al s sep = Inr (Some toks) \<and> list_all2 sds_str toks ts \<and> join sep ts = s \<and> (\<forall>t \<in> set ts. \<not> occurs sep t)"
proof -
  have "split_inv s sep 0 0 []" by (simp add: split_inv_def)
  from split_loop_ok [OF assms(1,2,4) this, of "[]" 5] obtain start slots toks ts where
    1: "split_loop al s sep 0 0 5 [] = Inr (start, slots, toks)" "length toks < slots" "list_all2 sds_str toks ts" "start \<le> length s"
      "take start s = concat (map (\<lambda>t. t @ sep) ts)" "\<forall>t \<in> set ts. \<not> occurs sep t" "\<not> occurs sep (drop start s)" by auto
  obtain t where t: "sdsnewlen al (Some (drop start s)) (length s - start) = Inr t" "sds_str t (drop start s)"
  proof -
    have "length (drop start s) < 2 ^ 31 - 1" "zalloc_ok al (8 + length (drop start s) + 1)" using assms(1,4) by (simp_all add: mem_ok_def)
    from sdsnewlen_str [OF this, of "[]"] show ?thesis using that by auto
  qed
  have "join sep (ts @ [drop start s]) = s" unfolding join_concat 1(5) [symmetric] by simp
  moreover have "list_all2 sds_str (toks @ [t]) (ts @ [drop start s])" using 1(3) t(2) by (simp add: list_all2_appendI)
  moreover have "sdssplitlen al s sep = Inr (Some (toks @ [t]))"
    using assms 1(1,2) t(1) by (cases sep) (auto simp: sdssplitlen_def mem_ok_def)
  ultimately show ?thesis using 1(6,7) by (intro exI [of _ "toks @ [t]"] exI [of _ "ts @ [drop start s]"]) auto
qed

section \<open>Printing numbers\<close>

definition dec_value :: "byte list \<Rightarrow> nat" where
  "dec_value ds = foldl (\<lambda>v d. 10 * v + unat (d - 48)) 0 ds"

lemma store_digits_value: "\<exists>ds. store_digits v acc = ds @ acc \<and> dec_value ds = v \<and> (\<forall>d \<in> set ds. 48 \<le> d \<and> d \<le> 57) \<and> ds \<noteq> []"
proof (induction v acc rule: store_digits.induct)
  case (1 v acc)
  let ?d = "48 + of_nat (v mod 10) :: byte"
  have m: "v mod 10 \<in> {0, 1, 2, 3, 4, 5, 6, 7, 8, 9}" by (simp; presburger)
  then have d: "unat (?d - 48) = v mod 10" "48 \<le> ?d" "?d \<le> 57" by auto
  show ?case
  proof (cases "v div 10 = 0")
    case True
    then show ?thesis using d by (subst store_digits.simps) (auto simp: dec_value_def intro!: exI [of _ "[?d]"])
  next
    case False
    then obtain ds where ds: "store_digits (v div 10) (?d # acc) = ds @ ?d # acc" "dec_value ds = v div 10" "\<forall>d \<in> set ds. 48 \<le> d \<and> d \<le> 57"
      using 1 [OF refl refl] by auto
    have "dec_value (ds @ [?d]) = v" using ds(2) d(1) by (simp add: dec_value_def)
    then show ?thesis using False ds d by (subst store_digits.simps) (auto simp: Let_def intro!: exI [of _ "ds @ [?d]"])
  qed
qed

lemma store_digits_length: "v < 10 ^ Suc k \<Longrightarrow> length (store_digits v acc) \<le> Suc k + length acc"
proof (induction k arbitrary: v acc)
  case 0
  then show ?case by (subst store_digits.simps) simp
next
  case (Suc k)
  have "v div 10 < 10 ^ Suc k" using Suc.prems by (simp add: less_mult_imp_div_less)
  from Suc.IH [OF this, of "(48 + of_nat (v mod 10)) # acc"] show ?case by (subst store_digits.simps) (simp add: Let_def)
qed

text \<open>The number that a text with an optional minus sign stands for.\<close>

definition int_value :: "byte list \<Rightarrow> int" where
  "int_value ds = (case ds of d # ds' \<Rightarrow> if d = 45 then - int (dec_value ds') else int (dec_value ds) | [] \<Rightarrow> 0)"

lemma sdsfromlonglong_str:
  assumes "mem_ok al" "- (2 ^ 63) \<le> value" "value < 2 ^ 63"
  shows "\<exists>s ds. sdsfromlonglong al value = Inr s \<and> sds_str s ds \<and> int_value ds = value"
proof -
  define v where "v = nat (if value < 0 then - value else value)"
  have v: "nat ((if value < 0 then - value else value) mod 2 ^ 64) = v" using assms(2,3) by (simp add: v_def)
  obtain ds where ds: "store_digits v [] = ds" "dec_value ds = v" "\<forall>d \<in> set ds. 48 \<le> d \<and> d \<le> 57" "ds \<noteq> []"
    using store_digits_value [of v "[]"] by auto
  have "v \<le> 2 ^ 63" using assms(2,3) by (simp add: v_def nat_le_iff)
  then have "v < 10 ^ Suc 18" by simp
  then have len: "length ds \<le> 19" using store_digits_length [of v 18 "[]"] ds(1) by simp
  define p where "p = (if value < 0 then 45 # ds else ds)"
  have pl: "length p \<le> 20" using len by (simp add: p_def)
  have "sdsfromlonglong al value = sdsnewlen al (Some p) (length p)"
    using pl unfolding sdsfromlonglong_def Let_def v ds(1) p_def [symmetric] by simp
  moreover obtain s where "sdsnewlen al (Some p) (length p) = Inr s" "sds_str s p"
    using sdsnewlen_str [of p al "[]"] assms(1) pl by (auto simp: mem_ok_def)
  moreover have "int_value p = value"
  proof (cases "value < 0")
    case True
    then show ?thesis using ds(2) by (simp add: p_def int_value_def v_def)
  next
    case False
    obtain d r where "ds = d # r" using ds(4) by (cases ds) auto
    moreover have "d \<noteq> 45" using ds(3) calculation by auto
    ultimately show ?thesis using False ds(2) by (simp add: p_def int_value_def v_def)
  qed
  ultimately show ?thesis by auto
qed

section \<open>Properties\<close>

lemma demo_al_mem [simp]: "mem_ok demo_al"
  by (simp add: mem_ok_def)

text \<open>
  C38: quoting and parsing are inverse, as the comment of \<open>sdssplitargs\<close> says: whatever the bytes of
  a string are, the text that \<open>sdscatrepr\<close> appends to an empty string has no null byte and is
  parsed by \<open>sdssplitargs\<close> as exactly one argument, which is that string again.
\<close>

theorem sds_quote_roundtrip:
  assumes "mem_ok al" "length cs \<le> 2 ^ 27" "sdsempty al = Inr e"
  shows "\<exists>s text t. sdscatrepr al e cs = Inr s \<and> sds_str s text \<and> 0 \<notin> set text \<and>
    sdssplitargs al text = Inr (1, Some [t]) \<and> sds_str t cs"
proof -
  let ?q = "34 # concat (map repr1 cs) @ [34]"
  have "sds_str e []" using sdsempty_str [of al] assms(1,3) by (simp add: mem_ok_def)
  then obtain s where "sdscatrepr al e cs = Inr s" "sds_str s ?q" using sdscatrepr_str [OF assms(1), of e "[]" cs] assms(2) by auto
  moreover have "0 \<notin> set ?q" using repr1_nonzero by auto
  ultimately show ?thesis using splitargs_repr [OF assms(1), of cs] assms(2) by fastforce
qed

theorem sds_quote_roundtrip_witness:
  "\<exists>e s text t. sdsempty demo_al = Inr e \<and> sdscatrepr demo_al e [0, 34, 65, 255] = Inr s \<and> sds_str s text \<and> 0 \<notin> set text \<and>
    sdssplitargs demo_al text = Inr (1, Some [t]) \<and> sds_str t [0, 34, 65, 255]"
proof -
  obtain e where "sdsempty demo_al = Inr e" using sdsempty_str [of demo_al] by auto
  then show ?thesis using sds_quote_roundtrip [OF demo_al_mem _ \<open>sdsempty demo_al = Inr e\<close>, of "[0, 34, 65, 255]"] by auto
qed

text \<open>
  Splitting. \<open>sdssplitlen\<close> never writes outside its growing array of tokens; the tokens with the
  separator between them are the text again, and no token contains the separator.
\<close>

theorem sds_split_join:
  assumes "mem_ok al" "sep \<noteq> []" "s \<noteq> []" "length s < 2 ^ 27"
  shows "\<exists>toks ts. sdssplitlen al s sep = Inr (Some toks) \<and> list_all2 sds_str toks ts \<and> join sep ts = s \<and>
    (\<forall>t \<in> set ts. \<not> occurs sep t)"
  by (rule sdssplitlen_join [OF assms])

theorem sds_split_join_witness:
  "\<exists>toks ts. sdssplitlen demo_al [1, 9, 9, 2, 9] [9] = Inr (Some toks) \<and> list_all2 sds_str toks ts \<and> join [9] ts = [1, 9, 9, 2, 9]"
  using sds_split_join [OF demo_al_mem, of "[9]" "[1, 9, 9, 2, 9]"] by auto

text \<open>
  Trimming, ranges and numbers. On a well-formed string \<open>sdstrim\<close> cuts the characters of the set (and nulls) off at both
  ends, \<open>sdsrange\<close> keeps the bytes between two indices that may count from the end, both without an access
  outside the block, and \<open>sdsfromlonglong\<close> prints every 64-bit number in decimal, the
  smallest one included.
\<close>

theorem sds_text_ops:
  assumes "sds_str s xs" "- (2 ^ 31) \<le> i" "- (2 ^ 31) \<le> j" "mem_ok al" "- (2 ^ 63) \<le> value" "value < 2 ^ 63"
  shows "(\<exists>s'. sdstrim s cset = Inr s' \<and> sds_str s' (trimmed cset xs)) \<and>
    (\<exists>s'. sdsrange s i j = Inr s' \<and> sds_str s' (range_of i j xs)) \<and>
    (\<exists>s' ds. sdsfromlonglong al value = Inr s' \<and> sds_str s' ds \<and> int_value ds = value)"
  using sdstrim_str [OF assms(1)] sdsrange_str [OF assms(1,2,3)] sdsfromlonglong_str [OF assms(4,5,6)] by blast

theorem sds_text_ops_witness:
  "(\<exists>s'. sdstrim \<lparr>sh_len = 3, sh_free = 0, sh_buf = [32, 7, 32, 0]\<rparr> [32] = Inr s' \<and> sds_str s' [7]) \<and>
   (\<exists>s'. sdsrange \<lparr>sh_len = 3, sh_free = 0, sh_buf = [32, 7, 32, 0]\<rparr> (- 2) 100 = Inr s' \<and> sds_str s' [7, 32]) \<and>
   (\<exists>s' ds. sdsfromlonglong demo_al (- (2 ^ 63)) = Inr s' \<and> sds_str s' ds \<and> int_value ds = - (2 ^ 63))"
proof -
  let ?s = "\<lparr>sh_len = 3, sh_free = 0, sh_buf = [32, 7, 32, 0]\<rparr>"
  have "sds_str ?s [32, 7, 32]" by (simp add: sds_str_def sds_wf_def sds_content_def)
  from sds_text_ops [OF this _ _ demo_al_mem, of "- 2" 100 "- (2 ^ 63)" "[32]"] show ?thesis
    by (simp add: trimmed_def c_strchr_def range_of_def)
qed

end
