(* ===== verification/Buffer.thy ===== *)
theory Buffer
  imports Xrtc_Prelude
begin

text \<open>
  The growable buffer of the base library (\<open>rtc_base/buffer.h\<close>), for one-byte elements: an owned
  block, its capacity, and the number of elements in use. \<open>z\<close> is the template argument \<open>ZeroOnFree\<close>.
  The bytes of a block that \<open>new\<close> returns are an argument; \<open>b_freed\<close> records the content of every
  block at the moment it is given back.
\<close>

section \<open>The buffer\<close>

record buffer =
  b_size :: nat
  b_capacity :: nat
  b_data :: "byte list option"
  b_freed :: "byte list list"

definition IsConsistent :: "buffer \<Rightarrow> bool" where
  "IsConsistent b \<longleftrightarrow> (b_data b \<noteq> None \<or> b_capacity b = 0) \<and> b_capacity b \<ge> b_size b"

definition BufferT0 :: buffer where
  "BufferT0 = \<lparr>b_size = 0, b_capacity = 0, b_data = None, b_freed = []\<rparr>"

definition BufferT :: "(nat \<Rightarrow> byte) \<Rightarrow> nat \<Rightarrow> nat \<Rightarrow> buffer" where
  "BufferT junk sz cap =
     (let c = max sz cap
      in \<lparr>b_size = sz, b_capacity = c, b_data = (if c > 0 then Some (map junk [0..<c]) else None), b_freed = []\<rparr>)"

text \<open>\<open>memcpy\<close> into the block, and out of it.\<close>

definition buf_write :: "nat \<Rightarrow> byte list \<Rightarrow> buffer \<Rightarrow> buffer res" where
  "buf_write off bs b =
     (case b_data b of
        None \<Rightarrow> if bs = [] then Inr b else Inl NullDeref
      | Some d \<Rightarrow> if off + length bs \<le> length d then Inr (b\<lparr>b_data := Some (write_at d off bs)\<rparr>) else Inl OutOfBounds)"

definition buf_read :: "buffer \<Rightarrow> nat \<Rightarrow> byte list res" where
  "buf_read b n =
     (case b_data b of
        None \<Rightarrow> if n = 0 then Inr [] else Inl NullDeref
      | Some d \<Rightarrow> if n \<le> length d then Inr (take n d) else Inl OutOfBounds)"

definition BufferT_copy :: "(nat \<Rightarrow> byte) \<Rightarrow> byte list \<Rightarrow> nat \<Rightarrow> buffer res" where
  "BufferT_copy junk bs cap = buf_write 0 bs (BufferT junk (length bs) cap)"

definition MaybeZeroCompleteBuffer :: "bool \<Rightarrow> buffer \<Rightarrow> buffer res" where
  "MaybeZeroCompleteBuffer z b =
     (if z \<and> b_capacity b > 0 then buf_write 0 (replicate (b_capacity b) 0) b else Inr b)"

definition ZeroTrailingData :: "nat \<Rightarrow> buffer \<Rightarrow> buffer res" where
  "ZeroTrailingData count b = buf_write (b_size b) (replicate count 0) b"

text \<open>The block is given back to the allocator.\<close>

definition release :: "buffer \<Rightarrow> buffer" where
  "release b = (case b_data b of None \<Rightarrow> b | Some d \<Rightarrow> b\<lparr>b_data := None, b_freed := b_freed b @ [d]\<rparr>)"

definition EnsureCapacityWithHeadroom :: "bool \<Rightarrow> (nat \<Rightarrow> byte) \<Rightarrow> nat \<Rightarrow> bool \<Rightarrow> buffer \<Rightarrow> buffer res" where
  "EnsureCapacityWithHeadroom z junk cap extra_headroom b =
     (if cap \<le> b_capacity b then Inr b
      else let new_capacity = (if extra_headroom then max cap ((b_capacity b + b_capacity b div 2) mod 2 ^ 64) else cap);
               new_data = map junk [0..<new_capacity]
           in rbind (if b_data b \<noteq> None then buf_read b (b_size b) else Inr []) (\<lambda>old.
              if length old \<le> new_capacity
              then rbind (MaybeZeroCompleteBuffer z b) (\<lambda>b1.
                Inr ((release b1)\<lparr>b_data := Some (write_at new_data 0 old), b_capacity := new_capacity\<rparr>))
              else Inl OutOfBounds))"

definition AppendData :: "bool \<Rightarrow> (nat \<Rightarrow> byte) \<Rightarrow> byte list \<Rightarrow> buffer \<Rightarrow> buffer res" where
  "AppendData z junk bs b =
     (let new_size = (b_size b + length bs) mod 2 ^ 64
      in rbind (EnsureCapacityWithHeadroom z junk new_size True b) (\<lambda>b1.
         rbind (buf_write (b_size b1) bs b1) (\<lambda>b2. Inr (b2\<lparr>b_size := new_size\<rparr>))))"

definition SetData :: "bool \<Rightarrow> (nat \<Rightarrow> byte) \<Rightarrow> byte list \<Rightarrow> buffer \<Rightarrow> buffer res" where
  "SetData z junk bs b =
     (let old_size = b_size b
      in rbind (AppendData z junk bs (b\<lparr>b_size := 0\<rparr>)) (\<lambda>b1.
         if z \<and> b_size b1 < old_size then ZeroTrailingData (old_size - b_size b1) b1 else Inr b1))"

definition SetSize :: "bool \<Rightarrow> (nat \<Rightarrow> byte) \<Rightarrow> nat \<Rightarrow> buffer \<Rightarrow> buffer res" where
  "SetSize z junk sz b =
     (let old_size = b_size b
      in rbind (EnsureCapacityWithHeadroom z junk sz True b) (\<lambda>b1.
         let b2 = b1\<lparr>b_size := sz\<rparr>
         in if z \<and> b_size b2 < old_size then ZeroTrailingData (old_size - b_size b2) b2 else Inr b2))"

text \<open>
  The variants with a \<open>setter\<close>, which gets the new part of the buffer and returns what it made of it
  and how many elements it wrote.
\<close>

definition AppendData_setter :: "bool \<Rightarrow> (nat \<Rightarrow> byte) \<Rightarrow> nat \<Rightarrow> (byte list \<Rightarrow> byte list \<times> nat) \<Rightarrow> buffer \<Rightarrow> (buffer \<times> nat) res" where
  "AppendData_setter z junk max_elements setter b =
     (let old_size = b_size b
      in rbind (SetSize z junk ((old_size + max_elements) mod 2 ^ 64) b) (\<lambda>b1.
         rbind (buf_read b1 (old_size + max_elements)) (\<lambda>bs.
           let (view, written) = setter (drop old_size bs)
           in if length view \<noteq> max_elements then Inl OutOfBounds
              else rbind (buf_write old_size view b1) (\<lambda>b2.
                if written \<le> max_elements then Inr (b2\<lparr>b_size := old_size + written\<rparr>, written) else Inl AssertFail))))"

definition SetData_setter :: "bool \<Rightarrow> (nat \<Rightarrow> byte) \<Rightarrow> nat \<Rightarrow> (byte list \<Rightarrow> byte list \<times> nat) \<Rightarrow> buffer \<Rightarrow> (buffer \<times> nat) res" where
  "SetData_setter z junk max_elements setter b =
     (let old_size = b_size b
      in rbind (AppendData_setter z junk max_elements setter (b\<lparr>b_size := 0\<rparr>)) (\<lambda>(b1, written).
         if z \<and> b_size b1 < old_size then rbind (ZeroTrailingData (old_size - b_size b1) b1) (\<lambda>b2. Inr (b2, written))
         else Inr (b1, written)))"

definition EnsureCapacity :: "bool \<Rightarrow> (nat \<Rightarrow> byte) \<Rightarrow> nat \<Rightarrow> buffer \<Rightarrow> buffer res" where
  "EnsureCapacity z junk cap b = EnsureCapacityWithHeadroom z junk cap False b"

definition Clear :: "bool \<Rightarrow> buffer \<Rightarrow> buffer res" where
  "Clear z b = rbind (MaybeZeroCompleteBuffer z b) (\<lambda>b1. Inr (b1\<lparr>b_size := 0\<rparr>))"

definition buf_eq :: "buffer \<Rightarrow> buffer \<Rightarrow> bool res" where
  "buf_eq a b =
     (if b_size a \<noteq> b_size b then Inr False
      else rbind (buf_read a (b_size a)) (\<lambda>x. rbind (buf_read b (b_size a)) (\<lambda>y. Inr (x = y))))"

text \<open>Moving: the source is left as \<open>OnMovedFrom\<close> leaves it, \<open>dcheck\<close> saying whether the checks are on.\<close>

definition OnMovedFrom :: "bool \<Rightarrow> buffer \<Rightarrow> buffer" where
  "OnMovedFrom dcheck b = b\<lparr>b_size := (if dcheck then 1 else 0), b_capacity := 0\<rparr>"

definition buf_move :: "bool \<Rightarrow> buffer \<Rightarrow> buffer \<times> buffer" where
  "buf_move dcheck b = (b\<lparr>b_freed := []\<rparr>, OnMovedFrom dcheck (b\<lparr>b_data := None\<rparr>))"

definition buf_assign :: "bool \<Rightarrow> bool \<Rightarrow> buffer \<Rightarrow> buffer \<Rightarrow> (buffer \<times> buffer) res" where
  "buf_assign z dcheck a b =
     rbind (MaybeZeroCompleteBuffer z a) (\<lambda>a1.
       Inr ((release a1)\<lparr>b_size := b_size b, b_capacity := b_capacity b, b_data := b_data b\<rparr>,
            OnMovedFrom dcheck (b\<lparr>b_data := None\<rparr>)))"

definition buf_swap :: "buffer \<Rightarrow> buffer \<Rightarrow> buffer \<times> buffer" where
  "buf_swap a b =
     (a\<lparr>b_size := b_size b, b_capacity := b_capacity b, b_data := b_data b\<rparr>,
      b\<lparr>b_size := b_size a, b_capacity := b_capacity a, b_data := b_data a\<rparr>)"

definition buf_destroy :: "bool \<Rightarrow> buffer \<Rightarrow> buffer res" where
  "buf_destroy z b = rbind (MaybeZeroCompleteBuffer z b) (\<lambda>b1. Inr (release b1))"

section \<open>What a buffer stands for\<close>

definition buf_ok :: "buffer \<Rightarrow> bool" where
  "buf_ok b \<longleftrightarrow> IsConsistent b \<and> (\<forall>d. b_data b = Some d \<longrightarrow> length d = b_capacity b)"

definition content :: "buffer \<Rightarrow> byte list" where
  "content b = (case b_data b of None \<Rightarrow> [] | Some d \<Rightarrow> take (b_size b) d)"

text \<open>With \<open>ZeroOnFree\<close>, no block was given back that was not cleared.\<close>

definition wiped :: "bool \<Rightarrow> buffer \<Rightarrow> bool" where
  "wiped z b \<longleftrightarrow> (z \<longrightarrow> (\<forall>d \<in> set (b_freed b). set d \<subseteq> {0}))"

lemma length_content: "buf_ok b \<Longrightarrow> length (content b) = b_size b"
  by (auto simp: buf_ok_def IsConsistent_def content_def split: option.splits)

lemma buf_write_ok:
  assumes "buf_ok b" "off + length bs \<le> b_capacity b"
  shows "\<exists>b'. buf_write off bs b = Inr b' \<and> buf_ok b' \<and> b_size b' = b_size b \<and> b_capacity b' = b_capacity b \<and> b_freed b' = b_freed b \<and>
    b_data b' = map_option (\<lambda>d. write_at d off bs) (b_data b)"
  using assms by (cases "b_data b") (auto simp: buf_write_def buf_ok_def IsConsistent_def)

lemma buf_read_ok: "buf_ok b \<Longrightarrow> n \<le> b_capacity b \<Longrightarrow> buf_read b n = Inr (case b_data b of None \<Rightarrow> [] | Some d \<Rightarrow> take n d)"
  by (cases "b_data b") (auto simp: buf_read_def buf_ok_def IsConsistent_def)

lemma zero_ok:
  assumes "buf_ok b"
  shows "\<exists>b'. MaybeZeroCompleteBuffer z b = Inr b' \<and> buf_ok b' \<and> b_size b' = b_size b \<and> b_capacity b' = b_capacity b \<and> b_freed b' = b_freed b \<and>
    (\<forall>d. b_data b' = Some d \<and> z \<longrightarrow> set d \<subseteq> {0}) \<and> (b_data b' = None \<longleftrightarrow> b_data b = None)"
proof (cases "z \<and> b_capacity b > 0")
  case True
  from buf_write_ok [OF assms, of 0 "replicate (b_capacity b) 0"] obtain b' where
    b': "buf_write 0 (replicate (b_capacity b) 0) b = Inr b'" "buf_ok b'" "b_size b' = b_size b" "b_capacity b' = b_capacity b" "b_freed b' = b_freed b"
      "b_data b' = map_option (\<lambda>d. write_at d 0 (replicate (b_capacity b) 0)) (b_data b)" by auto
  have "length d = b_capacity b" if "b_data b = Some d" for d using assms that by (simp add: buf_ok_def)
  then show ?thesis using b' True by (auto simp: MaybeZeroCompleteBuffer_def write_at_def)
next
  case False
  then show ?thesis using assms by (auto simp: MaybeZeroCompleteBuffer_def buf_ok_def IsConsistent_def)
qed

lemma ensure_ok:
  assumes ok: "buf_ok b" and w: "wiped z b"
  shows "\<exists>b'. EnsureCapacityWithHeadroom z junk cap x b = Inr b' \<and> buf_ok b' \<and> wiped z b' \<and> b_size b' = b_size b \<and> cap \<le> b_capacity b' \<and>
    b_capacity b \<le> b_capacity b' \<and> content b' = content b"
proof (cases "cap \<le> b_capacity b")
  case True
  then show ?thesis using assms by (simp add: EnsureCapacityWithHeadroom_def)
next
  case False
  define nc where "nc = (if x then max cap ((b_capacity b + b_capacity b div 2) mod 2 ^ 64) else cap)"
  have nc: "cap \<le> nc" "b_capacity b \<le> nc" "b_size b \<le> nc" using False ok by (auto simp: nc_def buf_ok_def IsConsistent_def)
  have old: "(if b_data b \<noteq> None then buf_read b (b_size b) else Inr []) = Inr (content b)"
    using ok buf_read_ok [OF ok, of "b_size b"] by (auto simp: content_def buf_ok_def IsConsistent_def)
  obtain b1 where b1: "MaybeZeroCompleteBuffer z b = Inr b1" "b_freed b1 = b_freed b" "\<forall>d. b_data b1 = Some d \<and> z \<longrightarrow> set d \<subseteq> {0}" "b_size b1 = b_size b"
    using zero_ok [OF ok, of z] by blast
  have lc: "length (content b) = b_size b" by (rule length_content [OF ok])
  let ?b = "(release b1)\<lparr>b_data := Some (write_at (map junk [0..<nc]) 0 (content b)), b_capacity := nc\<rparr>"
  have "EnsureCapacityWithHeadroom z junk cap x b = Inr ?b"
    unfolding EnsureCapacityWithHeadroom_def Let_def nc_def [symmetric] old using False b1(1) lc nc(3) by simp
  moreover have s: "b_size ?b = b_size b" using b1(4) by (simp add: release_def split: option.split)
  moreover have "buf_ok ?b" using nc lc s by (simp add: buf_ok_def IsConsistent_def)
  moreover have "content ?b = content b" using s lc by (simp add: content_def write_at_def)
  moreover have "wiped z ?b" using w b1(2,3) by (auto simp: wiped_def release_def split: option.splits)
  ultimately show ?thesis using nc by (intro exI [of _ ?b]) simp
qed

text \<open>What the operations do to the content; where the buffer grows, the new bytes are arbitrary.\<close>

lemma buf_write_at:
  assumes ok: "buf_ok b" and "b_size b + length bs \<le> b_capacity b" and sz: "n = b_size b + length bs"
  shows "\<exists>b'. buf_write (b_size b) bs b = Inr b' \<and> buf_ok (b'\<lparr>b_size := n\<rparr>) \<and> content (b'\<lparr>b_size := n\<rparr>) = content b @ bs \<and>
    b_freed b' = b_freed b \<and> b_capacity b' = b_capacity b"
proof -
  from buf_write_ok [OF ok assms(2)] obtain b' where b': "buf_write (b_size b) bs b = Inr b'" "buf_ok b'" "b_size b' = b_size b"
    "b_capacity b' = b_capacity b" "b_freed b' = b_freed b" "b_data b' = map_option (\<lambda>d. write_at d (b_size b) bs) (b_data b)" by blast
  have "content (b'\<lparr>b_size := n\<rparr>) = content b @ bs"
    using b'(6) ok assms(2) sz by (auto simp: content_def buf_ok_def IsConsistent_def write_at_def split: option.splits)
  moreover have "buf_ok (b'\<lparr>b_size := n\<rparr>)" using b'(2,4) assms(2) sz by (auto simp: buf_ok_def IsConsistent_def)
  ultimately show ?thesis using b' by auto
qed

lemma AppendData_ok:
  assumes ok: "buf_ok b" and w: "wiped z b" and sz: "b_size b + length bs < 2 ^ 64"
  shows "\<exists>b'. AppendData z junk bs b = Inr b' \<and> buf_ok b' \<and> wiped z b' \<and> content b' = content b @ bs \<and> b_capacity b \<le> b_capacity b'"
proof -
  from ensure_ok [OF ok w, of junk "b_size b + length bs" True] obtain b1 where
    b1: "EnsureCapacityWithHeadroom z junk (b_size b + length bs) True b = Inr b1" "buf_ok b1" "wiped z b1" "b_size b1 = b_size b"
      "b_size b + length bs \<le> b_capacity b1" "b_capacity b \<le> b_capacity b1" "content b1 = content b" by blast
  have le: "b_size b1 + length bs \<le> b_capacity b1" "b_size b + length bs = b_size b1 + length bs" using b1(4,5) by simp_all
  from buf_write_at [OF b1(2) le] obtain b2 where
    b2: "buf_write (b_size b1) bs b1 = Inr b2" "buf_ok (b2\<lparr>b_size := b_size b + length bs\<rparr>)"
      "content (b2\<lparr>b_size := b_size b + length bs\<rparr>) = content b1 @ bs" "b_freed b2 = b_freed b1" "b_capacity b2 = b_capacity b1" by blast
  have m: "(b_size b + length bs) mod 2 ^ 64 = b_size b + length bs" using sz by simp
  let ?b = "b2\<lparr>b_size := b_size b + length bs\<rparr>"
  have "AppendData z junk bs b = Inr ?b" unfolding AppendData_def Let_def m using b1(1) b2(1) by simp
  moreover have "wiped z ?b" using b1(3) b2(4) by (simp add: wiped_def)
  ultimately show ?thesis using b1(6,7) b2(2,3,5) by (intro exI [of _ ?b]) simp
qed

lemma zero_trailing_ok:
  assumes ok: "buf_ok b" and "b_size b + n \<le> b_capacity b"
  shows "\<exists>b'. ZeroTrailingData n b = Inr b' \<and> buf_ok b' \<and> b_freed b' = b_freed b \<and> content b' = content b \<and> b_size b' = b_size b \<and>
    b_capacity b' = b_capacity b \<and> (\<forall>d. b_data b' = Some d \<longrightarrow> set (take n (drop (b_size b) d)) \<subseteq> {0})"
proof -
  from buf_write_ok [OF ok, of "b_size b" "replicate n 0"] assms(2) obtain b' where
    b': "buf_write (b_size b) (replicate n 0) b = Inr b'" "buf_ok b'" "b_size b' = b_size b" "b_capacity b' = b_capacity b" "b_freed b' = b_freed b"
      "b_data b' = map_option (\<lambda>d. write_at d (b_size b) (replicate n 0)) (b_data b)" by auto
  have "content b' = content b" using b'(3,6) ok assms(2) by (auto simp: content_def buf_ok_def write_at_def split: option.splits)
  moreover have "set (take n (drop (b_size b) d)) \<subseteq> {0}" if "b_data b' = Some d" for d
    using that b'(6) ok assms(2) by (auto simp: buf_ok_def IsConsistent_def write_at_def)
  ultimately show ?thesis using b' by (auto simp: ZeroTrailingData_def)
qed

text \<open>The bytes behind the content that an earlier, longer content may have left.\<close>

definition tail_wiped :: "bool \<Rightarrow> nat \<Rightarrow> buffer \<Rightarrow> bool" where
  "tail_wiped z old b \<longleftrightarrow> (z \<and> b_size b < old \<longrightarrow> (\<forall>d. b_data b = Some d \<longrightarrow> set (take (old - b_size b) (drop (b_size b) d)) \<subseteq> {0}))"

lemma shrink_ok:
  assumes ok: "buf_ok b" and w: "wiped z b" and "old \<le> b_capacity b"
  shows "\<exists>b'. (if z \<and> b_size b < old then ZeroTrailingData (old - b_size b) b else Inr b) = Inr b' \<and> buf_ok b' \<and> wiped z b' \<and>
    content b' = content b \<and> tail_wiped z old b' \<and> b_capacity b' = b_capacity b"
proof (cases "z \<and> b_size b < old")
  case True
  then have "b_size b + (old - b_size b) \<le> b_capacity b" using assms(3) by simp
  from zero_trailing_ok [OF ok this] True w show ?thesis by (auto simp: wiped_def tail_wiped_def)
qed (use assms in \<open>auto simp: tail_wiped_def\<close>)

lemma buf_ok_shrink: "buf_ok b \<Longrightarrow> n \<le> b_capacity b \<Longrightarrow> buf_ok (b\<lparr>b_size := n\<rparr>)"
  by (simp add: buf_ok_def IsConsistent_def)

lemma SetData_ok:
  assumes ok: "buf_ok b" and w: "wiped z b" and sz: "length bs < 2 ^ 64"
  shows "\<exists>b'. SetData z junk bs b = Inr b' \<and> buf_ok b' \<and> wiped z b' \<and> content b' = bs \<and> tail_wiped z (b_size b) b'"
proof -
  have "buf_ok (b\<lparr>b_size := 0\<rparr>)" "wiped z (b\<lparr>b_size := 0\<rparr>)" "content (b\<lparr>b_size := 0\<rparr>) = []"
    using ok w by (auto simp: buf_ok_shrink wiped_def content_def split: option.split)
  from AppendData_ok [OF this(1,2), of bs junk] sz this(3) obtain b1 where
    b1: "AppendData z junk bs (b\<lparr>b_size := 0\<rparr>) = Inr b1" "buf_ok b1" "wiped z b1" "content b1 = bs" "b_capacity b \<le> b_capacity b1" by auto
  have "b_size b \<le> b_capacity b1" using ok b1(5) by (simp add: buf_ok_def IsConsistent_def)
  from shrink_ok [OF b1(2,3) this] b1(1,4) show ?thesis by (auto simp: SetData_def)
qed

lemma SetSize_ok:
  assumes ok: "buf_ok b" and w: "wiped z b"
  shows "\<exists>b'. SetSize z junk sz b = Inr b' \<and> buf_ok b' \<and> wiped z b' \<and> length (content b') = sz \<and>
    take (min sz (b_size b)) (content b') = take sz (content b) \<and> tail_wiped z (b_size b) b' \<and> b_capacity b \<le> b_capacity b'"
proof -
  from ensure_ok [OF ok w, of junk sz True] obtain b1 where
    b1: "EnsureCapacityWithHeadroom z junk sz True b = Inr b1" "buf_ok b1" "wiped z b1" "b_size b1 = b_size b"
      "sz \<le> b_capacity b1" "b_capacity b \<le> b_capacity b1" "content b1 = content b" by blast
  let ?b = "b1\<lparr>b_size := sz\<rparr>"
  have k: "buf_ok ?b" "wiped z ?b" using buf_ok_shrink [OF b1(2,5)] b1(3) by (auto simp: wiped_def)
  have c: "take (min sz (b_size b)) (content ?b) = take sz (content b)"
    using b1(4) b1(7) [symmetric] by (auto simp: content_def min_def split: option.split)
  have "b_size b \<le> b_capacity ?b" using ok b1(6) by (simp add: buf_ok_def IsConsistent_def)
  from shrink_ok [OF k this] b1(1,6) c length_content [OF k(1)] show ?thesis by (auto simp: SetSize_def Let_def)
qed

lemma Clear_ok:
  assumes ok: "buf_ok b" and w: "wiped z b"
  shows "\<exists>b'. Clear z b = Inr b' \<and> buf_ok b' \<and> wiped z b' \<and> content b' = [] \<and> (\<forall>d. b_data b' = Some d \<and> z \<longrightarrow> set d \<subseteq> {0})"
proof -
  from zero_ok [OF ok, of z] obtain b1 where b1: "MaybeZeroCompleteBuffer z b = Inr b1" "buf_ok b1" "b_freed b1 = b_freed b"
    "\<forall>d. b_data b1 = Some d \<and> z \<longrightarrow> set d \<subseteq> {0}" by blast
  then show ?thesis using w buf_ok_shrink [OF b1(2), of 0] by (auto simp: Clear_def wiped_def content_def split: option.split)
qed

lemma buf_destroy_ok:
  assumes ok: "buf_ok b" and w: "wiped z b"
  shows "\<exists>b'. buf_destroy z b = Inr b' \<and> wiped z b' \<and> b_data b' = None"
proof -
  from zero_ok [OF ok, of z] obtain b1 where b1: "MaybeZeroCompleteBuffer z b = Inr b1" "b_freed b1 = b_freed b"
    "\<forall>d. b_data b1 = Some d \<and> z \<longrightarrow> set d \<subseteq> {0}" by blast
  then show ?thesis using w by (auto simp: buf_destroy_def wiped_def release_def split: option.split)
qed

lemma AppendData_setter_ok:
  assumes ok: "buf_ok b" and w: "wiped z b" and sz: "b_size b + n < 2 ^ 64" and f: "\<And>xs. length (fst (f xs)) = n" "\<And>xs. snd (f xs) \<le> n"
  shows "\<exists>b' xs. AppendData_setter z junk n f b = Inr (b', snd (f xs)) \<and> buf_ok b' \<and> wiped z b' \<and> length xs = n \<and>
    content b' = content b @ take (snd (f xs)) (fst (f xs)) \<and> b_capacity b \<le> b_capacity b'"
proof -
  have m: "(b_size b + n) mod 2 ^ 64 = b_size b + n" using sz by simp
  from SetSize_ok [OF ok w, of junk "b_size b + n"] obtain b1 where
    b1: "SetSize z junk (b_size b + n) b = Inr b1" "buf_ok b1" "wiped z b1" "length (content b1) = b_size b + n"
      "take (b_size b) (content b1) = content b" "b_capacity b \<le> b_capacity b1" using length_content [OF ok] by (auto simp: min_absorb2)
  have s1: "b_size b1 = b_size b + n" using b1(4) length_content [OF b1(2)] by simp
  then have c1: "b_size b + n \<le> b_capacity b1" using b1(2) by (simp add: buf_ok_def IsConsistent_def)
  have rd: "buf_read b1 (b_size b + n) = Inr (content b1)" using buf_read_ok [OF b1(2) c1] s1 by (simp add: content_def split: option.split)
  define xs where "xs = drop (b_size b) (content b1)"
  let ?b = "b1\<lparr>b_size := b_size b\<rparr>"
  have ok1: "buf_ok ?b" by (rule buf_ok_shrink [OF b1(2)]) (use c1 in simp)
  have cb: "content ?b = content b" using b1(5) s1 by (auto simp: content_def split: option.splits)
  have le: "b_size b + length (fst (f xs)) \<le> b_capacity b1" using c1 f(1) by simp
  from buf_write_ok [OF b1(2) le] obtain b2 where b2: "buf_write (b_size b) (fst (f xs)) b1 = Inr b2" "buf_ok b2" "b_freed b2 = b_freed b1"
    "b_capacity b2 = b_capacity b1" "b_data b2 = map_option (\<lambda>d. write_at d (b_size b) (fst (f xs))) (b_data b1)" by blast
  let ?b2 = "b2\<lparr>b_size := b_size b + snd (f xs)\<rparr>"
  have "AppendData_setter z junk n f b = Inr (?b2, snd (f xs))"
    unfolding AppendData_setter_def Let_def m using b1(1) rd b2(1) f by (simp add: xs_def [symmetric] split_def)
  moreover have "content ?b2 = content b @ take (snd (f xs)) (fst (f xs))"
  proof (cases "b_data b1")
    case None
    then show ?thesis using c1 b1(2) cb b2(5) f by (simp add: content_def buf_ok_def IsConsistent_def)
  next
    case (Some d)
    then have "length d = b_capacity b1" "take (b_size b) d = content b" using b1(2) cb by (auto simp: buf_ok_def content_def)
    then have "b_data b2 = Some (content b @ fst (f xs) @ drop (b_size b + n) d)" using b2(5) Some f(1) by (simp add: write_at_def)
    then have "content ?b2 = take (b_size b + snd (f xs)) (content b @ fst (f xs) @ drop (b_size b + n) d)" by (subst content_def) simp
    then show ?thesis using length_content [OF ok] f(1) [of xs] f(2) [of xs] by simp
  qed
  moreover have "b_size b + snd (f xs) \<le> b_capacity b2" using b2(4) c1 f(2) [of xs] by linarith
  then have "buf_ok ?b2" by (rule buf_ok_shrink [OF b2(2)])
  moreover have "wiped z ?b2" using b1(3) b2(3) by (simp add: wiped_def)
  moreover have "length xs = n" using b1(4) by (simp add: xs_def)
  moreover have "b_capacity b \<le> b_capacity ?b2" using b1(6) b2(4) by simp
  ultimately show ?thesis by blast
qed

lemma SetData_setter_ok:
  assumes ok: "buf_ok b" and w: "wiped z b" and sz: "n < 2 ^ 64" and f: "\<And>xs. length (fst (f xs)) = n" "\<And>xs. snd (f xs) \<le> n"
  shows "\<exists>b' xs. SetData_setter z junk n f b = Inr (b', snd (f xs)) \<and> buf_ok b' \<and> wiped z b' \<and> length xs = n \<and>
    content b' = take (snd (f xs)) (fst (f xs)) \<and> tail_wiped z (b_size b) b'"
proof -
  have "buf_ok (b\<lparr>b_size := 0\<rparr>)" "wiped z (b\<lparr>b_size := 0\<rparr>)" "content (b\<lparr>b_size := 0\<rparr>) = []"
    using ok w by (auto simp: buf_ok_shrink wiped_def content_def split: option.split)
  from AppendData_setter_ok [OF this(1,2), of n f junk] f sz this(3) obtain b1 xs where
    b1: "AppendData_setter z junk n f (b\<lparr>b_size := 0\<rparr>) = Inr (b1, snd (f xs))" "buf_ok b1" "wiped z b1" "length xs = n"
      "content b1 = take (snd (f xs)) (fst (f xs))" "b_capacity b \<le> b_capacity b1" by auto
  have "b_size b \<le> b_capacity b1" using ok b1(6) by (simp add: buf_ok_def IsConsistent_def)
  from shrink_ok [OF b1(2,3) this] obtain b2 where
    b2: "(if z \<and> b_size b1 < b_size b then ZeroTrailingData (b_size b - b_size b1) b1 else Inr b1) = Inr b2" "buf_ok b2" "wiped z b2"
      "content b2 = content b1" "tail_wiped z (b_size b) b2" by blast
  have "SetData_setter z junk n f b = Inr (b2, snd (f xs))"
    using b1(1) b2(1) by (auto simp: SetData_setter_def Let_def split: if_splits)
  then show ?thesis using b1(4,5) b2 by auto
qed

section \<open>Moving, assigning and swapping\<close>

text \<open>
  What is left of a buffer that was moved from: nothing that owns memory. With the checks on it is
  inconsistent on purpose; \<open>Clear\<close>, assignment and the destructor do not ask for consistency.
\<close>

definition moved_from :: "bool \<Rightarrow> buffer \<Rightarrow> bool" where
  "moved_from dcheck b \<longleftrightarrow> b_data b = None \<and> b_capacity b = 0 \<and> b_size b = (if dcheck then 1 else 0)"

lemma moved_from_consistent: "moved_from dcheck b \<Longrightarrow> IsConsistent b \<longleftrightarrow> \<not> dcheck"
  by (simp add: moved_from_def IsConsistent_def)

lemma moved_from_reusable:
  assumes "moved_from dcheck m"
  shows "\<exists>m'. Clear z m = Inr m' \<and> buf_ok m' \<and> content m' = [] \<and> b_freed m' = b_freed m"
    and "buf_destroy z m = Inr m"
  using assms
  by (auto simp: moved_from_def Clear_def buf_destroy_def MaybeZeroCompleteBuffer_def buf_ok_def IsConsistent_def content_def release_def)

lemma buf_move_ok:
  assumes "buf_ok b"
  shows "buf_ok (fst (buf_move dc b))" "content (fst (buf_move dc b)) = content b" "wiped z (fst (buf_move dc b))"
    "moved_from dc (snd (buf_move dc b))"
  using assms
  by (simp_all add: buf_move_def OnMovedFrom_def moved_from_def buf_ok_def IsConsistent_def content_def wiped_def cong: option.case_cong)

lemma buf_assign_ok:
  assumes a: "buf_ok a \<or> moved_from dc a" and w: "wiped z a" and b: "buf_ok b"
  shows "\<exists>a' b'. buf_assign z dc a b = Inr (a', b') \<and> buf_ok a' \<and> wiped z a' \<and> content a' = content b \<and> moved_from dc b'"
proof -
  obtain a1 where a1: "MaybeZeroCompleteBuffer z a = Inr a1" "b_freed a1 = b_freed a" "\<forall>d. b_data a1 = Some d \<and> z \<longrightarrow> set d \<subseteq> {0}"
    using a zero_ok [of a z] by (auto simp: MaybeZeroCompleteBuffer_def moved_from_def)
  let ?a = "(release a1)\<lparr>b_size := b_size b, b_capacity := b_capacity b, b_data := b_data b\<rparr>"
  have "buf_ok ?a" "content ?a = content b" using b by (simp_all add: buf_ok_def IsConsistent_def content_def cong: option.case_cong)
  moreover have "wiped z ?a" using w a1(2,3) by (auto simp: wiped_def release_def split: option.splits)
  ultimately show ?thesis using a1(1) by (auto simp: buf_assign_def moved_from_def OnMovedFrom_def)
qed

lemma buf_swap_ok:
  assumes "buf_ok a" "buf_ok b"
  shows "buf_ok (fst (buf_swap a b))" "buf_ok (snd (buf_swap a b))" "content (fst (buf_swap a b)) = content b" "content (snd (buf_swap a b)) = content a"
  using assms by (simp_all add: buf_swap_def buf_ok_def IsConsistent_def content_def cong: option.case_cong)

section \<open>Properties\<close>

text \<open>The operations on one buffer, and what they mean for its content.\<close>

datatype buf_op = Append "byte list" | Replace "byte list" | Resize nat | Reserve nat | Reset
  | Append_with nat "byte list \<Rightarrow> byte list \<times> nat" | Replace_with nat "byte list \<Rightarrow> byte list \<times> nat"

fun buf_run :: "bool \<Rightarrow> (nat \<Rightarrow> byte) \<Rightarrow> buf_op \<Rightarrow> buffer \<Rightarrow> buffer res" where
  "buf_run z junk (Append bs) b = AppendData z junk bs b"
| "buf_run z junk (Replace bs) b = SetData z junk bs b"
| "buf_run z junk (Resize n) b = SetSize z junk n b"
| "buf_run z junk (Reserve n) b = EnsureCapacity z junk n b"
| "buf_run z junk Reset b = Clear z b"
| "buf_run z junk (Append_with n f) b = rbind (AppendData_setter z junk n f b) (\<lambda>(b, _). Inr b)"
| "buf_run z junk (Replace_with n f) b = rbind (SetData_setter z junk n f b) (\<lambda>(b, _). Inr b)"

text \<open>A setter gets some bytes \<open>v\<close> and makes its result of them.\<close>

fun buf_spec :: "buf_op \<Rightarrow> byte list \<Rightarrow> byte list \<Rightarrow> bool" where
  "buf_spec (Append bs) xs ys \<longleftrightarrow> ys = xs @ bs"
| "buf_spec (Replace bs) xs ys \<longleftrightarrow> ys = bs"
| "buf_spec (Resize n) xs ys \<longleftrightarrow> length ys = n \<and> take (min n (length xs)) ys = take n xs"
| "buf_spec (Reserve n) xs ys \<longleftrightarrow> ys = xs"
| "buf_spec Reset xs ys \<longleftrightarrow> ys = []"
| "buf_spec (Append_with n f) xs ys \<longleftrightarrow> (\<exists>v. length v = n \<and> ys = xs @ take (snd (f v)) (fst (f v)))"
| "buf_spec (Replace_with n f) xs ys \<longleftrightarrow> (\<exists>v. length v = n \<and> ys = take (snd (f v)) (fst (f v)))"

text \<open>Sizes do not wrap, and a setter stays inside its view, as the comments ask.\<close>

fun buf_fits :: "buf_op \<Rightarrow> buffer \<Rightarrow> bool" where
  "buf_fits (Append bs) b \<longleftrightarrow> b_size b + length bs < 2 ^ 64"
| "buf_fits (Replace bs) b \<longleftrightarrow> length bs < 2 ^ 64"
| "buf_fits (Append_with n f) b \<longleftrightarrow> b_size b + n < 2 ^ 64 \<and> (\<forall>v. length (fst (f v)) = n \<and> snd (f v) \<le> n)"
| "buf_fits (Replace_with n f) b \<longleftrightarrow> n < 2 ^ 64 \<and> (\<forall>v. length (fst (f v)) = n \<and> snd (f v) \<le> n)"
| "buf_fits _ b \<longleftrightarrow> True"

lemma tail_wiped_grow: "old \<le> b_size b \<Longrightarrow> tail_wiped z old b"
  by (simp add: tail_wiped_def)

lemma buf_run_ok:
  assumes ok: "buf_ok b" "wiped z b" and fit: "buf_fits op b"
  shows "\<exists>b'. buf_run z junk op b = Inr b' \<and> buf_ok b' \<and> wiped z b' \<and> buf_spec op (content b) (content b') \<and> tail_wiped z (b_size b) b'"
proof (cases op)
  case (Append bs)
  from AppendData_ok [OF ok, of bs junk] fit Append obtain b' where
    b': "AppendData z junk bs b = Inr b'" "buf_ok b'" "wiped z b'" "content b' = content b @ bs" by auto
  then have "b_size b \<le> b_size b'" using length_content [OF b'(2)] length_content [OF ok(1)] by simp
  then show ?thesis using b' Append tail_wiped_grow by auto
next
  case (Replace bs)
  then show ?thesis using SetData_ok [OF ok, of bs junk] fit by auto
next
  case (Resize n)
  then show ?thesis using SetSize_ok [OF ok, of junk n] length_content [OF ok(1)] by auto
next
  case (Reserve n)
  then show ?thesis using ensure_ok [OF ok, of junk n False] by (auto simp: EnsureCapacity_def tail_wiped_def)
next
  case Reset
  from Clear_ok [OF ok] obtain b' where
    b': "Clear z b = Inr b'" "buf_ok b'" "wiped z b'" "content b' = []" "\<forall>d. b_data b' = Some d \<and> z \<longrightarrow> set d \<subseteq> {0}" by blast
  have "tail_wiped z (b_size b) b'" using b'(5) by (auto simp: tail_wiped_def dest!: in_set_takeD in_set_dropD)
  then show ?thesis using b' Reset by auto
next
  case (Append_with n f)
  from AppendData_setter_ok [OF ok, of n f junk] fit Append_with obtain b' v where
    b': "AppendData_setter z junk n f b = Inr (b', snd (f v))" "buf_ok b'" "wiped z b'" "length v = n" "content b' = content b @ take (snd (f v)) (fst (f v))"
    by auto
  then have "b_size b \<le> b_size b'" using length_content [OF b'(2)] length_content [OF ok(1)] by simp
  then show ?thesis using b' Append_with tail_wiped_grow by auto
next
  case (Replace_with n f)
  then show ?thesis using SetData_setter_ok [OF ok, of n f junk] fit by auto
qed

text \<open>
  C39: well-formedness of the buffer. The operations that append, replace, resize, reserve and clear, the variants with a
  setter included, keep the consistency condition the class states, never touch memory outside
  the block, and do to the content what their specification says. A buffer that zeroes its memory clears the part it
  gives up when it shrinks, and has, when it is destroyed, given back nothing but zeroed blocks. Moving and assigning
  hand the content over and leave the source without memory (inconsistent exactly when the checks are on, as the comment
  says); swapping exchanges the contents.
\<close>

theorem buffer_operations:
  assumes "buf_ok b" "wiped z b" "buf_fits op b" "buf_ok c"
  shows "(\<exists>b' b''. buf_run z junk op b = Inr b' \<and> buf_ok b' \<and> wiped z b' \<and> buf_spec op (content b) (content b') \<and> tail_wiped z (b_size b) b' \<and>
      buf_destroy z b' = Inr b'' \<and> wiped z b'' \<and> b_data b'' = None) \<and>
    (buf_ok (fst (buf_move dc b)) \<and> content (fst (buf_move dc b)) = content b \<and> moved_from dc (snd (buf_move dc b))) \<and>
    (\<exists>b' c'. buf_assign z dc b c = Inr (b', c') \<and> buf_ok b' \<and> wiped z b' \<and> content b' = content c \<and> moved_from dc c' \<and> (IsConsistent c' \<longleftrightarrow> \<not> dc)) \<and>
    (buf_ok (fst (buf_swap b c)) \<and> buf_ok (snd (buf_swap b c)) \<and> content (fst (buf_swap b c)) = content c \<and> content (snd (buf_swap b c)) = content b)"
proof (intro conjI)
  show "\<exists>b' b''. buf_run z junk op b = Inr b' \<and> buf_ok b' \<and> wiped z b' \<and> buf_spec op (content b) (content b') \<and> tail_wiped z (b_size b) b' \<and>
      buf_destroy z b' = Inr b'' \<and> wiped z b'' \<and> b_data b'' = None"
    using buf_run_ok [OF assms(1-3), of junk] buf_destroy_ok by metis
  show "\<exists>b' c'. buf_assign z dc b c = Inr (b', c') \<and> buf_ok b' \<and> wiped z b' \<and> content b' = content c \<and> moved_from dc c' \<and> (IsConsistent c' \<longleftrightarrow> \<not> dc)"
    using buf_assign_ok [OF disjI1 [OF assms(1)] assms(2,4), of dc] moved_from_consistent by metis
qed (use buf_move_ok [OF assms(1)] buf_swap_ok [OF assms(1,4)] in simp_all)

theorem buffer_operations_witness:
  "\<exists>b b'. buf_run True (\<lambda>i. 7) (Append [1, 2, 3]) BufferT0 = Inr b \<and> buf_run True (\<lambda>i. 7) (Replace_with 2 (\<lambda>v. ([9, 9], 1))) b = Inr b' \<and>
     content b' = [9] \<and> tail_wiped True 3 b'"
proof -
  have o: "buf_ok BufferT0" "wiped True BufferT0" "content BufferT0 = []" "buf_fits (Append [1, 2, 3]) BufferT0"
    by (simp_all add: buf_ok_def IsConsistent_def BufferT0_def wiped_def content_def)
  from buffer_operations [OF o(1,2,4,1), of "\<lambda>i. 7"] o(3) obtain b where
    b: "buf_run True (\<lambda>i. 7) (Append [1, 2, 3]) BufferT0 = Inr b" "buf_ok b" "wiped True b" "content b = [1, 2, 3]" by auto
  have f: "buf_fits (Replace_with 2 (\<lambda>v. ([9, 9], 1))) b" by simp
  have "b_size b = 3" using length_content [OF b(2)] b(4) by simp
  with buffer_operations [OF b(2,3) f o(1), of "\<lambda>i. 7"] b(1) show ?thesis by fastforce
qed

end
