(* ===== verification/Byte_Buffer.thy ===== *)
theory Byte_Buffer
  imports Buffer
begin

unbundle bit_operations_syntax

text \<open>
  Serialisation in network byte order (\<open>rtc_base/byte_buffer.h\<close>, \<open>.cc\<close>, \<open>byte_order.h\<close>): a writer that
  appends to a buffer and a reader over a block of bytes. The host is little-endian. The argument
  \<open>vp\<close> of a read says whether the pointer for the result is not null; a read returns its result, or
  \<open>None\<close> for \<open>false\<close>, and the reader.
\<close>

section \<open>Byte order\<close>

text \<open>A number of \<open>n\<close> bytes with the order of its bytes in memory reversed.\<close>

definition HostToNetwork :: "nat \<Rightarrow> nat \<Rightarrow> nat" where
  "HostToNetwork n v = le_val (be_bytes n v)"

definition NetworkToHost :: "nat \<Rightarrow> nat \<Rightarrow> nat" where
  "NetworkToHost n v = be_val (le_bytes n v)"

section \<open>The writer\<close>

definition kDefaultCapacity :: nat where "kDefaultCapacity = 4096"

definition ByteBufferWriter :: "(nat \<Rightarrow> byte) \<Rightarrow> buffer res" where
  "ByteBufferWriter junk = EnsureCapacity False junk kDefaultCapacity BufferT0"

definition ByteBufferWriter_from :: "(nat \<Rightarrow> byte) \<Rightarrow> byte list \<Rightarrow> buffer res" where
  "ByteBufferWriter_from junk bs = AppendData False junk bs BufferT0"

definition WriteBytes :: "(nat \<Rightarrow> byte) \<Rightarrow> byte list \<Rightarrow> buffer \<Rightarrow> buffer res" where
  "WriteBytes junk bs b = AppendData False junk bs b"

definition WriteUInt8 :: "(nat \<Rightarrow> byte) \<Rightarrow> byte \<Rightarrow> buffer \<Rightarrow> buffer res" where
  "WriteUInt8 junk v b = WriteBytes junk [v] b"

definition WriteUInt16 :: "(nat \<Rightarrow> byte) \<Rightarrow> u16 \<Rightarrow> buffer \<Rightarrow> buffer res" where
  "WriteUInt16 junk v b = WriteBytes junk (le_bytes 2 (HostToNetwork 2 (unat v))) b"

definition WriteUInt24 :: "(nat \<Rightarrow> byte) \<Rightarrow> u32 \<Rightarrow> buffer \<Rightarrow> buffer res" where
  "WriteUInt24 junk v b = WriteBytes junk (drop 1 (le_bytes 4 (HostToNetwork 4 (unat v)))) b"

definition WriteUInt32 :: "(nat \<Rightarrow> byte) \<Rightarrow> u32 \<Rightarrow> buffer \<Rightarrow> buffer res" where
  "WriteUInt32 junk v b = WriteBytes junk (le_bytes 4 (HostToNetwork 4 (unat v))) b"

definition WriteUInt64 :: "(nat \<Rightarrow> byte) \<Rightarrow> u64 \<Rightarrow> buffer \<Rightarrow> buffer res" where
  "WriteUInt64 junk v b = WriteBytes junk (le_bytes 8 (HostToNetwork 8 (unat v))) b"

function WriteUVarint :: "(nat \<Rightarrow> byte) \<Rightarrow> u64 \<Rightarrow> buffer \<Rightarrow> buffer res" where
  "WriteUVarint junk v b =
     (if v \<ge> 0x80 then rbind (WriteBytes junk [ucast v OR 0x80] b) (\<lambda>b1. WriteUVarint junk (drop_bit 7 v) b1)
      else WriteBytes junk [ucast v] b)"
  by pat_completeness auto

lemma drop_bit_less: "(0x80 :: u64) \<le> v \<Longrightarrow> unat (drop_bit 7 v) < unat v"
proof -
  assume "(0x80 :: u64) \<le> v"
  then have "128 \<le> unat v" by (simp add: word_le_nat_alt)
  then show ?thesis by (simp add: drop_bit_eq_div unat_div)
qed

termination WriteUVarint
  by (relation "measure (\<lambda>(j, v, b). unat v)") (auto simp: drop_bit_less)

declare WriteUVarint.simps [simp del]

definition WriteString :: "(nat \<Rightarrow> byte) \<Rightarrow> byte list \<Rightarrow> buffer \<Rightarrow> buffer res" where
  "WriteString junk bs b = WriteBytes junk bs b"

definition ReserveWriteBuffer :: "(nat \<Rightarrow> byte) \<Rightarrow> nat \<Rightarrow> buffer \<Rightarrow> buffer res" where
  "ReserveWriteBuffer junk len b = SetSize False junk ((b_size b + len) mod 2 ^ 64) b"

section \<open>The reader\<close>

record reader =
  r_bytes :: "byte list"
  r_size :: nat
  r_start :: nat
  r_end :: nat

definition ByteBufferReader :: "byte list \<Rightarrow> nat \<Rightarrow> reader" where
  "ByteBufferReader bs len = \<lparr>r_bytes = bs, r_size = len, r_start = 0, r_end = len\<rparr>"

definition r_length :: "reader \<Rightarrow> nat" where
  "r_length r = nat (to_size_t (int (r_end r) - int (r_start r)))"

definition ReadBytes :: "nat \<Rightarrow> reader \<Rightarrow> (byte list option \<times> reader) res" where
  "ReadBytes len r =
     (if len > r_length r then Inr (None, r)
      else if r_start r + len \<le> length (r_bytes r)
      then Inr (Some (take len (drop (r_start r) (r_bytes r))), r\<lparr>r_start := r_start r + len\<rparr>)
      else Inl OutOfBounds)"

definition ReadUInt8 :: "bool \<Rightarrow> reader \<Rightarrow> (byte option \<times> reader) res" where
  "ReadUInt8 vp r =
     (if \<not> vp then Inr (None, r) else rbind (ReadBytes 1 r) (\<lambda>(bs, r1). Inr (map_option hd bs, r1)))"

definition ReadUInt16 :: "bool \<Rightarrow> reader \<Rightarrow> (u16 option \<times> reader) res" where
  "ReadUInt16 vp r =
     (if \<not> vp then Inr (None, r)
      else rbind (ReadBytes 2 r) (\<lambda>(bs, r1). Inr (map_option (\<lambda>bs. of_nat (NetworkToHost 2 (le_val bs))) bs, r1)))"

definition ReadUInt24 :: "bool \<Rightarrow> reader \<Rightarrow> (u32 option \<times> reader) res" where
  "ReadUInt24 vp r =
     (if \<not> vp then Inr (None, r)
      else rbind (ReadBytes 3 r) (\<lambda>(bs, r1). Inr (map_option (\<lambda>bs. of_nat (NetworkToHost 4 (le_val (0 # bs)))) bs, r1)))"

definition ReadUInt32 :: "bool \<Rightarrow> reader \<Rightarrow> (u32 option \<times> reader) res" where
  "ReadUInt32 vp r =
     (if \<not> vp then Inr (None, r)
      else rbind (ReadBytes 4 r) (\<lambda>(bs, r1). Inr (map_option (\<lambda>bs. of_nat (NetworkToHost 4 (le_val bs))) bs, r1)))"

definition ReadUInt64 :: "bool \<Rightarrow> reader \<Rightarrow> (u64 option \<times> reader) res" where
  "ReadUInt64 vp r =
     (if \<not> vp then Inr (None, r)
      else rbind (ReadBytes 8 r) (\<lambda>(bs, r1). Inr (map_option (\<lambda>bs. of_nat (NetworkToHost 8 (le_val bs))) bs, r1)))"

text \<open>The loop over \<open>i\<close>; a \<open>char\<close> is signed, so the conversion to \<open>uint64_t\<close> extends its sign.\<close>

function uvarint_loop :: "nat \<Rightarrow> u64 \<Rightarrow> reader \<Rightarrow> (u64 option \<times> reader) res" where
  "uvarint_loop i v r =
     (if i < 64
      then rbind (ReadBytes 1 r) (\<lambda>(bs, r1).
             case bs of
               None \<Rightarrow> Inr (None, r1)
             | Some bs \<Rightarrow>
                 let byte = scast (hd bs) :: u64; v1 = v OR push_bit i (byte AND 0x7F)
                 in if byte < 0x80 then Inr (Some v1, r1) else uvarint_loop (i + 7) v1 r1)
      else Inr (None, r))"
  by pat_completeness auto
termination by (relation "measure (\<lambda>(i, v, r). 64 - i)") auto

declare uvarint_loop.simps [simp del]

definition ReadUVarint :: "bool \<Rightarrow> reader \<Rightarrow> (u64 option \<times> reader) res" where
  "ReadUVarint vp r = (if \<not> vp then Inr (None, r) else uvarint_loop 0 0 r)"

definition ReadString :: "bool \<Rightarrow> nat \<Rightarrow> reader \<Rightarrow> (byte list option \<times> reader) res" where
  "ReadString vp len r =
     (if \<not> vp then Inr (None, r)
      else if len > r_length r then Inr (None, r)
      else if r_start r + len \<le> length (r_bytes r)
      then Inr (Some (take len (drop (r_start r) (r_bytes r))), r\<lparr>r_start := r_start r + len\<rparr>)
      else Inl OutOfBounds)"

definition Consume :: "nat \<Rightarrow> reader \<Rightarrow> bool \<times> reader" where
  "Consume sz r = (if sz > r_length r then (False, r) else (True, r\<lparr>r_start := r_start r + sz\<rparr>))"

section \<open>What is left to read\<close>

definition reader_ok :: "reader \<Rightarrow> bool" where
  "reader_ok r \<longleftrightarrow> r_start r \<le> r_end r \<and> r_end r = length (r_bytes r) \<and> r_end r < 2 ^ 64"

definition unread :: "reader \<Rightarrow> byte list" where
  "unread r = drop (r_start r) (r_bytes r)"

lemma r_length_ok: "reader_ok r \<Longrightarrow> r_length r = length (unread r)"
  by (simp add: reader_ok_def r_length_def unread_def)

lemma ReadBytes_ok:
  assumes "reader_ok r"
  shows "if length (unread r) < n then ReadBytes n r = Inr (None, r)
    else \<exists>r'. ReadBytes n r = Inr (Some (take n (unread r)), r') \<and> reader_ok r' \<and> unread r' = drop n (unread r)"
  using assms r_length_ok [OF assms] by (auto simp: ReadBytes_def reader_ok_def unread_def add.commute)

lemma ReadBytes_append:
  assumes "reader_ok r" "unread r = bs @ rest"
  shows "\<exists>r'. ReadBytes (length bs) r = Inr (Some bs, r') \<and> reader_ok r' \<and> unread r' = rest"
  using ReadBytes_ok [OF assms(1), of "length bs"] assms(2) by simp

lemma HostToNetwork_bytes: "le_bytes n (HostToNetwork n v) = be_bytes n v"
  using le_bytes_le_val [of "be_bytes n v"] by (simp add: HostToNetwork_def)

lemma NetworkToHost_val: "length bs = n \<Longrightarrow> NetworkToHost n (le_val bs) = be_val bs"
  using le_bytes_le_val [of bs] by (simp add: NetworkToHost_def)


text \<open>The bytes each write appends.\<close>

function uvarint_bytes :: "u64 \<Rightarrow> byte list" where
  "uvarint_bytes v = (if v \<ge> 0x80 then (ucast v OR 0x80) # uvarint_bytes (drop_bit 7 v) else [ucast v])"
  by pat_completeness auto
termination by (relation "measure unat") (auto simp: drop_bit_less)

declare uvarint_bytes.simps [simp del]

lemma WriteBytes_ok:
  assumes "buf_ok b" "b_size b + length bs < 2 ^ 64"
  shows "\<exists>b'. WriteBytes junk bs b = Inr b' \<and> buf_ok b' \<and> content b' = content b @ bs"
  using AppendData_ok [OF assms(1) _ assms(2), of False junk] by (auto simp: WriteBytes_def wiped_def)

lemma WriteUVarint_ok:
  assumes "buf_ok b" "b_size b + length (uvarint_bytes v) < 2 ^ 64"
  shows "\<exists>b'. WriteUVarint junk v b = Inr b' \<and> buf_ok b' \<and> content b' = content b @ uvarint_bytes v"
  using assms
proof (induction v arbitrary: b rule: uvarint_bytes.induct)
  case (1 v)
  show ?case
  proof (cases "v \<ge> 0x80")
    case True
    then have l: "length (uvarint_bytes v) = Suc (length (uvarint_bytes (drop_bit 7 v)))" by (simp add: uvarint_bytes.simps [of v])
    from WriteBytes_ok [OF 1(2), of "[ucast v OR 0x80]" junk] 1(3) l obtain b1 where
      b1: "WriteBytes junk [ucast v OR 0x80] b = Inr b1" "buf_ok b1" "content b1 = content b @ [ucast v OR 0x80]" by auto
    have "b_size b1 = b_size b + 1" using b1(2,3) length_content [OF 1(2)] length_content [OF b1(2)] by simp
    then have "b_size b1 + length (uvarint_bytes (drop_bit 7 v)) < 2 ^ 64" using 1(3) l by simp
    from 1(1) [OF True b1(2) this] b1(1,3) True show ?thesis
      by (auto simp: WriteUVarint.simps [of junk v b] uvarint_bytes.simps [of v])
  next
    case False
    then show ?thesis using WriteBytes_ok [OF 1(2), of "[ucast v]" junk] 1(3)
      by (simp add: WriteUVarint.simps [of junk v b] uvarint_bytes.simps [of v])
  qed
qed

lemma small_bits:
  assumes "(v :: u64) < 0x80" "bit v n"
  shows "n < 7"
proof -
  have "unat v < 2 ^ 7" using assms(1) by (simp add: word_less_nat_alt)
  then have "take_bit 7 (unat v) = unat v" by (simp add: take_bit_nat_eq_self_iff)
  then have "take_bit 7 v = v" by (metis unsigned_take_bit_eq unsigned_word_eqI)
  then show ?thesis using assms(2) by (metis bit_take_bit_iff)
qed

lemma varint_byte:
  fixes v :: u64
  shows "v < 0x80 \<Longrightarrow> (scast (ucast v :: byte) :: u64) = v"
    "(scast (ucast v OR 0x80 :: byte) :: u64) AND 0x7F = take_bit 7 v" "\<not> (scast (ucast v OR 0x80 :: byte) :: u64) < 0x80"
    "v < 0x80 \<Longrightarrow> v AND 0x7F = v"
proof -
  have m: "(0x7F :: u64) = mask 7" by (simp add: mask_eq_exp_minus_1)
  have b80: "bit (0x80 :: int) n \<longleftrightarrow> n = 7" for n using bit_exp_iff [where 'a = int, of 7 n] by auto
  show "(scast (ucast v :: byte) :: u64) = v" if "v < 0x80"
    by (rule bit_word_eqI) (auto simp: bit_simps min_def dest: small_bits [OF that])
  define b :: byte where "b = ucast v OR 0x80"
  have bb: "bit b n \<longleftrightarrow> n < 8 \<and> (bit v n \<or> n = 7)" for n by (auto simp: b_def bit_simps b80)
  show "(scast (ucast v OR 0x80 :: byte) :: u64) AND 0x7F = take_bit 7 v"
    unfolding m b_def [symmetric] by (rule bit_word_eqI) (auto simp: bit_simps min_def bb)
  have "bit (scast b :: u64) 7" by (simp add: bit_simps bb)
  then have "bit (scast (ucast v OR 0x80 :: byte) :: u64) 7" by (simp only: b_def)
  then show "\<not> (scast (ucast v OR 0x80 :: byte) :: u64) < 0x80" using small_bits by blast
  show "v AND 0x7F = v" if "v < 0x80"
    unfolding m by (rule bit_word_eqI) (use small_bits [OF that] in \<open>auto simp: bit_simps\<close>)
qed

lemma varint_join: "(x OR push_bit i (take_bit 7 v)) OR push_bit (i + 7) (drop_bit 7 v) = x OR push_bit i (v :: u64)"
proof (rule bit_word_eqI)
  fix n
  show "bit ((x OR push_bit i (take_bit 7 v)) OR push_bit (i + 7) (drop_bit 7 v)) n = bit (x OR push_bit i v) n"
  proof (cases "i + 7 \<le> n")
    case True
    then have "7 + (n - (i + 7)) = n - i" by simp
    then show ?thesis using True by (auto simp: bit_simps)
  next
    case False
    then show ?thesis by (auto simp: bit_simps)
  qed
qed

lemma uvarint_loop_ok:
  assumes "reader_ok r" "unread r = uvarint_bytes v @ rest" "unat v < 2 ^ (64 - i)" "i < 64"
  shows "\<exists>r'. uvarint_loop i x r = Inr (Some (x OR push_bit i v), r') \<and> reader_ok r' \<and> unread r' = rest"
  using assms
proof (induction v arbitrary: r i x rule: uvarint_bytes.induct)
  case (1 v)
  show ?case
  proof (cases "v \<ge> 0x80")
    case True
    define b :: byte where "b = ucast v OR 0x80"
    have "unread r = [b] @ uvarint_bytes (drop_bit 7 v) @ rest" using 1(3) True by (simp add: uvarint_bytes.simps [of v] b_def)
    from ReadBytes_append [OF 1(2) this] obtain r1 where
      r1: "ReadBytes 1 r = Inr (Some [b], r1)" "reader_ok r1" "unread r1 = uvarint_bytes (drop_bit 7 v) @ rest" by auto
    have v: "2 ^ 7 \<le> unat v" using True by (simp add: word_le_nat_alt)
    then have "(2 :: nat) ^ 7 < 2 ^ (64 - i)" using 1(4) by linarith
    then have i: "i + 7 < 64" by (subst (asm) power_strict_increasing_iff) auto
    have "unat (drop_bit 7 v) < 2 ^ (64 - (i + 7))"
    proof -
      have "64 - i = 7 + (64 - (i + 7))" using i by simp
      then have e: "(2 :: nat) ^ (64 - i) = 2 ^ 7 * 2 ^ (64 - (i + 7))" by (metis power_add)
      have "unat v div 2 ^ 7 < 2 ^ (64 - (i + 7))" by (rule div_less_iff_less_mult [THEN iffD2]) (use 1(4) e in \<open>simp_all add: mult.commute\<close>)
      then show ?thesis by (simp add: drop_bit_eq_div unat_div)
    qed
    note rec = 1(1) [OF True r1(2,3) this i, of "x OR push_bit i (take_bit 7 v)"]
    define y where "y = (scast b :: u64)"
    have y: "y AND 0x7F = take_bit 7 v" "\<not> y < 0x80" using varint_byte(2,3) [of v] by (simp_all add: y_def b_def)
    have "uvarint_loop i x r = uvarint_loop (i + 7) (x OR push_bit i (y AND 0x7F)) r1"
      unfolding uvarint_loop.simps [of i x r] r1(1) Let_def using 1(5) y(2) by (simp add: y_def del: push_bit_and)
    then show ?thesis using rec unfolding y(1) by (simp add: varint_join)
  next
    case False
    then have lt: "v < 0x80" by simp
    have "unread r = [ucast v] @ rest" using 1(3) False by (simp add: uvarint_bytes.simps [of v])
    from ReadBytes_append [OF 1(2) this] obtain r1 where
      r1: "ReadBytes 1 r = Inr (Some [ucast v], r1)" "reader_ok r1" "unread r1 = rest" by auto
    then show ?thesis using 1(5) lt varint_byte(1) [OF lt] varint_byte(4) [OF lt]
      by (simp add: uvarint_loop.simps [of i x r] Let_def del: push_bit_and)
  qed
qed

section \<open>Sequences of values\<close>

datatype field = F8 byte | F16 u16 | F24 u32 | F32 u32 | F64 u64 | FVar u64 | FStr "byte list"

fun write_field :: "(nat \<Rightarrow> byte) \<Rightarrow> field \<Rightarrow> buffer \<Rightarrow> buffer res" where
  "write_field junk (F8 v) b = WriteUInt8 junk v b"
| "write_field junk (F16 v) b = WriteUInt16 junk v b"
| "write_field junk (F24 v) b = WriteUInt24 junk v b"
| "write_field junk (F32 v) b = WriteUInt32 junk v b"
| "write_field junk (F64 v) b = WriteUInt64 junk v b"
| "write_field junk (FVar v) b = WriteUVarint junk v b"
| "write_field junk (FStr v) b = WriteString junk v b"

text \<open>Reading a value of the kind of a given one.\<close>

fun read_field :: "field \<Rightarrow> reader \<Rightarrow> (field option \<times> reader) res" where
  "read_field (F8 _) r = rbind (ReadUInt8 True r) (\<lambda>(v, r). Inr (map_option F8 v, r))"
| "read_field (F16 _) r = rbind (ReadUInt16 True r) (\<lambda>(v, r). Inr (map_option F16 v, r))"
| "read_field (F24 _) r = rbind (ReadUInt24 True r) (\<lambda>(v, r). Inr (map_option F24 v, r))"
| "read_field (F32 _) r = rbind (ReadUInt32 True r) (\<lambda>(v, r). Inr (map_option F32 v, r))"
| "read_field (F64 _) r = rbind (ReadUInt64 True r) (\<lambda>(v, r). Inr (map_option F64 v, r))"
| "read_field (FVar _) r = rbind (ReadUVarint True r) (\<lambda>(v, r). Inr (map_option FVar v, r))"
| "read_field (FStr s) r = rbind (ReadString True (length s) r) (\<lambda>(v, r). Inr (map_option FStr v, r))"

fun write_fields :: "(nat \<Rightarrow> byte) \<Rightarrow> field list \<Rightarrow> buffer \<Rightarrow> buffer res" where
  "write_fields junk [] b = Inr b"
| "write_fields junk (f # fs) b = rbind (write_field junk f b) (write_fields junk fs)"

fun read_fields :: "field list \<Rightarrow> reader \<Rightarrow> (field option list \<times> reader) res" where
  "read_fields [] r = Inr ([], r)"
| "read_fields (f # fs) r = rbind (read_field f r) (\<lambda>(v, r1). rbind (read_fields fs r1) (\<lambda>(vs, r2). Inr (v # vs, r2)))"

text \<open>The bytes of a value; a number of 24 bits has to be one.\<close>

fun field_bytes :: "field \<Rightarrow> byte list" where
  "field_bytes (F8 v) = [v]"
| "field_bytes (F16 v) = be_bytes 2 (unat v)"
| "field_bytes (F24 v) = be_bytes 3 (unat v)"
| "field_bytes (F32 v) = be_bytes 4 (unat v)"
| "field_bytes (F64 v) = be_bytes 8 (unat v)"
| "field_bytes (FVar v) = uvarint_bytes v"
| "field_bytes (FStr v) = v"

fun field_ok :: "field \<Rightarrow> bool" where
  "field_ok (F24 v) \<longleftrightarrow> v < 2 ^ 24"
| "field_ok _ \<longleftrightarrow> True"

lemma le_bytes_Suc_end: "le_bytes (Suc n) v = le_bytes n v @ [of_nat (v div 256 ^ n mod 256)]"
  by (induction n arbitrary: v) (simp_all add: div_mult2_eq)

lemma be_bytes_tl: "drop 1 (be_bytes (Suc n) v) = be_bytes n v"
  unfolding be_bytes_def le_bytes_Suc_end by simp

lemma be_val_Cons0: "be_val (0 # bs) = be_val bs"
proof -
  have "le_val (xs @ [0]) = le_val xs" for xs by (induction xs) auto
  then show ?thesis by (simp add: be_val_def)
qed

lemma write_field_ok:
  assumes "buf_ok b" "b_size b + length (field_bytes f) < 2 ^ 64"
  shows "\<exists>b'. write_field junk f b = Inr b' \<and> buf_ok b' \<and> content b' = content b @ field_bytes f"
proof -
  have d: "drop 1 (be_bytes 4 v) = be_bytes 3 v" for v using be_bytes_tl [of 3 v] by (simp add: eval_nat_numeral)
  have l: "WriteBytes junk (field_bytes f) b = write_field junk f b" if "\<not> (\<exists>v. f = FVar v)"
    using that d by (cases f) (simp_all add: WriteUInt8_def WriteUInt16_def WriteUInt24_def WriteUInt32_def WriteUInt64_def WriteString_def HostToNetwork_bytes)
  show ?thesis
  proof (cases "\<exists>v. f = FVar v")
    case True
    then show ?thesis using WriteUVarint_ok [OF assms(1)] assms(2) by auto
  next
    case False
    then show ?thesis using WriteBytes_ok [OF assms, of junk] l by simp
  qed
qed

lemma read_field_ok:
  assumes ok: "reader_ok r" and u: "unread r = field_bytes f @ rest" and f: "field_ok f"
  shows "\<exists>r'. read_field f r = Inr (Some f, r') \<and> reader_ok r' \<and> unread r' = rest"
proof -
  obtain r' where r': "ReadBytes (length (field_bytes f)) r = Inr (Some (field_bytes f), r')" "reader_ok r'" "unread r' = rest"
    using ReadBytes_append [OF ok u] by blast
  have b: "NetworkToHost n (le_val (be_bytes n v)) = v mod 256 ^ n" for n v
    using NetworkToHost_val [of "be_bytes n v" n] by (simp add: be_val_be_bytes)
  have b3: "NetworkToHost 4 (256 * le_val (be_bytes 3 v)) = v mod 256 ^ 3" for v
    using NetworkToHost_val [of "0 # be_bytes 3 v" 4] by (simp add: be_val_Cons0 be_val_be_bytes)
  show ?thesis
  proof (cases f)
    case (F8 v)
    then show ?thesis using r' by (simp add: ReadUInt8_def)
  next
    case (F16 v)
    have "unat v < 2 ^ 16" by (rule order.strict_trans2 [OF unsigned_less]) simp
    then show ?thesis using r' b F16 by (simp add: ReadUInt16_def)
  next
    case (F24 v)
    then have "unat v < 2 ^ 24" using f by (simp add: word_less_nat_alt)
    then show ?thesis using r' b3 F24 by (simp add: ReadUInt24_def)
  next
    case (F32 v)
    have "unat v < 2 ^ 32" by (rule order.strict_trans2 [OF unsigned_less]) simp
    then show ?thesis using r' b F32 by (simp add: ReadUInt32_def)
  next
    case (F64 v)
    have "unat v < 2 ^ 64" by (rule order.strict_trans2 [OF unsigned_less]) simp
    then show ?thesis using r' b F64 by (simp add: ReadUInt64_def)
  next
    case (FVar v)
    have "unat v < 2 ^ (64 - 0)" by (rule order.strict_trans2 [OF unsigned_less]) simp
    from uvarint_loop_ok [OF ok _ this, of rest 0] u FVar show ?thesis by (auto simp: ReadUVarint_def)
  next
    case (FStr v)
    then have "ReadString True (length v) r = ReadBytes (length v) r" by (simp add: ReadString_def ReadBytes_def)
    then show ?thesis using r' FStr by simp
  qed
qed

lemma write_fields_ok:
  assumes "buf_ok b" "b_size b + length (concat (map field_bytes fs)) < 2 ^ 64"
  shows "\<exists>b'. write_fields junk fs b = Inr b' \<and> buf_ok b' \<and> content b' = content b @ concat (map field_bytes fs)"
  using assms
proof (induction fs arbitrary: b)
  case (Cons f fs)
  from write_field_ok [OF Cons.prems(1), of f junk] Cons.prems(2) obtain b1 where
    b1: "write_field junk f b = Inr b1" "buf_ok b1" "content b1 = content b @ field_bytes f" by auto
  have "b_size b1 = b_size b + length (field_bytes f)"
    using b1(3) length_content [OF Cons.prems(1)] length_content [OF b1(2)] by simp
  then have "b_size b1 + length (concat (map field_bytes fs)) < 2 ^ 64" using Cons.prems(2) by simp
  from Cons.IH [OF b1(2) this] b1(1,3) show ?case by auto
qed simp

lemma read_fields_ok:
  assumes "reader_ok r" "unread r = concat (map field_bytes fs) @ rest" "\<forall>f \<in> set fs. field_ok f"
  shows "\<exists>r'. read_fields fs r = Inr (map Some fs, r') \<and> reader_ok r' \<and> unread r' = rest"
  using assms
proof (induction fs arbitrary: r)
  case (Cons f fs)
  from read_field_ok [OF Cons.prems(1), of f "concat (map field_bytes fs) @ rest"] Cons.prems(2,3) obtain r1 where
    r1: "read_field f r = Inr (Some f, r1)" "reader_ok r1" "unread r1 = concat (map field_bytes fs) @ rest" by auto
  from Cons.IH [OF r1(2,3)] Cons.prems(3) r1(1) show ?case by auto
qed simp

section \<open>Properties\<close>

text \<open>
  C40: reading back what was written. Whatever values of the seven kinds a new writer is given, the reader
  gets the same values in the same order from its bytes and has nothing left; reading one more fails
  without moving, and no access leaves the block.
\<close>

theorem byte_buffer_roundtrip:
  assumes "length (concat (map field_bytes fs)) < 2 ^ 64" "\<forall>f \<in> set fs. field_ok f"
  shows "\<exists>w b r. ByteBufferWriter junk = Inr w \<and> write_fields junk fs w = Inr b \<and> buf_ok b \<and>
    read_fields fs (ByteBufferReader (content b) (b_size b)) = Inr (map Some fs, r) \<and> r_length r = 0 \<and> ReadUInt8 True r = Inr (None, r)"
proof -
  have "buf_ok BufferT0" "wiped False BufferT0" "content BufferT0 = []" by (simp_all add: buf_ok_def IsConsistent_def BufferT0_def wiped_def content_def)
  from ensure_ok [OF this(1,2), of junk kDefaultCapacity False] this(3) obtain w where
    w: "ByteBufferWriter junk = Inr w" "buf_ok w" "content w = []" by (auto simp: ByteBufferWriter_def EnsureCapacity_def)
  have "b_size w = 0" using length_content [OF w(2)] w(3) by simp
  then have "b_size w + length (concat (map field_bytes fs)) < 2 ^ 64" using assms(1) by simp
  from write_fields_ok [OF w(2) this, of junk] w(3) obtain b where
    b: "write_fields junk fs w = Inr b" "buf_ok b" "content b = concat (map field_bytes fs)" by auto
  have sz: "b_size b = length (content b)" using length_content [OF b(2)] by simp
  have "reader_ok (ByteBufferReader (content b) (b_size b))" using assms(1) b(3) sz by (simp add: reader_ok_def ByteBufferReader_def)
  from read_fields_ok [OF this, of fs "[]"] b(3) assms(2) obtain r where
    r: "read_fields fs (ByteBufferReader (content b) (b_size b)) = Inr (map Some fs, r)" "reader_ok r" "unread r = []"
    by (auto simp: unread_def ByteBufferReader_def)
  have "r_length r = 0" using r_length_ok [OF r(2)] r(3) by simp
  then have "ReadUInt8 True r = Inr (None, r)" by (simp add: ReadUInt8_def ReadBytes_def)
  then show ?thesis using w(1) b(1,2) r(1) \<open>r_length r = 0\<close> by blast
qed

theorem byte_buffer_roundtrip_witness:
  "\<exists>w b r. ByteBufferWriter (\<lambda>i. 0) = Inr w \<and> write_fields (\<lambda>i. 0) [F8 1, FVar 300, F24 70000, FStr [5, 6]] w = Inr b \<and>
     read_fields [F8 1, FVar 300, F24 70000, FStr [5, 6]] (ByteBufferReader (content b) (b_size b)) =
       Inr ([Some (F8 1), Some (FVar 300), Some (F24 70000), Some (FStr [5, 6])], r)"
proof -
  have "length (uvarint_bytes 300) \<le> 10" by (simp add: uvarint_bytes.simps)
  then have "length (concat (map field_bytes [F8 1, FVar 300, F24 70000, FStr [5, 6]])) < 2 ^ 64" by simp
  from byte_buffer_roundtrip [OF this, of "\<lambda>i. 0"] show ?thesis by auto
qed

end
