(* ===== verification/String_Encode.thy ===== *)
theory String_Encode
  imports Xrtc_Prelude
begin

unbundle bit_operations_syntax

text \<open>
  Text utilities of the base library (\<open>rtc_base/string_encode.cc\<close>): hexadecimal encoding and decoding,
  and cutting a string at a delimiter. A \<open>std::string\<close> is a list of bytes; a store into the caller's
  buffer is checked against its size.
\<close>

section \<open>Hexadecimal digits\<close>

definition HEX :: "byte list" where
  "HEX = cstr ''0123456789abcdef''"

definition hex_encode :: "nat \<Rightarrow> byte" where
  "hex_encode v = (if v < 16 then HEX ! v else 33)"

definition hex_decode :: "byte \<Rightarrow> byte option" where
  "hex_decode ch =
     (if 48 \<le> ch \<and> ch \<le> 57 then Some (ch - 48)
      else if 65 \<le> ch \<and> ch \<le> 70 then Some (ch - 65 + 10)
      else if 97 \<le> ch \<and> ch \<le> 102 then Some (ch - 97 + 10)
      else None)"

definition put_byte :: "byte list \<Rightarrow> nat \<Rightarrow> byte \<Rightarrow> byte list res" where
  "put_byte buf i b = (if i < length buf then Inr (buf[i := b]) else Inl OutOfBounds)"

section \<open>Encoding\<close>

definition hex_encode_output_length :: "nat \<Rightarrow> byte \<Rightarrow> nat" where
  "hex_encode_output_length srclen delimiter = (if delimiter \<noteq> 0 \<and> srclen > 0 then srclen * 3 - 1 else srclen * 2)"

text \<open>The loop; \<open>rest\<close> is what is left of the source from \<open>srcpos\<close> on.\<close>

fun hex_encode_loop :: "byte \<Rightarrow> byte list \<Rightarrow> nat \<Rightarrow> byte list \<Rightarrow> byte list res" where
  "hex_encode_loop delimiter [] bufpos buf = Inr buf"
| "hex_encode_loop delimiter (ch # rest) bufpos buf =
     rbind (put_byte buf bufpos (hex_encode (unat (drop_bit 4 ch AND 0xF)))) (\<lambda>buf1.
     rbind (put_byte buf1 (bufpos + 1) (hex_encode (unat (ch AND 0xF)))) (\<lambda>buf2.
       if delimiter \<noteq> 0 \<and> rest \<noteq> []
       then rbind (put_byte buf2 (bufpos + 2) delimiter) (\<lambda>buf3. hex_encode_loop delimiter rest (bufpos + 3) buf3)
       else hex_encode_loop delimiter rest (bufpos + 2) buf2))"

definition hex_encode_with_delimiter :: "byte list \<Rightarrow> byte \<Rightarrow> byte list res" where
  "hex_encode_with_delimiter source delimiter =
     hex_encode_loop delimiter source 0 (replicate (hex_encode_output_length (length source) delimiter) 0)"

section \<open>Decoding\<close>

text \<open>The loop over what is left of the source; \<open>Inr (0, buf)\<close> when the text is not well formed.\<close>

function hex_decode_loop :: "byte \<Rightarrow> byte list \<Rightarrow> nat \<Rightarrow> byte list \<Rightarrow> (nat \<times> byte list) res" where
  "hex_decode_loop delimiter src bufpos buf =
     (if src = [] then Inr (bufpos, buf)
      else if length src < 2 then Inr (0, buf)
      else case (hex_decode (src ! 0), hex_decode (src ! 1)) of
        (Some h1, Some h2) \<Rightarrow>
          rbind (put_byte buf bufpos (push_bit 4 h1 OR h2)) (\<lambda>buf1.
            let rest = drop 2 src
            in if delimiter \<noteq> 0 \<and> length rest > 1
               then if hd rest \<noteq> delimiter then Inr (0, buf1) else hex_decode_loop delimiter (tl rest) (bufpos + 1) buf1
               else hex_decode_loop delimiter rest (bufpos + 1) buf1)
      | _ \<Rightarrow> Inr (0, buf))"
  by pat_completeness auto
termination by (relation "measure (\<lambda>(d, src, p, b). length src)") auto

declare hex_decode_loop.simps [simp del]

definition hex_decode_with_delimiter :: "byte list \<Rightarrow> byte list \<Rightarrow> byte \<Rightarrow> (nat \<times> byte list) res" where
  "hex_decode_with_delimiter buf source delimiter =
     (if length buf = 0 then Inr (0, buf)
      else let needed = (if delimiter \<noteq> 0 then (length source + 1) div 3 else length source div 2)
           in if length buf < needed then Inr (0, buf) else hex_decode_loop delimiter source 0 buf)"

section \<open>Cutting at a delimiter\<close>

text \<open>The loops over \<open>i\<close>.\<close>

function tokenize_loop :: "byte list \<Rightarrow> byte \<Rightarrow> nat \<Rightarrow> nat \<Rightarrow> byte list list \<Rightarrow> nat \<times> byte list list" where
  "tokenize_loop source delimiter i lst fields =
     (if i < length source
      then if source ! i = delimiter
           then tokenize_loop source delimiter (i + 1) (i + 1)
                  (if i \<noteq> lst then fields @ [take (i - lst) (drop lst source)] else fields)
           else tokenize_loop source delimiter (i + 1) lst fields
      else (lst, fields))"
  by pat_completeness auto
termination by (relation "measure (\<lambda>(s, d, i, l, f). length s - i)") auto

declare tokenize_loop.simps [simp del]

definition tokenize :: "byte list \<Rightarrow> byte \<Rightarrow> byte list list" where
  "tokenize source delimiter =
     (case tokenize_loop source delimiter 0 0 [] of
        (lst, fields) \<Rightarrow> if lst \<noteq> length source then fields @ [take (length source - lst) (drop lst source)] else fields)"

function str_split_loop :: "byte list \<Rightarrow> byte \<Rightarrow> nat \<Rightarrow> nat \<Rightarrow> byte list list \<Rightarrow> nat \<times> byte list list" where
  "str_split_loop source delimiter i lst fields =
     (if i < length source
      then if source ! i = delimiter
           then str_split_loop source delimiter (i + 1) (i + 1) (fields @ [take (i - lst) (drop lst source)])
           else str_split_loop source delimiter (i + 1) lst fields
      else (lst, fields))"
  by pat_completeness auto
termination by (relation "measure (\<lambda>(s, d, i, l, f). length s - i)") auto

declare str_split_loop.simps [simp del]

definition str_split :: "byte list \<Rightarrow> byte \<Rightarrow> byte list list" where
  "str_split source delimiter =
     (case str_split_loop source delimiter 0 0 [] of (lst, fields) \<Rightarrow> fields @ [drop lst source])"

fun skip_delim :: "byte list \<Rightarrow> byte \<Rightarrow> byte list" where
  "skip_delim [] delimiter = []"
| "skip_delim (x # xs) delimiter = (if x = delimiter then skip_delim xs delimiter else x # xs)"

definition tokenize_first :: "byte list \<Rightarrow> byte \<Rightarrow> (byte list \<times> byte list) option" where
  "tokenize_first source delimiter =
     (if delimiter \<notin> set source then None
      else let left = takeWhile (\<lambda>x. x \<noteq> delimiter) source
           in Some (left, skip_delim (drop (length left + 1) source) delimiter))"

fun str_join_loop :: "byte \<Rightarrow> byte list list \<Rightarrow> nat \<Rightarrow> byte list \<Rightarrow> byte list" where
  "str_join_loop delimiter [] i joined = joined"
| "str_join_loop delimiter (s # ss) i joined =
     str_join_loop delimiter ss (i + 1) (if i \<noteq> 0 then joined @ [delimiter] @ s else joined @ s)"

definition str_join :: "byte list list \<Rightarrow> byte \<Rightarrow> byte list" where
  "str_join source delimiter = (if length source = 0 then [] else str_join_loop delimiter source 0 [])"

definition ToString_bool :: "bool \<Rightarrow> byte list" where
  "ToString_bool b = (if b then cstr ''true'' else cstr ''false'')"

definition FromString_bool :: "byte list \<Rightarrow> bool option" where
  "FromString_bool s = (if s = cstr ''false'' then Some False else if s = cstr ''true'' then Some True else None)"

section \<open>Encoding and decoding are inverse\<close>

text \<open>The text of a byte string.\<close>

definition hex1 :: "byte \<Rightarrow> byte list" where
  "hex1 c = [hex_encode (unat (drop_bit 4 c AND 0xF)), hex_encode (unat (c AND 0xF))]"

fun hex_text :: "byte \<Rightarrow> byte list \<Rightarrow> byte list" where
  "hex_text d [] = []"
| "hex_text d [c] = hex1 c"
| "hex_text d (c # cs) = hex1 c @ (if d \<noteq> 0 then [d] else []) @ hex_text d cs"

lemma hex_text_Cons: "hex_text d (c # cs) = hex1 c @ (if d \<noteq> 0 \<and> cs \<noteq> [] then [d] else []) @ hex_text d cs"
  by (cases cs) auto

lemma length_hex_text: "length (hex_text d cs) = hex_encode_output_length (length cs) d"
  by (induction cs) (auto simp: hex_text_Cons hex1_def hex_encode_output_length_def)

lemma put_byte_at: "put_byte (xs @ y # ys) (length xs) b = Inr (xs @ b # ys)"
  by (simp add: put_byte_def list_update_append)

lemma hex_encode_loop_eq:
  assumes "length buf = length (hex_text d cs)"
  shows "hex_encode_loop d cs (length pre) (pre @ buf) = Inr (pre @ hex_text d cs)"
  using assms
proof (induction cs arbitrary: pre buf)
  case (Cons c cs)
  let ?a = "hex_encode (unat (drop_bit 4 c AND 0xF))" and ?b = "hex_encode (unat (c AND 0xF))"
  show ?case
  proof (cases "d \<noteq> 0 \<and> cs \<noteq> []")
    case True
    then obtain x y z buf' where b: "buf = x # y # z # buf'" "length buf' = length (hex_text d cs)"
      using Cons.prems by (auto simp: hex_text_Cons hex1_def length_Suc_conv)
    have "put_byte (pre @ buf) (length pre) ?a = Inr (pre @ ?a # y # z # buf')"
      "put_byte (pre @ ?a # y # z # buf') (length pre + 1) ?b = Inr (pre @ ?a # ?b # z # buf')"
      "put_byte (pre @ ?a # ?b # z # buf') (length pre + 2) d = Inr (pre @ ?a # ?b # d # buf')"
      using put_byte_at [of pre x "y # z # buf'"] put_byte_at [of "pre @ [?a]" y "z # buf'"] put_byte_at [of "pre @ [?a, ?b]" z buf'] b(1) by simp_all
    then show ?thesis using True Cons.IH [OF b(2), of "pre @ [?a, ?b, d]"] by (simp add: hex_text_Cons hex1_def numeral_3_eq_3)
  next
    case False
    then obtain x y buf' where b: "buf = x # y # buf'" "length buf' = length (hex_text d cs)"
      using Cons.prems by (auto simp: hex_text_Cons hex1_def length_Suc_conv)
    have "put_byte (pre @ buf) (length pre) ?a = Inr (pre @ ?a # y # buf')"
      "put_byte (pre @ ?a # y # buf') (length pre + 1) ?b = Inr (pre @ ?a # ?b # buf')"
      using put_byte_at [of pre x "y # buf'"] put_byte_at [of "pre @ [?a]" y buf'] b(1) by simp_all
    then show ?thesis using False Cons.IH [OF b(2), of "pre @ [?a, ?b]"] by (auto simp: hex_text_Cons hex1_def)
  qed
qed simp

lemma hex_encode_eq: "hex_encode_with_delimiter src d = Inr (hex_text d src)"
  using hex_encode_loop_eq [of "replicate (hex_encode_output_length (length src) d) 0" d src "[]"]
  by (simp add: hex_encode_with_delimiter_def length_hex_text)

lemma hex_decode_encode: "v < 16 \<Longrightarrow> hex_decode (hex_encode v) = Some (of_nat v)"
proof -
  have "\<forall>v \<in> {0..<16}. hex_decode (hex_encode v) = Some (of_nat v)" by (simp add: hex_decode_def hex_encode_def HEX_def cstr_def atLeastLessThan_nat_numeral)
  then show "v < 16 \<Longrightarrow> ?thesis" by simp
qed

lemma nibbles: "push_bit 4 (drop_bit 4 c AND 0xF) OR (c AND 0xF) = (c :: byte)"
proof -
  have m: "(0xF :: byte) = mask 4" by (simp add: mask_eq_exp_minus_1)
  show ?thesis unfolding m by (rule bit_word_eqI) (auto simp: bit_simps)
qed

lemma nibble_less: "unat (x AND (0xF :: byte)) < 16"
proof -
  have "x AND 0xF = take_bit 4 x" by (simp add: take_bit_eq_mask mask_eq_exp_minus_1)
  then show ?thesis by (simp add: unsigned_take_bit_eq take_bit_eq_mod unat_mod)
qed

lemma hex1_decode: "hex_decode (hex1 c ! 0) = Some (drop_bit 4 c AND 0xF)" "hex_decode (hex1 c ! 1) = Some (c AND 0xF)"
  using hex_decode_encode [OF nibble_less, of "drop_bit 4 c"] hex_decode_encode [OF nibble_less, of c] by (simp_all add: hex1_def)

lemma hex_decode_loop_eq:
  assumes "length cs \<le> length buf"
  shows "hex_decode_loop d (hex_text d cs) (length pre) (pre @ buf) = Inr (length pre + length cs, pre @ cs @ drop (length cs) buf)"
  using assms
proof (induction cs arbitrary: pre buf)
  case Nil
  then show ?case by (simp add: hex_decode_loop.simps)
next
  case (Cons c cs)
  obtain y ys where b: "buf = y # ys" "length cs \<le> length ys" using Cons.prems by (cases buf) auto
  define rest where "rest = (if d \<noteq> 0 \<and> cs \<noteq> [] then [d] else []) @ hex_text d cs"
  have t: "hex_text d (c # cs) = hex1 c @ rest" by (simp add: hex_text_Cons rest_def)
  have l: "length (hex1 c) = 2" by (simp add: hex1_def)
  have n: "(hex1 c @ rest) ! 0 = hex1 c ! 0" "(hex1 c @ rest) ! 1 = hex1 c ! 1" "drop 2 (hex1 c @ rest) = rest" by (simp_all add: hex1_def)
  have pb: "put_byte (pre @ buf) (length pre) c = Inr (pre @ c # ys)" using put_byte_at b(1) by simp
  note IH = Cons.IH [OF b(2), of "pre @ [c]"]
  have step: "hex_decode_loop d (hex1 c @ rest) (length pre) (pre @ buf) =
      (if d \<noteq> 0 \<and> length rest > 1 then if hd rest \<noteq> d then Inr (0, pre @ c # ys) else hex_decode_loop d (tl rest) (length pre + 1) (pre @ c # ys)
       else hex_decode_loop d rest (length pre + 1) (pre @ c # ys))"
  proof -
    define h1 h2 where "h1 = drop_bit 4 c AND 0xF" and "h2 = c AND 0xF"
    have h: "hex_decode ((hex1 c @ rest) ! 0) = Some h1" "hex_decode ((hex1 c @ rest) ! 1) = Some h2" "push_bit 4 h1 OR h2 = c"
      using hex1_decode nibbles n(1,2) by (simp_all only: h1_def h2_def)
    have pb': "put_byte (pre @ buf) (length pre) (push_bit 4 h1 OR h2) = Inr (pre @ c # ys)" using pb h(3) by simp
    have ne: "hex1 c \<noteq> []" "\<not> length (hex1 c @ rest) < 2" using l by auto
    show ?thesis unfolding hex_decode_loop.simps [of d "hex1 c @ rest"] h n(3) Let_def using ne pb' by simp
  qed
  have "2 \<le> length (hex_text d cs)" if "cs \<noteq> []" using that by (cases cs) (auto simp: hex_text_Cons hex1_def)
  then show ?case unfolding t step using IH b by (auto simp: rest_def)
qed

definition needed :: "byte \<Rightarrow> nat \<Rightarrow> nat" where
  "needed d n = (if d \<noteq> 0 then (n + 1) div 3 else n div 2)"

lemma div3: "Suc 0 < n - 2 \<Longrightarrow> Suc (Suc (n - 3) div 3) \<le> Suc n div 3"
  by presburger

lemma hex_decode_loop_safe:
  assumes "bufpos + needed d (length src) \<le> length buf"
  shows "\<exists>r. hex_decode_loop d src bufpos buf = Inr r"
  using assms
proof (induction d src bufpos buf rule: hex_decode_loop.induct)
  case (1 d src bufpos buf)
  show ?case
  proof (cases "length src < 2")
    case True
    then show ?thesis by (auto simp: hex_decode_loop.simps [of d src])
  next
    case False
    show ?thesis
    proof (cases "hex_decode (src ! 0)"; cases "hex_decode (src ! 1)")
      fix h1 h2 assume h: "hex_decode (src ! 0) = Some h1" "hex_decode (src ! 1) = Some h2"
      have ne: "src \<noteq> []" using False by auto
      have "bufpos < length buf" using 1(3) False by (auto simp: needed_def split: if_splits)
      then have p: "put_byte buf bufpos (push_bit 4 h1 OR h2) = Inr (buf[bufpos := push_bit 4 h1 OR h2])" by (simp add: put_byte_def)
      let ?b = "buf[bufpos := push_bit 4 h1 OR h2]"
      show ?thesis
      proof (cases "d \<noteq> 0 \<and> length (drop 2 src) > 1")
        case True
        have "bufpos + 1 + needed d (length (tl (drop 2 src))) \<le> length ?b" using 1(3) True div3 [of "length src"] by (simp add: needed_def)
        then have "hd (drop 2 src) = d \<Longrightarrow> \<exists>r. hex_decode_loop d (tl (drop 2 src)) (bufpos + 1) ?b = Inr r"
          using 1(1) [OF ne False refl h refl True] by simp
        then show ?thesis using True h p False ne by (auto simp: hex_decode_loop.simps [of d src] Let_def)
      next
        case no: False
        have "bufpos + 1 + needed d (length (drop 2 src)) \<le> length ?b" using 1(3) no False by (auto simp: needed_def)
        then have "\<exists>r. hex_decode_loop d (drop 2 src) (bufpos + 1) ?b = Inr r"
          using 1(2) [OF ne False refl h refl no] by simp
        then show ?thesis using no h p False ne by (auto simp: hex_decode_loop.simps [of d src] Let_def)
      qed
    qed (auto simp: hex_decode_loop.simps [of d src])
  qed
qed

section \<open>Joining and splitting are inverse\<close>

text \<open>The parts between the delimiters.\<close>

fun parts :: "byte \<Rightarrow> byte list \<Rightarrow> byte list list" where
  "parts d [] = [[]]"
| "parts d (x # xs) = (if x = d then [] # parts d xs else (x # hd (parts d xs)) # tl (parts d xs))"

lemma parts_nonempty [simp]: "parts d xs \<noteq> []"
  by (cases xs) auto

lemma str_split_loop_eq:
  assumes "lst \<le> i" "i \<le> length src"
  shows "(case str_split_loop src d i lst fs of (l, gs) \<Rightarrow> gs @ [drop l src]) =
    fs @ (take (i - lst) (drop lst src) @ hd (parts d (drop i src))) # tl (parts d (drop i src))"
  using assms
proof (induction src d i lst fs rule: str_split_loop.induct)
  case (1 src d i lst fs)
  show ?case
  proof (cases "i < length src")
    case True
    then have dr: "drop i src = src ! i # drop (Suc i) src" by (simp add: Cons_nth_drop_Suc)
    show ?thesis
    proof (cases "src ! i = d")
      case eq: True
      then show ?thesis using 1(1) [OF True eq] True dr by (simp add: str_split_loop.simps [of src d i])
    next
      case False
      have tk: "take (Suc i - lst) (drop lst src) = take (i - lst) (drop lst src) @ [src ! i]"
        using 1(3) True by (simp add: Suc_diff_le take_Suc_conv_app_nth)
      show ?thesis using 1(2) [OF True False] 1(3) True False dr tk by (simp add: str_split_loop.simps [of src d i])
    qed
  next
    case False
    then show ?thesis using 1(3,4) by (subst str_split_loop.simps) simp
  qed
qed

lemma str_split_parts: "str_split src d = parts d src"
  using str_split_loop_eq [of 0 0 src d "[]"] by (simp add: str_split_def)

lemma tokenize_loop_eq:
  assumes "lst \<le> i" "i \<le> length src"
  shows "(case tokenize_loop src d i lst fs of (l, gs) \<Rightarrow> if l \<noteq> length src then gs @ [take (length src - l) (drop l src)] else gs) =
    fs @ filter (\<lambda>x. x \<noteq> []) ((take (i - lst) (drop lst src) @ hd (parts d (drop i src))) # tl (parts d (drop i src)))"
  using assms
proof (induction src d i lst fs rule: tokenize_loop.induct)
  case (1 src d i lst fs)
  show ?case
  proof (cases "i < length src")
    case True
    then have dr: "drop i src = src ! i # drop (Suc i) src" by (simp add: Cons_nth_drop_Suc)
    show ?thesis
    proof (cases "src ! i = d")
      case eq: True
      have "filter (\<lambda>x. x \<noteq> []) (hd (parts d (drop (Suc i) src)) # tl (parts d (drop (Suc i) src))) = filter (\<lambda>x. x \<noteq> []) (parts d (drop (Suc i) src))"
        by simp
      then show ?thesis using 1(1) [OF True eq] 1(3) True eq dr by (auto simp: tokenize_loop.simps [of src d i])
    next
      case False
      have tk: "take (Suc i - lst) (drop lst src) = take (i - lst) (drop lst src) @ [src ! i]"
        using 1(3) True by (simp add: Suc_diff_le take_Suc_conv_app_nth)
      show ?thesis using 1(2) [OF True False] 1(3) True False dr tk by (simp add: tokenize_loop.simps [of src d i])
    qed
  next
    case False
    then show ?thesis using 1(3,4) by (subst tokenize_loop.simps) auto
  qed
qed

lemma tokenize_parts: "tokenize src d = filter (\<lambda>x. x \<noteq> []) (parts d src)"
  using tokenize_loop_eq [of 0 0 src d "[]"] by (simp add: tokenize_def)

fun joined :: "byte \<Rightarrow> byte list list \<Rightarrow> byte list" where
  "joined d [] = []"
| "joined d [x] = x"
| "joined d (x # xs) = x @ d # joined d xs"

lemma joined_Cons: "joined d (x # xs) = x @ (if xs = [] then [] else d # joined d xs)"
  by (cases xs) auto

lemma str_join_loop_eq: "i \<noteq> 0 \<Longrightarrow> str_join_loop d ss i acc = acc @ concat (map (\<lambda>s. d # s) ss)"
  by (induction ss arbitrary: i acc) auto

lemma joined_concat: "joined d (s # ss) = s @ concat (map (\<lambda>s. d # s) ss)"
  by (induction ss arbitrary: s) (auto simp: joined_Cons)

lemma str_join_joined: "str_join ss d = joined d ss"
  by (cases ss) (simp_all add: str_join_def str_join_loop_eq joined_concat)

lemma joined_parts: "joined d (parts d xs) = xs"
proof (induction xs)
  case (Cons x xs)
  obtain p ps where "parts d xs = p # ps" by (cases "parts d xs") auto
  then show ?case using Cons by (auto simp: joined_Cons)
qed simp

lemma parts_no_delim: "t \<in> set (parts d xs) \<Longrightarrow> d \<notin> set t"
proof (induction xs arbitrary: t)
  case (Cons x xs)
  obtain p ps where "parts d xs = p # ps" by (cases "parts d xs") auto
  then show ?case using Cons by (auto split: if_splits)
qed simp

lemma parts_append: "d \<notin> set x \<Longrightarrow> parts d (x @ d # xs) = x # parts d xs" "d \<notin> set x \<Longrightarrow> parts d x = [x]"
  by (induction x) auto

lemma parts_joined: "\<forall>s \<in> set ss. d \<notin> set s \<Longrightarrow> ss \<noteq> [] \<Longrightarrow> parts d (joined d ss) = ss"
  by (induction ss) (auto simp: joined_Cons parts_append)

section \<open>Properties\<close>

text \<open>
  C35: hexadecimal round trip. Encoding fills exactly the string it allocates; decoding the text, with the same delimiter and
  a buffer that is large enough, gives the bytes back; and decoding any text at all never writes
  outside the buffer.
\<close>

theorem hex_roundtrip:
  assumes "length src \<le> length buf" "buf \<noteq> []"
  shows "\<exists>text. hex_encode_with_delimiter src d = Inr text \<and> length text = hex_encode_output_length (length src) d \<and>
    hex_decode_with_delimiter buf text d = Inr (length src, src @ drop (length src) buf) \<and>
    (\<forall>other. \<exists>r. hex_decode_with_delimiter buf other d = Inr r)"
proof (intro exI [of _ "hex_text d src"] conjI allI)
  show "hex_encode_with_delimiter src d = Inr (hex_text d src)" by (rule hex_encode_eq)
  show l: "length (hex_text d src) = hex_encode_output_length (length src) d" by (rule length_hex_text)
  have "needed d (length (hex_text d src)) \<le> length src" by (auto simp: l needed_def hex_encode_output_length_def)
  then have "hex_decode_with_delimiter buf (hex_text d src) d = hex_decode_loop d (hex_text d src) 0 buf"
    using assms by (auto simp: hex_decode_with_delimiter_def needed_def)
  then show "hex_decode_with_delimiter buf (hex_text d src) d = Inr (length src, src @ drop (length src) buf)"
    using hex_decode_loop_eq [OF assms(1), of d "[]"] by simp
  fix other
  show "\<exists>r. hex_decode_with_delimiter buf other d = Inr r"
  proof (cases "length buf < needed d (length other)")
    case True
    then show ?thesis using assms(2) by (simp add: hex_decode_with_delimiter_def needed_def)
  next
    case False
    then show ?thesis using hex_decode_loop_safe [of 0 d other buf] assms(2) by (simp add: hex_decode_with_delimiter_def needed_def)
  qed
qed

theorem hex_roundtrip_witness:
  "\<exists>text. hex_encode_with_delimiter [0xAB, 1] 58 = Inr text \<and> length text = 5 \<and>
     hex_decode_with_delimiter [0, 0, 0] text 58 = Inr (2, [0xAB, 1, 0])"
  using hex_roundtrip [of "[0xAB, 1]" "[0, 0, 0]" 58] by (auto simp: hex_encode_output_length_def)

text \<open>
  \<open>split\<close>, \<open>join\<close> and \<open>tokenize\<close>: joining the parts of a text gives the text, splitting a joined
  list of parts without the delimiter gives the list, and \<open>tokenize\<close> gives the parts that are not
  empty.
\<close>

theorem split_join:
  "str_join (str_split src d) d = src \<and> (\<forall>t \<in> set (str_split src d). d \<notin> set t) \<and>
   (ss \<noteq> [] \<and> (\<forall>s \<in> set ss. d \<notin> set s) \<longrightarrow> str_split (str_join ss d) d = ss) \<and>
   tokenize src d = filter (\<lambda>t. t \<noteq> []) (str_split src d)"
  using joined_parts parts_no_delim parts_joined tokenize_parts by (simp add: str_split_parts str_join_joined)

theorem split_join_witness:
  "str_split (str_join [[1, 2], [], [3]] 0) 0 = [[1, 2], [], [3]]"
  using split_join [of "[]" 0 "[[1, 2], [], [3]]"] by simp

end
