(* ===== verification/String_Builder.thy ===== *)
theory String_Builder
  imports String_Encode Sds_Text
begin

unbundle bit_operations_syntax

text \<open>
  Numbers as text and the string builders of the base library (\<open>rtc_base/string_encode.cc\<close>,
  \<open>string_utils.cc\<close>, \<open>strings/string_builder.h\<close>, \<open>.cc\<close>): \<open>ToString\<close>, \<open>ToHex\<close>, \<open>strcpyn\<close>, \<open>string_trim\<close>, the
  builder over a buffer of the caller and the one over a \<open>std::string\<close>. What a conversion of the
  \<open>printf\<close> family makes of a floating-point number is an argument. \<open>dc\<close> says whether \<open>RTC_DCHECK\<close> is on.
\<close>

section \<open>Conversions of printf\<close>

text \<open>\<open>%d\<close>, \<open>%u\<close> and their long forms, \<open>%0nd\<close>, \<open>%x\<close> and \<open>%08X\<close>.\<close>

definition dec_text :: "int \<Rightarrow> byte list" where
  "dec_text v = (if v < 0 then 45 # store_digits (nat (- v)) [] else store_digits (nat v) [])"

definition dec_text0 :: "nat \<Rightarrow> int \<Rightarrow> byte list" where
  "dec_text0 n v =
     (let ds = store_digits (nat \<bar>v\<bar>) []; sign = (if v < 0 then [45] else [])
      in sign @ replicate (n - length sign - length ds) 48 @ ds)"

fun hex_digits :: "nat \<Rightarrow> byte list \<Rightarrow> byte list" where
  "hex_digits v acc =
     (let acc1 = hex_encode (v mod 16) # acc; v1 = v div 16 in if v1 \<noteq> 0 then hex_digits v1 acc1 else acc1)"

declare hex_digits.simps [simp del]

definition hex_upper :: "byte \<Rightarrow> byte" where
  "hex_upper c = (if 97 \<le> c then c - 32 else c)"

definition hex_text8 :: "u32 \<Rightarrow> byte list" where
  "hex_text8 v = (let ds = map hex_upper (hex_digits (unat v) []) in replicate (8 - length ds) 48 @ ds)"

text \<open>\<open>snprintf\<close> into a block of \<open>n\<close> bytes that starts at \<open>off\<close>: the text, cut off, and a null byte.\<close>

definition snprintf_at :: "byte list \<Rightarrow> nat \<Rightarrow> nat \<Rightarrow> byte list \<Rightarrow> byte list res" where
  "snprintf_at buf off n out =
     (if n = 0 then Inr buf
      else let bs = take (n - 1) out @ [0]
           in if off + length bs \<le> length buf then Inr (write_at buf off bs) else Inl OutOfBounds)"

section \<open>ToString and ToHex\<close>

text \<open>
  Every \<open>ToString\<close> of an integer prints it into a buffer of 32 bytes and takes \<open>len\<close> bytes of that.
\<close>

definition ToString_int :: "bool \<Rightarrow> byte list \<Rightarrow> int \<Rightarrow> byte list res" where
  "ToString_int dc buf0 v =
     rbind (snprintf_at (take 32 buf0) 0 32 (dec_text v)) (\<lambda>buf.
       let len = length (dec_text v)
       in if dc \<and> len > 32 then Inl AssertFail
          else if len \<le> length buf then Inr (take len buf) else Inl OutOfBounds)"

text \<open>The argument is an \<open>int\<close>: a wider one is cut to 32 bits.\<close>

definition ToHex :: "u32 \<Rightarrow> byte list" where
  "ToHex i = take 49 (hex_digits (unat i) [])"

section \<open>Copying and trimming\<close>

definition strcpyn :: "byte list \<Rightarrow> byte list \<Rightarrow> (nat \<times> byte list) res" where
  "strcpyn buf source =
     (if length buf = 0 then Inr (0, buf)
      else let srclen = (if length source \<ge> length buf then length buf - 1 else length source)
           in rbind (put_byte (write_at buf 0 (take srclen source)) srclen 0) (\<lambda>b. Inr (srclen, b)))"

definition kWhitespace :: "byte list" where
  "kWhitespace = [32, 10, 13, 9]"

text \<open>\<open>find_first_not_of\<close> and \<open>find_last_not_of\<close>; \<open>None\<close> is \<open>npos\<close>.\<close>

fun find_first_not_of :: "byte list \<Rightarrow> byte list \<Rightarrow> nat option" where
  "find_first_not_of [] cs = None"
| "find_first_not_of (x # xs) cs = (if x \<in> set cs then map_option Suc (find_first_not_of xs cs) else Some 0)"

fun find_last_not_of :: "byte list \<Rightarrow> byte list \<Rightarrow> nat option" where
  "find_last_not_of [] cs = None"
| "find_last_not_of (x # xs) cs =
     (case find_last_not_of xs cs of Some i \<Rightarrow> Some (Suc i) | None \<Rightarrow> if x \<in> set cs then None else Some 0)"

definition string_trim :: "byte list \<Rightarrow> byte list" where
  "string_trim s =
     (case (find_first_not_of s kWhitespace, find_last_not_of s kWhitespace) of
        (Some first, Some lst) \<Rightarrow> take (lst - first + 1) (drop first s)
      | _ \<Rightarrow> [])"

section \<open>The builder over a fixed buffer\<close>

record ssb =
  sb_buf :: "byte list"
  sb_size :: nat

definition ssb_consistent :: "ssb \<Rightarrow> bool" where
  "ssb_consistent b \<longleftrightarrow> sb_size b \<le> length (sb_buf b) - 1 \<and> sb_buf b ! sb_size b = 0"

definition ssb_check :: "bool \<Rightarrow> ssb \<Rightarrow> ssb res" where
  "ssb_check dc b = (if dc \<and> \<not> ssb_consistent b then Inl AssertFail else Inr b)"

definition SimpleStringBuilder :: "bool \<Rightarrow> byte list \<Rightarrow> ssb res" where
  "SimpleStringBuilder dc buf =
     rbind (put_byte buf 0 0) (\<lambda>buf1. ssb_check dc \<lparr>sb_buf = buf1, sb_size = 0\<rparr>)"

definition ssb_append :: "bool \<Rightarrow> byte list \<Rightarrow> ssb \<Rightarrow> ssb res" where
  "ssb_append dc str b =
     (let n = length (sb_buf b)
      in if dc \<and> \<not> sb_size b + length str < n then Inl AssertFail
         else let chars_added = min (length str) (nat (to_size_t (int n - int (sb_size b) - 1)))
              in if n < sb_size b + chars_added then Inl OutOfBounds
                 else let buf1 = write_at (sb_buf b) (sb_size b) (take chars_added str); size = sb_size b + chars_added
                      in rbind (put_byte buf1 size 0) (\<lambda>buf2. ssb_check dc \<lparr>sb_buf = buf2, sb_size = size\<rparr>))"

text \<open>\<open>AppendFormat\<close>; \<open>out\<close> is what the format expands to, \<open>None\<close> an error of \<open>vsnprintf\<close>.\<close>

definition ssb_format :: "bool \<Rightarrow> byte list option \<Rightarrow> ssb \<Rightarrow> ssb res" where
  "ssb_format dc out b =
     (let n = length (sb_buf b)
      in case out of
           Some out \<Rightarrow>
             rbind (snprintf_at (sb_buf b) (sb_size b) (nat (to_size_t (int n - int (sb_size b)))) out) (\<lambda>buf1.
               let chars_added = min (length out) (nat (to_size_t (int n - 1 - int (sb_size b))))
               in if dc \<and> length out \<noteq> chars_added then Inl AssertFail
                  else ssb_check dc (b\<lparr>sb_buf := buf1, sb_size := sb_size b + chars_added\<rparr>))
         | None \<Rightarrow>
             if dc then Inl AssertFail
             else rbind (put_byte (sb_buf b) (sb_size b) 0) (\<lambda>buf1. Inr (b\<lparr>sb_buf := buf1\<rparr>)))"

text \<open>\<open>str ()\<close>, read as a C string.\<close>

definition ssb_str :: "ssb \<Rightarrow> byte list res" where
  "ssb_str b = (if 0 \<in> set (sb_buf b) then Inr (takeWhile (\<lambda>c. c \<noteq> 0) (sb_buf b)) else Inl OutOfBounds)"

section \<open>What the conversions print\<close>

text \<open>The number a text of hexadecimal digits stands for.\<close>

definition hex_value :: "byte list \<Rightarrow> nat" where
  "hex_value ds = foldl (\<lambda>v d. 16 * v + (case hex_decode d of Some x \<Rightarrow> unat x | None \<Rightarrow> 0)) 0 ds"

lemma hex_digits_value:
  "\<exists>ds. hex_digits v acc = ds @ acc \<and> hex_value ds = v \<and> (\<forall>d \<in> set ds. hex_decode d \<noteq> None) \<and> ds \<noteq> []"
proof (induction v acc rule: hex_digits.induct)
  case (1 v acc)
  let ?d = "hex_encode (v mod 16)"
  have d: "hex_decode ?d = Some (of_nat (v mod 16))" by (rule hex_decode_encode) simp
  have u: "unat (of_nat (v mod 16) :: byte) = v mod 16" by simp
  show ?case
  proof (cases "v div 16 = 0")
    case True
    then have "v mod 16 = v" by (simp add: div_eq_0_iff)
    then show ?thesis using d u True by (subst hex_digits.simps) (auto simp: hex_value_def intro!: exI [of _ "[?d]"])
  next
    case False
    then obtain ds where ds: "hex_digits (v div 16) (?d # acc) = ds @ ?d # acc" "hex_value ds = v div 16" "\<forall>d \<in> set ds. hex_decode d \<noteq> None"
      using 1 [OF refl refl] by auto
    have "hex_value (ds @ [?d]) = v" using ds(2) d u by (simp add: hex_value_def)
    then show ?thesis using False ds d by (subst hex_digits.simps) (auto simp: Let_def intro!: exI [of _ "ds @ [?d]"])
  qed
qed

lemma hex_digits_length: "v < 16 ^ Suc k \<Longrightarrow> length (hex_digits v acc) \<le> Suc k + length acc"
proof (induction k arbitrary: v acc)
  case 0
  then show ?case by (subst hex_digits.simps) simp
next
  case (Suc k)
  have "v div 16 < 16 ^ Suc k" using Suc.prems by (simp add: less_mult_imp_div_less)
  from Suc.IH [OF this, of "hex_encode (v mod 16) # acc"] show ?case by (subst hex_digits.simps) (simp add: Let_def)
qed

lemma ToHex_value: "hex_value (ToHex i) = unat i" "length (ToHex i) \<le> 8"
proof -
  have "unat i < 2 ^ 32" by (rule order.strict_trans2 [OF unsigned_less]) simp
  then have "unat i < 16 ^ Suc 7" by simp
  from hex_digits_length [OF this, of "[]"] have l: "length (hex_digits (unat i) []) \<le> 8" by simp
  then have "ToHex i = hex_digits (unat i) []" by (simp add: ToHex_def)
  then show "hex_value (ToHex i) = unat i" "length (ToHex i) \<le> 8" using l hex_digits_value [of "unat i" "[]"] by auto
qed

lemma dec_text_value: "int_value (dec_text v) = v"
proof -
  obtain ds where ds: "store_digits (nat \<bar>v\<bar>) [] = ds" "dec_value ds = nat \<bar>v\<bar>" "\<forall>d \<in> set ds. 48 \<le> d \<and> d \<le> 57" "ds \<noteq> []"
    using store_digits_value [of "nat \<bar>v\<bar>" "[]"] by auto
  have "hd ds \<noteq> 45" using ds(3,4) by (cases ds) auto
  then show ?thesis using ds by (cases ds) (auto simp: dec_text_def int_value_def abs_if split: if_splits)
qed

text \<open>A 64-bit number fits the buffer with room for the null byte.\<close>

lemma dec_text_length: "- (2 ^ 63) \<le> v \<Longrightarrow> v < 2 ^ 64 \<Longrightarrow> length (dec_text v) \<le> 20"
proof -
  assume v: "- (2 ^ 63) \<le> v" "v < 2 ^ 64"
  show ?thesis
  proof (cases "v < 0")
    case True
    then have "nat (- v) < 10 ^ Suc 18" using v by (simp add: nat_less_iff)
    from store_digits_length [OF this, of "[]"] True show ?thesis by (simp add: dec_text_def)
  next
    case False
    then have "nat v < 10 ^ Suc 19" using v by (simp add: nat_less_iff)
    from store_digits_length [OF this, of "[]"] False show ?thesis by (simp add: dec_text_def)
  qed
qed

lemma ToString_int_eq:
  assumes "- (2 ^ 63) \<le> v" "v < 2 ^ 64" "32 \<le> length buf0"
  shows "ToString_int dc buf0 v = Inr (dec_text v)"
  using dec_text_length [OF assms(1,2)] assms(3)
  by (simp add: ToString_int_def snprintf_at_def Let_def write_at_def)

section \<open>The fixed buffer never overflows\<close>

lemma list_update_length_append: "(xs @ ys)[length xs := y] = xs @ ys[0 := y]"
  by (simp add: list_update_append)

lemma take_min_length: "take (min (length xs) n) xs = take n xs"
  by (simp add: min_def)

text \<open>A builder that holds the text \<open>s\<close>.\<close>

definition ssb_holds :: "ssb \<Rightarrow> byte list \<Rightarrow> bool" where
  "ssb_holds b s \<longleftrightarrow> length (sb_buf b) < 2 ^ 64 \<and> length s < length (sb_buf b) \<and> sb_size b = length s \<and> take (length s + 1) (sb_buf b) = s @ [0]"

lemma ssb_holdsE:
  assumes "ssb_holds b s"
  obtains rest where "sb_buf b = s @ 0 # rest" "sb_size b = length s" "length (sb_buf b) < 2 ^ 64"
proof
  show "sb_buf b = s @ 0 # drop (length s + 1) (sb_buf b)"
    using assms append_take_drop_id [of "length s + 1" "sb_buf b"] by (simp add: ssb_holds_def)
qed (use assms in \<open>simp_all add: ssb_holds_def\<close>)

lemma ssb_holds_consistent: "ssb_holds b s \<Longrightarrow> ssb_consistent b"
  by (erule ssb_holdsE) (simp add: ssb_consistent_def)

lemma ssb_new:
  assumes "buf \<noteq> []" "length buf < 2 ^ 64"
  shows "\<exists>b. SimpleStringBuilder dc buf = Inr b \<and> ssb_holds b [] \<and> length (sb_buf b) = length buf"
proof -
  obtain x xs where "buf = x # xs" using assms(1) by (cases buf) auto
  then show ?thesis using assms by (simp add: SimpleStringBuilder_def put_byte_def ssb_check_def ssb_consistent_def ssb_holds_def)
qed

lemma ssb_room: "ssb_holds b s \<Longrightarrow> nat (to_size_t (int (length (sb_buf b)) - int (sb_size b) - 1)) = length (sb_buf b) - length s - 1"
proof -
  assume h: "ssb_holds b s"
  then have "to_size_t (int (length (sb_buf b)) - int (sb_size b) - 1) = int (length (sb_buf b)) - int (sb_size b) - 1"
    by (intro to_size_t_id) (auto simp: ssb_holds_def)
  then show ?thesis using h by (auto simp: ssb_holds_def)
qed

text \<open>
  Appending gives the text, cut off at the end of the buffer; with the checks on, a text that does
  not fit ends the program instead.
\<close>

lemma ssb_append_ok:
  assumes h: "ssb_holds b s" and fits: "dc \<longrightarrow> length s + length str < length (sb_buf b)"
  shows "\<exists>b'. ssb_append dc str b = Inr b' \<and> ssb_holds b' (take (length (sb_buf b) - 1) (s @ str)) \<and> length (sb_buf b') = length (sb_buf b)"
proof -
  let ?n = "length (sb_buf b)"
  define k where "k = min (length str) (?n - length s - 1)"
  have sz: "sb_size b = length s" "length s < ?n" "?n < 2 ^ 64" "take (length s) (sb_buf b) = s"
    using h by (auto elim: ssb_holdsE)
  have k: "length s + k < ?n" using sz(2) by (simp add: k_def)
  define buf1 where "buf1 = write_at (sb_buf b) (length s) (take k str)"
  have lk: "length (take k str) = k" by (simp add: k_def)
  have b1: "length buf1 = ?n" "take (length s + k) buf1 = s @ take k str"
    using k sz(4) lk by (simp_all add: buf1_def write_at_def)
  let ?b = "\<lparr>sb_buf = buf1[length s + k := 0], sb_size = length s + k\<rparr>"
  have t: "take (?n - 1) (s @ str) = s @ take k str" using sz(2) by (auto simp: k_def take_min_length)
  have ls: "length (s @ take k str) = length s + k" using lk by simp
  have "buf1 = (s @ take k str) @ drop (length s + k) buf1" using b1(2) append_take_drop_id [of "length s + k" buf1] by simp
  then have "buf1[length s + k := 0] = (s @ take k str) @ (drop (length s + k) buf1)[0 := 0]"
    by (metis ls list_update_length_append)
  then obtain rest where "buf1[length s + k := 0] = (s @ take k str) @ 0 # rest" using k b1(1) by (cases "drop (length s + k) buf1") auto
  moreover have "length (buf1[length s + k := 0]) = ?n" using b1(1) by simp
  ultimately have hb: "ssb_holds ?b (s @ take k str)" using k sz(3) lk by (simp add: ssb_holds_def del: length_list_update)
  have "ssb_append dc str b = Inr ?b"
    using fits k b1(1) ssb_holds_consistent [OF hb] unfolding ssb_append_def Let_def sz(1) ssb_room [OF h, unfolded sz(1)] k_def [symmetric] buf1_def [symmetric]
    by (simp add: put_byte_def ssb_check_def)
  then show ?thesis unfolding t using hb b1(1) by simp
qed

lemma ssb_format_append:
  assumes h: "ssb_holds b s" and fits: "dc \<longrightarrow> length s + length str < length (sb_buf b)"
  shows "\<exists>b'. ssb_format dc (Some str) b = Inr b' \<and> ssb_holds b' (take (length (sb_buf b) - 1) (s @ str)) \<and> length (sb_buf b') = length (sb_buf b)"
proof -
  let ?n = "length (sb_buf b)"
  define k where "k = min (length str) (?n - length s - 1)"
  have sz: "sb_size b = length s" "length s < ?n" "?n < 2 ^ 64" "take (length s) (sb_buf b) = s"
    using h by (auto elim: ssb_holdsE)
  have k: "length s + k < ?n" using sz(2) by (simp add: k_def)
  have r: "nat (to_size_t (int ?n - int (length s))) = ?n - length s" "nat (to_size_t (int ?n - 1 - int (length s))) = ?n - length s - 1"
    using sz(2,3) by (simp_all add: nat_diff_distrib)
  have tk: "take (?n - length s - 1) str = take k str" "length (take k str) = k" by (auto simp: k_def take_min_length)
  define buf1 where "buf1 = write_at (sb_buf b) (length s) (take k str @ [0])"
  have b1: "length buf1 = ?n" "take (length s + k + 1) buf1 = s @ take k str @ [0]"
    using k sz(4) tk(2) by (simp_all add: buf1_def write_at_def)
  let ?b = "b\<lparr>sb_buf := buf1, sb_size := length s + k\<rparr>"
  have t: "take (?n - 1) (s @ str) = s @ take k str" using sz(2) by (auto simp: k_def take_min_length)
  have hb: "ssb_holds ?b (s @ take k str)" using k b1 sz(3) tk(2) by (simp add: ssb_holds_def)
  have sn: "snprintf_at (sb_buf b) (length s) (?n - length s) str = Inr buf1"
    using sz(2) k tk by (simp add: snprintf_at_def Let_def buf1_def)
  have "ssb_format dc (Some str) b = Inr ?b"
    using fits sn k ssb_holds_consistent [OF hb] tk
    unfolding ssb_format_def Let_def sz(1) r k_def [symmetric] by (auto simp: ssb_check_def k_def)
  then show ?thesis unfolding t using hb b1(1) by simp
qed

lemma ssb_str_holds: "ssb_holds b s \<Longrightarrow> 0 \<notin> set s \<Longrightarrow> ssb_str b = Inr s"
proof -
  assume h: "ssb_holds b s" "0 \<notin> set s"
  from h(1) obtain rest where e: "sb_buf b = s @ 0 # rest" by (rule ssb_holdsE)
  have "takeWhile (\<lambda>c. c \<noteq> 0) (s @ 0 # rest) = s" using h(2) by (subst takeWhile_append2) auto
  then show ?thesis by (simp add: ssb_str_def e)
qed

section \<open>Copying and trimming\<close>

lemma strcpyn_ok:
  assumes "buf \<noteq> []"
  shows "\<exists>rest. strcpyn buf source = Inr (min (length source) (length buf - 1), take (length buf - 1) source @ 0 # rest) \<and>
    length rest = length buf - 1 - min (length source) (length buf - 1)"
proof -
  define n where "n = min (length source) (length buf - 1)"
  have "0 < length buf" using assms by simp
  then have n: "n < length buf" unfolding n_def by linarith
  have n2: "(if length source \<ge> length buf then length buf - 1 else length source) = n"
    using \<open>0 < length buf\<close> by (cases "length source \<ge> length buf") (simp_all add: n_def)
  have t: "take n source = take (length buf - 1) source" "length (take n source) = n" by (auto simp: n_def take_min_length)
  have "write_at buf 0 (take n source) = take n source @ drop n buf" using t(2) by (simp add: write_at_def)
  moreover have "drop n buf = buf ! n # drop (Suc n) buf" using n by (simp add: Cons_nth_drop_Suc)
  ultimately have "put_byte (write_at buf 0 (take n source)) n 0 = Inr (take n source @ 0 # drop (Suc n) buf)"
    using put_byte_at [of "take n source" "buf ! n" "drop (Suc n) buf" 0] t(2) by simp
  then show ?thesis using assms n t(1) unfolding strcpyn_def Let_def n2 n_def [symmetric] by simp
qed

end
