(* ===== verification/Zmalloc.thy ===== *)
theory Zmalloc
  imports Sds_Text String_Encode
begin

text \<open>
  The allocator under the dynamic strings (\<open>rtc_base/zmalloc.cc\<close>), as it is built on Linux with the C
  library's \<open>malloc\<close>: each block has a prefix of eight bytes with the size asked for, and a counter
  keeps the memory in use. The heap maps the address of a block, prefix included, to its bytes. What
  \<open>malloc\<close>, \<open>calloc\<close> and \<open>realloc\<close> return is an argument \<open>ret\<close>, \<open>None\<close> for the null pointer, and \<open>mem\<close> is what
  fresh memory holds.
\<close>

section \<open>The allocator\<close>

definition PREFIX_SIZE :: nat where "PREFIX_SIZE = 8"

record zstate =
  z_used :: nat
  z_safe :: bool
  z_blocks :: "addr \<rightharpoonup> byte list"

definition z_init :: zstate where
  "z_init = \<lparr>z_used = 0, z_safe = False, z_blocks = Map.empty\<rparr>"

text \<open>The sum that both macros compute before they add or subtract it.\<close>

definition stat_round :: "nat \<Rightarrow> nat" where
  "stat_round n = (if n mod 8 \<noteq> 0 then (n + (8 - n mod 8)) mod 2 ^ 64 else n)"

definition update_zmalloc_stat_alloc :: "nat \<Rightarrow> zstate \<Rightarrow> zstate" where
  "update_zmalloc_stat_alloc n z = z\<lparr>z_used := (z_used z + stat_round n) mod 2 ^ 64\<rparr>"

definition update_zmalloc_stat_free :: "nat \<Rightarrow> zstate \<Rightarrow> zstate" where
  "update_zmalloc_stat_free n z = z\<lparr>z_used := nat (to_size_t (int (z_used z) - int (stat_round n)))\<rparr>"

text \<open>The store and the load of the prefix.\<close>

definition put_size :: "byte list \<Rightarrow> nat \<Rightarrow> byte list res" where
  "put_size block sz = (if length block < PREFIX_SIZE then Inl OutOfBounds else Inr (write_at block 0 (le_bytes 8 sz)))"

definition get_size :: "addr \<Rightarrow> zstate \<Rightarrow> nat res" where
  "get_size a z =
     (case z_blocks z a of
        None \<Rightarrow> Inl UseAfterFree
      | Some b \<Rightarrow> if length b < PREFIX_SIZE then Inl OutOfBounds else Inr (le_val (take 8 b)))"

text \<open>The block behind a pointer that the allocator gave out.\<close>

definition real_ptr :: "addr \<Rightarrow> addr res" where
  "real_ptr p = (if p < PREFIX_SIZE then Inl UseAfterFree else Inr (p - PREFIX_SIZE))"

text \<open>What \<open>zmalloc\<close> and \<open>zcalloc\<close> share after the block is there: \<open>fresh\<close> is its content.\<close>

definition zmalloc_with :: "(nat \<Rightarrow> byte) \<Rightarrow> addr option \<Rightarrow> nat \<Rightarrow> zstate \<Rightarrow> (addr \<times> zstate) res" where
  "zmalloc_with fresh ret sz z =
     (let n = (sz + PREFIX_SIZE) mod 2 ^ 64
      in case ret of
           None \<Rightarrow> Inl OutOfMemory
         | Some a \<Rightarrow>
             rbind (put_size (map fresh [0..<n]) sz) (\<lambda>b.
               Inr (a + PREFIX_SIZE, update_zmalloc_stat_alloc n (z\<lparr>z_blocks := (z_blocks z)(a \<mapsto> b)\<rparr>))))"

definition zmalloc :: "(nat \<Rightarrow> byte) \<Rightarrow> addr option \<Rightarrow> nat \<Rightarrow> zstate \<Rightarrow> (addr \<times> zstate) res" where
  "zmalloc mem ret sz z = zmalloc_with mem ret sz z"

definition zcalloc :: "addr option \<Rightarrow> nat \<Rightarrow> zstate \<Rightarrow> (addr \<times> zstate) res" where
  "zcalloc ret sz z = zmalloc_with (\<lambda>_. 0) ret sz z"

definition zrealloc :: "(nat \<Rightarrow> byte) \<Rightarrow> addr option \<Rightarrow> addr option \<Rightarrow> nat \<Rightarrow> zstate \<Rightarrow> (addr \<times> zstate) res" where
  "zrealloc mem ret ptr sz z =
     (case ptr of
        None \<Rightarrow> zmalloc mem ret sz z
      | Some p \<Rightarrow>
          rbind (real_ptr p) (\<lambda>a.
          rbind (get_size a z) (\<lambda>oldsize.
            let n = (sz + PREFIX_SIZE) mod 2 ^ 64; old = the (z_blocks z a)
            in case ret of
                 None \<Rightarrow> Inl OutOfMemory
               | Some a' \<Rightarrow>
                   rbind (put_size (take n old @ map mem [length old..<n]) sz) (\<lambda>b.
                     Inr (a' + PREFIX_SIZE,
                          update_zmalloc_stat_alloc sz (update_zmalloc_stat_free oldsize
                            (z\<lparr>z_blocks := (z_blocks z)(a := None, a' \<mapsto> b)\<rparr>)))))))"

definition zmalloc_size :: "addr \<Rightarrow> zstate \<Rightarrow> nat res" where
  "zmalloc_size p z =
     rbind (real_ptr p) (\<lambda>a. rbind (get_size a z) (\<lambda>sz. Inr ((stat_round sz + PREFIX_SIZE) mod 2 ^ 64)))"

definition zfree :: "addr option \<Rightarrow> zstate \<Rightarrow> zstate res" where
  "zfree ptr z =
     (case ptr of
        None \<Rightarrow> Inr z
      | Some p \<Rightarrow>
          rbind (real_ptr p) (\<lambda>a.
          rbind (get_size a z) (\<lambda>oldsize.
            let z1 = update_zmalloc_stat_free ((oldsize + PREFIX_SIZE) mod 2 ^ 64) z
            in Inr (z1\<lparr>z_blocks := (z_blocks z1)(a := None)\<rparr>))))"

text \<open>\<open>s\<close> is the string without its null byte.\<close>

definition zstrdup :: "(nat \<Rightarrow> byte) \<Rightarrow> addr option \<Rightarrow> byte list \<Rightarrow> zstate \<Rightarrow> (addr \<times> zstate) res" where
  "zstrdup mem ret s z =
     (let l = length s + 1
      in rbind (zmalloc mem ret l z) (\<lambda>(p, z1).
         rbind (real_ptr p) (\<lambda>a.
           case z_blocks z1 a of
             None \<Rightarrow> Inl UseAfterFree
           | Some b \<Rightarrow>
               if PREFIX_SIZE + l \<le> length b
               then Inr (p, z1\<lparr>z_blocks := (z_blocks z1)(a \<mapsto> write_at b PREFIX_SIZE (s @ [0]))\<rparr>)
               else Inl OutOfBounds)))"

definition zmalloc_used_memory :: "zstate \<Rightarrow> nat" where
  "zmalloc_used_memory z = z_used z"

definition zmalloc_enable_thread_safeness :: "zstate \<Rightarrow> zstate" where
  "zmalloc_enable_thread_safeness z = z\<lparr>z_safe := True\<rparr>"

section \<open>The resident set size\<close>

text \<open>
  \<open>strchr\<close> on what is left of a buffer: the distance of the character, \<open>None\<close> for a null byte first, and a
  fault where the buffer has neither.
\<close>

fun strchr :: "byte list \<Rightarrow> byte \<Rightarrow> nat option res" where
  "strchr [] c = Inl OutOfBounds"
| "strchr (x # xs) c =
     (if x = c then Inr (Some 0) else if x = 0 then Inr None else rbind (strchr xs c) (\<lambda>r. Inr (map_option Suc r)))"

text \<open>The loop that steps over \<open>count\<close> blanks.\<close>

fun skip_fields :: "nat \<Rightarrow> byte list \<Rightarrow> byte list option res" where
  "skip_fields 0 p = Inr (Some p)"
| "skip_fields (Suc count) p = rbind (strchr p 32) (\<lambda>r. case r of None \<Rightarrow> Inr None | Some i \<Rightarrow> skip_fields count (drop (i + 1) p))"

definition strtoll :: "byte list \<Rightarrow> int" where
  "strtoll s =
     (let s1 = dropWhile (\<lambda>c. c = 32 \<or> 9 \<le> c \<and> c \<le> 13) s;
          neg = (s1 \<noteq> [] \<and> hd s1 = 45);
          s2 = (if s1 \<noteq> [] \<and> (hd s1 = 45 \<or> hd s1 = 43) then tl s1 else s1);
          v = int (dec_value (takeWhile (\<lambda>c. 48 \<le> c \<and> c \<le> 57) s2))
      in if neg then max (- (2 ^ 63)) (- v) else min (2 ^ 63 - 1) v)"

text \<open>\<open>stat\<close> is what \<open>read\<close> finds in the file of the process, \<open>None\<close> when it cannot be opened.\<close>

definition zmalloc_get_rss :: "(nat \<Rightarrow> byte) \<Rightarrow> int \<Rightarrow> byte list option \<Rightarrow> nat res" where
  "zmalloc_get_rss mem page stat =
     (case stat of
        None \<Rightarrow> Inr 0
      | Some data \<Rightarrow>
          if data = [] then Inr 0
          else let buf = take 4096 data @ map mem [length data..<4096]
               in rbind (skip_fields 23 buf) (\<lambda>p. case p of
                    None \<Rightarrow> Inr 0
                  | Some p \<Rightarrow> rbind (strchr p 32) (\<lambda>x. case x of
                      None \<Rightarrow> Inr 0
                    | Some i \<Rightarrow> Inr (nat (to_size_t (to_size_t (strtoll (take i p)) * page))))))"

section \<open>The memory counter\<close>

definition zbytes :: "zstate \<Rightarrow> nat" where
  "zbytes z = (\<Sum>a \<in> dom (z_blocks z). stat_round (length (the (z_blocks z a))))"

definition zblock_ok :: "byte list \<Rightarrow> bool" where
  "zblock_ok b \<longleftrightarrow> PREFIX_SIZE \<le> length b \<and> length b < 2 ^ 64 - 8 \<and> le_val (take 8 b) = length b - PREFIX_SIZE"

text \<open>Every block carries its size, and the counter is the sum of the sizes that \<open>zmalloc_size\<close> reports.\<close>

definition z_ok :: "zstate \<Rightarrow> bool" where
  "z_ok z \<longleftrightarrow> finite (dom (z_blocks z)) \<and> (\<forall>a b. z_blocks z a = Some b \<longrightarrow> zblock_ok b) \<and> z_used z = zbytes z mod 2 ^ 64"

lemma stat_round_add8: "n + 16 \<le> 2 ^ 64 \<Longrightarrow> stat_round (n + 8) = stat_round n + 8"
  by (auto simp: stat_round_def)

lemma stat_round_ge: "n + 8 \<le> 2 ^ 64 \<Longrightarrow> n \<le> stat_round n"
  by (auto simp: stat_round_def)

lemma put_size_ok:
  assumes "length b = sz + 8" "sz + 16 < 2 ^ 64"
  shows "\<exists>b'. put_size b sz = Inr b' \<and> zblock_ok b' \<and> length b' = length b \<and> drop 8 b' = drop 8 b"
proof -
  have "le_val (le_bytes 8 sz) = sz" using assms(2) by (simp add: le_val_le_bytes)
  then show ?thesis using assms by (auto simp: put_size_def zblock_ok_def PREFIX_SIZE_def write_at_def)
qed

lemma zbytes_upd:
  assumes "finite (dom (z_blocks z))" "z_blocks z a = None"
  shows "zbytes (z\<lparr>z_blocks := (z_blocks z)(a \<mapsto> b)\<rparr>) = zbytes z + stat_round (length b)"
proof -
  have "a \<notin> dom (z_blocks z)" using assms(2) by auto
  then have "(\<Sum>x \<in> dom (z_blocks z). stat_round (length (the (((z_blocks z)(a \<mapsto> b)) x)))) = zbytes z"
    unfolding zbytes_def by (intro sum.cong) auto
  then show ?thesis using assms \<open>a \<notin> dom (z_blocks z)\<close> by (simp add: zbytes_def)
qed

lemma zbytes_del:
  assumes "finite (dom (z_blocks z))" "z_blocks z a = Some b"
  shows "zbytes z = zbytes (z\<lparr>z_blocks := (z_blocks z)(a := None)\<rparr>) + stat_round (length b)"
proof -
  have "a \<in> dom (z_blocks z)" using assms(2) by auto
  then have "zbytes z = stat_round (length b) + (\<Sum>x \<in> dom (z_blocks z) - {a}. stat_round (length (the (z_blocks z x))))"
    unfolding zbytes_def using assms by (subst sum.remove [of _ a]) simp_all
  also have "(\<Sum>x \<in> dom (z_blocks z) - {a}. stat_round (length (the (z_blocks z x)))) = zbytes (z\<lparr>z_blocks := (z_blocks z)(a := None)\<rparr>)"
    unfolding zbytes_def by (intro sum.cong) auto
  finally show ?thesis by simp
qed

lemma size_t_sub: "nat (to_size_t (int ((x + y) mod 2 ^ 64) - int y)) = x mod 2 ^ 64"
proof -
  have "int ((x + y) mod 2 ^ 64) - int y = (int x + int y) mod 2 ^ 64 - int y" by (simp add: zmod_int)
  then have "to_size_t (int ((x + y) mod 2 ^ 64) - int y) = int x mod 2 ^ 64" by (simp add: to_size_t_def mod_simps)
  then show ?thesis by (simp add: nat_mod_distrib)
qed

lemma zmalloc_with_ok:
  assumes ok: "z_ok z" and a: "z_blocks z a = None" and sz: "sz + 16 < 2 ^ 64"
  shows "\<exists>b z'. zmalloc_with fresh (Some a) sz z = Inr (a + PREFIX_SIZE, z') \<and> z_ok z' \<and> z_safe z' = z_safe z \<and>
    z_blocks z' = (z_blocks z)(a \<mapsto> b) \<and> zblock_ok b \<and> drop 8 b = map fresh [8..<sz + 8]"
proof -
  have n: "(sz + PREFIX_SIZE) mod 2 ^ 64 = sz + 8" using sz by (simp add: PREFIX_SIZE_def)
  from put_size_ok [of "map fresh [0..<sz + 8]" sz] sz obtain b where
    b: "put_size (map fresh [0..<sz + 8]) sz = Inr b" "zblock_ok b" "length b = sz + 8" "drop 8 b = map fresh [8..<sz + 8]"
    by (auto simp: drop_map)
  let ?z = "z\<lparr>z_blocks := (z_blocks z)(a \<mapsto> b)\<rparr>"
  have "zbytes ?z = zbytes z + stat_round (sz + 8)" using zbytes_upd [of z a b] ok a b(3) by (simp add: z_ok_def)
  then have "z_ok (update_zmalloc_stat_alloc (sz + 8) ?z)"
    using ok b(2) by (auto simp: z_ok_def update_zmalloc_stat_alloc_def zbytes_def mod_simps)
  then show ?thesis using b unfolding zmalloc_with_def Let_def n by (auto simp: update_zmalloc_stat_alloc_def)
qed

lemma get_size_ok:
  assumes "z_ok z" "z_blocks z a = Some b"
  shows "get_size a z = Inr (length b - 8)"
proof -
  have "zblock_ok b" using assms by (simp add: z_ok_def)
  then show ?thesis using assms(2) by (simp add: zblock_ok_def get_size_def PREFIX_SIZE_def)
qed

lemma real_ptr_add [simp]: "real_ptr (a + PREFIX_SIZE) = Inr a"
  by (simp add: real_ptr_def)

lemma zmalloc_size_ok:
  assumes "z_ok z" "z_blocks z a = Some b"
  shows "zmalloc_size (a + PREFIX_SIZE) z = Inr (stat_round (length b))" "length b \<le> stat_round (length b)"
proof -
  have b: "8 \<le> length b" "length b < 2 ^ 64 - 8" using assms by (auto simp: z_ok_def zblock_ok_def PREFIX_SIZE_def)
  have "stat_round (length b - 8) + 8 = stat_round (length b)" using stat_round_add8 [of "length b - 8"] b by simp
  moreover have "stat_round (length b) < 2 ^ 64" using b(2) by (auto simp: stat_round_def)
  ultimately show "zmalloc_size (a + PREFIX_SIZE) z = Inr (stat_round (length b))"
    using get_size_ok [OF assms] by (simp add: zmalloc_size_def) (simp add: PREFIX_SIZE_def)
  show "length b \<le> stat_round (length b)" using b(2) by (intro stat_round_ge) simp
qed

lemma zfree_ok:
  assumes ok: "z_ok z" and b: "z_blocks z a = Some b"
  shows "\<exists>z'. zfree (Some (a + PREFIX_SIZE)) z = Inr z' \<and> z_ok z' \<and> z_blocks z' = (z_blocks z)(a := None)"
proof -
  have l: "8 \<le> length b" "length b < 2 ^ 64 - 8" using ok b by (auto simp: z_ok_def zblock_ok_def PREFIX_SIZE_def)
  have n: "(length b - 8 + PREFIX_SIZE) mod 2 ^ 64 = length b" using l by (simp add: PREFIX_SIZE_def)
  let ?z = "z\<lparr>z_blocks := (z_blocks z)(a := None)\<rparr>"
  have "z_used z = (zbytes ?z + stat_round (length b)) mod 2 ^ 64" using ok zbytes_del [of z a b] b by (simp add: z_ok_def)
  then have u: "nat (to_size_t (int (z_used z) - int (stat_round (length b)))) = zbytes ?z mod 2 ^ 64" by (simp only: size_t_sub)
  have "z_ok (z\<lparr>z_used := zbytes ?z mod 2 ^ 64, z_blocks := (z_blocks z)(a := None)\<rparr>)"
    using ok by (auto simp: z_ok_def zbytes_def split: if_splits)
  then show ?thesis using get_size_ok [OF ok b] n u by (simp add: zfree_def update_zmalloc_stat_free_def)
qed

lemma zrealloc_ok:
  assumes ok: "z_ok z" and b: "z_blocks z a = Some b" and a': "a' = a \<or> z_blocks z a' = None" and sz: "sz + 16 < 2 ^ 64"
  shows "\<exists>b' z'. zrealloc mem (Some a') (Some (a + PREFIX_SIZE)) sz z = Inr (a' + PREFIX_SIZE, z') \<and> z_ok z' \<and>
    z_blocks z' = (z_blocks z)(a := None, a' \<mapsto> b') \<and> length b' = sz + 8 \<and> drop 8 b' = take sz (drop 8 b) @ map mem [length b..<sz + 8]"
proof -
  have l: "8 \<le> length b" "length b < 2 ^ 64 - 8" using ok b by (auto simp: z_ok_def zblock_ok_def PREFIX_SIZE_def)
  have n: "(sz + PREFIX_SIZE) mod 2 ^ 64 = sz + 8" using sz by (simp add: PREFIX_SIZE_def)
  let ?new = "take (sz + 8) b @ map mem [length b..<sz + 8]"
  have ln: "length ?new = sz + 8" by simp
  from put_size_ok [OF ln sz] obtain b' where
    b': "put_size ?new sz = Inr b'" "zblock_ok b'" "length b' = sz + 8" "drop 8 b' = drop 8 ?new" by auto
  have keep: "drop 8 b' = take sz (drop 8 b) @ map mem [length b..<sz + 8]" unfolding b'(4) using l(1) by (simp add: drop_take)
  let ?z0 = "z\<lparr>z_blocks := (z_blocks z)(a := None)\<rparr>" and ?z1 = "z\<lparr>z_blocks := (z_blocks z)(a := None, a' \<mapsto> b')\<rparr>"
  have r: "stat_round (length b) = stat_round (length b - 8) + 8" "stat_round (sz + 8) = stat_round sz + 8"
    using stat_round_add8 [of "length b - 8"] stat_round_add8 [of sz] l sz by simp_all
  have "zbytes ?z1 = zbytes ?z0 + stat_round (sz + 8)"
    using zbytes_upd [of ?z0 a' b'] ok a' b'(3) by (auto simp: z_ok_def)
  moreover have "z_used z = (zbytes ?z0 + 8 + stat_round (length b - 8)) mod 2 ^ 64"
    using ok zbytes_del [of z a b] b r(1) by (simp add: z_ok_def add.commute add.left_commute)
  then have "nat (to_size_t (int (z_used z) - int (stat_round (length b - 8)))) = (zbytes ?z0 + 8) mod 2 ^ 64" by (simp only: size_t_sub)
  ultimately have u: "(nat (to_size_t (int (z_used z) - int (stat_round (length b - 8)))) + stat_round sz) mod 2 ^ 64 = zbytes ?z1 mod 2 ^ 64"
    using r(2) by (simp add: mod_simps add.assoc add.commute add.left_commute)
  let ?z = "?z1\<lparr>z_used := zbytes ?z1 mod 2 ^ 64\<rparr>"
  have "z_ok ?z" using ok b'(2) by (auto simp: z_ok_def zbytes_def split: if_splits)
  moreover have "zrealloc mem (Some a') (Some (a + PREFIX_SIZE)) sz z = Inr (a' + PREFIX_SIZE, ?z)"
    using get_size_ok [OF ok b] b b'(1) u unfolding zrealloc_def Let_def n
    by (simp add: update_zmalloc_stat_alloc_def update_zmalloc_stat_free_def)
  ultimately show ?thesis using b'(3) keep by (intro exI [of _ b'] exI [of _ ?z]) simp
qed

section \<open>Reading the resident set size\<close>

lemma strchr_found: "c \<notin> set f \<Longrightarrow> 0 \<notin> set f \<Longrightarrow> strchr (f @ c # rest) c = Inr (Some (length f))"
  by (induction f) auto

lemma skip_fields_joined:
  assumes "n < length fs" "\<forall>f \<in> set fs. 32 \<notin> set f \<and> 0 \<notin> set f"
  shows "skip_fields n (joined 32 fs @ rest) = Inr (Some (joined 32 (drop n fs) @ rest))"
  using assms
proof (induction n arbitrary: fs)
  case (Suc n)
  then obtain f g gs where fs: "fs = f # g # gs" by (cases fs; cases "tl fs") auto
  have "strchr (joined 32 fs @ rest) 32 = Inr (Some (length f))"
    using strchr_found [of 32 f "joined 32 (g # gs) @ rest"] Suc.prems(2) fs by simp
  moreover have "drop (length f + 1) (joined 32 fs @ rest) = joined 32 (g # gs) @ rest" using fs by simp
  ultimately show ?case using Suc.IH [of "g # gs"] Suc.prems fs by simp
qed simp

lemma strtoll_digits: "v < 2 ^ 63 \<Longrightarrow> strtoll (store_digits v []) = int v"
proof -
  assume v: "v < 2 ^ 63"
  obtain ds where ds: "store_digits v [] = ds" "dec_value ds = v" "\<forall>d \<in> set ds. 48 \<le> d \<and> d \<le> 57" "ds \<noteq> []"
    using store_digits_value [of v "[]"] by auto
  obtain x xs where x: "ds = x # xs" "48 \<le> x" "x \<le> 57" using ds(3,4) by (cases ds) auto
  have nb: "\<not> (x = 32 \<or> 9 \<le> x \<and> x \<le> 13)" "x \<noteq> 45" "x \<noteq> 43" using x(2) by (auto dest: order_trans)
  have "takeWhile (\<lambda>c. 48 \<le> c \<and> c \<le> 57) ds = ds" using ds(3) by simp
  moreover have "dropWhile (\<lambda>c. c = 32 \<or> 9 \<le> c \<and> c \<le> 13) ds = ds" using nb(1) x(1) by (auto simp: dropWhile_eq_self_iff)
  ultimately show ?thesis unfolding ds(1) strtoll_def Let_def using nb(2,3) x(1) ds(2) v by simp
qed

section \<open>Properties\<close>

text \<open>Operations of the allocator on pointers that it gave out, with what the C library answers.\<close>

datatype zop = ZMalloc nat addr | ZCalloc nat addr | ZRealloc addr nat addr | ZFree addr

fun zrun :: "(nat \<Rightarrow> byte) \<Rightarrow> zop \<Rightarrow> zstate \<Rightarrow> zstate res" where
  "zrun mem (ZMalloc n a) z = rbind (zmalloc mem (Some a) n z) (\<lambda>(p, z). Inr z)"
| "zrun mem (ZCalloc n a) z = rbind (zcalloc (Some a) n z) (\<lambda>(p, z). Inr z)"
| "zrun mem (ZRealloc p n a) z = rbind (zrealloc mem (Some a) (Some p) n z) (\<lambda>(p, z). Inr z)"
| "zrun mem (ZFree p) z = zfree (Some p) z"

definition live :: "addr \<Rightarrow> zstate \<Rightarrow> bool" where
  "live p z \<longleftrightarrow> PREFIX_SIZE \<le> p \<and> z_blocks z (p - PREFIX_SIZE) \<noteq> None"

fun zop_fits :: "zop \<Rightarrow> zstate \<Rightarrow> bool" where
  "zop_fits (ZMalloc n a) z \<longleftrightarrow> z_blocks z a = None \<and> n + 16 < 2 ^ 64"
| "zop_fits (ZCalloc n a) z \<longleftrightarrow> z_blocks z a = None \<and> n + 16 < 2 ^ 64"
| "zop_fits (ZRealloc p n a) z \<longleftrightarrow> live p z \<and> (a = p - PREFIX_SIZE \<or> z_blocks z a = None) \<and> n + 16 < 2 ^ 64"
| "zop_fits (ZFree p) z \<longleftrightarrow> live p z"

lemma zrun_ok:
  assumes "z_ok z" "zop_fits op z"
  shows "\<exists>z'. zrun mem op z = Inr z' \<and> z_ok z'"
proof (cases op)
  case (ZMalloc n a)
  then show ?thesis using zmalloc_with_ok [OF assms(1), of a n mem] assms(2) by (auto simp: zmalloc_def)
next
  case (ZCalloc n a)
  then show ?thesis using zmalloc_with_ok [OF assms(1), of a n "\<lambda>_. 0"] assms(2) by (auto simp: zcalloc_def)
next
  case (ZRealloc p n a)
  then obtain b where p: "p - PREFIX_SIZE + PREFIX_SIZE = p" "z_blocks z (p - PREFIX_SIZE) = Some b" using assms(2) by (auto simp: live_def)
  from zrealloc_ok [OF assms(1) p(2), of a n mem] assms(2) ZRealloc p(1) show ?thesis by auto
next
  case (ZFree p)
  then obtain b where p: "p - PREFIX_SIZE + PREFIX_SIZE = p" "z_blocks z (p - PREFIX_SIZE) = Some b" using assms(2) by (auto simp: live_def)
  from zfree_ok [OF assms(1) p(2)] ZFree p(1) show ?thesis by auto
qed

text \<open>
  C37: every operation of the allocator on pointers it gave out succeeds without touching memory outside its
  blocks, and afterwards the counter of used memory is, modulo the width of \<open>size_t\<close>, the sum of what
  \<open>zmalloc_size\<close> reports for the live blocks, each at least as large as its block.
\<close>

theorem zmalloc_accounts:
  assumes "z_ok z" "zop_fits op z"
  shows "\<exists>z'. zrun mem op z = Inr z' \<and> z_ok z' \<and>
    (\<forall>a b. z_blocks z' a = Some b \<longrightarrow> (\<exists>n. zmalloc_size (a + PREFIX_SIZE) z' = Inr n \<and> length b \<le> n)) \<and>
    zmalloc_used_memory z' = (\<Sum>a \<in> dom (z_blocks z'). projr (zmalloc_size (a + PREFIX_SIZE) z')) mod 2 ^ 64"
proof -
  from zrun_ok [OF assms, of mem] obtain z' where z': "zrun mem op z = Inr z'" "z_ok z'" by blast
  have "zbytes z' = (\<Sum>a \<in> dom (z_blocks z'). projr (zmalloc_size (a + PREFIX_SIZE) z'))"
    unfolding zbytes_def by (intro sum.cong) (auto simp: zmalloc_size_ok(1) [OF z'(2)])
  then have "zmalloc_used_memory z' = (\<Sum>a \<in> dom (z_blocks z'). projr (zmalloc_size (a + PREFIX_SIZE) z')) mod 2 ^ 64"
    using z'(2) by (simp add: z_ok_def zmalloc_used_memory_def)
  then show ?thesis using z' zmalloc_size_ok [OF z'(2)] by blast
qed

lemma z_init_ok: "z_ok z_init"
  by (simp add: z_ok_def z_init_def zbytes_def)

theorem zmalloc_accounts_witness:
  "\<exists>z'. zrun (\<lambda>_. 0) (ZMalloc 5 100) z_init = Inr z' \<and>
     zmalloc_used_memory z' = (\<Sum>a \<in> dom (z_blocks z'). projr (zmalloc_size (a + PREFIX_SIZE) z')) mod 2 ^ 64"
proof -
  have "zop_fits (ZMalloc 5 100) z_init" by (simp add: z_init_def)
  from zmalloc_accounts [OF z_init_ok this, of "\<lambda>_. 0"] show ?thesis by blast
qed

text \<open>
  A request within eight bytes of the largest \<open>size_t\<close> wraps around: the block that \<open>malloc\<close> returns
  is shorter than the prefix, which is stored behind its end.
\<close>

theorem zmalloc_wraps:
  assumes "2 ^ 64 - 8 \<le> n" "n < 2 ^ 64"
  shows "zmalloc mem (Some a) n z = Inl OutOfBounds"
proof -
  have "(n + PREFIX_SIZE) mod 2 ^ 64 = n + 8 - 2 ^ 64" using assms by (simp add: PREFIX_SIZE_def mod_if)
  moreover have "n + 8 - 2 ^ 64 < PREFIX_SIZE" using assms by (simp add: PREFIX_SIZE_def)
  ultimately show ?thesis by (simp add: zmalloc_def zmalloc_with_def put_size_def Let_def)
qed

text \<open>
  The resident set size is the value of the 24th field of the text of the kernel, in pages, as long
  as no field before it contains a blank.
\<close>

theorem get_rss_value:
  assumes "25 \<le> length fs" "\<forall>f \<in> set fs. 32 \<notin> set f \<and> 0 \<notin> set f" "fs ! 23 = store_digits v []" "v < 2 ^ 63"
    "data = joined 32 fs" "length data \<le> 4096"
  shows "zmalloc_get_rss mem page (Some data) = Inr (nat (to_size_t (int v * page)))"
proof -
  let ?rest = "map mem [length data..<4096]"
  have s: "skip_fields 23 (data @ ?rest) = Inr (Some (joined 32 (drop 23 fs) @ ?rest))"
    using skip_fields_joined [of 23 fs ?rest] assms(1,2,5) by simp
  have "drop 23 fs = fs ! 23 # drop 24 fs" "drop 24 fs \<noteq> []" using assms(1) Cons_nth_drop_Suc [of 23 fs] by simp_all
  then have j: "joined 32 (drop 23 fs) @ ?rest = fs ! 23 @ 32 # joined 32 (drop 24 fs) @ ?rest" by (simp add: joined_Cons)
  have "fs ! 23 \<in> set fs" using assms(1) by simp
  then have c: "strchr (joined 32 (drop 23 fs) @ ?rest) 32 = Inr (Some (length (fs ! 23)))"
    unfolding j using assms(2) by (intro strchr_found) auto
  have "data \<noteq> []" using assms(1,5) joined_Cons [of 32 "hd fs" "tl fs"] by (cases fs; cases "tl fs") auto
  moreover have "to_size_t (to_size_t (int v) * page) = to_size_t (int v * page)" by (simp add: to_size_t_def mod_simps)
  moreover have "take (length (fs ! 23)) (joined 32 (drop 23 fs) @ ?rest) = fs ! 23" unfolding j by simp
  ultimately show ?thesis using s c assms(3,6) strtoll_digits [OF assms(4)] by (simp add: zmalloc_get_rss_def)
qed

end
