(* ===== verification/Sds_Heap.thy ===== *)
theory Sds_Heap
  imports Zmalloc
begin

text \<open>
  The dynamic strings in memory. \<open>Sds\<close> models a string as the value of its header and its characters; here
  the operations that a connection performs on its buffer are the loads and stores of the code, on the
  blocks of \<open>Zmalloc\<close>: a string is the address of its first character, the two \<open>int\<close> fields of the header lie
  in the eight bytes before it, and the prefix of the allocator in the eight bytes before those. The
  operations are shown to do to the memory what their counterparts of \<open>Sds\<close> do to the value.
\<close>

section \<open>Loads and stores\<close>

text \<open>Offsets in the block of a string: the fields \<open>len\<close> and \<open>free\<close> of the header and the characters.\<close>

definition LEN_AT :: nat where "LEN_AT = 8"
definition FREE_AT :: nat where "FREE_AT = 12"
definition BUF_AT :: nat where "BUF_AT = 16"

lemmas sds_offsets = LEN_AT_def FREE_AT_def BUF_AT_def PREFIX_SIZE_def

definition int_bytes :: "int \<Rightarrow> byte list" where
  "int_bytes i = le_bytes 4 (nat (i mod 2 ^ 32))"

definition bytes_int :: "byte list \<Rightarrow> int" where
  "bytes_int bs = to_int32 (int (le_val bs))"

definition sds_block :: "addr \<Rightarrow> zstate \<Rightarrow> byte list res" where
  "sds_block s z =
     (if s < BUF_AT then Inl UseAfterFree
      else case z_blocks z (s - BUF_AT) of None \<Rightarrow> Inl UseAfterFree | Some b \<Rightarrow> Inr b)"

definition ld_int :: "addr \<Rightarrow> nat \<Rightarrow> zstate \<Rightarrow> int res" where
  "ld_int s off z = rbind (sds_block s z) (\<lambda>b.
     if off + 4 \<le> length b then Inr (bytes_int (take 4 (drop off b))) else Inl OutOfBounds)"

definition st_bytes :: "addr \<Rightarrow> nat \<Rightarrow> byte list \<Rightarrow> zstate \<Rightarrow> zstate res" where
  "st_bytes s off bs z = rbind (sds_block s z) (\<lambda>b.
     if off + length bs \<le> length b then Inr (z\<lparr>z_blocks := (z_blocks z)(s - BUF_AT \<mapsto> write_at b off bs)\<rparr>)
     else Inl OutOfBounds)"

section \<open>Operations\<close>

definition hs_len :: "addr \<Rightarrow> zstate \<Rightarrow> nat res" where
  "hs_len s z = rbind (ld_int s LEN_AT z) (\<lambda>i. Inr (nat (to_size_t i)))"

definition hs_avail :: "addr \<Rightarrow> zstate \<Rightarrow> nat res" where
  "hs_avail s z = rbind (ld_int s FREE_AT z) (\<lambda>i. Inr (nat (to_size_t i)))"

text \<open>\<open>sdsnewlen\<close>; \<open>init\<close> is the memory behind the pointer of the caller, if it is not null.\<close>

definition hs_newlen :: "(nat \<Rightarrow> byte) \<Rightarrow> addr option \<Rightarrow> byte list option \<Rightarrow> nat \<Rightarrow> zstate \<Rightarrow> (addr \<times> zstate) res" where
  "hs_newlen mem ret init initlen z =
     (let sz = (8 + initlen + 1) mod 2 ^ 64
      in rbind (if init \<noteq> None then zmalloc mem ret sz z else zcalloc ret sz z) (\<lambda>(sh, z).
         let s = sh + 8
         in rbind (st_bytes s LEN_AT (int_bytes (to_int32 (int initlen))) z) (\<lambda>z.
            rbind (st_bytes s FREE_AT (int_bytes 0) z) (\<lambda>z.
            rbind (case init of
                     None \<Rightarrow> Inr z
                   | Some b \<Rightarrow> if initlen = 0 then Inr z
                       else if initlen \<le> length b then st_bytes s BUF_AT (take initlen b) z else Inl OutOfBounds) (\<lambda>z.
            rbind (st_bytes s (BUF_AT + initlen) [0] z) (\<lambda>z. Inr (s, z)))))))"

definition hs_empty :: "(nat \<Rightarrow> byte) \<Rightarrow> addr option \<Rightarrow> zstate \<Rightarrow> (addr \<times> zstate) res" where
  "hs_empty mem ret z = hs_newlen mem ret (Some (cstr '''' @ [0])) 0 z"

definition sdsfree :: "addr option \<Rightarrow> zstate \<Rightarrow> zstate res" where
  "sdsfree s z = (case s of None \<Rightarrow> Inr z | Some s \<Rightarrow> if s < 8 then Inl UseAfterFree else zfree (Some (s - 8)) z)"

definition hs_MakeRoomFor :: "(nat \<Rightarrow> byte) \<Rightarrow> addr option \<Rightarrow> addr \<Rightarrow> nat \<Rightarrow> zstate \<Rightarrow> (addr \<times> zstate) res" where
  "hs_MakeRoomFor mem ret s addlen z =
     rbind (hs_avail s z) (\<lambda>fr.
       if addlen \<le> fr then Inr (s, z)
       else rbind (hs_len s z) (\<lambda>len.
         let newlen = sds_newlen len addlen
         in rbind (zrealloc mem ret (Some (s - 8)) ((8 + newlen + 1) mod 2 ^ 64) z) (\<lambda>(newsh, z).
            rbind (st_bytes (newsh + 8) FREE_AT (int_bytes (to_int32 (int newlen - int len))) z) (\<lambda>z.
              Inr (newsh + 8, z)))))"

text \<open>A store of bytes at index \<open>i\<close> of the character array; an index before the array is a fault as it is in \<open>Sds\<close>.\<close>

definition hs_write :: "addr \<Rightarrow> int \<Rightarrow> byte list \<Rightarrow> zstate \<Rightarrow> zstate res" where
  "hs_write s i t z = (if i < 0 then Inl OutOfBounds else st_bytes s (BUF_AT + nat i) t z)"

definition hs_IncrLen :: "bool \<Rightarrow> addr \<Rightarrow> int \<Rightarrow> zstate \<Rightarrow> zstate res" where
  "hs_IncrLen ndebug s incr z =
     rbind (ld_int s FREE_AT z) (\<lambda>fr.
       if \<not> ndebug \<and> fr < incr then Inl AssertFail
       else rbind (ld_int s LEN_AT z) (\<lambda>l.
            rbind (st_bytes s LEN_AT (int_bytes (to_int32 (l + incr))) z) (\<lambda>z.
            rbind (ld_int s FREE_AT z) (\<lambda>fr.
            rbind (st_bytes s FREE_AT (int_bytes (to_int32 (fr - incr))) z) (\<lambda>z.
            rbind (ld_int s FREE_AT z) (\<lambda>fr.
              if \<not> ndebug \<and> fr < 0 then Inl AssertFail
              else rbind (ld_int s LEN_AT z) (\<lambda>l. hs_write s l [0] z)))))))"

section \<open>Strings in memory\<close>

definition fits32 :: "int \<Rightarrow> bool" where
  "fits32 i \<longleftrightarrow> - (2 ^ 31) \<le> i \<and> i < 2 ^ 31"

definition sds_at :: "addr \<Rightarrow> zstate \<Rightarrow> sdshdr \<Rightarrow> bool" where
  "sds_at s z sh \<longleftrightarrow> BUF_AT \<le> s \<and> fits32 (sh_len sh) \<and> fits32 (sh_free sh) \<and>
     (\<exists>pre. length pre = PREFIX_SIZE \<and>
        z_blocks z (s - BUF_AT) = Some (pre @ int_bytes (sh_len sh) @ int_bytes (sh_free sh) @ sh_buf sh))"

text \<open>\<open>z'\<close> differs from \<open>z\<close> in the characters and the header of the string \<open>s\<close> only.\<close>

definition only_sds :: "addr \<Rightarrow> zstate \<Rightarrow> zstate \<Rightarrow> bool" where
  "only_sds s z z' \<longleftrightarrow> z_ok z' \<and> (\<forall>a. a \<noteq> s - BUF_AT \<longrightarrow> z_blocks z' a = z_blocks z a)"

lemma length_int_bytes [simp]: "length (int_bytes i) = 4"
  by (simp add: int_bytes_def)

lemma fits32_to_int32 [simp]: "fits32 (to_int32 i)"
  using to_int32_range [of i] by (simp add: fits32_def)

lemma to_int32_fits: "fits32 i \<Longrightarrow> to_int32 i = i"
  by (simp add: fits32_def)

lemma bytes_int_int_bytes [simp]: "fits32 i \<Longrightarrow> bytes_int (int_bytes i) = i"
proof -
  assume i: "fits32 i"
  have "le_val (int_bytes i) = nat (i mod 2 ^ 32)" by (simp add: int_bytes_def le_val_le_bytes nat_mod_distrib [symmetric])
  then have "bytes_int (int_bytes i) = to_int32 (i mod 2 ^ 32)" by (simp add: bytes_int_def)
  also have "\<dots> = to_int32 i" by (simp add: to_int32_def mod_simps)
  finally show ?thesis using i by (simp add: to_int32_fits)
qed

lemma int_bytes_bytes_int: "length bs = 4 \<Longrightarrow> int_bytes (bytes_int bs) = bs"
proof -
  assume l: "length bs = 4"
  have "le_val bs < 2 ^ 32" using le_val_less [of bs] l by simp
  then have "to_int32 (int (le_val bs)) mod 2 ^ 32 = int (le_val bs)" by (simp add: to_int32_def mod_simps)
  then show ?thesis using le_bytes_le_val [of bs] l by (simp add: int_bytes_def bytes_int_def)
qed

lemma only_sds_trans: "only_sds s z z1 \<Longrightarrow> only_sds s z1 z2 \<Longrightarrow> only_sds s z z2"
  by (simp add: only_sds_def)

lemma only_sds_refl [simp]: "z_ok z \<Longrightarrow> only_sds s z z"
  by (simp add: only_sds_def)

lemma zbytes_same_length:
  assumes "z_blocks z a = Some b" "length b' = length b"
  shows "zbytes (z\<lparr>z_blocks := (z_blocks z)(a \<mapsto> b')\<rparr>) = zbytes z"
proof -
  have "dom ((z_blocks z)(a \<mapsto> b')) = dom (z_blocks z)" using assms(1) by auto
  then show ?thesis unfolding zbytes_def using assms by (intro sum.cong) auto
qed

lemma st_bytes_ok:
  assumes z: "z_ok z" and st: "st_bytes s off bs z = Inr z'" and off: "PREFIX_SIZE \<le> off"
  shows "only_sds s z z'"
proof -
  obtain b where b: "z_blocks z (s - BUF_AT) = Some b" "off + length bs \<le> length b"
    "z' = z\<lparr>z_blocks := (z_blocks z)(s - BUF_AT \<mapsto> write_at b off bs)\<rparr>"
    using st by (auto simp: st_bytes_def sds_block_def split: if_splits option.splits sum.splits)
  have "zblock_ok b" using z b(1) by (simp add: z_ok_def)
  then have ok: "zblock_ok (write_at b off bs)"
    using off b(2) by (auto simp: zblock_ok_def take_write_at_before PREFIX_SIZE_def)
  show ?thesis using z b ok zbytes_same_length [OF b(1), of "write_at b off bs"] by (auto simp: only_sds_def z_ok_def)
qed

lemma sds_at_ld:
  assumes "sds_at s z sh"
  shows "ld_int s LEN_AT z = Inr (sh_len sh)" "ld_int s FREE_AT z = Inr (sh_free sh)"
  using assms by (auto simp: sds_at_def ld_int_def sds_block_def sds_offsets)

lemma sds_at_len_avail:
  assumes "sds_at s z sh"
  shows "hs_len s z = Inr (sdslen sh)" "hs_avail s z = Inr (sdsavail sh)"
  by (simp_all add: hs_len_def hs_avail_def sds_at_ld [OF assms] sdslen_def sdsavail_def)

lemma st_len:
  assumes "sds_at s z sh" "z_ok z" "fits32 i"
  shows "\<exists>z'. st_bytes s LEN_AT (int_bytes i) z = Inr z' \<and> sds_at s z' (sh\<lparr>sh_len := i\<rparr>) \<and> only_sds s z z'"
proof -
  obtain z' where z': "st_bytes s LEN_AT (int_bytes i) z = Inr z'" "sds_at s z' (sh\<lparr>sh_len := i\<rparr>)"
    using assms(1,3) by (auto simp: sds_at_def st_bytes_def sds_block_def write_at_def sds_offsets)
  then show ?thesis using st_bytes_ok [OF assms(2) z'(1)] by (simp add: sds_offsets)
qed

lemma st_free:
  assumes "sds_at s z sh" "z_ok z" "fits32 i"
  shows "\<exists>z'. st_bytes s FREE_AT (int_bytes i) z = Inr z' \<and> sds_at s z' (sh\<lparr>sh_free := i\<rparr>) \<and> only_sds s z z'"
proof -
  obtain z' where z': "st_bytes s FREE_AT (int_bytes i) z = Inr z'" "sds_at s z' (sh\<lparr>sh_free := i\<rparr>)"
    using assms(1,3) by (auto simp: sds_at_def st_bytes_def sds_block_def write_at_def sds_offsets)
  then show ?thesis using st_bytes_ok [OF assms(2) z'(1)] by (simp add: sds_offsets)
qed

lemma st_chars:
  assumes at: "sds_at s z sh" and z: "z_ok z"
  shows "if i + length t \<le> length (sh_buf sh)
    then \<exists>z'. st_bytes s (BUF_AT + i) t z = Inr z' \<and> sds_at s z' (sh\<lparr>sh_buf := write_at (sh_buf sh) i t\<rparr>) \<and> only_sds s z z'
    else st_bytes s (BUF_AT + i) t z = Inl OutOfBounds"
proof (cases "i + length t \<le> length (sh_buf sh)")
  case True
  then obtain z' where z': "st_bytes s (BUF_AT + i) t z = Inr z'" "sds_at s z' (sh\<lparr>sh_buf := write_at (sh_buf sh) i t\<rparr>)"
    using at by (auto simp: sds_at_def st_bytes_def sds_block_def write_at_def sds_offsets)
  then show ?thesis using True st_bytes_ok [OF z z'(1)] by (simp add: sds_offsets)
next
  case False
  then show ?thesis using at by (auto simp: sds_at_def st_bytes_def sds_block_def sds_offsets)
qed

section \<open>Refinement\<close>

text \<open>The outcome of an operation in memory, and what \<open>Sds\<close> says of the value.\<close>

fun sds_sim :: "addr \<Rightarrow> zstate \<Rightarrow> zstate res \<Rightarrow> sdshdr res \<Rightarrow> bool" where
  "sds_sim s z (Inl e) (Inl e') \<longleftrightarrow> e = e'"
| "sds_sim s z (Inr z') (Inr sh') \<longleftrightarrow> sds_at s z' sh' \<and> only_sds s z z'"
| "sds_sim s z _ _ \<longleftrightarrow> False"

lemma hs_write_sim:
  assumes "sds_at s z sh" "z_ok z"
  shows "sds_sim s z (hs_write s (int i) t z) (sds_write sh i t)"
  using st_chars [OF assms, of i t] by (auto simp: hs_write_def sds_write_def split: if_splits)

lemma hs_nul_sim:
  assumes "sds_at s z sh" "z_ok z"
  shows "sds_sim s z (hs_write s i [0] z) (put_nul sh i)"
proof (cases "i < 0")
  case False
  moreover have "nat i < length (sh_buf sh) \<Longrightarrow> write_at (sh_buf sh) (nat i) [0] = (sh_buf sh)[nat i := 0]"
    by (simp add: write_at_def upd_conv_take_nth_drop)
  ultimately show ?thesis using st_chars [OF assms, of "nat i" "[0]"] by (auto simp: hs_write_def put_nul_def split: if_splits)
qed (simp add: hs_write_def put_nul_def)

lemma sds_sim_after: "only_sds s z z1 \<Longrightarrow> sds_sim s z1 r q \<Longrightarrow> sds_sim s z r q"
  by (cases r; cases q) (auto intro: only_sds_trans)

lemma hs_IncrLen_sim:
  assumes "sds_at s z sh" "z_ok z"
  shows "sds_sim s z (hs_IncrLen ndebug s incr z) (sdsIncrLen ndebug sh incr)"
proof (cases "\<not> ndebug \<and> sh_free sh < incr")
  case True
  then show ?thesis by (simp add: hs_IncrLen_def sdsIncrLen_def sds_at_ld [OF assms(1)])
next
  case False
  let ?l = "to_int32 (sh_len sh + incr)" and ?f = "to_int32 (sh_free sh - incr)"
  from st_len [OF assms, of ?l] obtain z1 where
    z1: "st_bytes s LEN_AT (int_bytes ?l) z = Inr z1" "sds_at s z1 (sh\<lparr>sh_len := ?l\<rparr>)" "only_sds s z z1" by auto
  then have "z_ok z1" by (simp add: only_sds_def)
  from st_free [OF z1(2) this, of ?f] obtain z2 where
    z2: "st_bytes s FREE_AT (int_bytes ?f) z1 = Inr z2" "sds_at s z2 (sh\<lparr>sh_len := ?l, sh_free := ?f\<rparr>)" "only_sds s z1 z2" by auto
  then have ok: "z_ok z2" by (simp add: only_sds_def)
  have "sds_sim s z (hs_write s ?l [0] z2) (put_nul (sh\<lparr>sh_len := ?l, sh_free := ?f\<rparr>) ?l)"
    using sds_sim_after [OF only_sds_trans [OF z1(3) z2(3)] hs_nul_sim [OF z2(2) ok]] by simp
  then show ?thesis
    using False z1(1) z2(1) by (auto simp: hs_IncrLen_def sdsIncrLen_def Let_def sds_at_ld [OF assms(1)] sds_at_ld [OF z1(2)] sds_at_ld [OF z2(2)])
qed

text \<open>The allocator of \<open>Sds\<close> that answers as the C library does: \<open>ret\<close> is the block it returns, if any.\<close>

definition heap_al :: "(nat \<Rightarrow> byte) \<Rightarrow> addr option \<Rightarrow> allocator" where
  "heap_al mem ret = \<lparr>can_alloc = (\<lambda>_. ret \<noteq> None), junk = (\<lambda>i. mem (i + 16))\<rparr>"

text \<open>The string \<open>s\<close> has moved to \<open>s'\<close>, or is where it was; the other blocks are as they were.\<close>

definition moved :: "addr \<Rightarrow> addr \<Rightarrow> zstate \<Rightarrow> zstate \<Rightarrow> bool" where
  "moved s s' z z' \<longleftrightarrow> z_ok z' \<and> (\<forall>a. a \<noteq> s' - BUF_AT \<longrightarrow> z_blocks z' a = (if a = s - BUF_AT then None else z_blocks z a))"

lemma only_sds_moved: "only_sds s z z' \<Longrightarrow> moved s s z z'"
  by (simp add: only_sds_def moved_def)

lemma moved_only_sds: "moved s s' z z1 \<Longrightarrow> only_sds s' z1 z2 \<Longrightarrow> moved s s' z z2"
  by (simp add: only_sds_def moved_def)

text \<open>The bytes of a string after \<open>realloc\<close>.\<close>

lemma resized_block:
  assumes "b = pre @ int_bytes l @ int_bytes f @ buf" "length pre = 8" "length b' = n + 16"
    "drop 8 b' = take (n + 8) (drop 8 b) @ map mem [length b..<n + 16]"
  shows "b' = take 8 b' @ int_bytes l @ int_bytes f @ resize (heap_al mem r) n buf"
proof -
  have "map mem [length b..<n + 16] = map (\<lambda>i. mem (i + 16)) [length buf..<n]"
    unfolding assms(1) using assms(2) by (intro nth_equalityI) (simp_all add: ac_simps)
  then have "drop 8 b' = int_bytes l @ int_bytes f @ resize (heap_al mem r) n buf"
    using assms(1,2,4) by (simp add: resize_def heap_al_def)
  then show ?thesis using append_take_drop_id [of 8 b'] by simp
qed

lemma hs_MakeRoomFor_sim:
  assumes at: "sds_at s z sh" and ok: "z_ok z" and str: "sds_str sh xs" and room: "sds_grown (length xs + addlen) < 2 ^ 31"
    and a': "a' = s - BUF_AT \<or> z_blocks z a' = None"
  shows "\<exists>s' z' sh'. hs_MakeRoomFor mem (Some a') s addlen z = Inr (s', z') \<and> sdsMakeRoomFor (heap_al mem (Some a')) sh addlen = Inr sh' \<and>
    sds_at s' z' sh' \<and> moved s s' z z' \<and> (s' = s \<or> s' = a' + BUF_AT)"
proof (cases "addlen \<le> sdsavail sh")
  case True
  then have "hs_MakeRoomFor mem (Some a') s addlen z = Inr (s, z)" "sdsMakeRoomFor (heap_al mem (Some a')) sh addlen = Inr sh"
    by (simp_all add: hs_MakeRoomFor_def sdsMakeRoomFor_def sds_at_len_avail [OF at])
  then show ?thesis using at only_sds_moved [OF only_sds_refl [OF ok]] by blast
next
  case False
  let ?n = "sds_newlen (sdslen sh) addlen"
  have wf: "sds_wf sh" and l: "length xs = nat (sh_len sh)" using str sds_str_length by (auto simp: sds_str_def)
  have "length xs + addlen \<le> sds_grown (length xs + addlen)" by (simp add: sds_grown_def)
  then have n: "?n = sds_grown (length xs + addlen)" "?n < 2 ^ 31" using room wf l by (simp_all add: sds_newlen_grown sds_wf_len)
  then have sz: "(8 + ?n + 1) mod 2 ^ 64 = ?n + 9" by simp
  obtain pre b where s: "16 \<le> s" and pre: "length pre = 8" and
    be: "b = pre @ int_bytes (sh_len sh) @ int_bytes (sh_free sh) @ sh_buf sh" and b: "z_blocks z (s - 16) = Some b"
    using at by (auto simp: sds_at_def sds_offsets)
  have p: "s - 8 = s - 16 + PREFIX_SIZE" using s by (simp add: PREFIX_SIZE_def)
  from zrealloc_ok [OF ok b, of a' "?n + 9" mem] a' n(2) obtain b' z1 where
    z1: "zrealloc mem (Some a') (Some (s - 8)) (?n + 9) z = Inr (a' + 8, z1)" "z_ok z1" "z_blocks z1 = (z_blocks z)(s - 16 := None, a' \<mapsto> b')"
      "length b' = ?n + 17" "drop 8 b' = take (?n + 9) (drop 8 b) @ map mem [length b..<?n + 17]"
    unfolding p by (auto simp: sds_offsets ac_simps)
  let ?buf = "resize (heap_al mem (Some a')) (?n + 1) (sh_buf sh)"
  have "b' = take 8 b' @ int_bytes (sh_len sh) @ int_bytes (sh_free sh) @ ?buf"
    using resized_block [OF be pre, of b' "?n + 1" mem "Some a'"] z1(4,5) by (simp add: ac_simps)
  then have "sds_at (a' + BUF_AT) z1 (sh\<lparr>sh_buf := ?buf\<rparr>)"
    using at z1(3,4) by (auto simp: sds_at_def sds_offsets intro!: exI [of _ "take 8 b'"])
  from st_free [OF this z1(2), of "to_int32 (int ?n - int (sdslen sh))"] obtain z2 where
    z2: "st_bytes (a' + BUF_AT) FREE_AT (int_bytes (to_int32 (int ?n - int (sdslen sh)))) z1 = Inr z2"
      "sds_at (a' + BUF_AT) z2 \<lparr>sh_len = sh_len sh, sh_free = to_int32 (int ?n - int (sdslen sh)), sh_buf = ?buf\<rparr>" "only_sds (a' + BUF_AT) z1 z2"
    by (cases sh) auto
  have "moved s (a' + BUF_AT) z z1" using z1(2,3) by (simp add: moved_def sds_offsets)
  then have "moved s (a' + BUF_AT) z z2" using z2(3) by (rule moved_only_sds)
  moreover have "hs_MakeRoomFor mem (Some a') s addlen z = Inr (a' + BUF_AT, z2)"
    using False z1(1) z2(1) sz by (simp add: hs_MakeRoomFor_def sds_at_len_avail [OF at] Let_def BUF_AT_def add.assoc)
  moreover have "sdsMakeRoomFor (heap_al mem (Some a')) sh addlen =
      Inr \<lparr>sh_len = sh_len sh, sh_free = to_int32 (int ?n - int (sdslen sh)), sh_buf = ?buf\<rparr>"
    using False sz by (simp add: sdsMakeRoomFor_def Let_def zalloc_ok_def heap_al_def)
  ultimately show ?thesis using z2(2) by blast
qed

text \<open>A fresh block is a string whose header is not set yet.\<close>

lemma fits32_bytes_int [simp]: "fits32 (bytes_int bs)"
  by (simp add: bytes_int_def)

lemma raw_block:
  assumes "z_blocks z a = Some b" "16 \<le> length b"
  shows "sds_at (a + BUF_AT) z \<lparr>sh_len = bytes_int (take 4 (drop 8 b)), sh_free = bytes_int (take 4 (drop 12 b)), sh_buf = drop 16 b\<rparr>"
proof -
  have "b = take 8 b @ take 4 (drop 8 b) @ take 4 (drop 12 b) @ drop 16 b"
    using append_take_drop_id [of 8 b] append_take_drop_id [of 4 "drop 8 b"] append_take_drop_id [of 4 "drop 12 b"] by simp
  then show ?thesis using assms
    by (auto simp: sds_at_def sds_offsets int_bytes_bytes_int intro!: exI [of _ "take 8 b"])
qed

text \<open>The copy of the initial characters, over memory that \<open>malloc\<close> left as it was or \<open>calloc\<close> cleared.\<close>

lemma new_init:
  assumes at: "sds_at s z sh" and ok: "z_ok z" and buf: "sh_buf sh = map (if init \<noteq> None then mem else (\<lambda>_. 0)) [16..<n + 17]"
    and i: "\<And>b. init = Some b \<Longrightarrow> n \<le> length b"
  shows "\<exists>z'. (case init of None \<Rightarrow> Inr z | Some b \<Rightarrow> if n = 0 then Inr z else if n \<le> length b then st_bytes s BUF_AT (take n b) z else Inl OutOfBounds) = Inr z' \<and>
    sds_at s z' (sh\<lparr>sh_buf := (case init of None \<Rightarrow> replicate n 0 | Some b \<Rightarrow> take n b) @ [(if init \<noteq> None then mem else (\<lambda>_. 0)) (n + 16)]\<rparr>) \<and> only_sds s z z'"
proof (cases init)
  case None
  then have "sh_buf sh = replicate n 0 @ [0]" using buf by (simp add: map_replicate_const replicate_append_same)
  then have "sh\<lparr>sh_buf := replicate n 0 @ [0]\<rparr> = sh" by (cases sh) simp
  then show ?thesis using at ok None by simp
next
  case (Some b)
  have "[16..<n + 17] = [16..<n + 16] @ [n + 16]" using upt_Suc_append [of 16 "n + 16"] by (simp add: add.commute)
  then have snoc: "sh_buf sh = map mem [16..<n + 16] @ [mem (n + 16)]" using buf Some by simp
  show ?thesis
  proof (cases "n = 0")
    case True
    then have "sh\<lparr>sh_buf := [mem (n + 16)]\<rparr> = sh" using snoc by (cases sh) simp
    then show ?thesis using at ok Some True by simp
  next
    case False
    then show ?thesis using st_chars [OF at ok, of 0 "take n b"] i [OF Some] Some snoc by (auto simp: write_at_def)
  qed
qed

lemma hs_newlen_sim:
  assumes ok: "z_ok z" and a: "z_blocks z a = None" and n: "n < 2 ^ 31 - 1" and i: "\<And>b. init = Some b \<Longrightarrow> n \<le> length b"
  shows "\<exists>z' sh'. hs_newlen mem (Some a) init n z = Inr (a + BUF_AT, z') \<and> sdsnewlen (heap_al mem (Some a)) init n = Inr sh' \<and>
    sds_at (a + BUF_AT) z' sh' \<and> only_sds (a + BUF_AT) z z'"
proof -
  let ?s = "a + BUF_AT" and ?fresh = "if init \<noteq> None then mem else (\<lambda>_. 0)"
  have sz: "(8 + n + 1) mod 2 ^ 64 = n + 9" and s8: "a + 8 + 8 = ?s" using n by (simp_all add: BUF_AT_def)
  have fr: "(if init \<noteq> None then zmalloc mem (Some a) (n + 9) z else zcalloc (Some a) (n + 9) z) = zmalloc_with ?fresh (Some a) (n + 9) z"
    by (simp add: zmalloc_def zcalloc_def)
  from zmalloc_with_ok [OF ok a, of "n + 9" ?fresh] n obtain b z0 where
    z0: "zmalloc_with ?fresh (Some a) (n + 9) z = Inr (a + 8, z0)" "z_ok z0" "z_blocks z0 = (z_blocks z)(a \<mapsto> b)" "zblock_ok b"
      "drop 8 b = map ?fresh [8..<n + 17]" by (auto simp: PREFIX_SIZE_def ac_simps)
  have lb: "length b = n + 17" using arg_cong [OF z0(5), of length] z0(4) by (simp add: zblock_ok_def PREFIX_SIZE_def)
  have b16: "drop 16 b = map ?fresh [16..<n + 17]" using arg_cong [OF z0(5), of "drop 8"] by (simp add: drop_map)
  let ?sh = "\<lparr>sh_len = bytes_int (take 4 (drop 8 b)), sh_free = bytes_int (take 4 (drop 12 b)), sh_buf = drop 16 b\<rparr>"
  have at0: "sds_at ?s z0 ?sh" using raw_block [of z0 a b] z0(3) lb by simp
  have o0: "only_sds ?s z z0" using z0(2,3) by (simp add: only_sds_def)
  from st_len [OF at0 z0(2), of "to_int32 (int n)"] obtain z1 where
    z1: "st_bytes ?s LEN_AT (int_bytes (to_int32 (int n))) z0 = Inr z1" "sds_at ?s z1 (?sh\<lparr>sh_len := to_int32 (int n)\<rparr>)" "only_sds ?s z0 z1" by auto
  from st_free [OF z1(2), of 0] z1(3) obtain z2 where
    z2: "st_bytes ?s FREE_AT (int_bytes 0) z1 = Inr z2" "sds_at ?s z2 (?sh\<lparr>sh_len := to_int32 (int n), sh_free := 0\<rparr>)" "only_sds ?s z1 z2"
    by (auto simp: only_sds_def fits32_def)
  let ?init = "case init of None \<Rightarrow> replicate n 0 | Some b \<Rightarrow> take n b"
  have li: "length ?init = n" using i by (auto split: option.splits)
  obtain z3 where z3: "(case init of None \<Rightarrow> Inr z2 | Some b \<Rightarrow> if n = 0 then Inr z2 else if n \<le> length b then st_bytes ?s BUF_AT (take n b) z2 else Inl OutOfBounds) = Inr z3"
      "sds_at ?s z3 \<lparr>sh_len = to_int32 (int n), sh_free = 0, sh_buf = ?init @ [?fresh (n + 16)]\<rparr>" "only_sds ?s z2 z3"
    using new_init [OF z2(2), of init mem n] z2(3) b16 i by (auto simp: only_sds_def)
  from st_chars [OF z3(2), of n "[0]"] z3(3) li obtain z4 where
    z4: "st_bytes ?s (BUF_AT + n) [0] z3 = Inr z4" "sds_at ?s z4 \<lparr>sh_len = to_int32 (int n), sh_free = 0, sh_buf = ?init @ [0]\<rparr>" "only_sds ?s z3 z4"
    by (auto simp: only_sds_def write_at_def)
  have "hs_newlen mem (Some a) init n z = Inr (?s, z4)"
    unfolding hs_newlen_def Let_def sz fr z0(1) rbind.simps prod.case s8 z1(1) z2(1) z3(1) z4(1) by simp
  moreover have "sdsnewlen (heap_al mem (Some a)) init n = Inr \<lparr>sh_len = to_int32 (int n), sh_free = 0, sh_buf = ?init @ [0]\<rparr>"
    using n i by (auto simp: sdsnewlen_def zalloc_ok_def heap_al_def replicate_append_same split: option.splits)
  moreover have "only_sds ?s z z4" using o0 z1(3) z2(3) z3(3) z4(3) by (blast intro: only_sds_trans)
  ultimately show ?thesis using z4(2) by blast
qed

lemma sdsfree_ok:
  assumes "sds_at s z sh" "z_ok z"
  shows "\<exists>z'. sdsfree (Some s) z = Inr z' \<and> z_ok z' \<and> z_blocks z' = (z_blocks z)(s - BUF_AT := None)"
proof -
  obtain b where b: "16 \<le> s" "z_blocks z (s - 16) = Some b" using assms(1) by (auto simp: sds_at_def sds_offsets)
  have "s - 8 = s - 16 + PREFIX_SIZE" using b(1) by (simp add: PREFIX_SIZE_def)
  then show ?thesis using zfree_ok [OF assms(2) b(2)] b(1) by (simp add: sdsfree_def BUF_AT_def)
qed

section \<open>Properties\<close>

text \<open>
  C36: the dynamic strings in memory implement the value model. On a string that lies in the allocator's
  memory, writing characters, \<open>sdsIncrLen\<close> and \<open>sdsMakeRoomFor\<close>, load by load and store by store, give the
  memory of the string that the value model computes, or the same fault; they change no other block, a string
  that moves gives its old block back, and \<open>sdsfree\<close> gives back exactly the block of the string.
\<close>

theorem sds_in_memory:
  assumes "z_ok z" "sds_at s z sh"
  shows "sds_sim s z (hs_write s (int i) t z) (sds_write sh i t) \<and>
    sds_sim s z (hs_IncrLen ndebug s incr z) (sdsIncrLen ndebug sh incr) \<and>
    (\<forall>a xs. sds_str sh xs \<and> sds_grown (length xs + n) < 2 ^ 31 \<and> (a = s - BUF_AT \<or> z_blocks z a = None) \<longrightarrow>
      (\<exists>s' z' sh'. hs_MakeRoomFor mem (Some a) s n z = Inr (s', z') \<and> sdsMakeRoomFor (heap_al mem (Some a)) sh n = Inr sh' \<and>
         sds_at s' z' sh' \<and> moved s s' z z' \<and> sds_str sh' xs \<and> n \<le> sdsavail sh')) \<and>
    (\<exists>z'. sdsfree (Some s) z = Inr z' \<and> z_ok z' \<and> z_blocks z' = (z_blocks z)(s - BUF_AT := None))"
proof (intro conjI allI impI)
  fix a xs assume h: "sds_str sh xs \<and> sds_grown (length xs + n) < 2 ^ 31 \<and> (a = s - BUF_AT \<or> z_blocks z a = None)"
  then obtain s' z' sh' where
    r: "hs_MakeRoomFor mem (Some a) s n z = Inr (s', z')" "sdsMakeRoomFor (heap_al mem (Some a)) sh n = Inr sh'" "sds_at s' z' sh'" "moved s s' z z'"
    using hs_MakeRoomFor_sim [OF assms(2,1), of xs n a mem] by blast
  have "sds_str sh' xs \<and> n \<le> sdsavail sh'"
    using sdsMakeRoomFor_str [of sh xs n "heap_al mem (Some a)"] h r(2) by (auto simp: zalloc_ok_def heap_al_def)
  then show "\<exists>s' z' sh'. hs_MakeRoomFor mem (Some a) s n z = Inr (s', z') \<and> sdsMakeRoomFor (heap_al mem (Some a)) sh n = Inr sh' \<and>
      sds_at s' z' sh' \<and> moved s s' z z' \<and> sds_str sh' xs \<and> n \<le> sdsavail sh'" using r by blast
qed (simp_all only: hs_write_sim [OF assms(2,1)] hs_IncrLen_sim [OF assms(2,1)] sdsfree_ok [OF assms(2,1)])

lemma hs_empty_ok:
  assumes "z_ok z" "z_blocks z a = None"
  shows "\<exists>z' sh. hs_empty mem (Some a) z = Inr (a + BUF_AT, z') \<and> sds_at (a + BUF_AT) z' sh \<and> sds_str sh [] \<and> only_sds (a + BUF_AT) z z'"
proof -
  from hs_newlen_sim [OF assms, of 0 "Some (cstr '''' @ [0])" mem] obtain z' sh where
    r: "hs_empty mem (Some a) z = Inr (a + BUF_AT, z')" "sdsempty (heap_al mem (Some a)) = Inr sh" "sds_at (a + BUF_AT) z' sh" "only_sds (a + BUF_AT) z z'"
    by (auto simp: hs_empty_def sdsempty_def)
  have "zalloc_ok (heap_al mem (Some a)) 9" by (simp add: zalloc_ok_def heap_al_def)
  from sdsempty_str [OF this] r show ?thesis by auto
qed

theorem sds_in_memory_witness:
  "\<exists>s z s' z' z''. hs_empty (\<lambda>_. 7) (Some 100) z_init = Inr (s, z) \<and> hs_MakeRoomFor (\<lambda>_. 7) (Some 200) s 36 z = Inr (s', z') \<and>
     sdsfree (Some s) z = Inr z'' \<and> z_blocks z'' 100 = None"
proof -
  have "z_blocks z_init 100 = None" by (simp add: z_init_def)
  from hs_empty_ok [OF z_init_ok this, of "\<lambda>_. 7"] obtain z sh where
    z: "hs_empty (\<lambda>_. 7) (Some 100) z_init = Inr (100 + BUF_AT, z)" "sds_at (100 + BUF_AT) z sh" "sds_str sh []" "only_sds (100 + BUF_AT) z_init z" by blast
  then have ok: "z_ok z" and f: "z_blocks z 200 = None" by (simp_all add: only_sds_def z_init_def)
  have g: "sds_grown (length ([] :: byte list) + 36) < 2 ^ 31" by (simp add: sds_grown_def SDS_MAX_PREALLOC_def)
  from sds_in_memory [OF ok z(2), of 0 "[]" True 0 36 "\<lambda>_. 7"] z(3) f g obtain s' z' z'' where
    "hs_MakeRoomFor (\<lambda>_. 7) (Some 200) (100 + BUF_AT) 36 z = Inr (s', z')" "sdsfree (Some (100 + BUF_AT)) z = Inr z''" "z_blocks z'' 100 = None"
    by (metis add_diff_cancel_right' fun_upd_same)
  then show ?thesis using z(1) by blast
qed

end
