(* ===== verification/Conf.thy ===== *)
theory Conf
  imports Xrtc_Prelude
begin

text \<open>
  The general configuration (\<open>base/conf.h\<close>, \<open>base/conf.cpp\<close>). The YAML library is an argument:
  \<open>None\<close> when \<open>YAML::LoadFile\<close> throws, else what reading each member gives, \<open>None\<close> for an exception.
\<close>

record general_conf =
  gc_log_dir :: "byte list"
  gc_log_name :: "byte list"
  gc_log_level :: "byte list"
  gc_log_to_stderr :: bool

definition GeneralConf :: general_conf where
  "GeneralConf = \<lparr>gc_log_dir = cstr ''./log'', gc_log_name = cstr ''xrtcserver'', gc_log_level = cstr ''info'', gc_log_to_stderr = True\<rparr>"

record yaml_log =
  y_log_dir :: "byte list option"
  y_log_name :: "byte list option"
  y_log_level :: "byte list option"
  y_log_to_stderr :: "bool option"

text \<open>
  The members are assigned one after the other until one throws. \<open>LoadFile\<close> stands outside the
  \<open>try\<close>, and no caller catches its exception.
\<close>

definition load_general_conf :: "bool \<Rightarrow> yaml_log option \<Rightarrow> general_conf option \<Rightarrow> (int \<times> general_conf option) res" where
  "load_general_conf filename yaml conf =
     (case conf of
        None \<Rightarrow> Inr (-1, None)
      | Some c \<Rightarrow>
          if \<not> filename then Inr (-1, conf)
          else let c0 = c\<lparr>gc_log_dir := cstr ''./log'', gc_log_name := cstr ''undefined'', gc_log_level := cstr ''info'', gc_log_to_stderr := False\<rparr>
          in case yaml of
            None \<Rightarrow> Inl Terminate
          | Some y \<Rightarrow>
            (case y_log_dir y of None \<Rightarrow> Inr (-1, Some c0) | Some d \<Rightarrow>
             let c1 = c0\<lparr>gc_log_dir := d\<rparr> in
             (case y_log_name y of None \<Rightarrow> Inr (-1, Some c1) | Some n \<Rightarrow>
              let c2 = c1\<lparr>gc_log_name := n\<rparr> in
              (case y_log_level y of None \<Rightarrow> Inr (-1, Some c2) | Some l \<Rightarrow>
               let c3 = c2\<lparr>gc_log_level := l\<rparr> in
               (case y_log_to_stderr y of None \<Rightarrow> Inr (-1, Some c3) | Some b \<Rightarrow>
                Inr (0, Some (c3\<lparr>gc_log_to_stderr := b\<rparr>)))))))"

text \<open>
  The result is 0 exactly when every member could be read, and then the configuration is that of
  the file; otherwise the members after the failing one have the values of this function, not
  those of the struct.
\<close>

lemma load_general_conf_0:
  "load_general_conf True (Some y) (Some c) = Inr (0, Some c') \<longleftrightarrow>
    (\<exists>d n l b. y_log_dir y = Some d \<and> y_log_name y = Some n \<and> y_log_level y = Some l \<and> y_log_to_stderr y = Some b \<and>
      c' = c\<lparr>gc_log_dir := d, gc_log_name := n, gc_log_level := l, gc_log_to_stderr := b\<rparr>)"
  by (auto simp: load_general_conf_def Let_def split: option.splits)

lemma load_general_conf_defaults:
  assumes "y_log_dir y = None"
  shows "\<exists>c'. load_general_conf True (Some y) (Some GeneralConf) = Inr (-1, Some c') \<and>
    gc_log_name c' \<noteq> gc_log_name GeneralConf \<and> gc_log_to_stderr c' \<noteq> gc_log_to_stderr GeneralConf"
  using assms by (simp add: load_general_conf_def GeneralConf_def cstr_def)

section \<open>Properties\<close>

text \<open>
  Loading the configuration gives 0 exactly when every member could be read, and then the
  configuration is that of the file; a file whose first member is missing gives -1 and leaves
  defaults that are not those of the struct.
\<close>

theorem conf_loaded:
  "(load_general_conf True (Some y) (Some c) = Inr (0, Some c') \<longleftrightarrow>
     (\<exists>d n l b. y_log_dir y = Some d \<and> y_log_name y = Some n \<and> y_log_level y = Some l \<and> y_log_to_stderr y = Some b \<and>
       c' = c\<lparr>gc_log_dir := d, gc_log_name := n, gc_log_level := l, gc_log_to_stderr := b\<rparr>)) \<and>
   (\<exists>c'. load_general_conf True (Some (y\<lparr>y_log_dir := None\<rparr>)) (Some GeneralConf) = Inr (-1, Some c') \<and>
      gc_log_name c' \<noteq> gc_log_name GeneralConf \<and> gc_log_to_stderr c' \<noteq> gc_log_to_stderr GeneralConf)"
  using load_general_conf_0 load_general_conf_defaults [of "y\<lparr>y_log_dir := None\<rparr>"] by simp

end
