(* ===== verification/Rtc_Msg.thy ===== *)
theory Rtc_Msg
  imports Xrtc_Prelude
begin

text \<open>
  The messages between the signalling side and the media side (\<open>xrtcserver_def.h\<close>), and what
  the handlers use of the JSON library.
\<close>

definition CMDNO_PUSH :: int where "CMDNO_PUSH = 1"

definition CMDNO_PULL :: int where "CMDNO_PULL = 2"

definition CMDNO_ANSWER :: int where "CMDNO_ANSWER = 3"

definition CMDNO_STOPPUSH :: int where "CMDNO_STOPPUSH = 4"

definition CMDNO_STOPPULL :: int where "CMDNO_STOPPULL = 5"

definition MAX_RES_BUF :: nat where "MAX_RES_BUF = 4096"

text \<open>The \<open>void*\<close> fields hold the address of a worker and of a connection.\<close>

record rtc_msg =
  cmdno :: int
  uid :: u64
  stream_name :: "byte list"
  audio :: int
  video :: int
  log_id :: u32
  m_worker :: "addr option"
  m_conn :: "addr option"
  m_fd :: fd
  sdp :: "byte list"
  err_no :: int

definition rtc_msg0 :: rtc_msg where
  "rtc_msg0 = \<lparr>cmdno = -1, uid = 0, stream_name = [], audio = 0, video = 0, log_id = 0,
     m_worker = None, m_conn = None, m_fd = 0, sdp = [], err_no = 0\<rparr>"

text \<open>
  The JSON library: parsing a text, reading a member as an integer or a string (\<open>None\<close> when the
  library throws), and writing the reply object with its members \<open>err_no\<close>, \<open>err_msg\<close> and
  \<open>offer\<close>.
\<close>

record 'j json_lib =
  j_parse :: "byte list \<Rightarrow> 'j option"
  j_int :: "'j \<Rightarrow> string \<Rightarrow> int option"
  j_uint64 :: "'j \<Rightarrow> string \<Rightarrow> u64 option"
  j_string :: "'j \<Rightarrow> string \<Rightarrow> byte list option"
  j_reply :: "int \<Rightarrow> byte list \<Rightarrow> byte list \<Rightarrow> byte list"

end
