(* ===== verification/Msg_Queue.thy ===== *)
theory Msg_Queue
  imports Fifo_Spec Rtc_Msg
begin

text \<open>
  The \<open>std::queue\<close> of messages that \<open>RtcServer\<close> and \<open>SignalingWorker\<close> guard with a mutex:
  \<open>push_msg\<close> and \<open>pop_msg\<close> are atomic, so a queue is the list of its elements.
\<close>

definition push_msg :: "'m \<Rightarrow> 'm list \<Rightarrow> 'm list" where
  "push_msg msg q = q @ [msg]"

fun pop_msg :: "'m list \<Rightarrow> 'm option \<times> 'm list" where
  "pop_msg [] = (None, [])"
| "pop_msg (msg # q) = (Some msg, q)"

text \<open>The queue operations in the form of the interface: pushing needs no resource.\<close>

definition mq_enq :: "unit \<Rightarrow> 'm \<Rightarrow> 'm list \<Rightarrow> 'm list res" where
  "mq_enq p msg q = Inr (push_msg msg q)"

definition mq_deq :: "'m list \<Rightarrow> ('m option \<times> 'm list) res" where
  "mq_deq q = Inr (pop_msg q)"

interpretation mq: fifo_queue mq_enq mq_deq "\<lambda>p q. True" "(=)"
  by unfold_locales (auto simp: mq_enq_def mq_deq_def push_msg_def)

lemma pop_push: "pop_msg (push_msg m q) = (case pop_msg q of (None, _) \<Rightarrow> (Some m, []) | (Some x, r) \<Rightarrow> (Some x, push_msg m r))"
  by (cases q) (simp_all add: push_msg_def)

end
