(* ===== verification/Log.thy ===== *)
theory Log
  imports Fifo_Spec Msg_Queue
begin

text \<open>
  The logger (\<open>base/log.h\<close>, \<open>base/log.cpp\<close>): log messages are put into one of two queues by their
  severity, and a thread writes the queues to two files. A file that was moved away is opened
  again. \<open>xl_out\<close> and \<open>xl_out_wf\<close> are all the bytes written through the two streams; \<open>xl_open\<close> and
  \<open>xl_open_wf\<close> say whether the stream is open and has no error bit set: what is put into a stream that is closed
  or has failed is lost, until the file is opened again, which clears the error.
\<close>

section \<open>The logger\<close>

datatype severity = LS_VERBOSE | LS_INFO | LS_WARNING | LS_ERROR | LS_NONE

fun sev_no :: "severity \<Rightarrow> nat" where
  "sev_no LS_VERBOSE = 0" | "sev_no LS_INFO = 1" | "sev_no LS_WARNING = 2" | "sev_no LS_ERROR = 3" | "sev_no LS_NONE = 4"

lemma sev_no_inject: "sev_no a = sev_no b \<Longrightarrow> a = b"
  by (cases a; cases b) auto

text \<open>The enumeration is ordered as its numbers are.\<close>

instantiation severity :: linorder
begin

definition less_eq_severity :: "severity \<Rightarrow> severity \<Rightarrow> bool" where
  "less_eq_severity a b \<longleftrightarrow> sev_no a \<le> sev_no b"

definition less_severity :: "severity \<Rightarrow> severity \<Rightarrow> bool" where
  "less_severity a b \<longleftrightarrow> sev_no a < sev_no b"

instance
  by standard (auto simp: less_eq_severity_def less_severity_def intro: sev_no_inject)

end

lemmas sev_order = less_eq_severity_def less_severity_def

definition get_log_serverity :: "byte list \<Rightarrow> severity" where
  "get_log_serverity level =
     (if level = cstr ''verbose'' then LS_VERBOSE else if level = cstr ''info'' then LS_INFO
      else if level = cstr ''warning'' then LS_WARNING else if level = cstr ''error'' then LS_ERROR
      else if level = cstr ''none'' then LS_NONE else LS_NONE)"

record xrtc_log =
  xl_running :: bool
  xl_thread :: bool
  xl_dir :: "byte list"
  xl_name :: "byte list"
  xl_level :: "byte list"
  xl_file :: "byte list"
  xl_file_wf :: "byte list"
  xl_open :: bool
  xl_open_wf :: bool
  xl_queue :: "byte list list"
  xl_queue_wf :: "byte list list"
  xl_out :: "byte list"
  xl_out_wf :: "byte list"

definition XrtcLog :: "byte list \<Rightarrow> byte list \<Rightarrow> byte list \<Rightarrow> xrtc_log" where
  "XrtcLog d n l =
     \<lparr>xl_running = False, xl_thread = False, xl_dir = d, xl_name = n, xl_level = l,
      xl_file = d @ cstr ''/'' @ n @ cstr ''.log'', xl_file_wf = d @ cstr ''/'' @ n @ cstr ''.log.wf'',
      xl_open = False, xl_open_wf = False, xl_queue = [], xl_queue_wf = [], xl_out = [], xl_out_wf = []\<rparr>"

text \<open>\<open>init\<close>: whether \<open>mkdir\<close> succeeds or the directory exists, and whether each file can be opened.\<close>

definition xl_init :: "bool \<Rightarrow> bool \<Rightarrow> bool \<Rightarrow> xrtc_log \<Rightarrow> xrtc_log \<times> int" where
  "xl_init dir_ok open_ok open_wf_ok x =
     (if \<not> dir_ok then (x, -1)
      else if \<not> open_ok then (x\<lparr>xl_open := False\<rparr>, -1)
      else let x = x\<lparr>xl_open := True\<rparr>
           in if \<not> open_wf_ok then (x\<lparr>xl_open_wf := False\<rparr>, -1) else (x\<lparr>xl_open_wf := True\<rparr>, 0))"

definition OnLogMessage :: "byte list \<Rightarrow> severity \<Rightarrow> xrtc_log \<Rightarrow> xrtc_log" where
  "OnLogMessage message sv x =
     (if sv \<ge> LS_WARNING then x\<lparr>xl_queue_wf := push_msg message (xl_queue_wf x)\<rparr>
      else x\<lparr>xl_queue := push_msg message (xl_queue x)\<rparr>)"

text \<open>The inner loop that empties a queue into the string stream.\<close>

fun drain :: "byte list list \<Rightarrow> byte list \<Rightarrow> byte list list \<times> byte list" where
  "drain [] ss = ([], ss)"
| "drain (m # q) ss = drain q (ss @ m)"

text \<open>
  What the file system does in one turn, for each file: whether \<open>stat\<close> finds it missing, whether opening it again
  succeeds, and \<open>None\<close> for a write that succeeds or the number of bytes that got to the file before it failed.
\<close>

record file_env =
  fe_gone :: bool
  fe_reopen :: bool
  fe_write :: "nat option"

text \<open>\<open>out_file_ << ss.str()\<close> and \<open>flush\<close>: whether the stream is still good, and what it has written.\<close>

definition stream_write :: "nat option \<Rightarrow> byte list \<Rightarrow> bool \<times> byte list \<Rightarrow> bool \<times> byte list" where
  "stream_write wr ss = (\<lambda>(good, out).
     if \<not> good then (good, out)
     else case wr of None \<Rightarrow> (True, out @ ss) | Some n \<Rightarrow> (False, out @ take n ss))"

text \<open>One turn of the thread's loop.\<close>

definition log_iter :: "file_env \<Rightarrow> file_env \<Rightarrow> xrtc_log \<Rightarrow> xrtc_log" where
  "log_iter f f_wf x =
     (let x = (if fe_gone f then x\<lparr>xl_open := fe_reopen f\<rparr> else x);
          x = (if fe_gone f_wf then x\<lparr>xl_open_wf := fe_reopen f_wf\<rparr> else x);
          (q, ss) = drain (xl_queue x) [];
          write_log = (xl_queue x \<noteq> []);
          x = x\<lparr>xl_queue := q\<rparr>;
          x = (if write_log
               then let (good, out) = stream_write (fe_write f) ss (xl_open x, xl_out x) in x\<lparr>xl_open := good, xl_out := out\<rparr>
               else x);
          (q, ss) = drain (xl_queue_wf x) [];
          write_log_wf = (xl_queue_wf x \<noteq> []);
          x = x\<lparr>xl_queue_wf := q\<rparr>
      in if write_log_wf
         then let (good, out) = stream_write (fe_write f_wf) ss (xl_open_wf x, xl_out_wf x) in x\<lparr>xl_open_wf := good, xl_out_wf := out\<rparr>
         else x)"

definition xl_start :: "xrtc_log \<Rightarrow> (xrtc_log \<times> bool) res" where
  "xl_start x =
     (if xl_running x then Inr (x, False)
      else if xl_thread x then Inl Terminate
      else Inr (x\<lparr>xl_running := True, xl_thread := True\<rparr>, True))"

text \<open>The end of the thread: the streams are closed without another turn.\<close>

definition log_exit :: "xrtc_log \<Rightarrow> xrtc_log" where
  "log_exit x = x\<lparr>xl_open := False, xl_open_wf := False\<rparr>"

definition xl_stop :: "xrtc_log \<Rightarrow> xrtc_log" where
  "xl_stop x = (let x = x\<lparr>xl_running := False\<rparr> in if xl_thread x then (log_exit x)\<lparr>xl_thread := False\<rparr> else x)"

section \<open>Every message reaches its file\<close>

lemma drain_eq: "drain q ss = ([], ss @ concat q)"
  by (induction q arbitrary: ss) simp_all

text \<open>A turn in which the file system lets the thread open and write its file.\<close>

definition file_good :: "file_env \<Rightarrow> bool" where
  "file_good f \<longleftrightarrow> (fe_gone f \<longrightarrow> fe_reopen f) \<and> fe_write f = None"

lemma log_iter_eq:
  assumes "xl_open x" "xl_open_wf x" "file_good f" "file_good f_wf"
  shows "log_iter f f_wf x = x\<lparr>xl_queue := [], xl_queue_wf := [],
      xl_out := xl_out x @ concat (xl_queue x), xl_out_wf := xl_out_wf x @ concat (xl_queue_wf x)\<rparr>"
  using assms by (cases x) (simp add: log_iter_def drain_eq stream_write_def file_good_def Let_def)

text \<open>What threads do with the logger: log a message, or let the log thread take a turn.\<close>

datatype log_op = Log "byte list" severity | Turn file_env file_env

fun turn_good :: "log_op \<Rightarrow> bool" where
  "turn_good (Turn f f_wf) \<longleftrightarrow> file_good f \<and> file_good f_wf"
| "turn_good (Log m sv) \<longleftrightarrow> True"

fun run_log :: "log_op list \<Rightarrow> xrtc_log \<Rightarrow> xrtc_log" where
  "run_log [] x = x"
| "run_log (Log m sv # ops) x = run_log ops (OnLogMessage m sv x)"
| "run_log (Turn f f_wf # ops) x = run_log ops (log_iter f f_wf x)"

fun logged :: "(severity \<Rightarrow> bool) \<Rightarrow> log_op list \<Rightarrow> byte list" where
  "logged P [] = []"
| "logged P (Log m sv # ops) = (if P sv then m else []) @ logged P ops"
| "logged P (Turn f f_wf # ops) = logged P ops"

definition severe :: "severity \<Rightarrow> bool" where
  "severe sv \<longleftrightarrow> sv \<ge> LS_WARNING"

text \<open>What is written followed by what is queued grows by exactly the messages logged.\<close>

lemma run_log_streams:
  assumes "xl_open x" "xl_open_wf x" "\<forall>op \<in> set ops. turn_good op"
  shows "xl_out (run_log ops x) @ concat (xl_queue (run_log ops x)) =
      xl_out x @ concat (xl_queue x) @ logged (\<lambda>s. \<not> severe s) ops \<and>
    xl_out_wf (run_log ops x) @ concat (xl_queue_wf (run_log ops x)) =
      xl_out_wf x @ concat (xl_queue_wf x) @ logged severe ops"
  using assms
proof (induction ops arbitrary: x)
  case (Cons a ops)
  show ?case
  proof (cases a)
    case (Log m sv)
    then show ?thesis using Cons.IH [of "OnLogMessage m sv x"] Cons.prems by (auto simp: OnLogMessage_def push_msg_def severe_def)
  next
    case (Turn f f_wf)
    then show ?thesis using Cons.IH [of "log_iter f f_wf x"] Cons.prems log_iter_eq [of x f f_wf] by simp
  qed
qed simp

text \<open>Once a write has failed, what is logged next is lost while the file stays where it is.\<close>

lemma log_lost_after_error:
  assumes "\<not> fe_gone f" "\<not> xl_open x"
  shows "xl_out (log_iter f f_wf x) = xl_out x \<and> xl_queue (log_iter f f_wf x) = [] \<and> \<not> xl_open (log_iter f f_wf x)"
  using assms by (simp add: log_iter_def drain_eq stream_write_def Let_def split_def)

lemma stop_loses_queue: "xl_thread x \<Longrightarrow> xl_queue (xl_stop x) = xl_queue x \<and> xl_out (xl_stop x) = xl_out x \<and> \<not> xl_open (xl_stop x)"
  by (simp add: xl_stop_def log_exit_def)

lemma run_log_append: "run_log (xs @ ys) x = run_log ys (run_log xs x)"
  by (induction xs x rule: run_log.induct) auto

lemma logged_append: "logged P (xs @ ys) = logged P xs @ logged P ys"
  by (induction P xs rule: logged.induct) auto

lemma log_iter_drains: "xl_queue (log_iter f f_wf x) = [] \<and> xl_queue_wf (log_iter f f_wf x) = []"
  by (simp add: log_iter_def drain_eq Let_def split_def)

text \<open>A file that is where it was, and that takes all writes.\<close>

definition there :: file_env where
  "there = \<lparr>fe_gone = False, fe_reopen = True, fe_write = None\<rparr>"

lemma there_good [simp]: "file_good there"
  by (simp add: file_good_def there_def)

abbreviation quiet_turn :: log_op where
  "quiet_turn \<equiv> Turn there there"

lemma run_log_complete:
  assumes "xl_open x" "xl_open_wf x" "xl_queue x = []" "xl_queue_wf x = []" "\<forall>op \<in> set ops. turn_good op"
  shows "xl_out (run_log (ops @ [quiet_turn]) x) = xl_out x @ logged (\<lambda>s. \<not> severe s) ops \<and>
    xl_out_wf (run_log (ops @ [quiet_turn]) x) = xl_out_wf x @ logged severe ops"
proof -
  have "\<forall>op \<in> set (ops @ [quiet_turn]). turn_good op" using assms(5) by auto
  from run_log_streams [OF assms(1,2) this] show ?thesis
    using assms(3,4) log_iter_drains [of there there "run_log ops x"] logged_append [of _ ops "[quiet_turn]"] by (simp add: run_log_append)
qed

section \<open>Properties\<close>

text \<open>
  While the log files can be opened and written, every message reaches the file of its severity exactly
  once and in the order of logging, whenever the log thread takes its turns: after a last turn the
  files hold all the messages logged.
\<close>

theorem log_complete:
  assumes "xl_open x" "xl_open_wf x" "xl_queue x = []" "xl_queue_wf x = []" "\<forall>op \<in> set ops. turn_good op"
  shows "xl_out (run_log (ops @ [quiet_turn]) x) = xl_out x @ logged (\<lambda>s. \<not> severe s) ops \<and>
    xl_out_wf (run_log (ops @ [quiet_turn]) x) = xl_out_wf x @ logged severe ops"
  by (rule run_log_complete [OF assms])

theorem log_complete_witness:
  "xl_out (run_log ([Log [65] LS_INFO, Log [66] LS_ERROR, Turn (there\<lparr>fe_gone := True\<rparr>) there, Log [67] LS_VERBOSE] @ [quiet_turn])
      (fst (xl_init True True True (XrtcLog [] [] [])))) = [65, 67]"
  using log_complete [of "fst (xl_init True True True (XrtcLog [] [] []))"
      "[Log [65] LS_INFO, Log [66] LS_ERROR, Turn (there\<lparr>fe_gone := True\<rparr>) there, Log [67] LS_VERBOSE]"]
  by (simp add: xl_init_def XrtcLog_def severe_def sev_order file_good_def there_def)

end
