(* ===== verification/Logging.thy ===== *)
theory Logging
  imports Log String_Builder
begin

unbundle bit_operations_syntax

text \<open>
  The logging of the base library (\<open>rtc_base/logging.h\<close>, \<open>logging.cc\<close>), through which every part of the
  server reports: the macro \<open>RTC_LOG\<close>, the text of a message, the list of sinks it is given to, and the
  registration of the server's own sink (\<open>base/log.cpp\<close>). The build is the one for Linux;
  \<open>le_dc\<close> says whether \<open>RTC_DCHECK\<close> is on. The calls of \<open>OnLogMessage\<close> are
  recorded in \<open>lg_calls\<close>, the output on \<open>stderr\<close> in \<open>lg_err\<close>; what the clocks, the thread and \<open>strerror\<close>
  say during a call is in a record \<open>log_env\<close>.
\<close>

section \<open>The state of the logging\<close>

datatype err_ctx = ERRCTX_NONE | ERRCTX_ERRNO | ERRCTX_HRESULT

record log_sink =
  ls_next :: "addr option"
  ls_min :: severity

record log_state =
  lg_min_sev :: severity
  lg_dbg_sev :: severity
  lg_to_stderr :: bool
  lg_streams :: "addr option"
  lg_streams_empty :: bool
  lg_thread :: bool
  lg_timestamp :: bool
  lg_prefix :: "byte list"
  lg_start :: "int option"
  lg_wall :: "int option"
  lg_sinks :: "addr \<rightharpoonup> log_sink"
  lg_err :: "byte list"
  lg_calls :: "(addr \<times> byte list \<times> severity) list"

record log_env =
  le_dc :: bool
  le_now :: int
  le_start_now :: int
  le_wall_now :: int
  le_tid :: int
  le_strerror :: "int \<Rightarrow> byte list"
  le_mem :: "nat \<Rightarrow> byte"

text \<open>The initial state of the program, with \<open>sev\<close> \<open>LS_INFO\<close> in a debug and \<open>LS_VERBOSE\<close> in a release build.\<close>

definition log_init :: "severity \<Rightarrow> (addr \<rightharpoonup> log_sink) \<Rightarrow> log_state" where
  "log_init sev sinks =
     \<lparr>lg_min_sev = sev, lg_dbg_sev = sev, lg_to_stderr = True, lg_streams = None, lg_streams_empty = True,
      lg_thread = False, lg_timestamp = False, lg_prefix = [], lg_start = None, lg_wall = None,
      lg_sinks = sinks, lg_err = [], lg_calls = []\<rparr>"

section \<open>The list of sinks\<close>

text \<open>A loop over the list: \<open>f\<close> is its body, \<open>s\<close> what it changes.\<close>

partial_function (option) walk :: "(addr \<Rightarrow> log_sink \<Rightarrow> 's \<Rightarrow> 's) \<Rightarrow> (addr \<rightharpoonup> log_sink) \<Rightarrow> addr option \<Rightarrow> 's \<Rightarrow> 's res option" where
  "walk f h entry s =
     (case entry of
        None \<Rightarrow> Some (Inr s)
      | Some a \<Rightarrow> (case h a of None \<Rightarrow> Some (Inl UseAfterFree) | Some e \<Rightarrow> walk f h (ls_next e) (f a e s)))"

definition UpdateMinLogSeverity :: "log_state \<Rightarrow> log_state res option" where
  "UpdateMinLogSeverity st =
     map_option (\<lambda>r. rbind r (\<lambda>m. Inr (st\<lparr>lg_min_sev := m\<rparr>)))
       (walk (\<lambda>a e m. min m (ls_min e)) (lg_sinks st) (lg_streams st) (lg_dbg_sev st))"

definition GetLogToStream :: "addr option \<Rightarrow> log_state \<Rightarrow> severity res option" where
  "GetLogToStream stream st =
     walk (\<lambda>a e sev. if stream = None \<or> stream = Some a then min sev (ls_min e) else sev) (lg_sinks st) (lg_streams st) LS_NONE"

definition AddLogToStream :: "addr \<Rightarrow> severity \<Rightarrow> log_state \<Rightarrow> log_state res option" where
  "AddLogToStream stream min_sev st =
     (case lg_sinks st stream of
        None \<Rightarrow> Some (Inl UseAfterFree)
      | Some e \<Rightarrow> UpdateMinLogSeverity
          (st\<lparr>lg_sinks := (lg_sinks st)(stream \<mapsto> \<lparr>ls_next = lg_streams st, ls_min = min_sev\<rparr>),
              lg_streams := Some stream, lg_streams_empty := False\<rparr>))"

text \<open>
  The loop of \<open>RemoveLogToStream\<close>: \<open>prev\<close> is the sink whose \<open>next_\<close> the pointer \<open>entry\<close> points to, \<open>None\<close> for
  \<open>streams_\<close>, and \<open>cur\<close> is \<open>*entry\<close>.
\<close>

partial_function (option) remove_loop :: "addr \<Rightarrow> addr option \<Rightarrow> addr option \<Rightarrow> log_state \<Rightarrow> log_state res option" where
  "remove_loop stream prev cur st =
     (case cur of
        None \<Rightarrow> Some (Inr st)
      | Some a \<Rightarrow>
          (case lg_sinks st a of
             None \<Rightarrow> Some (Inl UseAfterFree)
           | Some e \<Rightarrow>
               if a = stream
               then Some (Inr (case prev of
                                 None \<Rightarrow> st\<lparr>lg_streams := ls_next e\<rparr>
                               | Some p \<Rightarrow> st\<lparr>lg_sinks := (lg_sinks st)(p := map_option (\<lambda>s. s\<lparr>ls_next := ls_next e\<rparr>) (lg_sinks st p))\<rparr>))
               else remove_loop stream (Some a) (ls_next e) st))"

definition RemoveLogToStream :: "addr \<Rightarrow> log_state \<Rightarrow> log_state res option" where
  "RemoveLogToStream stream st =
     (case remove_loop stream None (lg_streams st) st of
        None \<Rightarrow> None
      | Some (Inl e) \<Rightarrow> Some (Inl e)
      | Some (Inr st1) \<Rightarrow> UpdateMinLogSeverity (st1\<lparr>lg_streams_empty := (lg_streams st1 = None)\<rparr>))"

section \<open>Options\<close>

definition GetMinLogSeverity :: "log_state \<Rightarrow> severity" where "GetMinLogSeverity st = lg_min_sev st"
definition GetLogToDebug :: "log_state \<Rightarrow> severity" where "GetLogToDebug st = lg_dbg_sev st"
definition LogThreads :: "bool \<Rightarrow> log_state \<Rightarrow> log_state" where "LogThreads on st = st\<lparr>lg_thread := on\<rparr>"
definition LogTimestamps :: "bool \<Rightarrow> log_state \<Rightarrow> log_state" where "LogTimestamps on st = st\<lparr>lg_timestamp := on\<rparr>"
definition GetLogPathPrefix :: "log_state \<Rightarrow> byte list" where "GetLogPathPrefix st = lg_prefix st"
definition SetLogPathPrefix :: "byte list \<Rightarrow> log_state \<Rightarrow> log_state" where "SetLogPathPrefix prefix st = st\<lparr>lg_prefix := prefix\<rparr>"
definition SetLogToStderr :: "bool \<Rightarrow> log_state \<Rightarrow> log_state" where "SetLogToStderr on st = st\<lparr>lg_to_stderr := on\<rparr>"

definition LogToDebug :: "severity \<Rightarrow> log_state \<Rightarrow> log_state res option" where
  "LogToDebug min_sev st = UpdateMinLogSeverity (st\<lparr>lg_dbg_sev := min_sev\<rparr>)"

fun configure_tokens :: "byte list list \<Rightarrow> severity \<Rightarrow> severity \<Rightarrow> log_state \<Rightarrow> severity \<times> log_state" where
  "configure_tokens [] cur dbg st = (dbg, st)"
| "configure_tokens (tok # toks) cur dbg st =
     (if tok = [] then configure_tokens toks cur dbg st
      else if tok = cstr ''tstamp'' then configure_tokens toks cur dbg (LogTimestamps True st)
      else if tok = cstr ''thread'' then configure_tokens toks cur dbg (LogThreads True st)
      else if tok = cstr ''verbose'' then configure_tokens toks LS_VERBOSE dbg st
      else if tok = cstr ''info'' then configure_tokens toks LS_INFO dbg st
      else if tok = cstr ''warning'' then configure_tokens toks LS_WARNING dbg st
      else if tok = cstr ''error'' then configure_tokens toks LS_ERROR dbg st
      else if tok = cstr ''none'' then configure_tokens toks LS_NONE dbg st
      else if tok = cstr ''debug'' then configure_tokens toks cur cur st
      else configure_tokens toks cur dbg st)"

definition ConfigureLogging :: "byte list \<Rightarrow> log_state \<Rightarrow> log_state res option" where
  "ConfigureLogging params st =
     (let (dbg, st1) = configure_tokens (tokenize params 32) LS_VERBOSE (GetLogToDebug st) st in LogToDebug dbg st1)"

definition LogStartTime :: "log_env \<Rightarrow> log_state \<Rightarrow> int \<times> log_state" where
  "LogStartTime e st = (case lg_start st of Some t \<Rightarrow> (t, st) | None \<Rightarrow> (le_start_now e, st\<lparr>lg_start := Some (le_start_now e)\<rparr>))"

definition WallClockStartTime :: "log_env \<Rightarrow> log_state \<Rightarrow> int \<times> log_state" where
  "WallClockStartTime e st = (case lg_wall st of Some t \<Rightarrow> (t, st) | None \<Rightarrow> (le_wall_now e, st\<lparr>lg_wall := Some (le_wall_now e)\<rparr>))"

section \<open>The text of a message\<close>

fun GetSeverityStr :: "severity \<Rightarrow> byte list" where
  "GetSeverityStr LS_VERBOSE = cstr ''VERBOSE''"
| "GetSeverityStr LS_INFO = cstr ''INFO''"
| "GetSeverityStr LS_WARNING = cstr ''WARNING''"
| "GetSeverityStr LS_ERROR = cstr ''ERROR''"
| "GetSeverityStr LS_NONE = cstr ''NONE''"

text \<open>\<open>strrchr\<close> and \<open>strstr\<close>, as indices; \<open>None\<close> is the null pointer, which is less than every other.\<close>

fun strrchr :: "byte list \<Rightarrow> byte \<Rightarrow> nat option" where
  "strrchr [] c = None"
| "strrchr (x # xs) c = (case strrchr xs c of Some i \<Rightarrow> Some (Suc i) | None \<Rightarrow> if x = c then Some 0 else None)"

fun strstr :: "byte list \<Rightarrow> byte list \<Rightarrow> nat option" where
  "strstr [] p = (if p = [] then Some 0 else None)"
| "strstr (x # xs) p = (if take (length p) (x # xs) = p then Some 0 else map_option Suc (strstr xs p))"

definition FilenameFromPath :: "log_state \<Rightarrow> byte list \<Rightarrow> byte list" where
  "FilenameFromPath st file =
     (let end1 = (if GetLogPathPrefix st \<noteq> [] then strstr file (GetLogPathPrefix st) else strrchr file 47);
          end2 = strrchr file 92
      in case (end1, end2) of
           (None, None) \<Rightarrow> file
         | (Some i, None) \<Rightarrow> drop (i + 1) file
         | (None, Some j) \<Rightarrow> drop (j + 1) file
         | (Some i, Some j) \<Rightarrow> if i > j then drop (i + 1) file else drop (j + 1) file)"

text \<open>\<open>print_stream_ << v\<close> for an integer.\<close>

definition put_int :: "log_env \<Rightarrow> int \<Rightarrow> byte list \<Rightarrow> byte list res" where
  "put_int e v s = rbind (ToString_int (le_dc e) (map (le_mem e) [0..<32]) v) (\<lambda>t. Inr (s @ t))"

text \<open>Division and remainder of C, which cut off towards zero.\<close>

definition c_div :: "int \<Rightarrow> int \<Rightarrow> int" where "c_div a b = sgn a * (\<bar>a\<bar> div b)"
definition c_rem :: "int \<Rightarrow> int \<Rightarrow> int" where "c_rem a b = sgn a * (\<bar>a\<bar> mod b)"

definition timestamp_text :: "int \<Rightarrow> byte list" where
  "timestamp_text time = take 49 (cstr ''['' @ dec_text0 3 (c_div time 1000) @ cstr '':'' @ dec_text0 3 (c_rem time 1000) @ cstr '']'')"

definition log_extra :: "log_env \<Rightarrow> err_ctx \<Rightarrow> int \<Rightarrow> byte list res" where
  "log_extra e ctx err =
     (if ctx = ERRCTX_NONE then Inr []
      else rbind (SimpleStringBuilder (le_dc e) (map (le_mem e) [0..<1024])) (\<lambda>tmp.
           rbind (ssb_format (le_dc e) (Some (cstr ''[0x'' @ hex_text8 (of_int err) @ cstr '']'')) tmp) (\<lambda>tmp.
           rbind (if ctx = ERRCTX_ERRNO
                  then rbind (ssb_append (le_dc e) (cstr '' '') tmp) (ssb_append (le_dc e) (le_strerror e err))
                  else Inr tmp) ssb_str)))"

record log_message =
  lm_sev :: severity
  lm_extra :: "byte list"
  lm_text :: "byte list"

definition LogMessage :: "log_env \<Rightarrow> byte list option \<Rightarrow> int \<Rightarrow> severity \<Rightarrow> err_ctx \<Rightarrow> int \<Rightarrow> log_state \<Rightarrow> (log_message \<times> log_state) res" where
  "LogMessage e file line sev ctx err st =
     (let s0 = GetSeverityStr sev @ cstr '': '';
          (s1, st1) = (if lg_timestamp st
                       then let (start, sta) = LogStartTime e st; time = le_now e - start; (w, stb) = WallClockStartTime e sta
                            in (s0 @ timestamp_text time, stb)
                       else (s0, st))
      in rbind (if lg_thread st1 then rbind (put_int e (le_tid e) (s1 @ cstr ''['')) (\<lambda>s. Inr (s @ cstr ''] '')) else Inr s1) (\<lambda>s2.
         rbind (case file of
                  None \<Rightarrow> Inr s2
                | Some f \<Rightarrow> rbind (put_int e line (s2 @ cstr ''('' @ FilenameFromPath st1 f @ cstr '':'')) (\<lambda>s. Inr (s @ cstr ''): ''))) (\<lambda>s3.
         rbind (log_extra e ctx err) (\<lambda>x. Inr (\<lparr>lm_sev = sev, lm_extra = x, lm_text = s3\<rparr>, st1)))))"

definition FinishPrintStream :: "log_message \<Rightarrow> log_message" where
  "FinishPrintStream m =
     (let m1 = (if lm_extra m \<noteq> [] then m\<lparr>lm_text := lm_text m @ cstr '' : '' @ lm_extra m\<rparr> else m)
      in m1\<lparr>lm_text := lm_text m1 @ [10]\<rparr>)"

text \<open>\<open>fprintf\<close> with \<open>%s\<close> ends at the first null byte.\<close>

definition OutputToDebug :: "byte list \<Rightarrow> log_state \<Rightarrow> log_state" where
  "OutputToDebug str st = (if lg_to_stderr st then st\<lparr>lg_err := lg_err st @ takeWhile (\<lambda>c. c \<noteq> 0) str\<rparr> else st)"

text \<open>The destructor of \<open>LogMessage\<close>, which sends the message out.\<close>

definition log_done :: "log_message \<Rightarrow> log_state \<Rightarrow> log_state res option" where
  "log_done m st =
     (let m1 = FinishPrintStream m; str = lm_text m1; sev = lm_sev m1;
          st1 = (if sev \<ge> lg_dbg_sev st then OutputToDebug str st else st)
      in map_option (\<lambda>r. rbind r (\<lambda>cs. Inr (st1\<lparr>lg_calls := cs\<rparr>)))
           (walk (\<lambda>a en cs. if sev \<ge> ls_min en then cs @ [(a, str, sev)] else cs) (lg_sinks st1) (lg_streams st1) (lg_calls st1)))"

definition IsNoop :: "severity \<Rightarrow> log_state \<Rightarrow> bool" where
  "IsNoop severity st =
     (if severity \<ge> lg_dbg_sev st \<or> severity \<ge> lg_min_sev st then False else lg_streams_empty st)"

section \<open>The macros\<close>

record log_metadata =
  md_file :: "byte list option"
  md_line_and_sev :: u32

definition LogMetadata :: "byte list option \<Rightarrow> int \<Rightarrow> severity \<Rightarrow> log_metadata" where
  "LogMetadata file line sev = \<lparr>md_file = file, md_line_and_sev = push_bit 3 (of_int line) OR of_nat (sev_no sev)\<rparr>"

definition md_line :: "log_metadata \<Rightarrow> int" where
  "md_line m = uint (drop_bit 3 (md_line_and_sev m))"

definition sev_of :: "nat \<Rightarrow> severity" where
  "sev_of n = (if n = 0 then LS_VERBOSE else if n = 1 then LS_INFO else if n = 2 then LS_WARNING else if n = 3 then LS_ERROR else LS_NONE)"

definition md_sev :: "log_metadata \<Rightarrow> severity" where
  "md_sev m = sev_of (unat (md_line_and_sev m AND 7))"

text \<open>
  The arguments of a message, with the tags of \<open>LogArgType\<close>. The text of a floating-point number is
  what \<open>snprintf\<close> makes of it; a string of C has its bytes without the null byte.
\<close>

datatype log_arg =
    kInt int | kLong int | kLongLong int | kUInt int | kULong int | kULongLong int
  | kDouble "byte list" | kLongDouble "byte list"
  | kCharP "byte list option" | kStdString "byte list" | kStringView "byte list" | kVoidP u64
  | kLogMetadata log_metadata | kLogMetadataErr log_metadata err_ctx int

fun log_arg_put :: "log_env \<Rightarrow> log_arg \<Rightarrow> byte list \<Rightarrow> byte list option res" where
  "log_arg_put e (kInt v) s = rbind (put_int e v s) (\<lambda>s. Inr (Some s))"
| "log_arg_put e (kLong v) s = rbind (put_int e v s) (\<lambda>s. Inr (Some s))"
| "log_arg_put e (kLongLong v) s = rbind (put_int e v s) (\<lambda>s. Inr (Some s))"
| "log_arg_put e (kUInt v) s = rbind (put_int e v s) (\<lambda>s. Inr (Some s))"
| "log_arg_put e (kULong v) s = rbind (put_int e v s) (\<lambda>s. Inr (Some s))"
| "log_arg_put e (kULongLong v) s = rbind (put_int e v s) (\<lambda>s. Inr (Some s))"
| "log_arg_put e (kDouble t) s = Inr (Some (s @ t))"
| "log_arg_put e (kLongDouble t) s = Inr (Some (s @ t))"
| "log_arg_put e (kCharP p) s = Inr (Some (s @ (case p of Some t \<Rightarrow> t | None \<Rightarrow> cstr ''(null)'')))"
| "log_arg_put e (kStdString t) s = Inr (Some (s @ t))"
| "log_arg_put e (kStringView t) s = Inr (Some (s @ t))"
| "log_arg_put e (kVoidP p) s = Inr (Some (s @ ToHex (ucast p)))"
| "log_arg_put e (kLogMetadata _) s = Inr None"
| "log_arg_put e (kLogMetadataErr _ _ _) s = Inr None"

text \<open>The loop over the arguments; one that is not expected ends it, and the message is sent as it is.\<close>

fun log_args :: "log_env \<Rightarrow> log_arg list \<Rightarrow> byte list \<Rightarrow> byte list res" where
  "log_args e [] s = Inr s"
| "log_args e (a # as) s =
     rbind (log_arg_put e a s) (\<lambda>r. case r of Some s1 \<Rightarrow> log_args e as s1 | None \<Rightarrow> if le_dc e then Inl AssertFail else Inr s)"

definition log_with :: "log_env \<Rightarrow> log_metadata \<Rightarrow> err_ctx \<Rightarrow> int \<Rightarrow> log_arg list \<Rightarrow> log_state \<Rightarrow> log_state res option" where
  "log_with e m ctx err as st =
     (case LogMessage e (md_file m) (md_line m) (md_sev m) ctx err st of
        Inl f \<Rightarrow> Some (Inl f)
      | Inr (lm, st1) \<Rightarrow>
          (case log_args e as (lm_text lm) of
             Inl f \<Rightarrow> Some (Inl f)
           | Inr s \<Rightarrow> log_done (lm\<lparr>lm_text := s\<rparr>) st1))"

fun rtc_Log :: "log_env \<Rightarrow> log_arg list \<Rightarrow> log_state \<Rightarrow> log_state res option" where
  "rtc_Log e (kLogMetadata m # as) st = log_with e m ERRCTX_NONE 0 as st"
| "rtc_Log e (kLogMetadataErr m ctx err # as) st = log_with e m ctx err as st"
| "rtc_Log e _ st = (if le_dc e then Some (Inl AssertFail) else Some (Inr st))"

text \<open>
  A \<open>LogStreamer\<close> is the list of its arguments, the most recent one first; \<open>Call\<close> passes them on from
  streamer to streamer, each before the ones that came later.
\<close>

fun streamer_call :: "log_arg list \<Rightarrow> log_arg list \<Rightarrow> log_arg list" where
  "streamer_call [] args = args"
| "streamer_call (a # prior) args = streamer_call prior (a # args)"

definition stream_put :: "log_arg list \<Rightarrow> log_arg \<Rightarrow> log_arg list" where
  "stream_put streamer arg = arg # streamer"

definition RTC_LOG :: "log_env \<Rightarrow> severity \<Rightarrow> byte list \<Rightarrow> int \<Rightarrow> log_arg list \<Rightarrow> log_state \<Rightarrow> log_state res option" where
  "RTC_LOG e sev file line args st =
     (if IsNoop sev st then Some (Inr st)
      else rtc_Log e (streamer_call (foldl stream_put [] (kLogMetadata (LogMetadata (Some file) line sev) # args)) []) st)"

definition RTC_LOG_E :: "log_env \<Rightarrow> severity \<Rightarrow> err_ctx \<Rightarrow> int \<Rightarrow> byte list \<Rightarrow> int \<Rightarrow> log_arg list \<Rightarrow> log_state \<Rightarrow> log_state res option" where
  "RTC_LOG_E e sev ctx err file line args st =
     (if IsNoop sev st then Some (Inr st)
      else rtc_Log e (streamer_call (foldl stream_put [] (kLogMetadataErr (LogMetadata (Some file) line sev) ctx err # args)) []) st)"

section \<open>The sink of the server\<close>

text \<open>The first lines of \<open>XrtcLog::init\<close>, and \<open>set_log_to_stderr\<close>.\<close>

definition xl_register :: "addr \<Rightarrow> log_state \<Rightarrow> log_state res option" where
  "xl_register self st =
     (case ConfigureLogging (cstr ''thread tstamp'') st of
        None \<Rightarrow> None
      | Some (Inl e) \<Rightarrow> Some (Inl e)
      | Some (Inr st1) \<Rightarrow> AddLogToStream self LS_VERBOSE (SetLogPathPrefix (cstr ''/src'') st1))"

definition set_log_to_stderr :: "bool \<Rightarrow> log_state \<Rightarrow> log_state" where
  "set_log_to_stderr on st = SetLogToStderr on st"

end
