(* ===== verification/Logging_Proofs.thy ===== *)
theory Logging_Proofs
  imports Logging
begin

unbundle bit_operations_syntax

text \<open>
  The list of sinks as a path of \<open>next_\<close> pointers, the text of a message, and what the macros do with
  it: every sink gets the messages it asked for, and the server's own sink brings them to the log files.
\<close>

section \<open>Loops over the list of sinks\<close>

definition sink_nexts :: "(addr \<rightharpoonup> log_sink) \<Rightarrow> addr \<rightharpoonup> addr option" where
  "sink_nexts h = (\<lambda>a. map_option ls_next (h a))"

lemma sink_nexts_upd [simp]: "sink_nexts (h(a \<mapsto> e)) = (sink_nexts h)(a \<mapsto> ls_next e)"
  by (rule ext) (simp add: sink_nexts_def)

lemma sink_nexts_Some: "sink_nexts h a = Some r \<Longrightarrow> \<exists>e. h a = Some e \<and> ls_next e = r"
  by (auto simp: sink_nexts_def)

lemma walk_path: "path (sink_nexts h) p as None \<Longrightarrow> walk f h p s = Some (Inr (fold (\<lambda>a. f a (the (h a))) as s))"
proof (induction as arbitrary: p s)
  case Nil
  then show ?case by (simp add: walk.simps)
next
  case (Cons a as)
  then obtain e where "p = Some a" "h a = Some e" "path (sink_nexts h) (ls_next e) as None" by (auto simp: sink_nexts_def)
  then show ?case using Cons.IH [of "ls_next e"] by (subst walk.simps) simp
qed

text \<open>A loop that ends has come to the end of the list or to a sink that is gone.\<close>

lemma walk_ends:
  assumes "walk f h p s = Some r"
  shows "\<exists>as q. path (sink_nexts h) p as q \<and> (\<forall>b. q = Some b \<longrightarrow> h b = None)"
  using assms
proof (induction rule: walk.raw_induct [rotated 1, consumes 1])
  case (1 w f h p s r)
  show ?case
  proof (cases p)
    case None
    then show ?thesis by (intro exI [of _ "[]"] exI [of _ None]) simp
  next
    case (Some a)
    show ?thesis
    proof (cases "h a")
      case None
      then show ?thesis using Some by (intro exI [of _ "[]"] exI [of _ p]) simp
    next
      case e: (Some en)
      then have "w f h (ls_next en) (f a en s) = Some r" using 1(2) Some by simp
      from 1(1) [OF this] obtain as q where "path (sink_nexts h) (ls_next en) as q" "\<forall>b. q = Some b \<longrightarrow> h b = None" by blast
      then show ?thesis using Some e by (intro exI [of _ "a # as"] exI [of _ q]) (simp add: sink_nexts_def)
    qed
  qed
qed

lemma cycle_next:
  assumes "path nx (Some a) cyc (Some a)" "x \<in> set cyc"
  shows "\<exists>y. nx x = Some (Some y) \<and> y \<in> set cyc"
proof -
  obtain u v where c: "cyc = u @ x # v" using split_list [OF assms(2)] by blast
  then obtain r where r: "nx x = Some r" "path nx r v (Some a)" using assms(1) by (simp only: path_append path.simps) blast
  have "a \<in> set cyc" using assms by (cases cyc) simp_all
  then show ?thesis using r c by (cases v) simp_all
qed

lemma cycle_stays:
  assumes "path nx (Some a) cyc (Some a)"
  shows "path nx (Some x) as q \<Longrightarrow> x \<in> set cyc \<Longrightarrow> \<exists>y \<in> set cyc. q = Some y"
proof (induction as arbitrary: x)
  case (Cons b as)
  obtain y where y: "nx x = Some (Some y)" "y \<in> set cyc" using cycle_next [OF assms Cons.prems(2)] by blast
  then have "path nx (Some y) as q" using Cons.prems(1) by simp
  then show ?case using Cons.IH y(2) by blast
qed auto

lemma walk_cycle:
  assumes "path (sink_nexts h) (Some a) (a # as) (Some a)"
  shows "walk f h (Some a) s = None"
proof (rule ccontr)
  assume "walk f h (Some a) s \<noteq> None"
  then obtain r where "walk f h (Some a) s = Some r" by blast
  from walk_ends [OF this] obtain bs q where q: "path (sink_nexts h) (Some a) bs q" "\<forall>b. q = Some b \<longrightarrow> h b = None" by blast
  have "a \<in> set (a # as)" by simp
  from cycle_stays [OF assms q(1) this] obtain y where y: "y \<in> set (a # as)" "q = Some y" by blast
  from cycle_next [OF assms y(1)] obtain z where "sink_nexts h y = Some (Some z)" by blast
  then show False using q(2) y(2) by (simp add: sink_nexts_def)
qed

section \<open>The invariant\<close>

definition min_of :: "log_state \<Rightarrow> addr list \<Rightarrow> severity" where
  "min_of st as = fold (\<lambda>a m. min m (ls_min (the (lg_sinks st a)))) as (lg_dbg_sev st)"

definition sink_list :: "log_state \<Rightarrow> addr list \<Rightarrow> bool" where
  "sink_list st as \<longleftrightarrow> path (sink_nexts (lg_sinks st)) (lg_streams st) as None \<and> distinct as"

text \<open>\<open>as\<close> are the registered sinks, the last registered one first.\<close>

definition log_ok :: "log_state \<Rightarrow> addr list \<Rightarrow> bool" where
  "log_ok st as \<longleftrightarrow> sink_list st as \<and> lg_min_sev st = min_of st as \<and> (lg_streams_empty st \<longleftrightarrow> as = [])"

lemma fold_min_le:
  "sev \<ge> fold (\<lambda>a m. min m (g a)) as m \<longleftrightarrow> sev \<ge> m \<or> (\<exists>a \<in> set as. sev \<ge> (g a :: 'a :: linorder))"
  by (induction as arbitrary: m) (auto simp: min_le_iff_disj)

lemma UpdateMinLogSeverity_ok:
  assumes "sink_list st as" "lg_streams_empty st \<longleftrightarrow> as = []"
  shows "UpdateMinLogSeverity st = Some (Inr (st\<lparr>lg_min_sev := min_of st as\<rparr>))" "log_ok (st\<lparr>lg_min_sev := min_of st as\<rparr>) as"
proof -
  from assms(1) have "path (sink_nexts (lg_sinks st)) (lg_streams st) as None" by (simp add: sink_list_def)
  from walk_path [OF this, of "\<lambda>a e m. min m (ls_min e)" "lg_dbg_sev st"]
  show "UpdateMinLogSeverity st = Some (Inr (st\<lparr>lg_min_sev := min_of st as\<rparr>))" unfolding UpdateMinLogSeverity_def min_of_def by simp
qed (use assms in \<open>simp add: log_ok_def sink_list_def min_of_def\<close>)

lemma log_init_ok: "log_ok (log_init sev sinks) []"
  by (simp add: log_ok_def log_init_def sink_list_def min_of_def)

lemma AddLogToStream_ok:
  assumes ok: "log_ok st as" and a: "lg_sinks st a \<noteq> None" "a \<notin> set as"
  shows "\<exists>st'. AddLogToStream a m st = Some (Inr st') \<and> log_ok st' (a # as) \<and> lg_sinks st' = (lg_sinks st)(a \<mapsto> \<lparr>ls_next = lg_streams st, ls_min = m\<rparr>)"
proof -
  let ?st = "st\<lparr>lg_sinks := (lg_sinks st)(a \<mapsto> \<lparr>ls_next = lg_streams st, ls_min = m\<rparr>), lg_streams := Some a, lg_streams_empty := False\<rparr>"
  have "sink_list ?st (a # as)" using ok a(2) by (simp add: log_ok_def sink_list_def)
  from UpdateMinLogSeverity_ok [OF this] a(1) show ?thesis by (auto simp: AddLogToStream_def)
qed

lemma AddLogToStream_again:
  assumes ok: "log_ok st as" and a: "a \<in> set as"
  shows "AddLogToStream a m st = None"
proof -
  obtain u v where uv: "as = u @ a # v" "a \<notin> set u" using split_list_first [OF a] by blast
  let ?h = "(lg_sinks st)(a \<mapsto> \<lparr>ls_next = lg_streams st, ls_min = m\<rparr>)"
  have p: "path (sink_nexts (lg_sinks st)) (lg_streams st) u (Some a)" "lg_sinks st a \<noteq> None"
    using ok uv(1) by (auto simp: log_ok_def sink_list_def sink_nexts_def)
  then have "path (sink_nexts ?h) (Some a) (a # u) (Some a)" using uv(2) by simp
  from walk_cycle [OF this] p(2) show ?thesis by (auto simp: AddLogToStream_def UpdateMinLogSeverity_def)
qed

text \<open>Removing unlinks the sink and leaves the others as they are.\<close>

lemma remove_loop_path:
  assumes "path (sink_nexts (lg_sinks st)) (lg_streams st) (pre @ as) None" "distinct (pre @ as)"
    "path (sink_nexts (lg_sinks st)) cur as None" "prev = (if pre = [] then None else Some (last pre))" "a \<notin> set pre"
  shows "\<exists>st'. remove_loop a prev cur st = Some (Inr st') \<and> path (sink_nexts (lg_sinks st')) (lg_streams st') (pre @ remove1 a as) None \<and>
    lg_dbg_sev st' = lg_dbg_sev st \<and> (\<forall>b. map_option ls_min (lg_sinks st' b) = map_option ls_min (lg_sinks st b))"
  using assms
proof (induction as arbitrary: pre cur prev)
  case Nil
  then show ?case by (simp add: remove_loop.simps)
next
  case (Cons c as)
  obtain e where e: "cur = Some c" "lg_sinks st c = Some e" "path (sink_nexts (lg_sinks st)) (ls_next e) as None"
    using Cons.prems(3) by (auto simp: sink_nexts_def)
  show ?case
  proof (cases "c = a")
    case True
    show ?thesis
    proof (cases pre rule: rev_cases)
      case Nil
      then show ?thesis using Cons.prems e True by (subst remove_loop.simps) simp
    next
      case (snoc us p)
      obtain q where q: "lg_sinks st p = Some q" "path (sink_nexts (lg_sinks st)) (lg_streams st) us (Some p)"
        using Cons.prems(1) snoc by (auto simp: sink_nexts_def)
      have d: "p \<notin> set us" "p \<notin> set as" using Cons.prems(2) snoc by auto
      then show ?thesis using Cons.prems e True q snoc by (subst remove_loop.simps) auto
    qed
  next
    case False
    have "remove_loop a prev cur st = remove_loop a (Some c) (ls_next e) st"
      using e False by (subst remove_loop.simps) simp
    moreover have "\<exists>st'. remove_loop a (Some c) (ls_next e) st = Some (Inr st') \<and>
        path (sink_nexts (lg_sinks st')) (lg_streams st') ((pre @ [c]) @ remove1 a as) None \<and>
        lg_dbg_sev st' = lg_dbg_sev st \<and> (\<forall>b. map_option ls_min (lg_sinks st' b) = map_option ls_min (lg_sinks st b))"
      by (rule Cons.IH) (use Cons.prems e False in auto)
    ultimately show ?thesis using False by simp
  qed
qed

lemma RemoveLogToStream_ok:
  assumes ok: "log_ok st as"
  shows "\<exists>st'. RemoveLogToStream a st = Some (Inr st') \<and> log_ok st' (remove1 a as) \<and>
    (\<forall>b. map_option ls_min (lg_sinks st' b) = map_option ls_min (lg_sinks st b))"
proof -
  have p: "path (sink_nexts (lg_sinks st)) (lg_streams st) as None" "distinct as" using ok by (auto simp: log_ok_def sink_list_def)
  from remove_loop_path [of st "[]" as "lg_streams st" None a] p obtain st1 where
    st1: "remove_loop a None (lg_streams st) st = Some (Inr st1)" "path (sink_nexts (lg_sinks st1)) (lg_streams st1) (remove1 a as) None"
      "\<forall>b. map_option ls_min (lg_sinks st1 b) = map_option ls_min (lg_sinks st b)" by auto
  let ?st = "st1\<lparr>lg_streams_empty := (lg_streams st1 = None)\<rparr>"
  have "lg_streams st1 = None \<longleftrightarrow> remove1 a as = []" using st1(2) by (cases "remove1 a as") auto
  then have "sink_list ?st (remove1 a as)" "lg_streams_empty ?st \<longleftrightarrow> remove1 a as = []" using st1(2) p(2) by (auto simp: sink_list_def)
  from UpdateMinLogSeverity_ok [OF this] st1(1,3) show ?thesis by (auto simp: RemoveLogToStream_def)
qed

section \<open>The text of a message\<close>

fun arg_text :: "log_arg \<Rightarrow> byte list" where
  "arg_text (kInt v) = dec_text v"
| "arg_text (kLong v) = dec_text v"
| "arg_text (kLongLong v) = dec_text v"
| "arg_text (kUInt v) = dec_text v"
| "arg_text (kULong v) = dec_text v"
| "arg_text (kULongLong v) = dec_text v"
| "arg_text (kDouble t) = t"
| "arg_text (kLongDouble t) = t"
| "arg_text (kCharP p) = (case p of Some t \<Rightarrow> t | None \<Rightarrow> cstr ''(null)'')"
| "arg_text (kStdString t) = t"
| "arg_text (kStringView t) = t"
| "arg_text (kVoidP p) = ToHex (ucast p)"
| "arg_text _ = []"

definition fits64 :: "int \<Rightarrow> bool" where
  "fits64 v \<longleftrightarrow> - (2 ^ 63) \<le> v \<and> v < 2 ^ 64"

fun arg_fits :: "log_arg \<Rightarrow> bool" where
  "arg_fits (kInt v) \<longleftrightarrow> fits64 v"
| "arg_fits (kLong v) \<longleftrightarrow> fits64 v"
| "arg_fits (kLongLong v) \<longleftrightarrow> fits64 v"
| "arg_fits (kUInt v) \<longleftrightarrow> fits64 v"
| "arg_fits (kULong v) \<longleftrightarrow> fits64 v"
| "arg_fits (kULongLong v) \<longleftrightarrow> fits64 v"
| "arg_fits (kLogMetadata _) \<longleftrightarrow> False"
| "arg_fits (kLogMetadataErr _ _ _) \<longleftrightarrow> False"
| "arg_fits _ \<longleftrightarrow> True"

lemma put_int_eq: "fits64 v \<Longrightarrow> put_int e v s = Inr (s @ dec_text v)"
  by (simp add: put_int_def fits64_def ToString_int_eq)

lemma log_arg_put_eq: "arg_fits a \<Longrightarrow> log_arg_put e a s = Inr (Some (s @ arg_text a))"
  by (cases a) (simp_all add: put_int_eq)

lemma log_args_eq: "\<forall>a \<in> set as. arg_fits a \<Longrightarrow> log_args e as s = Inr (s @ concat (map arg_text as))"
  by (induction as arbitrary: s) (simp_all add: log_arg_put_eq)

lemma streamer_call_rev: "streamer_call s args = rev s @ args"
  by (induction s arbitrary: args) simp_all

lemma streamed: "streamer_call (foldl stream_put s args) [] = rev s @ args"
  by (induction args arbitrary: s) (simp_all add: streamer_call_rev stream_put_def)

text \<open>Line and severity share a word.\<close>

lemma pack_bits:
  fixes w n :: u32
  assumes "take_bit 3 n = n"
  shows "drop_bit 3 (push_bit 3 w OR n) = take_bit 29 w" "(push_bit 3 w OR n) AND 7 = n"
proof -
  have n: "i < 3" if "bit n i" for i using that assms by (metis bit_take_bit_iff)
  show "drop_bit 3 (push_bit 3 w OR n) = take_bit 29 w"
    by (rule bit_word_eqI) (auto simp: bit_simps dest: n)
  have m: "(7 :: u32) = mask 3" by (simp add: mask_eq_exp_minus_1)
  show "(push_bit 3 w OR n) AND 7 = n"
    unfolding m by (rule bit_word_eqI) (auto simp: bit_simps dest: n)
qed

lemma LogMetadata_fields:
  assumes "0 \<le> line" "line < 2 ^ 29"
  shows "md_file (LogMetadata file line sev) = file" "md_line (LogMetadata file line sev) = line" "md_sev (LogMetadata file line sev) = sev"
proof -
  let ?n = "of_nat (sev_no sev) :: u32"
  have n: "take_bit 3 ?n = ?n" by (cases sev) (simp_all add: take_bit_eq_mod)
  note b = pack_bits [OF n, of "of_int line"]
  have "uint (take_bit 29 (of_int line :: u32)) = line"
    using assms by (simp only: unsigned_take_bit_eq) (simp add: unsigned_of_int take_bit_int_eq_self)
  then show "md_line (LogMetadata file line sev) = line" unfolding md_line_def LogMetadata_def log_metadata.select_convs b(1) .
  show "md_sev (LogMetadata file line sev) = sev" unfolding md_sev_def LogMetadata_def log_metadata.select_convs b(2)
    by (cases sev) (simp_all add: sev_of_def)
qed (simp add: LogMetadata_def)

definition start_of :: "log_env \<Rightarrow> int option \<Rightarrow> int" where
  "start_of e s = (case s of Some t \<Rightarrow> t | None \<Rightarrow> le_start_now e)"

text \<open>The line that a message becomes; \<open>start\<close> is when the logging began.\<close>

definition log_line :: "log_state \<Rightarrow> int \<Rightarrow> log_env \<Rightarrow> severity \<Rightarrow> byte list \<Rightarrow> int \<Rightarrow> log_arg list \<Rightarrow> byte list" where
  "log_line st start e sev file line args =
     GetSeverityStr sev @ cstr '': '' @ (if lg_timestamp st then timestamp_text (le_now e - start) else []) @
     (if lg_thread st then cstr ''['' @ dec_text (le_tid e) @ cstr ''] '' else []) @
     cstr ''('' @ FilenameFromPath st file @ cstr '':'' @ dec_text line @ cstr ''): '' @ concat (map arg_text args) @ [10]"

text \<open>What a message may change of the state besides its output.\<close>

definition same_log :: "log_state \<Rightarrow> log_state \<Rightarrow> bool" where
  "same_log st st' \<longleftrightarrow> lg_min_sev st' = lg_min_sev st \<and> lg_dbg_sev st' = lg_dbg_sev st \<and> lg_to_stderr st' = lg_to_stderr st \<and>
     lg_streams st' = lg_streams st \<and> lg_streams_empty st' = lg_streams_empty st \<and> lg_thread st' = lg_thread st \<and>
     lg_timestamp st' = lg_timestamp st \<and> lg_prefix st' = lg_prefix st \<and> lg_sinks st' = lg_sinks st"

lemma same_log_ok: "same_log st st' \<Longrightarrow> log_ok st' as = log_ok st as"
  by (simp add: same_log_def log_ok_def sink_list_def min_of_def)

lemma same_log_line: "same_log st st' \<Longrightarrow> log_line st' = log_line st"
  by (intro ext) (simp add: same_log_def log_line_def FilenameFromPath_def GetLogPathPrefix_def)

lemma LogMessage_eq:
  assumes "fits64 (le_tid e)" "fits64 line"
  shows "\<exists>st'. LogMessage e (Some file) line sev ERRCTX_NONE 0 st =
      Inr (\<lparr>lm_sev = sev, lm_extra = [], lm_text = butlast (log_line st (start_of e (lg_start st)) e sev file line [])\<rparr>, st') \<and>
    same_log st st' \<and> lg_err st' = lg_err st \<and> lg_calls st' = lg_calls st \<and>
    lg_start st' = (if lg_timestamp st then Some (start_of e (lg_start st)) else lg_start st)"
  using put_int_eq [OF assms(1)] put_int_eq [OF assms(2)]
  by (auto simp: LogMessage_def LogStartTime_def WallClockStartTime_def log_extra_def start_of_def log_line_def same_log_def
      FilenameFromPath_def GetLogPathPrefix_def butlast_append split: option.split)

section \<open>Who gets a message\<close>

text \<open>The calls that the loop of the destructor makes.\<close>

definition sends_to :: "log_state \<Rightarrow> addr list \<Rightarrow> byte list \<Rightarrow> severity \<Rightarrow> (addr \<times> byte list \<times> severity) list" where
  "sends_to st as text sev = map (\<lambda>a. (a, text, sev)) (filter (\<lambda>a. ls_min (the (lg_sinks st a)) \<le> sev) as)"

definition to_stderr :: "log_state \<Rightarrow> byte list \<Rightarrow> severity \<Rightarrow> byte list" where
  "to_stderr st text sev = (if lg_dbg_sev st \<le> sev \<and> lg_to_stderr st then takeWhile (\<lambda>c. c \<noteq> 0) text else [])"

lemma fold_sends:
  "fold (\<lambda>a cs. if P a then cs @ [(a, text, sev)] else cs) as cs = cs @ map (\<lambda>a. (a, text, sev)) (filter P as)"
  by (induction as arbitrary: cs) simp_all

lemma log_done_ok:
  assumes "log_ok st as" "lm_extra m = []"
  shows "\<exists>st'. log_done m st = Some (Inr st') \<and> same_log st st' \<and> lg_start st' = lg_start st \<and>
    lg_calls st' = lg_calls st @ sends_to st as (lm_text m @ [10]) (lm_sev m) \<and> lg_err st' = lg_err st @ to_stderr st (lm_text m @ [10]) (lm_sev m)"
proof -
  define st1 where "st1 = (if lm_sev m \<ge> lg_dbg_sev st then OutputToDebug (lm_text m @ [10]) st else st)"
  have same: "lg_sinks st1 = lg_sinks st" "lg_streams st1 = lg_streams st" "lg_calls st1 = lg_calls st" "same_log st st1" "lg_start st1 = lg_start st"
    "lg_err st1 = lg_err st @ to_stderr st (lm_text m @ [10]) (lm_sev m)"
    by (auto simp: st1_def OutputToDebug_def same_log_def to_stderr_def)
  have p: "path (sink_nexts (lg_sinks st)) (lg_streams st) as None" using assms(1) by (simp add: log_ok_def sink_list_def)
  have fin: "lm_text (FinishPrintStream m) = lm_text m @ [10]" "lm_sev (FinishPrintStream m) = lm_sev m"
    using assms(2) by (simp_all add: FinishPrintStream_def)
  have "log_done m st = Some (Inr (st1\<lparr>lg_calls := lg_calls st @ sends_to st as (lm_text m @ [10]) (lm_sev m)\<rparr>))"
    unfolding log_done_def Let_def fin st1_def [symmetric] same(1-3)
    using walk_path [OF p, of "\<lambda>a en cs. if lm_sev m \<ge> ls_min en then cs @ [(a, lm_text m @ [10], lm_sev m)] else cs" "lg_calls st"]
    by (simp add: fold_sends sends_to_def)
  then show ?thesis using same by (auto simp: same_log_def)
qed

lemma IsNoop_unwanted:
  assumes "log_ok st as" "IsNoop sev st"
  shows "sends_to st as text sev = []" "to_stderr st text sev = []"
  using assms by (auto simp: IsNoop_def log_ok_def sends_to_def to_stderr_def split: if_splits)

lemma RTC_LOG_ok:
  fixes sev and fname
  assumes ok: "log_ok st as" and fit: "0 \<le> line" "line < 2 ^ 29" "fits64 (le_tid e)" "\<forall>a \<in> set args. arg_fits a"
  defines "text \<equiv> log_line st (start_of e (lg_start st)) e sev fname line args"
  shows "\<exists>st'. RTC_LOG e sev fname line args st = Some (Inr st') \<and> log_ok st' as \<and> same_log st st' \<and>
    lg_calls st' = lg_calls st @ sends_to st as text sev \<and> lg_err st' = lg_err st @ to_stderr st text sev \<and>
    (\<not> IsNoop sev st \<longrightarrow> lg_start st' = (if lg_timestamp st then Some (start_of e (lg_start st)) else lg_start st))"
proof (cases "IsNoop sev st")
  case True
  then show ?thesis using ok IsNoop_unwanted [OF ok True] by (simp add: RTC_LOG_def same_log_def)
next
  case False
  have f: "fits64 line" using fit(1,2) by (simp add: fits64_def)
  from LogMessage_eq [OF fit(3) f, of fname sev st] obtain st1 where
    m: "LogMessage e (Some fname) line sev ERRCTX_NONE 0 st =
      Inr (\<lparr>lm_sev = sev, lm_extra = [], lm_text = butlast (log_line st (start_of e (lg_start st)) e sev fname line [])\<rparr>, st1)"
    "same_log st st1" "lg_err st1 = lg_err st" "lg_calls st1 = lg_calls st"
    "lg_start st1 = (if lg_timestamp st then Some (start_of e (lg_start st)) else lg_start st)" by blast
  let ?m = "\<lparr>lm_sev = sev, lm_extra = [], lm_text = butlast text\<rparr>"
  have t: "butlast (log_line st (start_of e (lg_start st)) e sev fname line []) @ concat (map arg_text args) = butlast text" "butlast text @ [10] = text"
    unfolding text_def log_line_def by (simp_all add: butlast_append)
  have ok1: "log_ok st1 as" using ok m(2) same_log_ok by blast
  have s1: "sends_to st1 = sends_to st" "to_stderr st1 = to_stderr st"
    using m(2) by (auto simp: same_log_def sends_to_def to_stderr_def intro!: ext)
  have "log_with e (LogMetadata (Some fname) line sev) ERRCTX_NONE 0 args st = log_done ?m st1"
    unfolding log_with_def LogMetadata_fields [OF fit(1,2)] m(1) using log_args_eq [OF fit(4)] t(1) by simp
  then have "RTC_LOG e sev fname line args st = log_done ?m st1"
    using False by (simp add: RTC_LOG_def streamed stream_put_def)
  moreover from log_done_ok [OF ok1, of ?m] obtain st2 where
    "log_done ?m st1 = Some (Inr st2)" "same_log st1 st2" "lg_start st2 = lg_start st1"
    "lg_calls st2 = lg_calls st1 @ sends_to st1 as text sev" "lg_err st2 = lg_err st1 @ to_stderr st1 text sev" using t(2) by auto
  ultimately show ?thesis using m ok1 s1 same_log_ok [of st1 st2 as] by (auto simp: same_log_def)
qed

section \<open>From the macro to the log files\<close>

lemma configure_tokens_state: "\<exists>b c. snd (configure_tokens toks cur dbg st) = st\<lparr>lg_thread := b, lg_timestamp := c\<rparr>"
proof (induction toks cur dbg st rule: configure_tokens.induct)
  case (1 cur dbg st)
  then show ?case by (intro exI [of _ "lg_thread st"] exI [of _ "lg_timestamp st"]) simp
next
  case (2 tok toks cur dbg st)
  then show ?case by (auto simp: LogTimestamps_def LogThreads_def split: if_splits)
qed

lemma ConfigureLogging_ok:
  assumes "log_ok st as"
  shows "\<exists>st'. ConfigureLogging params st = Some (Inr st') \<and> log_ok st' as \<and> lg_sinks st' = lg_sinks st"
proof -
  obtain d st1 where c: "configure_tokens (tokenize params 32) LS_VERBOSE (GetLogToDebug st) st = (d, st1)" by fastforce
  with configure_tokens_state [of "tokenize params 32" LS_VERBOSE "GetLogToDebug st" st] obtain b b' where
    st1: "st1 = st\<lparr>lg_thread := b, lg_timestamp := b'\<rparr>" by auto
  let ?st = "st1\<lparr>lg_dbg_sev := d\<rparr>"
  have "sink_list ?st as" "lg_streams_empty ?st \<longleftrightarrow> as = []" using assms st1 by (simp_all add: log_ok_def sink_list_def)
  from UpdateMinLogSeverity_ok [OF this] c st1 show ?thesis by (auto simp: ConfigureLogging_def LogToDebug_def)
qed

text \<open>\<open>XrtcLog::init\<close> puts the server's sink in front, with thread numbers and time stamps switched on.\<close>

lemma xl_register_ok:
  assumes ok: "log_ok st as" and a: "lg_sinks st self \<noteq> None" "self \<notin> set as"
  shows "\<exists>st' en. xl_register self st = Some (Inr st') \<and> log_ok st' (self # as) \<and> lg_thread st' \<and> lg_timestamp st' \<and>
    lg_prefix st' = cstr ''/src'' \<and> lg_start st' = lg_start st \<and> lg_sinks st' self = Some en \<and> ls_min en = LS_VERBOSE"
proof -
  let ?st = "st\<lparr>lg_thread := True, lg_timestamp := True\<rparr>"
  have "tokenize (cstr ''thread tstamp'') 32 = [cstr ''thread'', cstr ''tstamp'']" by (simp add: tokenize_parts cstr_def)
  then have c: "ConfigureLogging (cstr ''thread tstamp'') st = UpdateMinLogSeverity (?st\<lparr>lg_dbg_sev := lg_dbg_sev st\<rparr>)"
    by (simp add: ConfigureLogging_def LogThreads_def LogTimestamps_def GetLogToDebug_def LogToDebug_def cstr_def)
  let ?st1 = "?st\<lparr>lg_dbg_sev := lg_dbg_sev st\<rparr>"
  have s: "sink_list ?st1 as" "lg_streams_empty ?st1 \<longleftrightarrow> as = []" using ok by (simp_all add: log_ok_def sink_list_def)
  define st2 where "st2 = SetLogPathPrefix (cstr ''/src'') (?st1\<lparr>lg_min_sev := min_of ?st1 as\<rparr>)"
  have ok2: "log_ok st2 as" using UpdateMinLogSeverity_ok(2) [OF s] by (simp add: st2_def SetLogPathPrefix_def log_ok_def sink_list_def min_of_def)
  let ?st3 = "st2\<lparr>lg_sinks := (lg_sinks st2)(self \<mapsto> \<lparr>ls_next = lg_streams st2, ls_min = LS_VERBOSE\<rparr>), lg_streams := Some self, lg_streams_empty := False\<rparr>"
  have "sink_list ?st3 (self # as)" using ok2 a(2) by (simp add: log_ok_def sink_list_def)
  note u = UpdateMinLogSeverity_ok [OF this]
  have "xl_register self st = AddLogToStream self LS_VERBOSE st2"
    unfolding xl_register_def c UpdateMinLogSeverity_ok(1) [OF s] st2_def by simp
  also have "\<dots> = UpdateMinLogSeverity ?st3" using a(1) by (auto simp: AddLogToStream_def st2_def SetLogPathPrefix_def)
  finally show ?thesis using u by (auto simp: st2_def SetLogPathPrefix_def)
qed

text \<open>The commands: a message of some thread, and a turn of the log thread.\<close>

datatype log_cmd = Emit log_env severity "byte list" int "log_arg list" | LogTurn file_env file_env

definition deliver :: "addr \<Rightarrow> (addr \<times> byte list \<times> severity) list \<Rightarrow> xrtc_log \<Rightarrow> xrtc_log" where
  "deliver self calls x = fold (\<lambda>(a, m, sv) x. if a = self then OnLogMessage m sv x else x) calls x"

fun run_logging :: "addr \<Rightarrow> log_cmd list \<Rightarrow> log_state \<times> xrtc_log \<Rightarrow> (log_state \<times> xrtc_log) res option" where
  "run_logging self [] s = Some (Inr s)"
| "run_logging self (Emit e sev fname line args # cs) (st, x) =
     (case RTC_LOG e sev fname line args (st\<lparr>lg_calls := []\<rparr>) of
        None \<Rightarrow> None
      | Some (Inl f) \<Rightarrow> Some (Inl f)
      | Some (Inr st1) \<Rightarrow> run_logging self cs (st1, deliver self (lg_calls st1) x))"
| "run_logging self (LogTurn f f_wf # cs) (st, x) = run_logging self cs (st, log_iter f f_wf x)"

fun cmd_fits :: "log_cmd \<Rightarrow> bool" where
  "cmd_fits (Emit e sev fname line args) \<longleftrightarrow> 0 \<le> line \<and> line < 2 ^ 29 \<and> fits64 (le_tid e) \<and> (\<forall>a \<in> set args. arg_fits a)"
| "cmd_fits (LogTurn _ _) \<longleftrightarrow> True"

text \<open>\<open>LS_NONE\<close> is a threshold and not the severity of a message; the files can be opened and written in each turn.\<close>

fun cmd_good :: "log_cmd \<Rightarrow> bool" where
  "cmd_good (Emit e sev fname line args) \<longleftrightarrow> sev \<noteq> LS_NONE"
| "cmd_good (LogTurn f f_wf) \<longleftrightarrow> file_good f \<and> file_good f_wf"

text \<open>The lines the commands stand for; \<open>s\<close> is the start of the logging once a message was stamped.\<close>

fun emitted :: "log_state \<Rightarrow> int option \<Rightarrow> log_cmd list \<Rightarrow> log_op list" where
  "emitted st s [] = []"
| "emitted st s (Emit e sev fname line args # cs) =
     Log (log_line st (start_of e s) e sev fname line args) sev #
     emitted st (if lg_timestamp st then Some (start_of e s) else s) cs"
| "emitted st s (LogTurn g g' # cs) = Turn g g' # emitted st s cs"

lemma emitted_same:
  assumes "same_log st st'"
  shows "emitted st' s cs = emitted st s cs"
proof -
  have "log_line st' = log_line st" "lg_timestamp st' = lg_timestamp st"
    using assms by (rule same_log_line) (use assms in \<open>simp add: same_log_def\<close>)
  then show ?thesis by (induction st s cs rule: emitted.induct) simp_all
qed

lemma emitted_good: "\<forall>c \<in> set cs. cmd_good c \<Longrightarrow> \<forall>op \<in> set (emitted st s cs). turn_good op"
  by (induction st s cs rule: emitted.induct) auto

lemma emitted_append_turn: "emitted st s (cs @ [LogTurn g g']) = emitted st s cs @ [Turn g g']"
  by (induction st s cs rule: emitted.induct) auto

lemma deliver_once: "distinct as \<Longrightarrow> deliver self (map (\<lambda>a. (a, m, sv)) as) x = (if self \<in> set as then OnLogMessage m sv x else x)"
  by (induction as arbitrary: x) (auto simp: deliver_def)

lemma same_log_trans: "same_log a b \<Longrightarrow> same_log b c \<Longrightarrow> same_log a c"
  by (simp add: same_log_def)

lemma run_logging_eq:
  assumes "log_ok st as" "self \<in> set as" "lg_sinks st self = Some en" "ls_min en = LS_VERBOSE" "\<forall>c \<in> set cs. cmd_fits c"
  shows "\<exists>st'. run_logging self cs (st, x) = Some (Inr (st', run_log (emitted st (lg_start st) cs) x)) \<and> same_log st st'"
  using assms
proof (induction cs arbitrary: st x)
  case Nil
  then show ?case by (simp add: same_log_def)
next
  case (Cons c cs)
  show ?case
  proof (cases c)
    case (LogTurn g g')
    then show ?thesis using Cons by simp
  next
    case (Emit e sev fname line args)
    define st0 where "st0 = st\<lparr>lg_calls := []\<rparr>"
    have s0: "same_log st st0" "lg_start st0 = lg_start st" "lg_calls st0 = []" by (simp_all add: same_log_def st0_def)
    have ok0: "log_ok st0 as" using Cons.prems(1) same_log_ok [OF s0(1)] by simp
    have fit: "0 \<le> line" "line < 2 ^ 29" "fits64 (le_tid e)" "\<forall>a \<in> set args. arg_fits a" using Cons.prems(5) Emit by auto
    have nn: "\<not> IsNoop sev st0" using ok0 Cons.prems(2) by (auto simp: IsNoop_def log_ok_def)
    let ?t = "log_line st (start_of e (lg_start st)) e sev fname line args"
    from RTC_LOG_ok [OF ok0 fit, of sev fname] nn obtain st1 where
      st1: "RTC_LOG e sev fname line args st0 = Some (Inr st1)" "log_ok st1 as" "same_log st0 st1" "lg_calls st1 = sends_to st0 as ?t sev"
        "lg_start st1 = (if lg_timestamp st then Some (start_of e (lg_start st)) else lg_start st)"
      using s0 same_log_line [OF s0(1)] by (auto simp: same_log_def)
    have ss: "same_log st st1" using same_log_trans [OF s0(1) st1(3)] .
    have "distinct as" using Cons.prems(1) by (simp add: log_ok_def sink_list_def)
    moreover have "self \<in> set (filter (\<lambda>a. ls_min (the (lg_sinks st0 a)) \<le> sev) as)"
      using Cons.prems(2-4) by (cases sev) (simp_all add: st0_def sev_order)
    ultimately have d: "deliver self (lg_calls st1) x = OnLogMessage ?t sev x" by (simp add: st1(4) sends_to_def deliver_once)
    have sk: "lg_sinks st1 self = Some en" using ss Cons.prems(3) by (simp add: same_log_def)
    from Cons.IH [OF st1(2) Cons.prems(2) sk Cons.prems(4), of "OnLogMessage ?t sev x"] Cons.prems(5) obtain st' where
      "run_logging self cs (st1, OnLogMessage ?t sev x) = Some (Inr (st', run_log (emitted st1 (lg_start st1) cs) (OnLogMessage ?t sev x)))"
      "same_log st1 st'" by auto
    then show ?thesis using st1(1,5) d Emit same_log_trans [OF ss] emitted_same [OF ss] by (simp add: st0_def [symmetric])
  qed
qed

section \<open>Properties\<close>

text \<open>
  C25: a message written with \<open>RTC_LOG\<close> is composed and sent without a fault: every registered sink that
  asked for its severity gets the line exactly once, in the order of the list, no other sink gets it,
  and \<open>stderr\<close> gets it when it should. This is so also when \<open>IsNoop\<close> skips the message.
\<close>

theorem log_message_delivered:
  assumes "log_ok st as" "0 \<le> line" "line < 2 ^ 29" "fits64 (le_tid e)" "\<forall>a \<in> set args. arg_fits a"
  shows "\<exists>st' text. RTC_LOG e sev fname line args st = Some (Inr st') \<and> log_ok st' as \<and> same_log st st' \<and>
    text = log_line st (start_of e (lg_start st)) e sev fname line args \<and>
    lg_calls st' = lg_calls st @ map (\<lambda>a. (a, text, sev)) (filter (\<lambda>a. ls_min (the (lg_sinks st a)) \<le> sev) as) \<and>
    lg_err st' = lg_err st @ (if lg_dbg_sev st \<le> sev \<and> lg_to_stderr st then takeWhile (\<lambda>c. c \<noteq> 0) text else [])"
  using RTC_LOG_ok [OF assms, of sev fname] by (auto simp: sends_to_def to_stderr_def)

definition demo_env :: log_env where
  "demo_env = \<lparr>le_dc = True, le_now = 5, le_start_now = 0, le_wall_now = 0, le_tid = 7, le_strerror = (\<lambda>_. []), le_mem = (\<lambda>_. 1)\<rparr>"

definition demo_sinks :: "addr \<rightharpoonup> log_sink" where
  "demo_sinks = [9 \<mapsto> \<lparr>ls_next = None, ls_min = LS_NONE\<rparr>]"

theorem log_message_delivered_witness:
  "\<exists>st st' text. AddLogToStream 9 LS_WARNING (log_init LS_INFO demo_sinks) = Some (Inr st) \<and>
     RTC_LOG demo_env LS_ERROR (cstr ''/a/src/b.cpp'') 12 [kInt 3] st = Some (Inr st') \<and> lg_calls st' = lg_calls st @ [(9, text, LS_ERROR)]"
proof -
  have a: "lg_sinks (log_init LS_INFO demo_sinks) 9 \<noteq> None" by (simp add: log_init_def demo_sinks_def)
  from AddLogToStream_ok [OF log_init_ok a, of LS_WARNING] obtain st where
    st: "AddLogToStream 9 LS_WARNING (log_init LS_INFO demo_sinks) = Some (Inr st)" "log_ok st [9]" "ls_min (the (lg_sinks st 9)) = LS_WARNING" by auto
  have "fits64 (le_tid demo_env)" "\<forall>a \<in> set [kInt 3]. arg_fits a" by (simp_all add: demo_env_def fits64_def)
  from log_message_delivered [OF st(2) _ _ this, of 12 LS_ERROR "cstr ''/a/src/b.cpp''"] st(1,3)
  show ?thesis by (auto simp: sev_order)
qed

text \<open>
  C30: registering a sink puts it in front of the list, with its severity, and removing one takes out just it;
  a sink that is registered a second time closes the list to a cycle, and \<open>AddLogToStream\<close> never returns.
\<close>

theorem sinks_registered:
  assumes "log_ok st as" "lg_sinks st a \<noteq> None"
  shows "(a \<notin> set as \<longrightarrow> (\<exists>st'. AddLogToStream a m st = Some (Inr st') \<and> log_ok st' (a # as) \<and> ls_min (the (lg_sinks st' a)) = m)) \<and>
    (a \<in> set as \<longrightarrow> AddLogToStream a m st = None) \<and>
    (\<exists>st'. RemoveLogToStream a st = Some (Inr st') \<and> log_ok st' (remove1 a as))"
  using AddLogToStream_ok [OF assms, of m] AddLogToStream_again [OF assms(1), of a m] RemoveLogToStream_ok [OF assms(1), of a] by auto

theorem sinks_registered_witness:
  "\<exists>st'. AddLogToStream 9 LS_INFO (log_init LS_INFO demo_sinks) = Some (Inr st') \<and> AddLogToStream 9 LS_INFO st' = None"
proof -
  have a: "lg_sinks (log_init LS_INFO demo_sinks) 9 \<noteq> None" by (simp add: log_init_def demo_sinks_def)
  from sinks_registered [OF log_init_ok this, of LS_INFO] obtain st' where
    st': "AddLogToStream 9 LS_INFO (log_init LS_INFO demo_sinks) = Some (Inr st')" "log_ok st' [9]" by auto
  then have "lg_sinks st' 9 \<noteq> None" by (auto simp: log_ok_def sink_list_def sink_nexts_def)
  from sinks_registered [OF st'(2) this, of LS_INFO] st'(1) show ?thesis by auto
qed

text \<open>
  C24: from the macro to the file. Once \<open>XrtcLog::init\<close> has registered the server's sink and opened both files, every message of any
  thread and severity (\<open>LS_NONE\<close> is a threshold, and none) reaches the file of its severity as one line, exactly once and in
  order, however the turns of the log thread fall, as long as a file that was moved away can be opened again and the writes to the files succeed.
\<close>

theorem log_reaches_files:
  assumes "log_ok st0 as" "lg_sinks st0 self \<noteq> None" "self \<notin> set as" "\<forall>c \<in> set cs. cmd_fits c" "\<forall>c \<in> set cs. cmd_good c"
    "xl_open x" "xl_open_wf x" "xl_queue x = []" "xl_queue_wf x = []"
  shows "\<exists>st st' x'. xl_register self st0 = Some (Inr st) \<and> run_logging self (cs @ [LogTurn there there]) (st, x) = Some (Inr (st', x')) \<and>
    xl_out x' = xl_out x @ logged (\<lambda>s. \<not> severe s) (emitted st (lg_start st) cs) \<and>
    xl_out_wf x' = xl_out_wf x @ logged severe (emitted st (lg_start st) cs)"
proof -
  from xl_register_ok [OF assms(1-3)] obtain st en where
    st: "xl_register self st0 = Some (Inr st)" "log_ok st (self # as)" "lg_sinks st self = Some en" "ls_min en = LS_VERBOSE" by blast
  let ?ops = "emitted st (lg_start st) cs"
  have "\<forall>c \<in> set (cs @ [LogTurn there there]). cmd_fits c" using assms(4) by auto
  from run_logging_eq [OF st(2) _ st(3,4) this, of x] obtain st' where
    r: "run_logging self (cs @ [LogTurn there there]) (st, x) = Some (Inr (st', run_log (?ops @ [quiet_turn]) x))"
    by (auto simp: emitted_append_turn)
  have "xl_out (run_log (?ops @ [quiet_turn]) x) = xl_out x @ logged (\<lambda>s. \<not> severe s) ?ops \<and>
    xl_out_wf (run_log (?ops @ [quiet_turn]) x) = xl_out_wf x @ logged severe ?ops"
    by (rule run_log_complete [OF assms(6-9) emitted_good [OF assms(5)]])
  then show ?thesis using st(1) r by blast
qed

theorem log_reaches_files_witness:
  "\<exists>st st' x'. xl_register 9 (log_init LS_INFO demo_sinks) = Some (Inr st) \<and>
     run_logging 9 [Emit demo_env LS_WARNING (cstr ''/a/src/b.cpp'') 12 [kStdString [65]], LogTurn there there]
       (st, fst (xl_init True True True (XrtcLog [] [] []))) = Some (Inr (st', x')) \<and>
     xl_out x' = [] \<and> xl_out_wf x' = log_line st (start_of demo_env (lg_start st)) demo_env LS_WARNING (cstr ''/a/src/b.cpp'') 12 [kStdString [65]]"
proof -
  have a: "lg_sinks (log_init LS_INFO demo_sinks) 9 \<noteq> None" by (simp add: log_init_def demo_sinks_def)
  have c: "\<forall>c \<in> set [Emit demo_env LS_WARNING (cstr ''/a/src/b.cpp'') 12 [kStdString [65]]]. cmd_fits c" by (simp add: demo_env_def fits64_def)
  from log_reaches_files [OF log_init_ok a _ c, of "fst (xl_init True True True (XrtcLog [] [] []))"]
  show ?thesis by (simp add: xl_init_def XrtcLog_def severe_def sev_order)
qed

end
