(* ===== verification/Ev_Heap.thy ===== *)
theory Ev_Heap
  imports Complex_Main "HOL-Library.Multiset" Xrtc_Prelude
begin

text \<open>
  The timer heap of libev (\<open>ev.c\<close>): a 4-ary heap ordered by expiry time in an array whose
  first element has index \<open>HEAP0\<close>, in which every move of an element also stores its new index
  in the watcher's \<open>active\<close> field. The model keeps the used part of the array as a list, so
  list index \<open>i\<close> is array index \<open>i + HEAP0\<close>; the \<open>active\<close> fields are a function from
  watchers to array indices. Expiry times (\<open>double\<close>) are reals.
\<close>

section \<open>The heap functions\<close>

definition DHEAP :: nat where "DHEAP = 4"

definition HEAP0 :: nat where "HEAP0 = 3"

text \<open>\<open>ANHE\<close>: the cached expiry time and the watcher.\<close>

type_synonym anhe = "real \<times> addr"

abbreviation ANHE_at :: "anhe \<Rightarrow> real" where "ANHE_at he \<equiv> fst he"

abbreviation ANHE_w :: "anhe \<Rightarrow> addr" where "ANHE_w he \<equiv> snd he"

text \<open>The heap array and the \<open>active\<close> fields.\<close>

type_synonym heap = "anhe list \<times> (addr \<Rightarrow> nat)"

text \<open>\<open>HPARENT(k)\<close>, on list indices; the root is its own parent.\<close>

definition HPARENT :: "nat \<Rightarrow> nat" where
  "HPARENT i = (i - 1) div DHEAP"

text \<open>\<open>heap [k] = he; ev_active (ANHE_w (he)) = k\<close>.\<close>

definition heap_put :: "heap \<Rightarrow> nat \<Rightarrow> anhe \<Rightarrow> heap" where
  "heap_put h i he = ((fst h)[i := he], (snd h)(ANHE_w he := i + HEAP0))"

text \<open>The loop of \<open>upheap\<close>, with the element to place in \<open>he\<close>.\<close>

function up_loop :: "heap \<Rightarrow> anhe \<Rightarrow> nat \<Rightarrow> heap" where
  "up_loop h he k =
     (let p = HPARENT k
      in if p = k \<or> ANHE_at (fst h ! p) \<le> ANHE_at he then heap_put h k he
         else up_loop (heap_put h k (fst h ! p)) he p)"
  by pat_completeness auto
termination
proof (relation "measure (\<lambda>(h, he, k). k)", goal_cases)
  case (2 h he k p)
  then show ?case by (cases k) (auto simp: HPARENT_def DHEAP_def)
qed simp

definition upheap :: "heap \<Rightarrow> nat \<Rightarrow> heap" where
  "upheap h k = up_loop h (fst h ! k) k"

text \<open>\<open>find minimum child\<close>: the fast path, the slow path and no child at all.\<close>

definition pick :: "anhe list \<Rightarrow> nat \<Rightarrow> nat \<Rightarrow> nat" where
  "pick hs m j = (if ANHE_at (hs ! j) < ANHE_at (hs ! m) then j else m)"

definition pick_lt :: "anhe list \<Rightarrow> nat \<Rightarrow> nat \<Rightarrow> nat \<Rightarrow> nat" where
  "pick_lt hs N m j = (if j < N \<and> ANHE_at (hs ! j) < ANHE_at (hs ! m) then j else m)"

definition min_child :: "anhe list \<Rightarrow> nat \<Rightarrow> nat \<Rightarrow> nat option" where
  "min_child hs N pos =
     (if pos + DHEAP - 1 < N then Some (pick hs (pick hs (pick hs pos (pos + 1)) (pos + 2)) (pos + 3))
      else if pos < N then Some (pick_lt hs N (pick_lt hs N (pick_lt hs N pos (pos + 1)) (pos + 2)) (pos + 3))
      else None)"

lemma min_child_bounds:
  "min_child hs N pos = Some m \<Longrightarrow> pos \<le> m \<and> m \<le> pos + 3 \<and> m < N"
  by (auto simp: min_child_def pick_def pick_lt_def DHEAP_def split: if_splits)

function down_loop :: "heap \<Rightarrow> nat \<Rightarrow> anhe \<Rightarrow> nat \<Rightarrow> heap" where
  "down_loop h N he k =
     (case min_child (fst h) N (DHEAP * k + 1) of
        None \<Rightarrow> heap_put h k he
      | Some m \<Rightarrow> if ANHE_at he \<le> ANHE_at (fst h ! m) then heap_put h k he
                  else down_loop (heap_put h k (fst h ! m)) N he m)"
  by pat_completeness auto
termination
proof (relation "measure (\<lambda>(h, N, he, k). N - k)", goal_cases)
  case (2 h N he k m)
  then have "DHEAP * k + 1 \<le> m" "m < N" using min_child_bounds by blast+
  then show ?case by (simp add: DHEAP_def)
qed simp

definition downheap :: "heap \<Rightarrow> nat \<Rightarrow> nat \<Rightarrow> heap" where
  "downheap h N k = down_loop h N (fst h ! k) k"

definition adjustheap :: "heap \<Rightarrow> nat \<Rightarrow> nat \<Rightarrow> heap" where
  "adjustheap h N k =
     (if k > 0 \<and> ANHE_at (fst h ! k) \<le> ANHE_at (fst h ! HPARENT k) then upheap h k else downheap h N k)"

definition reheap :: "heap \<Rightarrow> nat \<Rightarrow> heap" where
  "reheap h N = fold (\<lambda>i h. upheap h i) [0..<N] h"

declare up_loop.simps [simp del] down_loop.simps [simp del]

section \<open>Invariants\<close>

definition heap_ord :: "anhe list \<Rightarrow> bool" where
  "heap_ord hs \<longleftrightarrow> (\<forall>i. 0 < i \<and> i < length hs \<longrightarrow> ANHE_at (hs ! HPARENT i) \<le> ANHE_at (hs ! i))"

definition heap_act :: "heap \<Rightarrow> bool" where
  "heap_act h \<longleftrightarrow> distinct (map ANHE_w (fst h)) \<and>
     (\<forall>i < length (fst h). snd h (ANHE_w (fst h ! i)) = i + HEAP0)"

text \<open>The array with a hole at \<open>k\<close> that \<open>he\<close> will fill.\<close>

definition hole_act :: "heap \<Rightarrow> anhe \<Rightarrow> nat \<Rightarrow> bool" where
  "hole_act h he k \<longleftrightarrow> k < length (fst h) \<and> distinct (map ANHE_w ((fst h)[k := he])) \<and>
     (\<forall>i < length (fst h). i \<noteq> k \<longrightarrow> snd h (ANHE_w (fst h ! i)) = i + HEAP0)"

lemma length_heap_put [simp]: "length (fst (heap_put h k he)) = length (fst h)"
  by (simp add: heap_put_def)

lemma hole_swap:
  "k < length hs \<Longrightarrow> j < length hs \<Longrightarrow> j \<noteq> k \<Longrightarrow> hs[k := hs ! j, j := he] = (hs[k := he])[k := hs[k := he] ! j, j := hs[k := he] ! k]"
  by (simp add: list_update_swap)

lemma hole_mset_move:
  "k < length (fst h) \<Longrightarrow> j < length (fst h) \<Longrightarrow> j \<noteq> k \<Longrightarrow>
   mset ((fst (heap_put h k (fst h ! j)))[j := he]) = mset ((fst h)[k := he])"
  unfolding heap_put_def fst_conv by (subst hole_swap) (simp_all add: mset_swap del: list_update_overwrite nth_list_update_neq nth_list_update_eq)

lemma hole_act_distinct:
  assumes "hole_act h he k" "i < length (fst h)" "j < length (fst h)" "i \<noteq> j"
  shows "ANHE_w ((fst h)[k := he] ! i) \<noteq> ANHE_w ((fst h)[k := he] ! j)"
  using assms nth_eq_iff_index_eq [of "map ANHE_w ((fst h)[k := he])" i j]
  by (simp add: hole_act_def del: nth_list_update)

lemma hole_act_move:
  assumes "hole_act h he k" "j < length (fst h)" "j \<noteq> k"
  shows "hole_act (heap_put h k (fst h ! j)) he j"
proof -
  let ?hs = "fst h"
  have k: "k < length ?hs" using assms by (simp add: hole_act_def)
  have "mset (map ANHE_w ((fst (heap_put h k (?hs ! j)))[j := he])) = mset (map ANHE_w (?hs[k := he]))"
    using hole_mset_move [OF k assms(2,3)] by (metis mset_map)
  then have "distinct (map ANHE_w ((fst (heap_put h k (?hs ! j)))[j := he]))"
    using assms(1) by (metis hole_act_def mset_eq_imp_distinct_iff)
  moreover have "ANHE_w (?hs ! i) \<noteq> ANHE_w (?hs ! j)" if "i < length ?hs" "i \<noteq> k" "i \<noteq> j" for i
    using hole_act_distinct [OF assms(1) that(1) assms(2) that(3)] that assms(3) by simp
  ultimately show ?thesis
    using assms k by (auto simp: hole_act_def heap_put_def nth_list_update)
qed

lemma hole_act_fill:
  assumes "hole_act h he k"
  shows "heap_act (heap_put h k he)"
proof -
  have k: "k < length (fst h)" using assms by (simp add: hole_act_def)
  have "ANHE_w (fst h ! i) \<noteq> ANHE_w he" if "i < length (fst h)" "i \<noteq> k" for i
    using hole_act_distinct [OF assms that(1) k that(2)] that k by simp
  with assms show ?thesis
    by (auto simp: hole_act_def heap_act_def heap_put_def nth_list_update simp del: map_update)
qed

lemma heap_act_hole: "heap_act h \<Longrightarrow> k < length (fst h) \<Longrightarrow> hole_act h (fst h ! k) k"
  by (simp add: heap_act_def hole_act_def)

lemma HPARENT_less: "0 < i \<Longrightarrow> HPARENT i < i"
  by (simp add: HPARENT_def DHEAP_def)

lemma HPARENT_self: "HPARENT i = i \<longleftrightarrow> i = 0"
  using HPARENT_less [of i] by (cases "i = 0") (auto simp: HPARENT_def)

lemma HPARENT_eq: "0 < i \<Longrightarrow> HPARENT i = k \<longleftrightarrow> 4 * k + 1 \<le> i \<and> i \<le> 4 * k + 4"
  by (auto simp: HPARENT_def DHEAP_def)

text \<open>What the loops keep, of the array with \<open>he\<close> in the hole.\<close>

definition up_ord :: "anhe list \<Rightarrow> nat \<Rightarrow> bool" where
  "up_ord vs k \<longleftrightarrow>
     (\<forall>i. 0 < i \<and> i < length vs \<and> i \<noteq> k \<longrightarrow> ANHE_at (vs ! HPARENT i) \<le> ANHE_at (vs ! i)) \<and>
     (\<forall>i. 0 < i \<and> i < length vs \<and> HPARENT i = k \<and> 0 < k \<longrightarrow> ANHE_at (vs ! HPARENT k) \<le> ANHE_at (vs ! i))"

definition down_ord :: "anhe list \<Rightarrow> nat \<Rightarrow> bool" where
  "down_ord vs k \<longleftrightarrow>
     (\<forall>i. 0 < i \<and> i < length vs \<and> HPARENT i \<noteq> k \<longrightarrow> ANHE_at (vs ! HPARENT i) \<le> ANHE_at (vs ! i)) \<and>
     (\<forall>i. 0 < i \<and> i < length vs \<and> HPARENT i = k \<and> 0 < k \<longrightarrow> ANHE_at (vs ! HPARENT k) \<le> ANHE_at (vs ! i))"

lemma up_ord_move:
  assumes "up_ord vs k" "0 < k" "k < length vs" "ANHE_at (vs ! k) < ANHE_at (vs ! HPARENT k)"
  shows "up_ord (vs[k := vs ! HPARENT k, HPARENT k := vs ! k]) (HPARENT k)"
proof -
  let ?p = "HPARENT k" and ?vs = "vs[k := vs ! HPARENT k, HPARENT k := vs ! k]"
  have p: "?p < k" using HPARENT_less [OF assms(2)] .
  have at: "ANHE_at (?vs ! i) = (if i = ?p then ANHE_at (vs ! k) else if i = k then ANHE_at (vs ! ?p) else ANHE_at (vs ! i))"
    if "i < length vs" for i
    using that p by (auto simp: nth_list_update)
  have a: "ANHE_at (vs ! HPARENT i) \<le> ANHE_at (vs ! i)" if "0 < i" "i < length vs" "i \<noteq> k" for i
    using assms(1) that by (auto simp: up_ord_def)
  have b: "ANHE_at (vs ! ?p) \<le> ANHE_at (vs ! i)" if "0 < i" "i < length vs" "HPARENT i = k" for i
    using assms(1,2) that by (auto simp: up_ord_def)
  show ?thesis
    unfolding up_ord_def
  proof (intro conjI allI impI, goal_cases)
    case (1 i)
    then have i: "0 < i" "i < length vs" "i \<noteq> ?p" "HPARENT i < length vs"
      using HPARENT_less [of i] by auto
    show ?case using a [of i] b [of i] i p assms(3,4) HPARENT_less [of i] by (auto simp: nth_list_update)
  next
    case (2 i)
    then have i: "0 < i" "i < length vs" "HPARENT i = ?p" "0 < ?p" "i \<noteq> ?p"
      using HPARENT_less [of i] by auto
    moreover have "HPARENT ?p < ?p" using HPARENT_less i by blast
    ultimately show ?case using a [of ?p] a [of i] p assms(3) by (cases "i = k") auto
  qed
qed

lemma down_ord_move:
  assumes "down_ord vs k" "0 < m" "HPARENT m = k" "m < length vs"
    and min: "\<And>i. 0 < i \<Longrightarrow> i < length vs \<Longrightarrow> HPARENT i = k \<Longrightarrow> ANHE_at (vs ! m) \<le> ANHE_at (vs ! i)"
    and less: "ANHE_at (vs ! m) < ANHE_at (vs ! k)"
  shows "down_ord (vs[k := vs ! m, m := vs ! k]) m"
proof -
  let ?vs = "vs[k := vs ! m, m := vs ! k]"
  have k: "k < m" using HPARENT_less [OF assms(2)] assms(3) by simp
  have at: "ANHE_at (?vs ! i) = (if i = m then ANHE_at (vs ! k) else if i = k then ANHE_at (vs ! m) else ANHE_at (vs ! i))"
    if "i < length vs" for i
    using that k by (auto simp: nth_list_update)
  have a: "ANHE_at (vs ! HPARENT i) \<le> ANHE_at (vs ! i)" if "0 < i" "i < length vs" "HPARENT i \<noteq> k" for i
    using assms(1) that by (auto simp: down_ord_def)
  have b: "ANHE_at (vs ! HPARENT k) \<le> ANHE_at (vs ! i)" if "0 < i" "i < length vs" "HPARENT i = k" "0 < k" for i
    using assms(1) that by (auto simp: down_ord_def)
  show ?thesis
    unfolding down_ord_def
  proof (intro conjI allI impI, goal_cases)
    case (1 i)
    then have i: "0 < i" "i < length vs" "HPARENT i \<noteq> m" "HPARENT i < i" "HPARENT i < length vs"
      using HPARENT_less [of i] by auto
    show ?case using a [of i] b [of m] i k min [of i] less assms(2-4) by (auto simp: nth_list_update)
  next
    case (2 i)
    then have i: "0 < i" "i < length vs" "HPARENT i = m" "i \<noteq> m" "HPARENT m < length vs"
      using HPARENT_less [of i] k assms(3,4) by auto
    then show ?case using a [of i] k assms(3,4) HPARENT_less [of i] by (auto simp: nth_list_update)
  qed
qed

lemma up_loop_correct:
  assumes "hole_act h he k" "up_ord ((fst h)[k := he]) k"
  shows "heap_ord (fst (up_loop h he k)) \<and> heap_act (up_loop h he k) \<and>
    mset (fst (up_loop h he k)) = mset ((fst h)[k := he])"
  using assms
proof (induction h he k rule: up_loop.induct)
  case (1 h he k)
  let ?p = "HPARENT k" and ?hs = "fst h" and ?vs = "(fst h)[k := he]"
  have k: "k < length ?hs" using 1(2) by (simp add: hole_act_def)
  show ?case
  proof (cases "?p = k \<or> ANHE_at (?hs ! ?p) \<le> ANHE_at he")
    case True
    have "heap_ord ?vs"
      unfolding heap_ord_def
    proof (intro allI impI)
      fix i assume i: "0 < i \<and> i < length ?vs"
      show "ANHE_at (?vs ! HPARENT i) \<le> ANHE_at (?vs ! i)"
      proof (cases "i = k")
        case True
        with i \<open>?p = k \<or> _\<close> HPARENT_less [of k] k show ?thesis by auto
      next
        case False
        with 1(3) i show ?thesis by (simp add: up_ord_def)
      qed
    qed
    with True hole_act_fill [OF 1(2)] show ?thesis
      by (subst (1 2 3) up_loop.simps) (simp add: Let_def heap_put_def)
  next
    case False
    then have p: "?p \<noteq> k" "0 < k" "?p < k" "ANHE_at he < ANHE_at (?hs ! ?p)"
      using HPARENT_less [of k] by (auto simp: HPARENT_self)
    have eq: "(fst (heap_put h k (?hs ! ?p)))[?p := he] = ?vs[k := ?vs ! ?p, ?p := ?vs ! k]"
      using k p hole_swap [of k ?hs ?p he] by (simp add: heap_put_def)
    have "up_ord (?vs[k := ?vs ! ?p, ?p := ?vs ! k]) ?p"
      using up_ord_move [OF 1(3)] p k by simp
    moreover have "hole_act (heap_put h k (?hs ! ?p)) he ?p"
      using hole_act_move [OF 1(2)] p k by simp
    ultimately have "heap_ord (fst (up_loop (heap_put h k (?hs ! ?p)) he ?p)) \<and>
        heap_act (up_loop (heap_put h k (?hs ! ?p)) he ?p) \<and>
        mset (fst (up_loop (heap_put h k (?hs ! ?p)) he ?p)) = mset ((fst (heap_put h k (?hs ! ?p)))[?p := he])"
      using 1(1) [OF refl] False eq by simp
    with False hole_mset_move [of k h ?p he] k p show ?thesis
      by (subst (1 2 3) up_loop.simps) (simp add: Let_def)
  qed
qed

lemma min_child_min:
  assumes "min_child hs N pos = Some m" "pos \<le> j" "j \<le> pos + 3" "j < N"
  shows "ANHE_at (hs ! m) \<le> ANHE_at (hs ! j)"
proof -
  have "j = pos \<or> j = pos + 1 \<or> j = pos + 2 \<or> j = pos + 3" using assms by linarith
  with assms show ?thesis
    by (auto simp: min_child_def pick_def pick_lt_def DHEAP_def split: if_splits)
qed

lemma min_child_None: "min_child hs N pos = None \<longleftrightarrow> N \<le> pos"
  by (auto simp: min_child_def DHEAP_def)

lemma min_child_put:
  "k < pos \<Longrightarrow> min_child (hs[k := he]) N pos = min_child hs N pos"
  by (simp add: min_child_def pick_def pick_lt_def nth_list_update)

lemma down_loop_correct:
  assumes "hole_act h he k" "down_ord ((fst h)[k := he]) k" "N = length (fst h)"
  shows "heap_ord (fst (down_loop h N he k)) \<and> heap_act (down_loop h N he k) \<and>
    mset (fst (down_loop h N he k)) = mset ((fst h)[k := he])"
  using assms
proof (induction h N he k rule: down_loop.induct)
  case (1 h N he k)
  let ?hs = "fst h" and ?vs = "(fst h)[k := he]"
  have k: "k < length ?hs" using 1(2) by (simp add: hole_act_def)
  have finish: ?case
    if stop: "\<And>i. 0 < i \<Longrightarrow> i < length ?vs \<Longrightarrow> HPARENT i = k \<Longrightarrow> ANHE_at he \<le> ANHE_at (?vs ! i)"
      and eq: "down_loop h N he k = heap_put h k he"
  proof -
    have "ANHE_at (?vs ! HPARENT i) \<le> ANHE_at (?vs ! i)" if "0 < i" "i < length ?vs" for i
      using 1(3) stop [of i] k that by (cases "HPARENT i = k") (simp_all add: down_ord_def)
    then have "heap_ord ?vs" by (simp add: heap_ord_def)
    with hole_act_fill [OF 1(2)] show ?thesis by (simp add: eq, simp add: heap_put_def)
  qed
  show ?case
  proof (cases "min_child ?hs N (DHEAP * k + 1)")
    case None
    then have "down_loop h N he k = heap_put h k he" by (simp add: down_loop.simps)
    moreover have "\<not> (0 < i \<and> i < length ?vs \<and> HPARENT i = k)" for i
      using None 1(4) HPARENT_eq [of i k] by (auto simp: min_child_None DHEAP_def)
    ultimately show ?thesis using finish by blast
  next
    case (Some m)
    then have m: "4 * k + 1 \<le> m" "m \<le> 4 * k + 4" "m < N" "0 < m" "m \<noteq> k" "HPARENT m = k"
      using min_child_bounds [OF Some] by (auto simp: DHEAP_def HPARENT_eq)
    have min: "ANHE_at (?hs ! m) \<le> ANHE_at (?hs ! i)" if "0 < i" "i < length ?hs" "HPARENT i = k" for i
      using min_child_min [OF Some, of i] that 1(4) by (simp add: HPARENT_eq DHEAP_def)
    have vi: "?vs ! i = ?hs ! i" if "0 < i" "HPARENT i = k" for i
      using HPARENT_less [of i] that by simp
    show ?thesis
    proof (cases "ANHE_at he \<le> ANHE_at (?hs ! m)")
      case True
      with Some have "down_loop h N he k = heap_put h k he" by (simp add: down_loop.simps)
      moreover have "ANHE_at he \<le> ANHE_at (?vs ! i)" if "0 < i" "i < length ?vs" "HPARENT i = k" for i
        using min [of i] vi [of i] True that by simp
      ultimately show ?thesis using finish by blast
    next
      case False
      have eq: "(fst (heap_put h k (?hs ! m)))[m := he] = ?vs[k := ?vs ! m, m := ?vs ! k]"
        using k m 1(4) hole_swap [of k ?hs m he] by (simp add: heap_put_def)
      have "down_ord (?vs[k := ?vs ! m, m := ?vs ! k]) m"
        using m 1(4) min vi k False by (intro down_ord_move [OF 1(3)]) auto
      moreover have "hole_act (heap_put h k (?hs ! m)) he m"
        using hole_act_move [OF 1(2)] m 1(4) by simp
      ultimately have "heap_ord (fst (down_loop (heap_put h k (?hs ! m)) N he m)) \<and>
          heap_act (down_loop (heap_put h k (?hs ! m)) N he m) \<and>
          mset (fst (down_loop (heap_put h k (?hs ! m)) N he m)) = mset ((fst (heap_put h k (?hs ! m)))[m := he])"
        using 1(1) [OF Some False] 1(4) eq by simp
      with False Some hole_mset_move [of k h m he] k m 1(4) show ?thesis
        by (subst (1 2 3) down_loop.simps) simp
    qed
  qed
qed

text \<open>
  Replacing one element of a heap leaves an array that \<open>adjustheap\<close> turns into a heap again.
\<close>

lemma adjustheap_correct:
  assumes "heap_ord hs" "k < length hs" "fst h = hs[k := he]" "hole_act h he k"
  shows "heap_ord (fst (adjustheap h (length (fst h)) k)) \<and> heap_act (adjustheap h (length (fst h)) k) \<and>
    mset (fst (adjustheap h (length (fst h)) k)) = mset (hs[k := he])"
proof -
  have a: "ANHE_at (hs ! HPARENT i) \<le> ANHE_at (hs ! i)" if "0 < i" "i < length hs" for i
    using assms(1) that by (simp add: heap_ord_def)
  have he: "fst h ! k = he" "(fst h)[k := he] = fst h" using assms(2,3) by simp_all
  have tr: "ANHE_at (hs ! HPARENT k) \<le> ANHE_at (hs ! i)" if "0 < k" "0 < i" "i < length hs" "HPARENT i = k" for i
    using a [of k] a [of i] that assms(2) by auto
  show ?thesis
  proof (cases "k > 0 \<and> ANHE_at (fst h ! k) \<le> ANHE_at (fst h ! HPARENT k)")
    case True
    then have le: "ANHE_at he \<le> ANHE_at (hs ! HPARENT k)"
      using assms(2,3) HPARENT_less [of k] he by simp
    have "up_ord (fst h) k"
      unfolding up_ord_def assms(3)
    proof (intro conjI allI impI, goal_cases)
      case (1 i)
      then show ?case using a [of i] tr [of i] le True assms(2) HPARENT_less [of i]
        by (cases "HPARENT i = k") auto
    next
      case (2 i)
      then show ?case using tr [of i] True HPARENT_less [of i] HPARENT_less [of k] by auto
    qed
    with True up_loop_correct [OF assms(4)] he assms(3) show ?thesis
      by (simp add: adjustheap_def upheap_def)
  next
    case False
    then have ge: "0 < k \<Longrightarrow> ANHE_at (hs ! HPARENT k) \<le> ANHE_at he"
      using assms(2,3) HPARENT_less [of k] he by simp
    have "down_ord (fst h) k"
      unfolding down_ord_def assms(3)
    proof (intro conjI allI impI, goal_cases)
      case (1 i)
      then show ?case using a [of i] ge assms(2) by (cases "i = k") auto
    next
      case (2 i)
      then show ?case using tr [of i] HPARENT_less [of i] HPARENT_less [of k] by auto
    qed
    moreover have "adjustheap h (length (fst h)) k = down_loop h (length (fst h)) he k"
      unfolding adjustheap_def downheap_def using False he by (simp only: if_False)
    ultimately show ?thesis
      using down_loop_correct [OF assms(4)] he assms(3) by simp
  qed
qed

text \<open>
  What a heap function makes of the array \<open>vs\<close> and the \<open>active\<close> fields: a heap of the same
  elements, each of which knows its index, with all other \<open>active\<close> fields unchanged.
\<close>

definition heap_of :: "anhe list \<Rightarrow> (addr \<Rightarrow> nat) \<Rightarrow> heap \<Rightarrow> bool" where
  "heap_of vs act h \<longleftrightarrow> heap_ord (fst h) \<and> heap_act h \<and> mset (fst h) = mset vs \<and>
     (\<forall>w. w \<notin> ANHE_w ` set vs \<longrightarrow> snd h w = act w)"

lemma up_loop_frame:
  assumes "k < length (fst h)" "w \<notin> ANHE_w ` set ((fst h)[k := he])"
  shows "snd (up_loop h he k) w = snd h w"
  using assms
proof (induction h he k rule: up_loop.induct)
  case (1 h he k)
  let ?p = "HPARENT k"
  have p: "?p \<le> k" "?p < length (fst h)" using HPARENT_less [of k] 1(2) by (cases "k = 0"; simp add: HPARENT_def)+
  have he: "w \<noteq> ANHE_w he" using 1(2,3) set_update_memI by fastforce
  show ?case
  proof (cases "?p = k \<or> ANHE_at (fst h ! ?p) \<le> ANHE_at he")
    case True
    then show ?thesis using he by (subst up_loop.simps) (simp add: Let_def heap_put_def)
  next
    case False
    have ms: "set ((fst (heap_put h k (fst h ! ?p)))[?p := he]) = set ((fst h)[k := he])"
      using hole_mset_move [of k h ?p he] False 1(2) p by (metis set_mset_mset)
    have "fst h ! ?p \<in> set ((fst h)[k := he])"
      using False p 1(2) by (metis length_list_update nth_list_update_neq nth_mem)
    then have "w \<noteq> ANHE_w (fst h ! ?p)" using 1(3) by blast
    moreover have "snd (up_loop (heap_put h k (fst h ! ?p)) he ?p) w = snd (heap_put h k (fst h ! ?p)) w"
      using 1(1) [OF refl] False ms 1(3) p by simp
    ultimately show ?thesis
      using False by (subst up_loop.simps) (simp add: Let_def heap_put_def)
  qed
qed

lemma down_loop_frame:
  assumes "k < length (fst h)" "N = length (fst h)" "w \<notin> ANHE_w ` set ((fst h)[k := he])"
  shows "snd (down_loop h N he k) w = snd h w"
  using assms
proof (induction h N he k rule: down_loop.induct)
  case (1 h N he k)
  have he: "w \<noteq> ANHE_w he" using 1(2,4) set_update_memI by fastforce
  show ?case
  proof (cases "min_child (fst h) N (DHEAP * k + 1)")
    case None
    then show ?thesis using he by (subst down_loop.simps) (simp add: heap_put_def)
  next
    case (Some m)
    then have m: "m < N" "m \<noteq> k" using min_child_bounds [OF Some] by (auto simp: DHEAP_def)
    show ?thesis
    proof (cases "ANHE_at he \<le> ANHE_at (fst h ! m)")
      case True
      then show ?thesis using he Some by (subst down_loop.simps) (simp add: heap_put_def)
    next
      case False
      have ms: "set ((fst (heap_put h k (fst h ! m)))[m := he]) = set ((fst h)[k := he])"
        using hole_mset_move [of k h m he] 1(2,3) m by (metis set_mset_mset)
      have "fst h ! m \<in> set ((fst h)[k := he])"
        using m 1(3) by (metis length_list_update nth_list_update_neq nth_mem)
      then have "w \<noteq> ANHE_w (fst h ! m)" using 1(4) by blast
      moreover have "snd (down_loop (heap_put h k (fst h ! m)) N he m) w = snd (heap_put h k (fst h ! m)) w"
        using 1(1) [OF Some False] ms 1(3,4) m by simp
      ultimately show ?thesis
        using False Some by (subst down_loop.simps) (simp add: heap_put_def)
    qed
  qed
qed

lemma upheap_last:
  assumes "heap_ord ts" "heap_act (ts, act)" "w \<notin> ANHE_w ` set ts"
  shows "heap_of (ts @ [(a, w)]) act (upheap (ts @ [(a, w)], act(w := length ts + HEAP0)) (length ts))"
proof -
  let ?h = "(ts @ [(a, w)], act(w := length ts + HEAP0))"
  have ne: "ANHE_w (ts ! i) \<noteq> w" if "i < length ts" for i using assms(3) that by force
  have act: "heap_act ?h"
    using assms ne by (auto simp: heap_act_def nth_append less_Suc_eq)
  have "up_ord (ts @ [(a, w)]) (length ts)"
    unfolding up_ord_def
  proof (intro conjI allI impI, goal_cases)
    case (1 i)
    then have "i < length ts" "HPARENT i < length ts" using HPARENT_less [of i] by auto
    then show ?case using assms(1) 1 by (simp add: heap_ord_def nth_append)
  next
    case (2 i)
    then show ?case using HPARENT_less [of i] by simp
  qed
  with up_loop_correct [OF heap_act_hole [OF act], of "length ts"] up_loop_frame [of "length ts" ?h _ "(a, w)"]
  show ?thesis by (auto simp: heap_of_def upheap_def)
qed

lemma adjustheap_replace:
  assumes "heap_ord hs" "k < length hs" "heap_act (hs, act) \<or> hole_act (hs[k := he], act) he k"
    "distinct (map ANHE_w (hs[k := he]))"
  shows "heap_of (hs[k := he]) act (adjustheap (hs[k := he], act) (length hs) k)"
proof -
  let ?h = "(hs[k := he], act)"
  have hole: "hole_act ?h he k"
    using assms by (auto simp: heap_act_def hole_act_def)
  have frame: "snd (adjustheap ?h (length hs) k) w = act w" if w: "w \<notin> ANHE_w ` set (hs[k := he])" for w
  proof -
    have k: "k < length (fst ?h)" "length hs = length (fst ?h)" "w \<notin> ANHE_w ` set ((fst ?h)[k := he])"
      using w assms(2) by simp_all
    have "snd (up_loop ?h he k) w = act w" "snd (down_loop ?h (length hs) he k) w = act w"
      by (simp_all only: up_loop_frame [OF k(1,3)] down_loop_frame [OF k] snd_conv)
    moreover have "fst ?h ! k = he" using assms(2) by simp
    ultimately show ?thesis unfolding adjustheap_def upheap_def downheap_def by (simp only: split: if_split) blast
  qed
  show ?thesis
    using adjustheap_correct [OF assms(1,2) _ hole] frame by (simp only: heap_of_def fst_conv length_list_update) blast
qed

lemma downheap_root:
  assumes "heap_ord hs" "hs \<noteq> []" "heap_act (hs, act)" "ANHE_w he = ANHE_w (hs ! 0)"
  shows "heap_of (hs[0 := he]) act (downheap (hs[0 := he], act) (length hs) 0)"
proof -
  let ?h = "(hs[0 := he], act)"
  have d: "distinct (map ANHE_w (hs[0 := he]))"
    using assms(2-4) by (cases hs) (auto simp: heap_act_def)
  have hole: "hole_act ?h he 0"
    using assms d by (auto simp: heap_act_def hole_act_def)
  have "down_ord (hs[0 := he]) 0"
    using assms(1) by (auto simp: down_ord_def heap_ord_def)
  then have "down_ord ((fst ?h)[0 := he]) 0" by simp
  from down_loop_correct [OF hole this, of "length hs"]
  have c: "heap_ord (fst (down_loop ?h (length hs) he 0))" "heap_act (down_loop ?h (length hs) he 0)"
    "mset (fst (down_loop ?h (length hs) he 0)) = mset (hs[0 := he])" by simp_all
  have "snd (down_loop ?h (length hs) he 0) w = act w" if "w \<notin> ANHE_w ` set (hs[0 := he])" for w
  proof -
    have k: "0 < length (fst ?h)" "length hs = length (fst ?h)" "w \<notin> ANHE_w ` set ((fst ?h)[0 := he])"
      using that assms(2) by simp_all
    show ?thesis by (simp only: down_loop_frame [OF k] snd_conv)
  qed
  moreover have "fst ?h ! 0 = he" using assms(2) by simp
  ultimately show ?thesis
    unfolding heap_of_def downheap_def using c by (simp only:) blast
qed

end
