(* ===== verification/Ev_Loop.thy ===== *)
theory Ev_Loop
  imports Ev_Heap
begin

unbundle bit_operations_syntax

text \<open>
  The part of libev (\<open>ev.c\<close>, \<open>ev.h\<close>) that the server's event loop uses: io and timer
  watchers, the pending queues, the per-descriptor watcher lists, the list of descriptors to
  tell the kernel about, and the timer heap. A watcher is an address and the fields of the
  watcher structures are functions of it, so that the watcher header that libev shares by casts
  (\<open>active\<close>, \<open>pending\<close>, \<open>priority\<close>) is shared here too. A \<open>WL\<close> list is the list of its
  watchers from the head. An array of which libev uses the first \<open>cnt\<close> elements is the list of
  those; the array \<open>anfds\<close> is the list of all \<open>anfdmax\<close> elements, because its length is read.
\<close>

section \<open>Constants and data\<close>

definition EV_NONE :: u32 where "EV_NONE = 0x00"

definition EV_READ :: u32 where "EV_READ = 0x01"

definition EV_WRITE :: u32 where "EV_WRITE = 0x02"

definition EV__IOFDSET :: u32 where "EV__IOFDSET = 0x80"

definition EV_TIMER :: u32 where "EV_TIMER = 0x100"

definition EV_ERROR :: u32 where "EV_ERROR = 0x80000000"

definition EV_ANFD_REIFY :: u32 where "EV_ANFD_REIFY = 1"

definition EV_MINPRI :: int where "EV_MINPRI = - 2"

definition EV_MAXPRI :: int where "EV_MAXPRI = 2"

definition NUMPRI :: nat where "NUMPRI = 5"

datatype evbreak = EVBREAK_CANCEL | EVBREAK_ONE | EVBREAK_ALL

text \<open>The watcher of an \<open>ANPENDING\<close>: the loop's dummy \<open>pending_w\<close> or a user watcher.\<close>

datatype wref = PendingW | W addr

type_synonym anpending = "wref \<times> u32"

record anfd =
  head :: "addr list"
  ev_mask :: byte
  reify :: byte
  emask :: byte
  egen :: u32

definition anfd0 :: anfd where
  "anfd0 = \<lparr>head = [], ev_mask = 0, reify = 0, emask = 0, egen = 0\<rparr>"

text \<open>The structure types of the watchers that the server allocates.\<close>

datatype wkind = Ev_io | Ev_timer

record ev_loop =
  wkind :: "addr \<rightharpoonup> wkind"
  active :: "addr \<Rightarrow> nat"
  pending :: "addr \<Rightarrow> nat"
  priority :: "addr \<Rightarrow> int"
  w_fd :: "addr \<Rightarrow> fd"
  w_events :: "addr \<Rightarrow> u32"
  w_at :: "addr \<Rightarrow> real"
  w_repeat :: "addr \<Rightarrow> real"
  ev_rt_now :: real
  mn_now :: real
  now_floor :: real
  rtmn_diff :: real
  rfeeds :: "addr list"
  pendings :: "nat \<Rightarrow> anpending list"
  pendingpri :: nat
  activecnt :: int
  loop_done :: evbreak
  anfds :: "anfd list"
  fdchanges :: "fd list"
  timers :: "anhe list"
  postfork :: byte
  epoll_eperms :: "fd list"
  epoll_eventmax :: int

definition ABSPRI :: "'a ev_loop_scheme \<Rightarrow> addr \<Rightarrow> nat" where
  "ABSPRI l w = nat (priority l w - EV_MINPRI)"

section \<open>Growing an array\<close>

definition MALLOC_ROUND :: int where "MALLOC_ROUND = 4096"

text \<open>The \<open>do ... while\<close> loop of \<open>array_nextsize\<close>: double at least once, until \<open>cnt\<close> fits.\<close>

function dbl_loop :: "int \<Rightarrow> int \<Rightarrow> int" where
  "dbl_loop ncur cnt = (if 0 < ncur \<and> cnt > 2 * ncur then dbl_loop (2 * ncur) cnt else 2 * ncur)"
  by pat_completeness auto
termination by (relation "measure (\<lambda>(ncur, cnt). nat (cnt - ncur))") auto

text \<open>\<open>x & ~(MALLOC_ROUND - 1)\<close> rounds down to a multiple of \<open>MALLOC_ROUND\<close>.\<close>

definition array_nextsize :: "int \<Rightarrow> int \<Rightarrow> int \<Rightarrow> int" where
  "array_nextsize elem cur cnt =
     (let ncur = dbl_loop (cur + 1) cnt
      in if elem * ncur > MALLOC_ROUND - 8 * 4
         then (let b = ncur * elem;
                   r = (b + elem + (MALLOC_ROUND - 1) + 8 * 4) div MALLOC_ROUND * MALLOC_ROUND
               in (r - 8 * 4) div elem)
         else ncur)"

text \<open>\<open>sizeof (ANFD)\<close> of the build: a pointer, four bytes and an \<open>unsigned\<close>.\<close>

definition sizeof_ANFD :: int where "sizeof_ANFD = 16"

definition anfds_needsize :: "anfd list \<Rightarrow> nat \<Rightarrow> anfd list" where
  "anfds_needsize as cnt =
     (if cnt > length as
      then as @ replicate (nat (array_nextsize sizeof_ANFD (int (length as)) (int cnt)) - length as) anfd0
      else as)"

section \<open>Pending events\<close>

definition ev_feed_event :: "addr \<Rightarrow> u32 \<Rightarrow> 'a ev_loop_scheme \<Rightarrow> 'a ev_loop_scheme" where
  "ev_feed_event w revents l =
     (let pri = ABSPRI l w; ps = pendings l pri
      in if pending l w \<noteq> 0
         then let i = pending l w - 1
              in l\<lparr>pendings := (pendings l)(pri := ps[i := (fst (ps ! i), snd (ps ! i) OR revents)]),
                   pendingpri := NUMPRI - 1\<rparr>
         else l\<lparr>pending := (pending l)(w := length ps + 1),
                pendings := (pendings l)(pri := ps @ [(W w, revents)]),
                pendingpri := NUMPRI - 1\<rparr>)"

definition feed_reverse :: "addr \<Rightarrow> 'a ev_loop_scheme \<Rightarrow> 'a ev_loop_scheme" where
  "feed_reverse w l = l\<lparr>rfeeds := rfeeds l @ [w]\<rparr>"

text \<open>\<open>feed_reverse_done\<close>: from the last element of \<open>rfeeds\<close> to the first.\<close>

definition feed_reverse_done :: "u32 \<Rightarrow> 'a ev_loop_scheme \<Rightarrow> 'a ev_loop_scheme" where
  "feed_reverse_done revents l =
     (fold (\<lambda>w. ev_feed_event w revents) (rev (rfeeds l)) l)\<lparr>rfeeds := []\<rparr>"

definition fd_event_nocheck :: "fd \<Rightarrow> u32 \<Rightarrow> 'a ev_loop_scheme \<Rightarrow> 'a ev_loop_scheme" where
  "fd_event_nocheck fd revents l =
     fold (\<lambda>w l. let ev = w_events l w AND revents in if ev \<noteq> 0 then ev_feed_event w ev l else l)
       (head (anfds l ! nat fd)) l"

definition fd_event :: "fd \<Rightarrow> u32 \<Rightarrow> 'a ev_loop_scheme \<Rightarrow> 'a ev_loop_scheme" where
  "fd_event fd revents l =
     (if reify (anfds l ! nat fd) = 0 then fd_event_nocheck fd revents l else l)"

definition ev_feed_fd_event :: "fd \<Rightarrow> u32 \<Rightarrow> 'a ev_loop_scheme \<Rightarrow> 'a ev_loop_scheme" where
  "ev_feed_fd_event fd revents l =
     (if fd \<ge> 0 \<and> fd < int (length (anfds l)) then fd_event_nocheck fd revents l else l)"

definition clear_pending :: "addr \<Rightarrow> 'a ev_loop_scheme \<Rightarrow> 'a ev_loop_scheme" where
  "clear_pending w l =
     (if pending l w \<noteq> 0
      then let pri = ABSPRI l w; ps = pendings l pri; i = pending l w - 1
           in l\<lparr>pendings := (pendings l)(pri := ps[i := (PendingW, snd (ps ! i))]),
                pending := (pending l)(w := 0)\<rparr>
      else l)"

definition ev_clear_pending :: "addr \<Rightarrow> 'a ev_loop_scheme \<Rightarrow> 'a ev_loop_scheme \<times> u32" where
  "ev_clear_pending w l =
     (if pending l w \<noteq> 0
      then (clear_pending w l, snd (pendings l (ABSPRI l w) ! (pending l w - 1)))
      else (l, 0))"

definition ev_pending_count :: "'a ev_loop_scheme \<Rightarrow> nat" where
  "ev_pending_count l = (\<Sum>pri\<leftarrow>rev [0..<NUMPRI]. length (pendings l pri))"

text \<open>
  \<open>ev_invoke_pending\<close>. The callbacks are a parameter; they may change the loop and a state \<open>g\<close> of
  their own, may fault, and may not return. An entry whose watcher was stopped holds \<open>pending_w\<close>,
  whose callback does nothing.
\<close>

type_synonym ('l, 'g) callback = "addr \<Rightarrow> u32 \<Rightarrow> 'l \<Rightarrow> 'g \<Rightarrow> ('l \<times> 'g) res option"

partial_function (option) invoke_loop ::
    "('a ev_loop_scheme, 'g) callback \<Rightarrow> 'a ev_loop_scheme \<Rightarrow> 'g \<Rightarrow> ('a ev_loop_scheme \<times> 'g) res option" where
  "invoke_loop cb l g =
     (let pri = pendingpri l; ps = pendings l pri
      in if ps \<noteq> []
         then (let p = last ps; l1 = l\<lparr>pendings := (pendings l)(pri := butlast ps)\<rparr>
               in case fst p of
                    PendingW \<Rightarrow> invoke_loop cb l1 g
                  | W w \<Rightarrow>
                      (case cb w (snd p) (l1\<lparr>pending := (pending l1)(w := 0)\<rparr>) g of
                         None \<Rightarrow> None
                       | Some (Inl e) \<Rightarrow> Some (Inl e)
                       | Some (Inr (l2, g2)) \<Rightarrow> invoke_loop cb l2 g2))
         else if pri = 0 then Some (Inr (l, g))
         else invoke_loop cb (l\<lparr>pendingpri := pri - 1\<rparr>) g)"

definition ev_invoke_pending ::
    "('a ev_loop_scheme, 'g) callback \<Rightarrow> 'a ev_loop_scheme \<Rightarrow> 'g \<Rightarrow> ('a ev_loop_scheme \<times> 'g) res option" where
  "ev_invoke_pending cb l g = invoke_loop cb (l\<lparr>pendingpri := NUMPRI - 1\<rparr>) g"

section \<open>Descriptors\<close>

definition fd_change :: "fd \<Rightarrow> u32 \<Rightarrow> 'a ev_loop_scheme \<Rightarrow> 'a ev_loop_scheme" where
  "fd_change fd flags l =
     (let a = anfds l ! nat fd;
          l1 = l\<lparr>anfds := (anfds l)[nat fd := a\<lparr>reify := reify a OR ucast flags\<rparr>]\<rparr>
      in if reify a = 0 then l1\<lparr>fdchanges := fdchanges l @ [fd]\<rparr> else l1)"

text \<open>One turn of the loop of \<open>fd_reify\<close>: the new loop and the call of \<open>backend_modify\<close>, if any.\<close>

definition reify_fd ::
    "fd \<Rightarrow> 'a ev_loop_scheme \<Rightarrow> 'a ev_loop_scheme \<times> (fd \<times> byte \<times> byte) list" where
  "reify_fd fd l =
     (let a = anfds l ! nat fd;
          o_events = ev_mask a;
          new = fold (\<lambda>w m. m OR ucast (w_events l w)) (head a) 0;
          o_reify = (if o_events \<noteq> new then ucast EV__IOFDSET else reify a);
          l1 = l\<lparr>anfds := (anfds l)[nat fd := a\<lparr>reify := 0, ev_mask := new\<rparr>]\<rparr>
      in (l1, if o_reify AND ucast EV__IOFDSET \<noteq> 0 then [(fd, o_events, new)] else []))"

section \<open>Starting and stopping watchers\<close>

definition pri_adjust :: "addr \<Rightarrow> 'a ev_loop_scheme \<Rightarrow> 'a ev_loop_scheme" where
  "pri_adjust w l =
     (let pri = priority l w;
          pri = (if pri < EV_MINPRI then EV_MINPRI else pri);
          pri = (if pri > EV_MAXPRI then EV_MAXPRI else pri)
      in l\<lparr>priority := (priority l)(w := pri)\<rparr>)"

definition ev_start :: "addr \<Rightarrow> nat \<Rightarrow> 'a ev_loop_scheme \<Rightarrow> 'a ev_loop_scheme" where
  "ev_start w act l =
     (let l1 = pri_adjust w l
      in l1\<lparr>active := (active l1)(w := act), activecnt := activecnt l1 + 1\<rparr>)"

definition ev_stop :: "addr \<Rightarrow> 'a ev_loop_scheme \<Rightarrow> 'a ev_loop_scheme" where
  "ev_stop w l = l\<lparr>activecnt := activecnt l - 1, active := (active l)(w := 0)\<rparr>"

definition wlist_add :: "addr list \<Rightarrow> addr \<Rightarrow> addr list" where
  "wlist_add ws elem = elem # ws"

fun wlist_del :: "addr list \<Rightarrow> addr \<Rightarrow> addr list" where
  "wlist_del [] elem = []"
| "wlist_del (w # ws) elem = (if w = elem then ws else w # wlist_del ws elem)"

definition ev_init :: "wkind \<Rightarrow> addr \<Rightarrow> 'a ev_loop_scheme \<Rightarrow> 'a ev_loop_scheme" where
  "ev_init k w l = l\<lparr>wkind := (wkind l)(w \<mapsto> k), active := (active l)(w := 0),
     pending := (pending l)(w := 0), priority := (priority l)(w := 0)\<rparr>"

definition ev_io_set :: "addr \<Rightarrow> fd \<Rightarrow> u32 \<Rightarrow> 'a ev_loop_scheme \<Rightarrow> 'a ev_loop_scheme" where
  "ev_io_set w fd events l =
     l\<lparr>w_fd := (w_fd l)(w := fd), w_events := (w_events l)(w := events OR EV__IOFDSET)\<rparr>"

definition ev_io_start :: "addr \<Rightarrow> 'a ev_loop_scheme \<Rightarrow> 'a ev_loop_scheme res" where
  "ev_io_start w l =
     (let fd = w_fd l w
      in if active l w \<noteq> 0 then Inr l
         else if \<not> fd \<ge> 0 then Inl AssertFail
         else if w_events l w AND NOT (EV__IOFDSET OR EV_READ OR EV_WRITE) \<noteq> 0 then Inl AssertFail
         else
           let l1 = ev_start w 1 l;
               as = anfds_needsize (anfds l1) (nat fd + 1);
               a = as ! nat fd
           in if (case head a of [] \<Rightarrow> False | x # _ \<Rightarrow> x = w) then Inl AssertFail
              else
                let l2 = l1\<lparr>anfds := as[nat fd := a\<lparr>head := wlist_add (head a) w\<rparr>]\<rparr>;
                    l3 = fd_change fd ((w_events l w AND EV__IOFDSET) OR EV_ANFD_REIFY) l2
                in Inr (l3\<lparr>w_events := (w_events l3)(w := w_events l3 w AND NOT EV__IOFDSET)\<rparr>))"

definition ev_io_stop :: "addr \<Rightarrow> 'a ev_loop_scheme \<Rightarrow> 'a ev_loop_scheme res" where
  "ev_io_stop w l =
     (let l1 = clear_pending w l; fd = w_fd l1 w
      in if active l1 w = 0 then Inr l1
         else if \<not> (fd \<ge> 0 \<and> fd < int (length (anfds l1))) then Inl AssertFail
         else
           let a = anfds l1 ! nat fd;
               l2 = l1\<lparr>anfds := (anfds l1)[nat fd := a\<lparr>head := wlist_del (head a) w\<rparr>]\<rparr>
           in Inr (fd_change fd EV_ANFD_REIFY (ev_stop w l2)))"

definition ev_timer_set :: "addr \<Rightarrow> real \<Rightarrow> real \<Rightarrow> 'a ev_loop_scheme \<Rightarrow> 'a ev_loop_scheme" where
  "ev_timer_set w after rpt l = l\<lparr>w_at := (w_at l)(w := after), w_repeat := (w_repeat l)(w := rpt)\<rparr>"

text \<open>The heap functions on the loop's timers and the watchers' \<open>active\<close> fields.\<close>

definition on_heap :: "(heap \<Rightarrow> heap) \<Rightarrow> 'a ev_loop_scheme \<Rightarrow> 'a ev_loop_scheme" where
  "on_heap f l = (let (t, a) = f (timers l, active l) in l\<lparr>timers := t, active := a\<rparr>)"

definition ev_timer_start :: "addr \<Rightarrow> 'a ev_loop_scheme \<Rightarrow> 'a ev_loop_scheme res" where
  "ev_timer_start w l =
     (if active l w \<noteq> 0 then Inr l
      else
        let l1 = l\<lparr>w_at := (w_at l)(w := w_at l w + mn_now l)\<rparr>
        in if \<not> w_repeat l1 w \<ge> 0 then Inl AssertFail
           else
             let n = length (timers l1);
                 l2 = ev_start w (n + HEAP0) l1;
                 l3 = l2\<lparr>timers := timers l2 @ [(w_at l2 w, w)]\<rparr>
             in Inr (on_heap (\<lambda>h. upheap h (active l3 w - HEAP0)) l3))"

definition ev_timer_stop :: "addr \<Rightarrow> 'a ev_loop_scheme \<Rightarrow> 'a ev_loop_scheme res" where
  "ev_timer_stop w l =
     (let l1 = clear_pending w l
      in if active l1 w = 0 then Inr l1
         else
           let act = active l1 w - HEAP0; ts = timers l1
           in if \<not> (act < length ts \<and> ANHE_w (ts ! act) = w) then Inl AssertFail
              else
                let cnt = length ts - 1;
                    l2 = (if act < cnt
                          then on_heap (\<lambda>h. adjustheap h cnt act) (l1\<lparr>timers := (butlast ts)[act := last ts]\<rparr>)
                          else l1\<lparr>timers := butlast ts\<rparr>);
                    l3 = l2\<lparr>w_at := (w_at l2)(w := w_at l2 w - mn_now l2)\<rparr>
                in Inr (ev_stop w l3))"

definition ev_timer_again :: "addr \<Rightarrow> 'a ev_loop_scheme \<Rightarrow> 'a ev_loop_scheme res" where
  "ev_timer_again w l =
     (let l1 = clear_pending w l
      in if active l1 w \<noteq> 0
         then if w_repeat l1 w \<noteq> 0
              then let l2 = l1\<lparr>w_at := (w_at l1)(w := mn_now l1 + w_repeat l1 w)\<rparr>;
                       k = active l2 w - HEAP0;
                       l3 = l2\<lparr>timers := (timers l2)[k := (w_at l2 w, ANHE_w (timers l2 ! k))]\<rparr>
                   in Inr (on_heap (\<lambda>h. adjustheap h (length (timers l3)) k) l3)
              else ev_timer_stop w l1
         else if w_repeat l1 w \<noteq> 0
              then ev_timer_start w (l1\<lparr>w_at := (w_at l1)(w := w_repeat l1 w)\<rparr>)
              else Inr l1)"

definition ev_timer_remaining :: "addr \<Rightarrow> 'a ev_loop_scheme \<Rightarrow> real" where
  "ev_timer_remaining w l = w_at l w - (if active l w \<noteq> 0 then mn_now l else 0)"

definition ev_break :: "evbreak \<Rightarrow> 'a ev_loop_scheme \<Rightarrow> 'a ev_loop_scheme" where
  "ev_break how l = l\<lparr>loop_done := how\<rparr>"

section \<open>Expired timers\<close>

text \<open>
  The \<open>do ... while\<close> loop of \<open>timers_reify\<close>: the earliest timer is rescheduled or stopped and
  put on \<open>rfeeds\<close> while its time lies in the past.
\<close>

definition timer_fire :: "'a ev_loop_scheme \<Rightarrow> 'a ev_loop_scheme res" where
  "timer_fire l =
     (let w = ANHE_w (timers l ! 0)
      in rbind
           (if w_repeat l w \<noteq> 0
            then let at1 = w_at l w + w_repeat l w;
                     at2 = (if at1 < mn_now l then mn_now l else at1);
                     l1 = l\<lparr>w_at := (w_at l)(w := at2)\<rparr>
                 in if \<not> w_repeat l1 w > 0 then Inl AssertFail
                    else
                      let l2 = l1\<lparr>timers := (timers l1)[0 := (at2, w)]\<rparr>
                      in Inr (on_heap (\<lambda>h. downheap h (length (timers l2)) 0) l2)
            else ev_timer_stop w l)
           (\<lambda>l1. Inr (feed_reverse w l1)))"

definition timer_due :: "'a ev_loop_scheme \<Rightarrow> bool" where
  "timer_due l \<longleftrightarrow> timers l \<noteq> [] \<and> ANHE_at (timers l ! 0) < mn_now l"

partial_function (option) fire_loop :: "'a ev_loop_scheme \<Rightarrow> 'a ev_loop_scheme res option" where
  "fire_loop l =
     (if timer_due l
      then (case timer_fire l of Inl e \<Rightarrow> Some (Inl e) | Inr l1 \<Rightarrow> fire_loop l1)
      else Some (Inr l))"

definition timers_reify :: "'a ev_loop_scheme \<Rightarrow> 'a ev_loop_scheme res option" where
  "timers_reify l =
     (if timer_due l
      then map_option (\<lambda>r. rbind r (\<lambda>l1. Inr (feed_reverse_done EV_TIMER l1))) (fire_loop l)
      else Some (Inr l))"

declare fire_loop.simps [code] invoke_loop.simps [code]

end
