(* ===== verification/Ev_Loop_Inv.thy ===== *)
theory Ev_Loop_Inv
  imports Ev_Loop
begin

text \<open>
  The invariant of a libev loop and that every operation of the model keeps it. Its parts are
  the assertions that libev's own \<open>ev_verify\<close> checks at run time (\<open>verify_watcher\<close>,
  \<open>verify_heap\<close>, the walk over \<open>anfds\<close>), closed under their converses: a watcher that is
  active is on exactly the list or heap its \<open>active\<close> field says, and a watcher that is pending
  is at exactly the place of the pending queue its \<open>pending\<close> field says.
\<close>

section \<open>The invariant\<close>

definition pri_ok :: "int \<Rightarrow> bool" where
  "pri_ok p \<longleftrightarrow> EV_MINPRI \<le> p \<and> p \<le> EV_MAXPRI"

text \<open>The watcher \<open>w\<close> is at index \<open>i\<close> of the pending queue of priority \<open>p\<close>.\<close>

definition queued :: "'a ev_loop_scheme \<Rightarrow> nat \<Rightarrow> nat \<Rightarrow> addr \<Rightarrow> bool" where
  "queued l p i w \<longleftrightarrow> i < length (pendings l p) \<and> fst (pendings l p ! i) = W w"

definition pend_ok :: "'a ev_loop_scheme \<Rightarrow> bool" where
  "pend_ok l \<longleftrightarrow>
     (\<forall>w. pending l w \<noteq> 0 \<longrightarrow> queued l (ABSPRI l w) (pending l w - 1) w) \<and>
     (\<forall>p i w. queued l p i w \<longrightarrow> pending l w = i + 1 \<and> ABSPRI l w = p) \<and>
     (\<forall>p. p \<ge> NUMPRI \<longrightarrow> pendings l p = [])"

definition tim_ok :: "'a ev_loop_scheme \<Rightarrow> bool" where
  "tim_ok l \<longleftrightarrow> heap_ord (timers l) \<and> heap_act (timers l, active l) \<and>
     (\<forall>he \<in> set (timers l). ANHE_at he = w_at l (ANHE_w he)) \<and>
     (\<forall>w. HEAP0 \<le> active l w \<longrightarrow> w \<in> ANHE_w ` set (timers l))"

definition io_ok :: "'a ev_loop_scheme \<Rightarrow> bool" where
  "io_ok l \<longleftrightarrow>
     (\<forall>i < length (anfds l). distinct (head (anfds l ! i)) \<and>
        (\<forall>w \<in> set (head (anfds l ! i)). active l w = 1 \<and> w_fd l w = int i)) \<and>
     (\<forall>w. active l w = 1 \<longrightarrow> 0 \<le> w_fd l w \<and> w_fd l w < int (length (anfds l)) \<and>
        w \<in> set (head (anfds l ! nat (w_fd l w))))"

definition chg_ok :: "'a ev_loop_scheme \<Rightarrow> bool" where
  "chg_ok l \<longleftrightarrow> distinct (fdchanges l) \<and>
     (\<forall>fd. fd \<in> set (fdchanges l) \<longleftrightarrow> 0 \<le> fd \<and> nat fd < length (anfds l) \<and> reify (anfds l ! nat fd) \<noteq> 0)"

text \<open>The events the watchers of a descriptor wait for.\<close>

definition wanted :: "'a ev_loop_scheme \<Rightarrow> nat \<Rightarrow> byte" where
  "wanted l i = fold (\<lambda>w m. m OR ucast (w_events l w)) (head (anfds l ! i)) 0"

definition mask_ok :: "'a ev_loop_scheme \<Rightarrow> bool" where
  "mask_ok l \<longleftrightarrow> (\<forall>i < length (anfds l). reify (anfds l ! i) = 0 \<longrightarrow> ev_mask (anfds l ! i) = wanted l i)"

definition kind_ok :: "'a ev_loop_scheme \<Rightarrow> bool" where
  "kind_ok l \<longleftrightarrow> (\<forall>w. (active l w \<noteq> 0 \<longrightarrow> wkind l w = Some (if active l w = 1 then Ev_io else Ev_timer)) \<and>
     active l w \<noteq> 2 \<and> (pending l w \<noteq> 0 \<longrightarrow> wkind l w \<noteq> None) \<and>
     (wkind l w = Some Ev_io \<longrightarrow> active l w \<le> 1) \<and> (wkind l w \<noteq> None \<longrightarrow> pri_ok (priority l w)))"

definition cnt_ok :: "'a ev_loop_scheme \<Rightarrow> bool" where
  "cnt_ok l \<longleftrightarrow> activecnt l = int (length (timers l)) + int (sum_list (map (\<lambda>a. length (head a)) (anfds l)))"

definition loop_ok :: "'a ev_loop_scheme \<Rightarrow> bool" where
  "loop_ok l \<longleftrightarrow> pend_ok l \<and> tim_ok l \<and> io_ok l \<and> chg_ok l \<and> mask_ok l \<and> kind_ok l \<and> cnt_ok l"

lemmas ok_defs = pend_ok_def tim_ok_def io_ok_def chg_ok_def mask_ok_def kind_ok_def cnt_ok_def

section \<open>Pending events\<close>

lemma pend_okI:
  assumes "\<And>w. pending l w \<noteq> 0 \<Longrightarrow> queued l (ABSPRI l w) (pending l w - 1) w"
    and "\<And>p i w. queued l p i w \<Longrightarrow> pending l w = i + 1 \<and> ABSPRI l w = p"
    and "\<And>p. p \<ge> NUMPRI \<Longrightarrow> pendings l p = []"
  shows "pend_ok l"
  using assms by (simp add: pend_ok_def)

lemma pend_okD:
  assumes "pend_ok l"
  shows "pending l w \<noteq> 0 \<Longrightarrow> queued l (ABSPRI l w) (pending l w - 1) w"
    and "queued l p i w \<Longrightarrow> pending l w = i + 1"
    and "queued l p i w \<Longrightarrow> ABSPRI l w = p"
    and "p \<ge> NUMPRI \<Longrightarrow> pendings l p = []"
  using assms by (auto simp: pend_ok_def)

lemma ABSPRI_less: "pri_ok (priority l w) \<Longrightarrow> ABSPRI l w < NUMPRI"
  by (auto simp: pri_ok_def ABSPRI_def EV_MINPRI_def EV_MAXPRI_def NUMPRI_def)

lemma clear_pending_fields [simp]:
  "wkind (clear_pending w l) = wkind l" "active (clear_pending w l) = active l"
  "priority (clear_pending w l) = priority l" "w_fd (clear_pending w l) = w_fd l"
  "w_events (clear_pending w l) = w_events l" "w_at (clear_pending w l) = w_at l"
  "w_repeat (clear_pending w l) = w_repeat l" "mn_now (clear_pending w l) = mn_now l"
  "rfeeds (clear_pending w l) = rfeeds l" "activecnt (clear_pending w l) = activecnt l"
  "anfds (clear_pending w l) = anfds l" "fdchanges (clear_pending w l) = fdchanges l"
  "timers (clear_pending w l) = timers l" "pendingpri (clear_pending w l) = pendingpri l"
  "pending (clear_pending w l) = (pending l)(w := 0)"
  by (simp_all add: clear_pending_def Let_def)
     (auto simp: fun_eq_iff)

lemma clear_pending_length [simp]:
  "length (pendings (clear_pending w l) p) = length (pendings l p)"
  by (simp add: clear_pending_def Let_def)

lemma clear_pending_ABSPRI [simp]: "ABSPRI (clear_pending w l) = ABSPRI l"
  by (simp add: ABSPRI_def fun_eq_iff)

lemma clear_pending_queued:
  assumes "pend_ok l"
  shows "queued (clear_pending w l) p i x \<longleftrightarrow> queued l p i x \<and> x \<noteq> w"
proof (cases "pending l w = 0")
  case True
  then show ?thesis using pend_okD(2) [OF assms, of p i x] by (auto simp: clear_pending_def)
next
  case False
  show ?thesis
  proof (cases "p = ABSPRI l w \<and> i = pending l w - 1")
    case True
    then show ?thesis using False pend_okD(1) [OF assms False]
      by (auto simp: queued_def clear_pending_def Let_def)
  next
    case ne: False
    then have "queued (clear_pending w l) p i x \<longleftrightarrow> queued l p i x"
      using False by (auto simp: queued_def clear_pending_def Let_def)
    then show ?thesis using pend_okD(2,3) [OF assms, of p i x] ne by auto
  qed
qed

lemma clear_pending_pend_ok:
  assumes "pend_ok l"
  shows "pend_ok (clear_pending w l)"
proof (rule pend_okI, goal_cases)
  case (1 x)
  then show ?case using pend_okD(1) [OF assms, of x] by (simp add: clear_pending_queued [OF assms] split: if_splits)
next
  case (2 p i x)
  then show ?case using pend_okD(2,3) [OF assms, of p i x] by (simp add: clear_pending_queued [OF assms])
next
  case (3 p)
  then show ?case using pend_okD(4) [OF assms] by (metis clear_pending_length length_0_conv)
qed

lemma clear_pending_ok: "loop_ok l \<Longrightarrow> loop_ok (clear_pending w l)"
  by (auto simp: loop_ok_def clear_pending_pend_ok tim_ok_def io_ok_def chg_ok_def mask_ok_def
      kind_ok_def cnt_ok_def wanted_def)

lemma ev_feed_event_fields [simp]:
  "wkind (ev_feed_event w r l) = wkind l" "active (ev_feed_event w r l) = active l"
  "priority (ev_feed_event w r l) = priority l" "w_fd (ev_feed_event w r l) = w_fd l"
  "w_events (ev_feed_event w r l) = w_events l" "w_at (ev_feed_event w r l) = w_at l"
  "w_repeat (ev_feed_event w r l) = w_repeat l" "mn_now (ev_feed_event w r l) = mn_now l"
  "rfeeds (ev_feed_event w r l) = rfeeds l" "activecnt (ev_feed_event w r l) = activecnt l"
  "anfds (ev_feed_event w r l) = anfds l" "fdchanges (ev_feed_event w r l) = fdchanges l"
  "timers (ev_feed_event w r l) = timers l" "ABSPRI (ev_feed_event w r l) = ABSPRI l"
  "pending (ev_feed_event w r l) =
     (if pending l w \<noteq> 0 then pending l else (pending l)(w := length (pendings l (ABSPRI l w)) + 1))"
  by (simp_all add: ev_feed_event_def Let_def ABSPRI_def fun_eq_iff)

lemma ev_feed_event_queued:
  "queued (ev_feed_event w r l) p i x \<longleftrightarrow>
     queued l p i x \<or> pending l w = 0 \<and> x = w \<and> p = ABSPRI l w \<and> i = length (pendings l p)"
  by (cases "i = pending l w - 1")
     (auto simp: queued_def ev_feed_event_def Let_def nth_append less_Suc_eq)

lemma ev_feed_event_pend_ok:
  assumes "pend_ok l" "pri_ok (priority l w)"
  shows "pend_ok (ev_feed_event w r l)"
proof (rule pend_okI, goal_cases)
  case (1 x)
  then show ?case using pend_okD(1) [OF assms(1), of x] by (auto simp: ev_feed_event_queued split: if_splits)
next
  case (2 p i x)
  then show ?case using pend_okD(2,3) [OF assms(1), of p i x] by (auto simp: ev_feed_event_queued)
next
  case (3 p)
  then have "pendings l p = []" "p \<noteq> ABSPRI l w" using pend_okD(4) [OF assms(1)] ABSPRI_less [OF assms(2)] by auto
  then show ?case by (auto simp: ev_feed_event_def Let_def)
qed

lemma ev_feed_event_ok:
  assumes "loop_ok l" "wkind l w \<noteq> None"
  shows "loop_ok (ev_feed_event w r l)"
proof -
  have "pri_ok (priority l w)" using assms by (simp add: loop_ok_def kind_ok_def)
  then have "pend_ok (ev_feed_event w r l)" using assms by (simp add: loop_ok_def ev_feed_event_pend_ok)
  then show ?thesis
    using assms by (auto simp: loop_ok_def tim_ok_def io_ok_def chg_ok_def mask_ok_def kind_ok_def cnt_ok_def wanted_def)
qed

lemma fold_feed_ok:
  assumes "loop_ok l" "\<forall>w \<in> set ws. wkind l w \<noteq> None"
  shows "loop_ok (fold (\<lambda>w. ev_feed_event w r) ws l)"
  using assms by (induction ws arbitrary: l) (auto simp: ev_feed_event_ok)

lemma loop_ok_rfeeds [simp]: "loop_ok (l\<lparr>rfeeds := x\<rparr>) = loop_ok l"
  by (simp add: loop_ok_def ok_defs queued_def wanted_def ABSPRI_def)

lemma loop_ok_pendingpri [simp]: "loop_ok (l\<lparr>pendingpri := x\<rparr>) = loop_ok l"
  by (simp add: loop_ok_def ok_defs queued_def wanted_def ABSPRI_def)

lemma feed_reverse_done_ok:
  assumes "loop_ok l" "\<forall>w \<in> set (rfeeds l). wkind l w \<noteq> None"
  shows "loop_ok (feed_reverse_done r l)"
  using assms by (simp add: feed_reverse_done_def fold_feed_ok)

lemma io_okD:
  assumes "loop_ok l"
  shows "i < length (anfds l) \<Longrightarrow> w \<in> set (head (anfds l ! i)) \<Longrightarrow> active l w = 1 \<and> w_fd l w = int i"
    and "i < length (anfds l) \<Longrightarrow> distinct (head (anfds l ! i))"
    and "active l w = 1 \<Longrightarrow> 0 \<le> w_fd l w \<and> w_fd l w < int (length (anfds l)) \<and> w \<in> set (head (anfds l ! nat (w_fd l w)))"
  using assms by (auto simp: loop_ok_def io_ok_def)

lemma kind_okD:
  assumes "loop_ok l"
  shows "active l w \<noteq> 0 \<Longrightarrow> wkind l w \<noteq> None" "pending l w \<noteq> 0 \<Longrightarrow> wkind l w \<noteq> None"
    "active l w = 1 \<Longrightarrow> wkind l w = Some Ev_io"  "wkind l w = Some Ev_io \<Longrightarrow> active l w \<le> 1"
    "active l w > 1 \<Longrightarrow> wkind l w = Some Ev_timer" "active l w > 1 \<Longrightarrow> active l w \<ge> HEAP0"
    "wkind l w \<noteq> None \<Longrightarrow> pri_ok (priority l w)"
proof -
  show "active l w > 1 \<Longrightarrow> active l w \<ge> HEAP0"
  proof -
    have "active l w \<noteq> 2" using assms by (simp add: loop_ok_def kind_ok_def)
    then show "active l w > 1 \<Longrightarrow> active l w \<ge> HEAP0" by (simp add: HEAP0_def)
  qed
qed (use assms in \<open>auto simp: loop_ok_def kind_ok_def\<close>)

lemma fd_event_nocheck_ok:
  assumes "loop_ok l" "0 \<le> fd" "nat fd < length (anfds l)"
  shows "loop_ok (fd_event_nocheck fd r l)"
proof -
  let ?f = "\<lambda>w l. let ev = w_events l w AND r in if ev \<noteq> 0 then ev_feed_event w ev l else l"
  have "loop_ok l \<Longrightarrow> \<forall>w \<in> set ws. wkind l w \<noteq> None \<Longrightarrow> loop_ok (fold ?f ws l)" for ws and l :: "'a ev_loop_scheme"
    by (induction ws arbitrary: l) (auto simp: Let_def ev_feed_event_ok)
  moreover have "\<forall>w \<in> set (head (anfds l ! nat fd)). wkind l w \<noteq> None"
    using io_okD(1) [OF assms(1,3)] kind_okD(1) [OF assms(1)] by (metis zero_neq_one)
  ultimately show ?thesis unfolding fd_event_nocheck_def using assms(1) by blast
qed

text \<open>Taking the last entry of a pending queue.\<close>

lemma pop_queued:
  assumes "pendings l p \<noteq> []"
  shows "queued (l\<lparr>pendings := (pendings l)(p := butlast (pendings l p))\<rparr>) q i x \<longleftrightarrow>
    queued l q i x \<and> \<not> (q = p \<and> i = length (pendings l p) - 1)"
  by (auto simp: queued_def nth_butlast)

lemma pop_ok:
  assumes "loop_ok l" "pendings l p \<noteq> []"
    and "l1 = l\<lparr>pendings := (pendings l)(p := butlast (pendings l p))\<rparr>"
  shows "fst (last (pendings l p)) = PendingW \<Longrightarrow> loop_ok l1"
    and "fst (last (pendings l p)) = W w \<Longrightarrow> loop_ok (l1\<lparr>pending := (pending l1)(w := 0)\<rparr>)"
    and "fst (last (pendings l p)) = W w \<Longrightarrow> wkind l w \<noteq> None"
proof -
  let ?n = "length (pendings l p) - 1"
  have ok: "pend_ok l" using assms(1) by (simp add: loop_ok_def)
  have top: "queued l p ?n w \<longleftrightarrow> fst (last (pendings l p)) = W w" for w
    using assms(2) by (simp add: queued_def last_conv_nth)
  have rest: "pend_ok m \<Longrightarrow> \<forall>w. pending m w \<noteq> 0 \<longrightarrow> pending l w \<noteq> 0 \<Longrightarrow>
      m = l\<lparr>pendings := pendings m, pending := pending m\<rparr> \<Longrightarrow> loop_ok m" for m
    using assms(1) by (cases m, cases l) (auto simp: loop_ok_def ok_defs(2-7) wanted_def)
  note q = pop_queued [OF assms(2), folded assms(3)]
  {
    assume d: "fst (last (pendings l p)) = PendingW"
    have ne: "\<not> queued l p ?n x" for x unfolding top d by simp
    have f1: "pending l1 = pending l" "ABSPRI l1 = ABSPRI l"
      by (simp_all add: assms(3) ABSPRI_def fun_eq_iff)
    have "pend_ok l1"
    proof (rule pend_okI, goal_cases)
      case (1 x)
      then have "queued l (ABSPRI l x) (pending l x - 1) x" using pend_okD(1) [OF ok, of x] f1 by simp
      then show ?case using ne unfolding f1 q by metis
    next
      case (2 r i x)
      then show ?case using pend_okD(2,3) [OF ok, of r i x] unfolding f1 q by blast
    next
      case (3 r)
      then show ?case using pend_okD(4) [OF ok] assms by auto
    qed
    then show "loop_ok l1" by (rule rest) (simp_all add: assms(3))
  }
  {
    assume d: "fst (last (pendings l p)) = W w"
    let ?m = "l1\<lparr>pending := (pending l1)(w := 0)\<rparr>"
    have qw: "queued l p ?n w" unfolding top d by simp
    note w = pend_okD(2,3) [OF ok qw]
    have qm: "queued ?m r i x \<longleftrightarrow> queued l r i x \<and> x \<noteq> w" for r i x
    proof -
      have "queued ?m r i x \<longleftrightarrow> queued l1 r i x" by (simp add: queued_def)
      also have "\<dots> \<longleftrightarrow> queued l r i x \<and> \<not> (r = p \<and> i = ?n)" by (rule q)
      also have "\<dots> \<longleftrightarrow> queued l r i x \<and> x \<noteq> w"
        using qw pend_okD(2,3) [OF ok, of r i x] w by (auto simp: queued_def)
      finally show ?thesis .
    qed
    have pri: "ABSPRI ?m = ABSPRI l" by (simp add: ABSPRI_def fun_eq_iff assms(3))
    have pm: "pending ?m x = (if x = w then 0 else pending l x)" for x by (simp add: assms(3))
    have "pend_ok ?m"
    proof (rule pend_okI, goal_cases)
      case (1 x)
      then have "x \<noteq> w" "pending l x \<noteq> 0" unfolding pm by (auto split: if_splits)
      then show ?case using pend_okD(1) [OF ok, of x] unfolding qm pri pm by simp
    next
      case (2 r i x)
      then show ?case using pend_okD(2,3) [OF ok, of r i x] unfolding qm pri pm by simp
    next
      case (3 r)
      then show ?case using pend_okD(4) [OF ok] assms by auto
    qed
    then show "loop_ok ?m" by (rule rest) (simp_all add: assms(3))
    have "pending l w \<noteq> 0" using w by simp
    then show "wkind l w \<noteq> None" using kind_okD(2) [OF assms(1)] by blast
  }
qed

section \<open>Growing an array\<close>

lemma dbl_loop_ge: "0 < n \<Longrightarrow> cnt \<le> dbl_loop n cnt \<and> 0 < dbl_loop n cnt"
  by (induction n cnt rule: dbl_loop.induct) (subst (1 2) dbl_loop.simps, simp)

declare dbl_loop.simps [simp del]

lemma array_nextsize_ge:
  assumes "0 \<le> cur" "0 < elem"
  shows "cnt \<le> array_nextsize elem cur cnt"
proof -
  let ?n = "dbl_loop (cur + 1) cnt"
  have n: "cnt \<le> ?n" "0 < ?n" using dbl_loop_ge [of "cur + 1" cnt] assms by simp_all
  let ?b = "?n * elem" and ?x = "?n * elem + elem + 4095 + 32"
  have "?x mod 4096 < 4096" by simp
  moreover have "?x div 4096 * 4096 + ?x mod 4096 = ?x" by simp
  ultimately have "?n * elem \<le> ?x div 4096 * 4096 - 32" using assms(2) by linarith
  then have "?n * elem div elem \<le> (?x div 4096 * 4096 - 32) div elem" using assms(2) by (intro zdiv_mono1) auto
  then have "?n \<le> (?x div 4096 * 4096 - 32) div elem" using assms(2) by simp
  with n show ?thesis unfolding array_nextsize_def Let_def MALLOC_ROUND_def by simp
qed

lemma anfds_needsize_length: "cnt \<le> length (anfds_needsize as cnt)" "length as \<le> length (anfds_needsize as cnt)"
  using array_nextsize_ge [of "int (length as)" sizeof_ANFD "int cnt"]
  by (auto simp: anfds_needsize_def sizeof_ANFD_def)

lemma anfds_needsize_nth:
  "i < length (anfds_needsize as cnt) \<Longrightarrow>
     anfds_needsize as cnt ! i = (if i < length as then as ! i else anfd0)"
  by (auto simp: anfds_needsize_def nth_append split: if_splits)

lemma anfds_needsize_sum:
  "sum_list (map (\<lambda>a. length (head a)) (anfds_needsize as cnt)) = sum_list (map (\<lambda>a. length (head a)) as)"
  by (simp add: anfds_needsize_def anfd0_def sum_list_replicate)

text \<open>The array of descriptors may grow: all it adds are empty entries.\<close>

definition grown :: "'a ev_loop_scheme \<Rightarrow> nat \<Rightarrow> 'a ev_loop_scheme" where
  "grown l cnt = l\<lparr>anfds := anfds_needsize (anfds l) cnt\<rparr>"

lemma grown_ok: "loop_ok l \<Longrightarrow> loop_ok (grown l cnt)"
proof -
  assume ok: "loop_ok l"
  let ?as = "anfds_needsize (anfds l) cnt"
  note len = anfds_needsize_length(2) [of "anfds l" cnt]
  have nth: "i < length ?as \<Longrightarrow> ?as ! i = (if i < length (anfds l) then anfds l ! i else anfd0)" for i
    by (rule anfds_needsize_nth)
  have "io_ok (grown l cnt)"
    unfolding io_ok_def
  proof (intro conjI allI impI ballI, goal_cases)
    case (1 i)
    then show ?case using io_okD(2) [OF ok, of i] by (simp add: grown_def nth anfd0_def)
  next
    case (2 i w)
    then show ?case using io_okD(1) [OF ok, of i w] by (simp add: grown_def nth anfd0_def split: if_splits)
  next
    case (3 i w)
    then show ?case using io_okD(1) [OF ok, of i w] by (simp add: grown_def nth anfd0_def split: if_splits)
  next
    case (4 w)
    then show ?case using io_okD(3) [OF ok, of w] by (simp add: grown_def)
  next
    case (5 w)
    then show ?case using io_okD(3) [OF ok, of w] len by (simp add: grown_def)
  next
    case (6 w)
    then have "nat (w_fd l w) < length (anfds l)" using io_okD(3) [OF ok, of w] by (auto simp: grown_def)
    then show ?case using 6 io_okD(3) [OF ok, of w] len nth [of "nat (w_fd l w)"] by (simp add: grown_def)
  qed
  moreover have "chg_ok (grown l cnt)"
  proof -
    have "nat fd < length ?as \<and> reify (?as ! nat fd) \<noteq> 0 \<longleftrightarrow>
        nat fd < length (anfds l) \<and> reify (anfds l ! nat fd) \<noteq> 0" for fd
      using nth [of "nat fd"] len by (cases "nat fd < length (anfds l)") (simp_all add: anfd0_def)
    with ok show ?thesis by (simp add: loop_ok_def chg_ok_def grown_def)
  qed
  moreover have "mask_ok (grown l cnt)"
    unfolding mask_ok_def
  proof (intro allI impI)
    fix i assume i: "i < length (anfds (grown l cnt))" "reify (anfds (grown l cnt) ! i) = 0"
    then show "ev_mask (anfds (grown l cnt) ! i) = wanted (grown l cnt) i"
      using ok nth [of i] by (cases "i < length (anfds l)")
        (simp_all add: loop_ok_def mask_ok_def wanted_def grown_def anfd0_def)
  qed
  ultimately show ?thesis
    using ok by (simp add: loop_ok_def pend_ok_def tim_ok_def kind_ok_def cnt_ok_def anfds_needsize_sum
        queued_def ABSPRI_def grown_def)
qed

section \<open>Starting and stopping io watchers\<close>

lemma reify_flag:
  fixes r :: byte and f :: u32
  assumes "bit f 0"
  shows "r OR ucast f \<noteq> 0"
proof
  assume "r OR ucast f = 0"
  then have "\<not> bit (r OR ucast f :: byte) 0" by simp
  with assms show False by (simp add: bit_simps del: bit_0)
qed

lemma reify_flags [simp]: "bit ((e AND EV__IOFDSET) OR EV_ANFD_REIFY) 0" "bit EV_ANFD_REIFY 0"
  by (simp_all add: EV_ANFD_REIFY_def EV__IOFDSET_def bit_simps)

text \<open>
  The two ways in which starting and stopping an io watcher change the loop: the watcher list of
  one descriptor and the watcher's own fields, and the descriptor is marked as changed.
\<close>

definition relink :: "addr \<Rightarrow> nat \<Rightarrow> nat \<Rightarrow> addr list \<Rightarrow> u32 \<Rightarrow> int \<Rightarrow> 'a ev_loop_scheme \<Rightarrow> 'a ev_loop_scheme" where
  "relink w act i ws flags d l =
     (let a = anfds l ! i
      in l\<lparr>active := (active l)(w := act), activecnt := activecnt l + d,
           anfds := (anfds l)[i := a\<lparr>head := ws, reify := reify a OR ucast flags\<rparr>],
           fdchanges := (if reify a = 0 then fdchanges l @ [int i] else fdchanges l)\<rparr>)"

lemma relink_chg_ok:
  assumes "chg_ok l" "i < length (anfds l)" "bit flags 0"
  shows "chg_ok (relink w act i ws flags d l)"
  using assms reify_flag [OF assms(3)]
  by (auto simp: chg_ok_def relink_def Let_def nth_list_update)

lemma relink_mask_ok:
  assumes "mask_ok l" "i < length (anfds l)" "bit flags 0"
  shows "mask_ok (relink w act i ws flags d l)"
  using assms reify_flag [OF assms(3)]
  by (auto simp: mask_ok_def relink_def Let_def nth_list_update wanted_def)

lemma relink_fields [simp]:
  "wkind (relink w act i ws flags d l) = wkind l" "pending (relink w act i ws flags d l) = pending l"
  "priority (relink w act i ws flags d l) = priority l" "w_fd (relink w act i ws flags d l) = w_fd l"
  "w_events (relink w act i ws flags d l) = w_events l" "w_at (relink w act i ws flags d l) = w_at l"
  "w_repeat (relink w act i ws flags d l) = w_repeat l" "timers (relink w act i ws flags d l) = timers l"
  "pendings (relink w act i ws flags d l) = pendings l" "active (relink w act i ws flags d l) = (active l)(w := act)"
  "length (anfds (relink w act i ws flags d l)) = length (anfds l)"
  "activecnt (relink w act i ws flags d l) = activecnt l + d"
  by (simp_all add: relink_def Let_def)

lemma relink_head:
  "j < length (anfds l) \<Longrightarrow> head (anfds (relink w act i ws flags d l) ! j) = (if j = i then ws else head (anfds l ! j))"
  by (auto simp: relink_def Let_def nth_list_update)

lemma relink_pend_ok: "pend_ok l \<Longrightarrow> pend_ok (relink w act i ws flags d l)"
  by (simp add: pend_ok_def queued_def ABSPRI_def)

lemma io_not_timer:
  assumes "loop_ok l" "active l w \<le> 1"
  shows "w \<notin> ANHE_w ` set (timers l)"
proof
  assume "w \<in> ANHE_w ` set (timers l)"
  then obtain j where "j < length (timers l)" "ANHE_w (timers l ! j) = w" by (auto simp: in_set_conv_nth)
  then have "active l w = j + HEAP0" using assms(1) by (auto simp: loop_ok_def tim_ok_def heap_act_def)
  then show False using assms(2) by (simp add: HEAP0_def)
qed

lemma relink_tim_ok:
  assumes "loop_ok l" "active l w \<le> 1" "act \<le> 1"
  shows "tim_ok (relink w act i ws flags d l)"
proof -
  have ne: "ANHE_w (timers l ! j) \<noteq> w" if "j < length (timers l)" for j
    using io_not_timer [OF assms(1,2)] that by (metis image_eqI nth_mem)
  have "tim_ok l" using assms(1) by (simp add: loop_ok_def)
  with ne assms(3) show ?thesis by (auto simp: tim_ok_def heap_act_def HEAP0_def)
qed

lemma relink_cnt_ok:
  assumes "cnt_ok l" "i < length (anfds l)" "d = int (length ws) - int (length (head (anfds l ! i)))"
  shows "cnt_ok (relink w act i ws flags d l)"
proof -
  let ?f = "\<lambda>a. length (head a)"
  have "?f (anfds l ! i) \<le> sum_list (map ?f (anfds l))"
    using assms(2) by (intro member_le_sum_list) auto
  moreover have "sum_list (map ?f (anfds (relink w act i ws flags d l))) = sum_list (map ?f (anfds l)) + length ws - ?f (anfds l ! i)"
    using assms(2) by (simp add: relink_def Let_def map_update sum_list_update)
  ultimately show ?thesis using assms by (simp add: cnt_ok_def)
qed

lemma pri_adjust_id: "pri_ok (priority l w) \<Longrightarrow> pri_adjust w l = l"
  by (simp add: pri_adjust_def pri_ok_def Let_def)

definition ev_mask_legal :: "u32 \<Rightarrow> bool" where
  "ev_mask_legal e \<longleftrightarrow> e AND NOT (EV__IOFDSET OR EV_READ OR EV_WRITE) = 0"

text \<open>The state after \<open>ev_io_start\<close> of a watcher that was not active.\<close>

definition io_started :: "addr \<Rightarrow> 'a ev_loop_scheme \<Rightarrow> 'a ev_loop_scheme" where
  "io_started w l =
     (let i = nat (w_fd l w); g = grown l (i + 1);
          r = relink w 1 i (w # head (anfds g ! i)) ((w_events l w AND EV__IOFDSET) OR EV_ANFD_REIFY) 1 g
      in r\<lparr>w_events := (w_events l)(w := w_events l w AND NOT EV__IOFDSET)\<rparr>)"

lemma ev_io_start_eq:
  assumes ok: "loop_ok l" and k: "wkind l w = Some Ev_io" and a: "active l w = 0"
    and fd: "0 \<le> w_fd l w" and ev: "ev_mask_legal (w_events l w)"
  shows "ev_io_start w l = Inr (io_started w l)"
proof -
  let ?i = "nat (w_fd l w)" and ?as = "anfds_needsize (anfds l) (nat (w_fd l w) + 1)"
  have i: "?i < length ?as" using anfds_needsize_length(1) [of "?i + 1" "anfds l"] by simp
  have pri: "pri_adjust w l = l" using kind_okD(7) [OF ok] k by (simp add: pri_adjust_id)
  have "w \<notin> set (head (?as ! ?i))"
    using io_okD(1) [OF grown_ok [OF ok], of ?i "?i + 1" w] i a by (auto simp: grown_def)
  then have "\<not> (case head (?as ! ?i) of [] \<Rightarrow> False | x # _ \<Rightarrow> x = w)" by (auto split: list.splits)
  with assms i show ?thesis
    by (simp add: ev_io_start_def io_started_def grown_def relink_def fd_change_def ev_start_def Let_def
        pri wlist_add_def ev_mask_legal_def)
qed

lemma io_started_ok:
  assumes ok: "loop_ok l" and k: "wkind l w = Some Ev_io" and a: "active l w = 0" and fd: "0 \<le> w_fd l w"
  shows "loop_ok (io_started w l)"
proof -
  let ?i = "nat (w_fd l w)"
  define g where "g = grown l (?i + 1)"
  define f where "f = (w_events l w AND EV__IOFDSET) OR EV_ANFD_REIFY"
  define r where "r = relink w 1 ?i (w # head (anfds g ! ?i)) f 1 g"
  let ?s = "r\<lparr>w_events := (w_events l)(w := w_events l w AND NOT EV__IOFDSET)\<rparr>"
  have s: "io_started w l = ?s" by (simp add: io_started_def g_def f_def r_def Let_def)
  have gok: "loop_ok g" using grown_ok [OF ok] by (simp add: g_def)
  have i: "?i < length (anfds g)" using anfds_needsize_length(1) [of "?i + 1" "anfds l"] by (simp add: g_def grown_def)
  have f: "bit f 0" by (simp add: f_def)
  have g: "active g = active l" "w_fd g = w_fd l" "wkind g = wkind l" "w_events g = w_events l" by (simp_all add: g_def grown_def)
  have fresh: "w \<notin> set (head (anfds g ! j))" if "j < length (anfds g)" for j
    using io_okD(1) [OF gok that, of w] a g by auto
  have "io_ok r"
    unfolding io_ok_def
  proof (intro conjI allI impI ballI, goal_cases)
    case (1 j)
    then show ?case using io_okD(2) [OF gok, of j] fresh by (auto simp: r_def relink_head)
  next
    case (2 j x)
    then show ?case using io_okD(1) [OF gok, of j x] by (auto simp: r_def relink_head split: if_splits)
  next
    case (3 j x)
    then show ?case using io_okD(1) [OF gok, of j x] g fd i by (auto simp: r_def relink_head split: if_splits)
  next
    case (4 x)
    then show ?case using io_okD(3) [OF gok, of x] g fd by (auto simp: r_def split: if_splits)
  next
    case (5 x)
    then show ?case using io_okD(3) [OF gok, of x] g i by (auto simp: r_def split: if_splits)
  next
    case (6 x)
    then have "nat (w_fd l x) < length (anfds g)"
      using io_okD(3) [OF gok, of x] g i by (auto simp: r_def split: if_splits)
    then show ?case using 6 io_okD(3) [OF gok, of x] g by (auto simp: r_def relink_head split: if_splits)
  qed
  moreover have "tim_ok r" unfolding r_def by (rule relink_tim_ok [OF gok]) (simp_all add: a g)
  moreover have "mask_ok ?s"
  proof -
    have "mask_ok r" using relink_mask_ok [OF _ i f] gok by (simp add: r_def loop_ok_def)
    moreover have "wanted ?s j = wanted r j" if "j < length (anfds g)" "j \<noteq> ?i" for j
    proof -
      have "w \<notin> set (head (anfds r ! j))" using fresh that by (simp add: r_def relink_head)
      moreover have "w_events r = w_events l" by (simp add: r_def g)
      ultimately show ?thesis unfolding wanted_def by (intro fold_cong) auto
    qed
    moreover have "reify (anfds r ! ?i) \<noteq> 0" using i reify_flag [OF f] by (simp add: r_def relink_def Let_def)
    ultimately show ?thesis by (auto simp: mask_ok_def r_def) metis
  qed
  moreover have "kind_ok r" using gok k a g by (auto simp: loop_ok_def kind_ok_def r_def)
  moreover have "pend_ok r" "chg_ok r"
    using gok relink_pend_ok relink_chg_ok [OF _ i f] by (auto simp: loop_ok_def r_def)
  moreover have "cnt_ok r"
    unfolding r_def by (rule relink_cnt_ok [OF _ i]) (use gok in \<open>simp_all add: loop_ok_def\<close>)
  ultimately show ?thesis
    unfolding s by (auto simp: loop_ok_def pend_ok_def tim_ok_def io_ok_def chg_ok_def kind_ok_def cnt_ok_def
        queued_def ABSPRI_def)
qed

lemma wlist_del_distinct:
  "distinct ws \<Longrightarrow> set (wlist_del ws w) = set ws - {w} \<and> distinct (wlist_del ws w)"
  by (induction ws) auto

lemma wlist_del_length: "w \<in> set ws \<Longrightarrow> int (length (wlist_del ws w)) = int (length ws) - 1"
  by (induction ws) auto

definition io_stopped :: "addr \<Rightarrow> 'a ev_loop_scheme \<Rightarrow> 'a ev_loop_scheme" where
  "io_stopped w l =
     (let i = nat (w_fd l w)
      in relink w 0 i (wlist_del (head (anfds l ! i)) w) EV_ANFD_REIFY (- 1) (clear_pending w l))"

lemma ev_io_stop_inactive: "active l w = 0 \<Longrightarrow> ev_io_stop w l = Inr (clear_pending w l)"
  by (simp add: ev_io_stop_def)

lemma ev_io_stop_eq:
  assumes ok: "loop_ok l" and k: "wkind l w = Some Ev_io" and a: "active l w \<noteq> 0"
  shows "ev_io_stop w l = Inr (io_stopped w l)"
proof -
  have "active l w = 1" using kind_okD(4) [OF ok k] a by simp
  then have fd: "0 \<le> w_fd l w" "w_fd l w < int (length (anfds l))" using io_okD(3) [OF ok, of w] by auto
  then have "nat (w_fd l w) < length (anfds l)" by auto
  with fd a show ?thesis
    by (simp add: ev_io_stop_def io_stopped_def relink_def fd_change_def ev_stop_def Let_def)
qed

lemma io_stopped_ok:
  assumes ok: "loop_ok l" and k: "wkind l w = Some Ev_io" and a: "active l w \<noteq> 0"
  shows "loop_ok (io_stopped w l)"
proof -
  let ?i = "nat (w_fd l w)"
  define g where "g = clear_pending w l"
  define ws where "ws = wlist_del (head (anfds g ! ?i)) w"
  define r where "r = relink w 0 ?i ws EV_ANFD_REIFY (- 1) g"
  have s: "io_stopped w l = r" by (simp add: io_stopped_def g_def ws_def r_def Let_def)
  have gok: "loop_ok g" using clear_pending_ok [OF ok] by (simp add: g_def)
  have g: "active g = active l" "w_fd g = w_fd l" "wkind g = wkind l" by (simp_all add: g_def)
  have a1: "active g w = 1" using kind_okD(4) [OF ok k] a g by simp
  have fd: "0 \<le> w_fd l w" and i: "?i < length (anfds g)" and w: "w \<in> set (head (anfds g ! ?i))"
    using io_okD(3) [OF gok a1] g by auto
  have ws: "set ws = set (head (anfds g ! ?i)) - {w}" "distinct ws"
    using wlist_del_distinct [OF io_okD(2) [OF gok i]] by (simp_all add: ws_def)
  have own: "x = w \<Longrightarrow> x \<in> set (head (anfds g ! j)) \<Longrightarrow> j < length (anfds g) \<Longrightarrow> j = ?i" for x j
    using io_okD(1) [OF gok, of j w] g by auto
  have "io_ok r"
    unfolding io_ok_def
  proof (intro conjI allI impI ballI, goal_cases)
    case (1 j)
    then show ?case using io_okD(2) [OF gok, of j] ws by (auto simp: r_def relink_head)
  next
    case (2 j x)
    then show ?case using io_okD(1) [OF gok, of j x] ws own [of x j] by (auto simp: r_def relink_head split: if_splits)
  next
    case (3 j x)
    then show ?case using io_okD(1) [OF gok, of j x] ws by (auto simp: r_def relink_head split: if_splits)
  next
    case (4 x)
    then show ?case using io_okD(3) [OF gok, of x] by (auto simp: r_def split: if_splits)
  next
    case (5 x)
    then show ?case using io_okD(3) [OF gok, of x] by (auto simp: r_def split: if_splits)
  next
    case (6 x)
    then have x: "x \<noteq> w" "active g x = 1" by (auto simp: r_def split: if_splits)
    from io_okD(3) [OF gok x(2)] have j: "nat (w_fd g x) < length (anfds g)"
      and mem: "x \<in> set (head (anfds g ! nat (w_fd g x)))" by (auto simp: nat_less_iff)
    show ?case using j mem x(1) ws(1)
      by (cases "nat (w_fd g x) = nat (w_fd l w)") (simp_all add: r_def relink_head)
  qed
  moreover have "tim_ok r" unfolding r_def by (rule relink_tim_ok [OF gok]) (simp_all add: a1)
  moreover have "kind_ok r" using gok k by (auto simp: loop_ok_def kind_ok_def r_def g)
  moreover have "pend_ok r" "chg_ok r" "mask_ok r"
    using gok relink_pend_ok relink_chg_ok [OF _ i] relink_mask_ok [OF _ i] by (auto simp: loop_ok_def r_def)
  moreover have "cnt_ok r"
    unfolding r_def by (rule relink_cnt_ok [OF _ i]) (use gok wlist_del_length [OF w] in \<open>simp_all add: loop_ok_def ws_def\<close>)
  ultimately show ?thesis by (simp add: s loop_ok_def)
qed

section \<open>Starting and stopping timers\<close>

lemma tim_okD:
  assumes "loop_ok l"
  shows "heap_ord (timers l)" "heap_act (timers l, active l)"
    "he \<in> set (timers l) \<Longrightarrow> ANHE_at he = w_at l (ANHE_w he)"
    "HEAP0 \<le> active l w \<Longrightarrow> w \<in> ANHE_w ` set (timers l)"
    "i < length (timers l) \<Longrightarrow> active l (ANHE_w (timers l ! i)) = i + HEAP0"
    "he \<in> set (timers l) \<Longrightarrow> wkind l (ANHE_w he) = Some Ev_timer"
proof -
  show act: "i < length (timers l) \<Longrightarrow> active l (ANHE_w (timers l ! i)) = i + HEAP0" for i
    using assms by (auto simp: loop_ok_def tim_ok_def heap_act_def)
  assume "he \<in> set (timers l)"
  then obtain i where "i < length (timers l)" "timers l ! i = he" by (auto simp: in_set_conv_nth)
  with act [of i] have "active l (ANHE_w he) > 1" by (auto simp: HEAP0_def)
  then show "wkind l (ANHE_w he) = Some Ev_timer" using kind_okD(5) [OF assms] by blast
qed (use assms in \<open>auto simp: loop_ok_def tim_ok_def\<close>)

lemma not_timer:
  assumes "loop_ok l" "w \<notin> ANHE_w ` set (timers l)"
  shows "active l w = (if active l w = 1 then 1 else 0)"
proof -
  have "\<not> HEAP0 \<le> active l w" using tim_okD(4) [OF assms(1)] assms(2) by blast
  then have "\<not> active l w > 1" using kind_okD(6) [OF assms(1), of w] by blast
  then show ?thesis by auto
qed

text \<open>A change of the timer heap that leaves a heap behind keeps the invariant.\<close>

lemma retimed_ok:
  assumes ok: "loop_ok l" and ord: "heap_ord t" and act: "heap_act (t, a)"
    and t: "\<And>he. he \<in> set t \<Longrightarrow> ANHE_at he = at' (ANHE_w he) \<and> wkind l (ANHE_w he) = Some Ev_timer"
    and a: "\<And>x. x \<notin> ANHE_w ` set t \<Longrightarrow> a x = (if active l x = 1 then 1 else 0)"
    and c: "c = activecnt l + int (length t) - int (length (timers l))"
  shows "loop_ok (l\<lparr>timers := t, active := a, w_at := at', activecnt := c\<rparr>)"
proof -
  have in_t: "a x \<ge> HEAP0" "wkind l x = Some Ev_timer" "active l x \<noteq> 1" if "x \<in> ANHE_w ` set t" for x
  proof -
    from that obtain i where i: "i < length t" "ANHE_w (t ! i) = x" by (auto simp: in_set_conv_nth)
    then show "a x \<ge> HEAP0" using act by (auto simp: heap_act_def)
    show "wkind l x = Some Ev_timer" using that t by auto
    then show "active l x \<noteq> 1" using kind_okD(3) [OF ok, of x] by auto
  qed
  have one: "a x = 1 \<longleftrightarrow> active l x = 1" for x
    using in_t [of x] a [of x] by (cases "x \<in> ANHE_w ` set t") (auto simp: HEAP0_def)
  have kinds: "(a x \<noteq> 0 \<longrightarrow> wkind l x = Some (if a x = 1 then Ev_io else Ev_timer)) \<and> a x \<noteq> 2 \<and>
      (wkind l x = Some Ev_io \<longrightarrow> a x \<le> 1)" for x
    using in_t [of x] a [of x] kind_okD(3) [OF ok, of x] one [of x]
    by (cases "x \<in> ANHE_w ` set t") (auto simp: HEAP0_def)
  let ?l = "l\<lparr>timers := t, active := a, w_at := at', activecnt := c\<rparr>"
  have "tim_ok ?l"
    using ord act t a by (force simp: tim_ok_def HEAP0_def split: if_splits)
  moreover have "io_ok ?l" using ok one by (simp add: loop_ok_def io_ok_def)
  moreover have "kind_ok ?l" using ok kinds by (simp add: loop_ok_def kind_ok_def)
  moreover have "cnt_ok ?l" using ok c by (simp add: loop_ok_def cnt_ok_def)
  moreover have "pend_ok ?l" "chg_ok ?l" "mask_ok ?l"
    using ok by (simp_all add: loop_ok_def pend_ok_def chg_ok_def mask_ok_def wanted_def queued_def ABSPRI_def)
  ultimately show ?thesis by (simp add: loop_ok_def)
qed

text \<open>The timers and \<open>active\<close> fields that \<open>ev_timer_start\<close>, \<open>ev_timer_stop\<close> leave.\<close>

definition timer_started :: "addr \<Rightarrow> 'a ev_loop_scheme \<Rightarrow> 'a ev_loop_scheme" where
  "timer_started w l =
     (let at' = w_at l w + mn_now l; n = length (timers l);
          h = upheap (timers l @ [(at', w)], (active l)(w := n + HEAP0)) n
      in l\<lparr>timers := fst h, active := snd h, w_at := (w_at l)(w := at'), activecnt := activecnt l + 1\<rparr>)"

lemma ev_timer_start_eq:
  assumes ok: "loop_ok l" and k: "wkind l w = Some Ev_timer" and a: "active l w = 0" and r: "0 \<le> w_repeat l w"
  shows "ev_timer_start w l = Inr (timer_started w l)"
proof -
  have pri: "pri_ok (priority l w)" using kind_okD(7) [OF ok] k by simp
  then show ?thesis
    using a r by (simp add: ev_timer_start_def timer_started_def ev_start_def pri_adjust_id on_heap_def
        Let_def case_prod_beta)
qed

lemma heap_of_set: "heap_of vs act h \<Longrightarrow> set (fst h) = set vs" "heap_of vs act h \<Longrightarrow> length (fst h) = length vs"
  by (auto simp: heap_of_def dest: mset_eq_setD mset_eq_length)

lemma timer_started_ok:
  assumes ok: "loop_ok l" and k: "wkind l w = Some Ev_timer" and a: "active l w = 0"
  shows "loop_ok (timer_started w l)"
proof -
  let ?at = "w_at l w + mn_now l" and ?n = "length (timers l)"
  define h where "h = upheap (timers l @ [(?at, w)], (active l)(w := ?n + HEAP0)) ?n"
  have w: "w \<notin> ANHE_w ` set (timers l)" using io_not_timer [OF ok] a by simp
  have h: "heap_of (timers l @ [(?at, w)]) (active l) h"
    unfolding h_def by (rule upheap_last [OF tim_okD(1,2) [OF ok] w])
  have set: "set (fst h) = insert (?at, w) (set (timers l))" using heap_of_set(1) [OF h] by simp
  have s: "timer_started w l =
      l\<lparr>timers := fst h, active := snd h, w_at := (w_at l)(w := ?at), activecnt := activecnt l + 1\<rparr>"
    by (simp add: timer_started_def h_def Let_def)
  show ?thesis
    unfolding s
  proof (rule retimed_ok [OF ok])
    show "heap_ord (fst h)" "heap_act (fst h, snd h)" using h by (simp_all add: heap_of_def)
    show "ANHE_at he = ((w_at l)(w := ?at)) (ANHE_w he) \<and> wkind l (ANHE_w he) = Some Ev_timer"
      if "he \<in> set (fst h)" for he
      using that set w k tim_okD(3,6) [OF ok, of he] by auto
    show "snd h x = (if active l x = 1 then 1 else 0)" if "x \<notin> ANHE_w ` set (fst h)" for x
      using that h set not_timer [OF ok, of x] by (auto simp: heap_of_def)
    show "activecnt l + 1 = activecnt l + int (length (fst h)) - int (length (timers l))"
      using heap_of_set(2) [OF h] by simp
  qed
qed

definition timer_stopped :: "addr \<Rightarrow> 'a ev_loop_scheme \<Rightarrow> 'a ev_loop_scheme" where
  "timer_stopped w l =
     (let k = active l w - HEAP0; ts = timers l; cnt = length ts - 1;
          h = (if k < cnt then adjustheap ((butlast ts)[k := last ts], active l) cnt k else (butlast ts, active l))
      in l\<lparr>timers := fst h, active := (snd h)(w := 0), w_at := (w_at l)(w := w_at l w - mn_now l),
           activecnt := activecnt l - 1\<rparr>)"

lemma timer_index:
  assumes ok: "loop_ok l" and k: "wkind l w = Some Ev_timer" and a: "active l w \<noteq> 0"
  shows "active l w - HEAP0 < length (timers l)" "ANHE_w (timers l ! (active l w - HEAP0)) = w"
    "HEAP0 \<le> active l w"
proof -
  have "active l w \<noteq> 1" using kind_okD(3) [OF ok, of w] k by auto
  then have g: "HEAP0 \<le> active l w" using a kind_okD(6) [OF ok, of w] by simp
  then obtain i where "i < length (timers l)" "ANHE_w (timers l ! i) = w"
    using tim_okD(4) [OF ok] by (metis image_iff in_set_conv_nth)
  with tim_okD(5) [OF ok] show "active l w - HEAP0 < length (timers l)"
    "ANHE_w (timers l ! (active l w - HEAP0)) = w" by auto
  show "HEAP0 \<le> active l w" by (rule g)
qed

lemma ev_timer_stop_inactive: "active l w = 0 \<Longrightarrow> ev_timer_stop w l = Inr (clear_pending w l)"
  by (simp add: ev_timer_stop_def)

lemma ev_timer_stop_eq:
  assumes ok: "loop_ok l" and k: "wkind l w = Some Ev_timer" and a: "active l w \<noteq> 0"
  shows "ev_timer_stop w l = Inr (timer_stopped w (clear_pending w l))"
proof -
  note i = timer_index [OF assms]
  show ?thesis
    using a i by (simp add: ev_timer_stop_def timer_stopped_def on_heap_def ev_stop_def Let_def case_prod_beta)
qed

lemma heap_ord_butlast: "heap_ord hs \<Longrightarrow> heap_ord (butlast hs)"
  unfolding heap_ord_def
proof (intro allI impI)
  fix i assume *: "\<forall>i. 0 < i \<and> i < length hs \<longrightarrow> ANHE_at (hs ! HPARENT i) \<le> ANHE_at (hs ! i)"
    and i: "0 < i \<and> i < length (butlast hs)"
  then have "HPARENT i < length (butlast hs)" using HPARENT_less [of i] by simp
  with * i show "ANHE_at (butlast hs ! HPARENT i) \<le> ANHE_at (butlast hs ! i)" by (auto simp: nth_butlast)
qed

lemma heap_act_butlast: "heap_act (hs, act) \<Longrightarrow> heap_act (butlast hs, act)"
  by (auto simp: heap_act_def nth_butlast map_butlast distinct_butlast)

text \<open>Removing the element at index \<open>k\<close> by moving the last one into its place.\<close>

lemma heap_remove:
  assumes ord: "heap_ord ts" and act: "heap_act (ts, a)" and k: "k < length ts"
    and h: "h = (if k < length ts - 1 then adjustheap ((butlast ts)[k := last ts], a) (length ts - 1) k else (butlast ts, a))"
  shows "\<exists>vs. heap_of vs a h \<and> add_mset (ts ! k) (mset vs) = mset ts \<and> ANHE_w (ts ! k) \<notin> ANHE_w ` set vs"
proof -
  let ?vs = "if k < length ts - 1 then (butlast ts)[k := last ts] else butlast ts"
  have "ts \<noteq> []" using k by auto
  then have ts: "mset ts = add_mset (last ts) (mset (butlast ts))"
    by (metis append_butlast_last_id mset.simps mset_append union_mset_add_mset_right add.right_neutral)
  have m: "add_mset (ts ! k) (mset ?vs) = mset ts"
  proof (cases "k < length ts - 1")
    case True
    then have kb: "k < length (butlast ts)" "butlast ts ! k = ts ! k" by (simp_all add: nth_butlast)
    then have "ts ! k \<in># mset (butlast ts)" by (metis nth_mem set_mset_mset)
    then show ?thesis using True kb ts by (simp add: mset_update add_mset_commute)
  next
    case False
    then have "k = length ts - 1" using k by simp
    then have "ts ! k = last ts" using \<open>ts \<noteq> []\<close> by (simp add: last_conv_nth)
    then show ?thesis using False ts by simp
  qed
  then have "mset (map ANHE_w ts) = mset (map ANHE_w (ts ! k # ?vs))" by (metis mset.simps(2) mset_map)
  moreover have "distinct (map ANHE_w ts)" using act by (simp add: heap_act_def)
  ultimately have d: "distinct (map ANHE_w (ts ! k # ?vs))" by (metis mset_eq_imp_distinct_iff)
  have "heap_of ?vs a h"
  proof (cases "k < length ts - 1")
    case True
    then show ?thesis
      using adjustheap_replace [of "butlast ts" k a "last ts"] heap_ord_butlast [OF ord]
        heap_act_butlast [OF act] d h by (simp add: map_update)
  next
    case False
    then show ?thesis using h heap_ord_butlast [OF ord] heap_act_butlast [OF act] by (simp add: heap_of_def)
  qed
  moreover have "ANHE_w (ts ! k) \<notin> ANHE_w ` set ?vs" using d by auto
  ultimately show ?thesis using m by blast
qed

lemma timer_stopped_ok:
  assumes ok: "loop_ok l" and k: "wkind l w = Some Ev_timer" and a: "active l w \<noteq> 0"
  shows "loop_ok (timer_stopped w l)"
proof -
  let ?k = "active l w - HEAP0" and ?ts = "timers l"
  define h where "h = (if ?k < length ?ts - 1 then adjustheap ((butlast ?ts)[?k := last ?ts], active l) (length ?ts - 1) ?k
    else (butlast ?ts, active l))"
  note i = timer_index [OF assms]
  from heap_remove [OF tim_okD(1,2) [OF ok] i(1) h_def] i(2) obtain vs where
    vs: "heap_of vs (active l) h" "add_mset (?ts ! ?k) (mset vs) = mset ?ts" "w \<notin> ANHE_w ` set vs" by auto
  have set1: "set (fst h) = set vs" by (rule heap_of_set(1) [OF vs(1)])
  have set2: "set ?ts = insert (?ts ! ?k) (set vs)"
    using arg_cong [OF vs(2), of set_mset] by simp
  have set3: "length ?ts = length vs + 1"
    using arg_cong [OF vs(2), of size] by simp
  note set = set1 set2 set3
  have s: "timer_stopped w l =
      l\<lparr>timers := fst h, active := (snd h)(w := 0), w_at := (w_at l)(w := w_at l w - mn_now l), activecnt := activecnt l - 1\<rparr>"
    by (simp add: timer_stopped_def h_def Let_def)
  show ?thesis
    unfolding s
  proof (rule retimed_ok [OF ok])
    show "heap_ord (fst h)" using vs(1) by (simp add: heap_of_def)
    have "ANHE_w (fst h ! j) \<noteq> w" if "j < length (fst h)" for j using that vs(3) set(1) by force
    then show "heap_act (fst h, (snd h)(w := 0))" using vs(1) by (auto simp: heap_of_def heap_act_def)
    show "ANHE_at he = ((w_at l)(w := w_at l w - mn_now l)) (ANHE_w he) \<and> wkind l (ANHE_w he) = Some Ev_timer"
      if "he \<in> set (fst h)" for he
      using that set vs(3) tim_okD(3,6) [OF ok, of he] by auto
    show "((snd h)(w := 0)) x = (if active l x = 1 then 1 else 0)" if "x \<notin> ANHE_w ` set (fst h)" for x
    proof (cases "x = w")
      case True
      then show ?thesis using i(3) by (simp add: HEAP0_def)
    next
      case False
      then have "x \<notin> ANHE_w ` set ?ts" using that set i(2) by auto
      with False that set vs(1) show ?thesis using not_timer [OF ok, of x] by (auto simp: heap_of_def)
    qed
    show "activecnt l - 1 = activecnt l + int (length (fst h)) - int (length (timers l))"
      using heap_of_set(2) [OF vs(1)] set(3) by simp
  qed
qed

text \<open>Giving the timer at index \<open>k\<close> a new time: by \<open>adjustheap\<close>, or from the root by \<open>downheap\<close>.\<close>

definition timer_moved :: "heap \<Rightarrow> addr \<Rightarrow> real \<Rightarrow> 'a ev_loop_scheme \<Rightarrow> 'a ev_loop_scheme" where
  "timer_moved h w at' l = l\<lparr>timers := fst h, active := snd h, w_at := (w_at l)(w := at')\<rparr>"

lemma same_watchers:
  "k < length ts \<Longrightarrow> ANHE_w (ts ! k) = w \<Longrightarrow> map ANHE_w (ts[k := (at', w)]) = map ANHE_w ts"
  by (simp add: map_update list_update_same_conv)

lemma timer_moved_ok:
  assumes ok: "loop_ok l" and k: "k < length (timers l)" and w: "ANHE_w (timers l ! k) = w"
    and h: "heap_of ((timers l)[k := (at', w)]) (active l) h"
  shows "loop_ok (timer_moved h w at' l)"
proof -
  let ?vs = "(timers l)[k := (at', w)]"
  have ws: "map ANHE_w ?vs = map ANHE_w (timers l)" by (rule same_watchers [OF k w])
  have hws: "ANHE_w ` set (fst h) = ANHE_w ` set (timers l)"
    using heap_of_set(1) [OF h] ws by (metis list.set_map)
  have s: "timer_moved h w at' l = l\<lparr>timers := fst h, active := snd h, w_at := (w_at l)(w := at'), activecnt := activecnt l\<rparr>"
    by (simp add: timer_moved_def)
  show ?thesis
    unfolding s
  proof (rule retimed_ok [OF ok])
    show "heap_ord (fst h)" "heap_act (fst h, snd h)" using h by (simp_all add: heap_of_def)
    show "ANHE_at he = ((w_at l)(w := at')) (ANHE_w he) \<and> wkind l (ANHE_w he) = Some Ev_timer"
      if "he \<in> set (fst h)" for he
    proof -
      have he: "he \<in> set ?vs" using that heap_of_set(1) [OF h] by simp
      then obtain j where j: "j < length (timers l)" "?vs ! j = he" by (auto simp: in_set_conv_nth)
      have kind: "wkind l w = Some Ev_timer" using tim_okD(6) [OF ok, of "timers l ! k"] k w by simp
      show ?thesis
      proof (cases "j = k")
        case True
        then show ?thesis using j k kind by auto
      next
        case False
        then have "he = timers l ! j" using j by simp
        moreover from this have "ANHE_w he \<noteq> w" using tim_okD(5) [OF ok, of j] tim_okD(5) [OF ok, of k] j k w False by auto
        ultimately show ?thesis using tim_okD(3,6) [OF ok, of he] j by auto
      qed
    qed
    show "snd h x = (if active l x = 1 then 1 else 0)" if "x \<notin> ANHE_w ` set (fst h)" for x
    proof -
      have "x \<notin> ANHE_w ` set ?vs" using that heap_of_set(1) [OF h] by simp
      then have "snd h x = active l x" using h by (simp add: heap_of_def)
      then show ?thesis using not_timer [OF ok, of x] that hws by simp
    qed
    show "activecnt l = activecnt l + int (length (fst h)) - int (length (timers l))"
      using heap_of_set(2) [OF h] by simp
  qed
qed

definition timer_readjusted :: "addr \<Rightarrow> real \<Rightarrow> 'a ev_loop_scheme \<Rightarrow> 'a ev_loop_scheme" where
  "timer_readjusted w at' l =
     (let k = active l w - HEAP0; vs = (timers l)[k := (at', w)]
      in timer_moved (adjustheap (vs, active l) (length vs) k) w at' l)"

lemma timer_readjusted_ok:
  assumes ok: "loop_ok l" and k: "wkind l w = Some Ev_timer" and a: "active l w \<noteq> 0"
  shows "loop_ok (timer_readjusted w at' l)"
proof -
  note i = timer_index [OF assms]
  let ?k = "active l w - HEAP0"
  have "distinct (map ANHE_w ((timers l)[?k := (at', w)]))"
    unfolding same_watchers [OF i(1,2)] using tim_okD(2) [OF ok] by (simp add: heap_act_def)
  then have "heap_of ((timers l)[?k := (at', w)]) (active l) (adjustheap ((timers l)[?k := (at', w)], active l) (length (timers l)) ?k)"
    by (intro adjustheap_replace) (use tim_okD(1,2) [OF ok] i in auto)
  from timer_moved_ok [OF ok i(1,2) this] show ?thesis by (simp add: timer_readjusted_def Let_def)
qed

lemma ev_timer_again_eq:
  assumes ok: "loop_ok l" and k: "wkind l w = Some Ev_timer"
  shows "active l w \<noteq> 0 \<Longrightarrow> w_repeat l w \<noteq> 0 \<Longrightarrow>
      ev_timer_again w l = Inr (timer_readjusted w (mn_now l + w_repeat l w) (clear_pending w l))"
    and "active l w \<noteq> 0 \<Longrightarrow> w_repeat l w = 0 \<Longrightarrow> ev_timer_again w l = ev_timer_stop w (clear_pending w l)"
    and "active l w = 0 \<Longrightarrow> w_repeat l w \<noteq> 0 \<Longrightarrow> ev_timer_again w l =
      ev_timer_start w (clear_pending w l\<lparr>w_at := (w_at l)(w := w_repeat l w)\<rparr>)"
    and "active l w = 0 \<Longrightarrow> w_repeat l w = 0 \<Longrightarrow> ev_timer_again w l = Inr (clear_pending w l)"
  using timer_index [OF ok k]
  by (simp_all add: ev_timer_again_def timer_readjusted_def timer_moved_def on_heap_def Let_def case_prod_beta)

section \<open>Expired timers\<close>

text \<open>Every active timer has a repeat value that \<open>ev_timer_start\<close> accepts.\<close>

definition reps_ok :: "'a ev_loop_scheme \<Rightarrow> bool" where
  "reps_ok l \<longleftrightarrow> (\<forall>w. HEAP0 \<le> active l w \<longrightarrow> 0 \<le> w_repeat l w)"

definition due :: "'a ev_loop_scheme \<Rightarrow> anhe list" where
  "due l = filter (\<lambda>he. ANHE_at he < mn_now l) (timers l)"

lemma heap_root_min:
  assumes "heap_ord hs" "i < length hs"
  shows "ANHE_at (hs ! 0) \<le> ANHE_at (hs ! i)"
  using assms(2)
proof (induction i rule: less_induct)
  case (less i)
  show ?case
  proof (cases "i = 0")
    case False
    then have "HPARENT i < i" using HPARENT_less by simp
    with less have "ANHE_at (hs ! 0) \<le> ANHE_at (hs ! HPARENT i)" by simp
    also have "\<dots> \<le> ANHE_at (hs ! i)" using assms(1) less.prems False by (simp add: heap_ord_def)
    finally show ?thesis .
  qed simp
qed

lemma timer_due_iff: "loop_ok l \<Longrightarrow> timer_due l \<longleftrightarrow> due l \<noteq> []"
proof -
  assume ok: "loop_ok l"
  have "timer_due l" if "he \<in> set (timers l)" "ANHE_at he < mn_now l" for he
  proof -
    from that(1) obtain i where "i < length (timers l)" "timers l ! i = he" by (auto simp: in_set_conv_nth)
    with heap_root_min [OF tim_okD(1) [OF ok], of i] that show ?thesis by (auto simp: timer_due_def)
  qed
  moreover have "timers l ! 0 \<in> set (timers l)" if "timer_due l" using that by (simp add: timer_due_def)
  ultimately show ?thesis by (auto simp: due_def timer_due_def filter_empty_conv)
qed

lemma timer_on:
  assumes ok: "loop_ok l"
  shows "x \<in> ANHE_w ` set (timers l) \<longleftrightarrow> HEAP0 \<le> active l x"
proof
  assume "x \<in> ANHE_w ` set (timers l)"
  then obtain j where "j < length (timers l)" "ANHE_w (timers l ! j) = x" by (auto simp: in_set_conv_nth)
  then show "HEAP0 \<le> active l x" using tim_okD(5) [OF ok, of j] by auto
qed (rule tim_okD(4) [OF ok])

text \<open>What firing the earliest timer \<open>w\<close> changes.\<close>

definition fired :: "addr \<Rightarrow> anhe \<Rightarrow> 'a ev_loop_scheme \<Rightarrow> 'a ev_loop_scheme \<Rightarrow> bool" where
  "fired w he l l' \<longleftrightarrow> loop_ok l' \<and> reps_ok l' \<and> wkind l' = wkind l \<and> w_repeat l' = w_repeat l \<and>
     mn_now l' = mn_now l \<and> rfeeds l' = rfeeds l @ [w] \<and> mset (due l) = add_mset he (mset (due l')) \<and>
     (\<forall>x. x \<noteq> w \<longrightarrow> (HEAP0 \<le> active l' x \<longleftrightarrow> HEAP0 \<le> active l x)) \<and>
     (HEAP0 \<le> active l' w \<longleftrightarrow> w_repeat l w \<noteq> 0)"

lemma reps_ok_less:
  "reps_ok l \<Longrightarrow> w_repeat l' = w_repeat l \<Longrightarrow> (\<And>x. HEAP0 \<le> active l' x \<Longrightarrow> HEAP0 \<le> active l x) \<Longrightarrow> reps_ok l'"
  by (simp add: reps_ok_def)

lemma timer_fire_stop:
  assumes ok: "loop_ok l" and reps: "reps_ok l" and due: "timer_due l"
    and w: "w = ANHE_w (timers l ! 0)" and r: "w_repeat l w = 0"
  shows "\<exists>l'. timer_fire l = Inr l' \<and> fired w (timers l ! 0) l l'"
proof -
  have ne: "0 < length (timers l)" and late: "ANHE_at (timers l ! 0) < mn_now l" using due by (auto simp: timer_due_def)
  have k: "wkind l w = Some Ev_timer" using tim_okD(6) [OF ok, of "timers l ! 0"] ne w by simp
  have act: "active l w = HEAP0" "active l w \<noteq> 0" using tim_okD(5) [OF ok ne] w by (simp_all add: HEAP0_def)
  let ?s = "timer_stopped w (clear_pending w l)"
  define l' where "l' = feed_reverse w ?s"
  have sok: "loop_ok ?s" by (rule timer_stopped_ok) (use clear_pending_ok [OF ok] k act in simp_all)
  then have lok: "loop_ok l'" by (simp add: l'_def feed_reverse_def)
  define h where "h = (if 0 < length (timers l) - 1
    then adjustheap ((butlast (timers l))[0 := last (timers l)], active l) (length (timers l) - 1) 0
    else (butlast (timers l), active l))"
  have f: "timers l' = fst h" "wkind l' = wkind l" "w_repeat l' = w_repeat l" "mn_now l' = mn_now l"
    "rfeeds l' = rfeeds l @ [w]"
    by (simp_all add: l'_def feed_reverse_def timer_stopped_def Let_def h_def act(1))
  from heap_remove [OF tim_okD(1,2) [OF ok] ne h_def] w obtain vs where
    vs: "heap_of vs (active l) h" "add_mset (timers l ! 0) (mset vs) = mset (timers l)" "w \<notin> ANHE_w ` set vs"
    by blast
  have "mset (due l) = add_mset (timers l ! 0) (filter_mset (\<lambda>he. ANHE_at he < mn_now l) (mset vs))"
    using late by (simp add: due_def flip: vs(2))
  then have d: "mset (due l) = add_mset (timers l ! 0) (mset (due l'))"
    using vs(1) f by (simp add: due_def heap_of_def)
  have "set (timers l) = insert (timers l ! 0) (set vs)" using arg_cong [OF vs(2), of set_mset] by simp
  then have tm: "ANHE_w ` set (timers l') = ANHE_w ` set (timers l) - {w}"
    using heap_of_set(1) [OF vs(1)] vs(3) f w by auto
  have on: "HEAP0 \<le> active l' x \<longleftrightarrow> HEAP0 \<le> active l x \<and> x \<noteq> w" for x
    using tm timer_on [OF lok, of x] timer_on [OF ok, of x] by auto
  have "reps_ok l'" by (rule reps_ok_less [OF reps f(3)]) (simp add: on)
  moreover have "timer_fire l = Inr l'"
    using r w ev_timer_stop_eq [OF ok k act(2)] by (simp add: timer_fire_def Let_def l'_def)
  ultimately show ?thesis using lok f d on r by (auto simp: fired_def)
qed

lemma timer_fire_again:
  assumes ok: "loop_ok l" and reps: "reps_ok l" and due: "timer_due l"
    and w: "w = ANHE_w (timers l ! 0)" and r: "w_repeat l w \<noteq> 0"
  shows "\<exists>l'. timer_fire l = Inr l' \<and> fired w (timers l ! 0) l l'"
proof -
  have ne: "0 < length (timers l)" and late: "ANHE_at (timers l ! 0) < mn_now l" using due by (auto simp: timer_due_def)
  have act: "active l w = HEAP0" using tim_okD(5) [OF ok ne] w by simp
  then have "0 \<le> w_repeat l w" using reps by (simp add: reps_ok_def)
  then have rep: "0 < w_repeat l w" using r by simp
  define at' where "at' = (if w_at l w + w_repeat l w < mn_now l then mn_now l else w_at l w + w_repeat l w)"
  define h where "h = downheap ((timers l)[0 := (at', w)], active l) (length (timers l)) 0"
  define l' where "l' = feed_reverse w (timer_moved h w at' l)"
  have h: "heap_of ((timers l)[0 := (at', w)]) (active l) h"
    unfolding h_def by (rule downheap_root [OF tim_okD(1) [OF ok] _ tim_okD(2) [OF ok]]) (use ne w in auto)
  have lok: "loop_ok l'"
    using timer_moved_ok [OF ok ne w [symmetric] h] by (simp add: l'_def feed_reverse_def)
  have f: "timers l' = fst h" "wkind l' = wkind l" "w_repeat l' = w_repeat l" "mn_now l' = mn_now l"
    "rfeeds l' = rfeeds l @ [w]"
    by (simp_all add: l'_def feed_reverse_def timer_moved_def)
  have "timers l ! 0 \<in># mset (timers l)" using ne by simp
  then obtain R where R: "mset (timers l) = add_mset (timers l ! 0) R" by (blast dest: multi_member_split)
  moreover have R': "mset (timers l') = add_mset (at', w) R"
    using h ne f R by (simp add: heap_of_def mset_update)
  moreover have "\<not> at' < mn_now l" by (simp add: at'_def)
  ultimately have d: "mset (due l) = add_mset (timers l ! 0) (mset (due l'))"
    using late by (simp add: due_def f(4))
  have "ANHE_w ` set (timers l') = ANHE_w ` set (timers l)"
    using heap_of_set(1) [OF h] f same_watchers [OF ne w [symmetric]] by (metis list.set_map)
  then have on: "HEAP0 \<le> active l' x \<longleftrightarrow> HEAP0 \<le> active l x" for x
    using timer_on [OF lok, of x] timer_on [OF ok, of x] by auto
  have "reps_ok l'" by (rule reps_ok_less [OF reps f(3)]) (simp add: on)
  moreover have "timer_fire l = Inr l'"
    using r w rep by (simp add: timer_fire_def Let_def l'_def at'_def h_def on_heap_def timer_moved_def
        feed_reverse_def case_prod_beta)
  ultimately show ?thesis using lok f d on r act by (auto simp: fired_def)
qed

lemma timer_fire_step:
  assumes "loop_ok l" "reps_ok l" "timer_due l"
  shows "\<exists>l'. timer_fire l = Inr l' \<and> fired (ANHE_w (timers l ! 0)) (timers l ! 0) l l'"
  using timer_fire_stop [OF assms refl] timer_fire_again [OF assms refl] by blast

lemma fire_loop_correct:
  assumes "loop_ok l" "reps_ok l"
  shows "\<exists>l'. fire_loop l = Some (Inr l') \<and> loop_ok l' \<and> reps_ok l' \<and> wkind l' = wkind l \<and>
    w_repeat l' = w_repeat l \<and> mn_now l' = mn_now l \<and> due l' = [] \<and>
    mset (rfeeds l') = mset (rfeeds l) + mset (map ANHE_w (due l)) \<and>
    (\<forall>x. HEAP0 \<le> active l' x \<longleftrightarrow> HEAP0 \<le> active l x \<and> (x \<in> ANHE_w ` set (due l) \<longrightarrow> w_repeat l x \<noteq> 0))"
  using assms
proof (induction "length (due l)" arbitrary: l)
  case 0
  then show ?case using timer_due_iff [of l] by (subst fire_loop.simps) simp
next
  case (Suc n)
  then have td: "timer_due l" using timer_due_iff [of l] by auto
  let ?w = "ANHE_w (timers l ! 0)"
  from timer_fire_step [OF Suc.prems td] obtain l1 where
    l1: "timer_fire l = Inr l1" "fired ?w (timers l ! 0) l l1" by blast
  note f = l1(2) [unfolded fired_def]
  have m: "mset (map ANHE_w (due l)) = add_mset ?w (mset (map ANHE_w (due l1)))"
    using f by (metis image_mset_add_mset mset_map)
  have "n = length (due l1)"
    using f Suc.hyps(2) by (metis size_add_mset size_mset Suc_inject)
  from Suc.hyps(1) [OF this] f obtain l' where
    l': "fire_loop l1 = Some (Inr l')" "loop_ok l'" "reps_ok l'" "wkind l' = wkind l1" "w_repeat l' = w_repeat l1"
      "mn_now l' = mn_now l1" "due l' = []" "mset (rfeeds l') = mset (rfeeds l1) + mset (map ANHE_w (due l1))"
      "\<forall>x. HEAP0 \<le> active l' x \<longleftrightarrow> HEAP0 \<le> active l1 x \<and> (x \<in> ANHE_w ` set (due l1) \<longrightarrow> w_repeat l1 x \<noteq> 0)"
    by blast
  have ws: "ANHE_w ` set (due l) = insert ?w (ANHE_w ` set (due l1))"
    using arg_cong [OF m, of set_mset] by simp
  have "HEAP0 \<le> active l ?w"
    using td timer_on [OF Suc.prems(1), of ?w] by (auto simp: timer_due_def)
  with l'(9) f ws have "\<forall>x. HEAP0 \<le> active l' x \<longleftrightarrow> HEAP0 \<le> active l x \<and> (x \<in> ANHE_w ` set (due l) \<longrightarrow> w_repeat l x \<noteq> 0)"
    by (metis insert_iff)
  moreover have "fire_loop l = Some (Inr l')" using td l1(1) l'(1) by (subst fire_loop.simps) simp
  ultimately show ?case using l' f m by (intro exI [of _ l']) auto
qed

lemma fold_feed_pending:
  fixes l :: "'a ev_loop_scheme"
  shows "w \<in> set ws \<Longrightarrow> pending (fold (\<lambda>w. ev_feed_event w r) ws l) w \<noteq> 0"
    and "pending l w \<noteq> 0 \<Longrightarrow> pending (fold (\<lambda>w. ev_feed_event w r) ws l) w \<noteq> 0"
proof -
  have keep: "pending l w \<noteq> 0 \<Longrightarrow> pending (fold (\<lambda>w. ev_feed_event w r) ws l) w \<noteq> 0" for l :: "'a ev_loop_scheme"
    by (induction ws arbitrary: l) auto
  then show "pending l w \<noteq> 0 \<Longrightarrow> pending (fold (\<lambda>w. ev_feed_event w r) ws l) w \<noteq> 0" .
  show "w \<in> set ws \<Longrightarrow> pending (fold (\<lambda>w. ev_feed_event w r) ws l) w \<noteq> 0"
  proof (induction ws arbitrary: l)
    case (Cons x xs)
    have "pending m w \<noteq> 0 \<Longrightarrow> pending (fold (\<lambda>w. ev_feed_event w r) xs m) w \<noteq> 0" for m :: "'a ev_loop_scheme"
      by (induction xs arbitrary: m) auto
    from this [of "ev_feed_event x r l"] Cons show ?case by (cases "w = x") auto
  qed simp
qed

lemma fold_feed_fields:
  "wkind (fold (\<lambda>w. ev_feed_event w r) ws l) = wkind l" "active (fold (\<lambda>w. ev_feed_event w r) ws l) = active l"
  "timers (fold (\<lambda>w. ev_feed_event w r) ws l) = timers l" "mn_now (fold (\<lambda>w. ev_feed_event w r) ws l) = mn_now l"
  "w_repeat (fold (\<lambda>w. ev_feed_event w r) ws l) = w_repeat l"
  by (induction ws arbitrary: l) simp_all

text \<open>
  \<open>timers_reify\<close> ends, leaves no timer that is due, makes every due timer's watcher pending,
  keeps the repeating ones active and stops the others.
\<close>

lemma timers_reify_correct:
  assumes ok: "loop_ok l" and reps: "reps_ok l" and rf: "rfeeds l = []"
  shows "\<exists>l'. timers_reify l = Some (Inr l') \<and> loop_ok l' \<and> reps_ok l' \<and> due l' = [] \<and> rfeeds l' = [] \<and>
    wkind l' = wkind l \<and> (\<forall>x \<in> ANHE_w ` set (due l). pending l' x \<noteq> 0) \<and>
    (\<forall>x. HEAP0 \<le> active l' x \<longleftrightarrow> HEAP0 \<le> active l x \<and> (x \<in> ANHE_w ` set (due l) \<longrightarrow> w_repeat l x \<noteq> 0))"
proof (cases "timer_due l")
  case False
  then have "due l = []" using timer_due_iff [OF ok] by simp
  with False assms show ?thesis by (simp add: timers_reify_def)
next
  case True
  from fire_loop_correct [OF ok reps] rf obtain m where
    m: "fire_loop l = Some (Inr m)" "loop_ok m" "reps_ok m" "wkind m = wkind l" "due m = []"
      "mset (rfeeds m) = mset (map ANHE_w (due l))"
      "\<forall>x. HEAP0 \<le> active m x \<longleftrightarrow> HEAP0 \<le> active l x \<and> (x \<in> ANHE_w ` set (due l) \<longrightarrow> w_repeat l x \<noteq> 0)"
    by auto
  let ?l = "feed_reverse_done EV_TIMER m"
  have rs: "set (rfeeds m) = ANHE_w ` set (due l)" using arg_cong [OF m(6), of set_mset] by simp
  have "wkind m x \<noteq> None" if "x \<in> set (rfeeds m)" for x
    using that rs tim_okD(6) [OF ok] m(4) by (auto simp: due_def)
  then have "loop_ok ?l" using feed_reverse_done_ok [OF m(2)] by blast
  moreover have "reps_ok ?l" "due ?l = []" "rfeeds ?l = []" "wkind ?l = wkind l" "active ?l = active m"
    using m by (simp_all add: feed_reverse_done_def reps_ok_def due_def fold_feed_fields)
  moreover have "\<forall>x \<in> ANHE_w ` set (due l). pending ?l x \<noteq> 0"
    using fold_feed_pending(1) [of _ "rev (rfeeds m)"] rs by (auto simp: feed_reverse_done_def)
  ultimately show ?thesis using True m by (auto simp: timers_reify_def)
qed

section \<open>One turn of the reconciliation with the kernel\<close>

lemma reify_fd_fields:
  assumes "reify_fd fd l = (l', cs)"
  shows "l' = l\<lparr>anfds := (anfds l)[nat fd := (anfds l ! nat fd)\<lparr>reify := 0, ev_mask := wanted l (nat fd)\<rparr>]\<rparr>"
    and "cs = [] \<Longrightarrow> ev_mask (anfds l ! nat fd) = wanted l (nat fd)"
    and "cs \<noteq> [] \<Longrightarrow> cs = [(fd, ev_mask (anfds l ! nat fd), wanted l (nat fd))]"
proof -
  have io: "ucast EV__IOFDSET AND ucast EV__IOFDSET \<noteq> (0 :: byte)" by (simp add: EV__IOFDSET_def)
  show "l' = l\<lparr>anfds := (anfds l)[nat fd := (anfds l ! nat fd)\<lparr>reify := 0, ev_mask := wanted l (nat fd)\<rparr>]\<rparr>"
    using assms by (simp add: reify_fd_def wanted_def Let_def)
  show "cs = [] \<Longrightarrow> ev_mask (anfds l ! nat fd) = wanted l (nat fd)"
    using assms io by (auto simp: reify_fd_def wanted_def Let_def split: if_splits)
  show "cs \<noteq> [] \<Longrightarrow> cs = [(fd, ev_mask (anfds l ! nat fd), wanted l (nat fd))]"
    using assms by (auto simp: reify_fd_def wanted_def Let_def split: if_splits)
qed

section \<open>Running the callbacks\<close>

definition total_pending :: "'a ev_loop_scheme \<Rightarrow> nat" where
  "total_pending l = (\<Sum>p < NUMPRI. length (pendings l p))"

text \<open>
  What a callback may do: it returns, keeps the invariant (the loop's and a further one, \<open>I\<close>) and
  does not make events pending itself (stopping a watcher overwrites its entry of the queue, and so
  keeps the queue's length).
\<close>

definition quiet_cb ::
    "('a ev_loop_scheme \<Rightarrow> 'g \<Rightarrow> bool) \<Rightarrow> ('a ev_loop_scheme, 'g) callback \<Rightarrow> bool" where
  "quiet_cb I cb \<longleftrightarrow> (\<forall>w r l g. I l g \<and> loop_ok l \<and> wkind l w \<noteq> None \<longrightarrow>
     (\<exists>l' g'. cb w r l g = Some (Inr (l', g')) \<and> I l' g' \<and> loop_ok l' \<and>
       (\<forall>p. length (pendings l' p) \<le> length (pendings l p)) \<and> pendingpri l' = pendingpri l))"

text \<open>\<open>I\<close> does not look at the pending queues.\<close>

definition queue_free :: "('a ev_loop_scheme \<Rightarrow> 'g \<Rightarrow> bool) \<Rightarrow> bool" where
  "queue_free I \<longleftrightarrow> (\<forall>l g q n k. I l g \<longrightarrow> I (l\<lparr>pendings := q, pending := n, pendingpri := k\<rparr>) g)"

lemma queue_freeD:
  assumes "queue_free I" "I l g"
  shows "I (l\<lparr>pendings := q\<rparr>) g" "I (l\<lparr>pendings := q, pending := n\<rparr>) g" "I (l\<lparr>pendingpri := k\<rparr>) g"
proof -
  have f: "I (l\<lparr>pendings := q, pending := n, pendingpri := k\<rparr>) g" for q n k using assms by (simp add: queue_free_def)
  show "I (l\<lparr>pendings := q\<rparr>) g" using f [of "pendingpri l" "pending l" q] by simp
  show "I (l\<lparr>pendings := q, pending := n\<rparr>) g" using f [of "pendingpri l" n q] by simp
  show "I (l\<lparr>pendingpri := k\<rparr>) g" using f [of k "pending l" "pendings l"] by simp
qed

lemma total_pending_pop:
  assumes "p < NUMPRI" "pendings l p \<noteq> []" "\<And>q. length (pendings m q) \<le> length (((pendings l)(p := butlast (pendings l p))) q)"
  shows "total_pending m < total_pending l"
proof -
  have "total_pending m \<le> (\<Sum>q < NUMPRI. length (((pendings l)(p := butlast (pendings l p))) q))"
    unfolding total_pending_def by (rule sum_mono) (rule assms(3))
  also have "\<dots> < total_pending l"
    unfolding total_pending_def
  proof (rule sum_strict_mono_ex1)
    show "\<exists>q \<in> {..<NUMPRI}. length (((pendings l)(p := butlast (pendings l p))) q) < length (pendings l q)"
      using assms(1,2) by (intro bexI [of _ p]) auto
  qed auto
  finally show ?thesis .
qed

lemma invoke_loop_correct:
  assumes cb: "quiet_cb I cb" and fr: "queue_free I" and "I l g" "loop_ok l" "pendingpri l < NUMPRI"
    "\<forall>p. p > pendingpri l \<longrightarrow> pendings l p = []"
  shows "\<exists>l' g'. invoke_loop cb l g = Some (Inr (l', g')) \<and> I l' g' \<and> loop_ok l' \<and> (\<forall>p. pendings l' p = [])"
  using assms(3-)
proof (induction "(total_pending l, pendingpri l)" arbitrary: l g rule: wf_induct_rule [OF wf_lex_prod [OF wf_less_than wf_less_than]])
  case (1 l g)
  let ?p = "pendingpri l" and ?ps = "pendings l (pendingpri l)"
  let ?l1 = "l\<lparr>pendings := (pendings l)(?p := butlast ?ps)\<rparr>"
  have go: "\<exists>l' g'. invoke_loop cb m k = Some (Inr (l', g')) \<and> I l' g' \<and> loop_ok l' \<and> (\<forall>p. pendings l' p = [])"
    if ne: "?ps \<noteq> []" and m: "I m k" "loop_ok m" "pendingpri m = ?p"
      and len: "\<And>q. length (pendings m q) \<le> length (((pendings l)(?p := butlast ?ps)) q)" for m k
  proof (rule "1.hyps")
    show "((total_pending m, pendingpri m), total_pending l, pendingpri l) \<in> less_than <*lex*> less_than"
      using total_pending_pop [OF "1.prems"(3) ne len] by simp
    show "\<forall>q. q > pendingpri m \<longrightarrow> pendings m q = []"
    proof (intro allI impI)
      fix q assume "q > pendingpri m"
      with m(3) "1.prems"(4) have "((pendings l)(?p := butlast ?ps)) q = []" by simp
      then show "pendings m q = []" using len [of q] by simp
    qed
  qed (use m "1.prems"(3) in auto)
  show ?case
  proof (cases "?ps = []")
    case False
    note pop = pop_ok [OF "1.prems"(2) False refl]
    show ?thesis
    proof (cases "fst (last ?ps)")
      case PendingW
      then show ?thesis
        using go [of ?l1 g] pop(1) False queue_freeD(1) [OF fr "1.prems"(1)]
        by (subst invoke_loop.simps) (simp add: Let_def)
    next
      case (W w)
      let ?m = "?l1\<lparr>pending := (pending ?l1)(w := 0)\<rparr>"
      have "I ?m g" "loop_ok ?m" "wkind ?m w \<noteq> None"
        using pop(2,3) [OF W] queue_freeD(2) [OF fr "1.prems"(1)] by simp_all
      with cb obtain l2 g2 where c: "cb w (snd (last ?ps)) ?m g = Some (Inr (l2, g2))" "I l2 g2" "loop_ok l2"
        "\<And>q. length (pendings l2 q) \<le> length (pendings ?m q)" "pendingpri l2 = pendingpri ?m"
        unfolding quiet_cb_def by blast
      have "\<exists>l' g'. invoke_loop cb l2 g2 = Some (Inr (l', g')) \<and> I l' g' \<and> loop_ok l' \<and> (\<forall>p. pendings l' p = [])"
        by (rule go [OF False c(2,3)]) (use c(4,5) in simp_all)
      then show ?thesis using False W c(1) by (subst invoke_loop.simps) (simp add: Let_def)
    qed
  next
    case True
    show ?thesis
    proof (cases "?p = 0")
      case True
      then have "\<forall>p. pendings l p = []" using \<open>?ps = []\<close> "1.prems"(4) by (metis not_gr_zero)
      then show ?thesis using True "1.prems"(1,2) by (subst invoke_loop.simps) (simp add: Let_def)
    next
      case False
      let ?m = "l\<lparr>pendingpri := ?p - 1\<rparr>"
      have "\<forall>q. q > ?p - 1 \<longrightarrow> pendings l q = []" using True "1.prems"(4) by (metis Suc_pred' False bot_nat_0.not_eq_extremum less_antisym not_less_eq)
      then have "\<exists>l' g'. invoke_loop cb ?m g = Some (Inr (l', g')) \<and> I l' g' \<and> loop_ok l' \<and> (\<forall>p. pendings l' p = [])"
        using "1.hyps" [of ?m g] "1.prems" False queue_freeD(3) [OF fr "1.prems"(1)] by (simp add: total_pending_def)
      then show ?thesis using True False by (subst invoke_loop.simps) (simp add: Let_def)
    qed
  qed
qed

text \<open>\<open>ev_invoke_pending\<close> starts at the highest priority.\<close>

lemma ev_invoke_pending_correct:
  assumes "quiet_cb I cb" "queue_free I" "I l g" "loop_ok l"
  shows "\<exists>l' g'. ev_invoke_pending cb l g = Some (Inr (l', g')) \<and> I l' g' \<and> loop_ok l' \<and> (\<forall>p. pendings l' p = [])"
proof -
  have "pendings l p = []" if "NUMPRI - 1 < p" for p
  proof -
    have "NUMPRI \<le> p" using that by (simp add: NUMPRI_def)
    then show ?thesis using assms(4) by (simp add: loop_ok_def pend_ok_def)
  qed
  then show ?thesis
    unfolding ev_invoke_pending_def
    by (intro invoke_loop_correct [OF assms(1,2)]) (use assms queue_freeD(3) [OF assms(2,3)] in \<open>simp_all add: NUMPRI_def\<close>)
qed

end
