(* ===== verification/Event_Loop.thy ===== *)
theory Event_Loop
  imports Ev_Loop_Inv
begin

unbundle bit_operations_syntax

text \<open>
  The server's event loop class (\<open>base/event_loop.h\<close>, \<open>base/event_loop.cpp\<close>): a wrapper that
  owns io and timer watchers and registers them with libev. An \<open>IOWatcher\<close> or a \<open>TimerWatcher\<close>
  holds the libev watcher, so both have the same address here; what \<open>new\<close> returns is an argument
  of the operation that allocates. The callback and its data are a value of a type parameter.
  A use of a watcher that is not allocated is the fault \<open>UseAfterFree\<close>.
\<close>

section \<open>The event loop\<close>

definition READ :: u32 where "READ = 0x1"

definition WRITE :: u32 where "WRITE = 0x2"

definition TRANS_TO_EV_MASK :: "u32 \<Rightarrow> u32" where
  "TRANS_TO_EV_MASK msk =
     ((if msk AND READ \<noteq> 0 then EV_READ else 0) OR (if msk AND WRITE \<noteq> 0 then EV_WRITE else 0))"

definition TRANS_FROM_EV_MASK :: "u32 \<Rightarrow> u32" where
  "TRANS_FROM_EV_MASK msk =
     ((if msk AND EV_READ \<noteq> 0 then READ else 0) OR (if msk AND EV_WRITE \<noteq> 0 then WRITE else 0))"

record 'cb event_loop = ev_loop +
  w_cb :: "addr \<Rightarrow> 'cb"
  need_repeat :: "addr \<Rightarrow> bool"

text \<open>The constructor: \<open>ev_loop_new\<close> zeroes the structure, reads the clocks and starts the epoll backend.\<close>

definition event_loop_new :: "real \<Rightarrow> real \<Rightarrow> 'cb \<Rightarrow> 'cb event_loop" where
  "event_loop_new rt mn cb0 =
     \<lparr>wkind = Map.empty, active = \<lambda>_. 0, pending = \<lambda>_. 0, priority = \<lambda>_. 0, w_fd = \<lambda>_. 0,
      w_events = \<lambda>_. 0, w_at = \<lambda>_. 0, w_repeat = \<lambda>_. 0, ev_rt_now = rt, mn_now = mn, now_floor = mn,
      rtmn_diff = rt - mn, rfeeds = [],
      pendings = \<lambda>_. [], pendingpri = 0, activecnt = 0, loop_done = EVBREAK_CANCEL, anfds = [],
      fdchanges = [], timers = [], postfork = 0, epoll_eperms = [], epoll_eventmax = 64, w_cb = \<lambda>_. cb0, need_repeat = \<lambda>_. False\<rparr>"

definition stop :: "('cb, 'a) event_loop_scheme \<Rightarrow> ('cb, 'a) event_loop_scheme" where
  "stop l = ev_break EVBREAK_ALL l"

text \<open>\<open>static_cast<unsigned long>(ev_now(loop_) * 1000000)\<close>: truncation of a time that is not negative.\<close>

definition now :: "('cb, 'a) event_loop_scheme \<Rightarrow> nat" where
  "now l = nat \<lfloor>ev_rt_now l * 1000000\<rfloor>"

definition create_io_event ::
    "addr \<Rightarrow> 'cb \<Rightarrow> ('cb, 'a) event_loop_scheme \<Rightarrow> ('cb, 'a) event_loop_scheme" where
  "create_io_event a cb l = ev_init Ev_io a (l\<lparr>w_cb := (w_cb l)(a := cb)\<rparr>)"

definition start_io_event ::
    "addr \<Rightarrow> fd \<Rightarrow> u32 \<Rightarrow> ('cb, 'a) event_loop_scheme \<Rightarrow> ('cb, 'a) event_loop_scheme res" where
  "start_io_event w fd msk l =
     (if wkind l w \<noteq> Some Ev_io then Inl UseAfterFree
      else if active l w \<noteq> 0
      then let active_events = TRANS_FROM_EV_MASK (w_events l w);
               events = active_events OR msk
           in if events = active_events then Inr l
              else let events = TRANS_TO_EV_MASK events
                   in rbind (ev_io_stop w l) (\<lambda>l. ev_io_start w (ev_io_set w fd events l))
      else let events = TRANS_TO_EV_MASK msk
           in ev_io_start w (ev_io_set w fd events l))"

definition stop_io_event ::
    "addr \<Rightarrow> fd \<Rightarrow> u32 \<Rightarrow> ('cb, 'a) event_loop_scheme \<Rightarrow> ('cb, 'a) event_loop_scheme res" where
  "stop_io_event w fd msk l =
     (if wkind l w \<noteq> Some Ev_io then Inl UseAfterFree
      else let active_events = TRANS_FROM_EV_MASK (w_events l w);
               events = active_events AND NOT msk
           in if events = active_events then Inr l
              else let events = TRANS_TO_EV_MASK events
                   in rbind (ev_io_stop w l)
                        (\<lambda>l. if events \<noteq> EV_NONE then ev_io_start w (ev_io_set w fd events l) else Inr l))"

text \<open>\<open>delete w\<close>: the memory of the watcher is given back.\<close>

definition free_watcher :: "addr \<Rightarrow> 'a ev_loop_scheme \<Rightarrow> 'a ev_loop_scheme" where
  "free_watcher w l = l\<lparr>wkind := (wkind l)(w := None)\<rparr>"

definition delete_io_event ::
    "addr \<Rightarrow> ('cb, 'a) event_loop_scheme \<Rightarrow> ('cb, 'a) event_loop_scheme res" where
  "delete_io_event w l =
     (if wkind l w \<noteq> Some Ev_io then Inl UseAfterFree
      else rbind (ev_io_stop w l) (\<lambda>l. Inr (free_watcher w l)))"

definition create_timer ::
    "addr \<Rightarrow> 'cb \<Rightarrow> bool \<Rightarrow> ('cb, 'a) event_loop_scheme \<Rightarrow> ('cb, 'a) event_loop_scheme" where
  "create_timer a cb rpt l =
     ev_init Ev_timer a (l\<lparr>w_cb := (w_cb l)(a := cb), need_repeat := (need_repeat l)(a := rpt)\<rparr>)"

text \<open>
  \<open>float\<close> arithmetic: a real rounded to the nearest single-precision number (24 bits, ties to
  even; the values here are neither tiny nor huge). \<open>1000000.0f\<close> is exact.
\<close>

definition to_float :: "real \<Rightarrow> real" where
  "to_float x =
     (if x = 0 then 0
      else let u = 2 powr (of_int \<lfloor>log 2 \<bar>x\<bar>\<rfloor> - 23); f = \<lfloor>x / u\<rfloor>; d = x / u - of_int f
           in (if d < 1 / 2 \<or> d = 1 / 2 \<and> even f then of_int f else of_int f + 1) * u)"

definition float_sec :: "u32 \<Rightarrow> real" where
  "float_sec usec = to_float (to_float (real (unat usec)) / 1000000)"

definition start_timer ::
    "addr \<Rightarrow> u32 \<Rightarrow> ('cb, 'a) event_loop_scheme \<Rightarrow> ('cb, 'a) event_loop_scheme res" where
  "start_timer w usec l =
     (if wkind l w \<noteq> Some Ev_timer then Inl UseAfterFree
      else let sec = float_sec usec
           in if \<not> need_repeat l w
              then rbind (ev_timer_stop w l) (\<lambda>l. ev_timer_start w (ev_timer_set w sec 0 l))
              else ev_timer_again w (l\<lparr>w_repeat := (w_repeat l)(w := sec)\<rparr>))"

definition stop_timer ::
    "addr \<Rightarrow> ('cb, 'a) event_loop_scheme \<Rightarrow> ('cb, 'a) event_loop_scheme res" where
  "stop_timer w l = (if wkind l w \<noteq> Some Ev_timer then Inl UseAfterFree else ev_timer_stop w l)"

definition delete_timer ::
    "addr \<Rightarrow> ('cb, 'a) event_loop_scheme \<Rightarrow> ('cb, 'a) event_loop_scheme res" where
  "delete_timer w l = rbind (stop_timer w l) (\<lambda>l. Inr (free_watcher w l))"

text \<open>The arguments of the callback that \<open>generic_io_cb\<close> passes on.\<close>

definition generic_io_cb :: "addr \<Rightarrow> u32 \<Rightarrow> ('cb, 'a) event_loop_scheme \<Rightarrow> 'cb \<times> fd \<times> u32" where
  "generic_io_cb w events l = (w_cb l w, w_fd l w, TRANS_FROM_EV_MASK events)"

definition generic_timer_cb :: "addr \<Rightarrow> ('cb, 'a) event_loop_scheme \<Rightarrow> 'cb" where
  "generic_timer_cb w l = w_cb l w"

section \<open>Masks\<close>

lemmas mask_consts = READ_def WRITE_def EV_READ_def EV_WRITE_def EV__IOFDSET_def EV_NONE_def

lemma and_one_zero: "(m :: u32) AND 1 = 0 \<longleftrightarrow> \<not> bit m 0"
  using and_exp_eq_0_iff_not_bit [of m 0] by simp

lemma and_two_zero: "(m :: u32) AND 2 = 0 \<longleftrightarrow> \<not> bit m 1"
  using and_exp_eq_0_iff_not_bit [of m 1] by simp

lemma and_three: "(m :: u32) AND 3 = (if bit m 0 then 1 else 0) OR (if bit m 1 then 2 else 0)"
proof (rule bit_word_eqI)
  fix n assume "n < LENGTH(32)"
  show "bit (m AND 3) n \<longleftrightarrow> bit ((if bit m 0 then 1 else 0) OR (if bit m 1 then 2 else 0) :: u32) n"
    by (cases n; cases "n - 1") (auto simp: bit_simps bit_numeral_rec bit_1_iff bit_2_iff simp del: bit_0)
qed

lemma TRANS_to: "TRANS_TO_EV_MASK m = m AND 3"
  by (simp add: TRANS_TO_EV_MASK_def mask_consts and_one_zero and_two_zero and_three)

lemma TRANS_from: "TRANS_FROM_EV_MASK m = m AND 3"
  by (simp add: TRANS_FROM_EV_MASK_def mask_consts and_one_zero and_two_zero and_three)

lemma legal_mask:
  fixes m :: u32
  shows "ev_mask_legal ((m AND 3) OR EV__IOFDSET)" "((m AND 3) OR EV__IOFDSET) AND NOT EV__IOFDSET = m AND 3"
proof -
  have "(m AND 3) AND NOT (0x80 OR 1 OR 2) = m AND (3 AND NOT (0x80 OR 1 OR 2))" by (simp only: and.assoc)
  also have "\<dots> = 0" by simp
  finally have a: "(m AND 3) AND NOT (0x80 OR 1 OR 2) = 0" .
  have "(m AND 3) AND NOT 0x80 = m AND (3 AND NOT 0x80)" by (simp only: and.assoc)
  also have "\<dots> = m AND 3" by simp
  finally have b: "(m AND 3) AND NOT 0x80 = m AND 3" .
  have 1: "0x80 AND NOT (0x80 OR 1 OR 2) = (0 :: u32)" "0x80 AND NOT 0x80 = (0 :: u32)" by simp_all
  show "ev_mask_legal ((m AND 3) OR EV__IOFDSET)"
    unfolding ev_mask_legal_def mask_consts bit.conj_disj_distrib2 a 1 by simp
  show "((m AND 3) OR EV__IOFDSET) AND NOT EV__IOFDSET = m AND 3"
    unfolding mask_consts bit.conj_disj_distrib2 b 1 by simp
qed

lemma and_3_and_3: "(m AND 3) AND 3 = m AND (3 :: u32)"
  by (simp add: and.assoc)

section \<open>What the operations keep\<close>

definition el_ok :: "'a ev_loop_scheme \<Rightarrow> bool" where
  "el_ok l \<longleftrightarrow> loop_ok l \<and> reps_ok l"

text \<open>What an io watcher waits for: nothing, or events of a descriptor.\<close>

definition interest :: "'a ev_loop_scheme \<Rightarrow> addr \<Rightarrow> (fd \<times> u32) option" where
  "interest l w = (if active l w = 1 then Some (w_fd l w, TRANS_FROM_EV_MASK (w_events l w)) else None)"

text \<open>
  The part of the loop that operations on io watchers leave alone: timers, allocation, times,
  the lengths of the pending queues, and everything outside libev.
\<close>

definition io_frame :: "'a ev_loop_scheme \<Rightarrow> 'a ev_loop_scheme \<Rightarrow> bool" where
  "io_frame l l' \<longleftrightarrow> wkind l' = wkind l \<and> w_repeat l' = w_repeat l \<and> timers l' = timers l \<and> rfeeds l' = rfeeds l \<and>
     mn_now l' = mn_now l \<and> ev_rt_now l' = ev_rt_now l \<and> ev_loop.more l' = ev_loop.more l \<and>
     (\<forall>p. length (pendings l' p) = length (pendings l p)) \<and> pendingpri l' = pendingpri l \<and>
     loop_done l' = loop_done l \<and> w_at l' = w_at l \<and> (\<forall>x. HEAP0 \<le> active l' x \<longleftrightarrow> HEAP0 \<le> active l x)"

lemma io_frame_refl [simp]: "io_frame l l" by (simp add: io_frame_def)

lemma io_frame_trans: "io_frame a b \<Longrightarrow> io_frame b c \<Longrightarrow> io_frame a c"
  by (simp add: io_frame_def)

lemma io_frame_reps: "io_frame l l' \<Longrightarrow> reps_ok l \<Longrightarrow> reps_ok l'"
  by (simp add: io_frame_def reps_ok_def)

lemma clear_pending_frame [simp]: "io_frame l (clear_pending w l)"
  by (simp add: io_frame_def clear_pending_def Let_def)

lemma ev_io_stop_spec:
  assumes ok: "loop_ok l" and k: "wkind l w = Some Ev_io"
  shows "\<exists>l'. ev_io_stop w l = Inr l' \<and> loop_ok l' \<and> io_frame l l' \<and> active l' = (active l)(w := 0) \<and>
    w_fd l' = w_fd l \<and> w_events l' = w_events l \<and> pending l' = (pending l)(w := 0)"
proof (cases "active l w = 0")
  case True
  then have "active l = (active l)(w := 0)" by auto
  with True show ?thesis using ev_io_stop_inactive [OF True] clear_pending_ok [OF ok] by simp
next
  case False
  have "\<not> HEAP0 \<le> active l w" using kind_okD(4) [OF ok k] by (simp add: HEAP0_def)
  then have "io_frame (clear_pending w l) (io_stopped w l)"
    by (simp add: io_frame_def io_stopped_def relink_def Let_def HEAP0_def)
  then have "io_frame l (io_stopped w l)" using io_frame_trans clear_pending_frame by blast
  with ev_io_stop_eq [OF ok k False] io_stopped_ok [OF ok k False] show ?thesis
    by (simp add: io_stopped_def Let_def)
qed

lemma ev_io_set_ok:
  assumes ok: "loop_ok l" and a: "active l w = 0"
  shows "loop_ok (ev_io_set w fd e l)"
proof -
  have fresh: "w \<notin> set (head (anfds l ! i))" if "i < length (anfds l)" for i
    using io_okD(1) [OF ok that, of w] a by auto
  have "wanted (ev_io_set w fd e l) i = wanted l i" if "i < length (anfds l)" for i
    using fresh [OF that] unfolding wanted_def ev_io_set_def by (intro fold_cong) auto
  then have "mask_ok (ev_io_set w fd e l)" using ok by (simp add: loop_ok_def mask_ok_def ev_io_set_def)
  moreover have "io_ok (ev_io_set w fd e l)"
    using ok a fresh by (auto simp: loop_ok_def io_ok_def ev_io_set_def)
  ultimately show ?thesis
    using ok by (simp add: loop_ok_def pend_ok_def tim_ok_def chg_ok_def kind_ok_def cnt_ok_def queued_def
        ABSPRI_def ev_io_set_def)
qed

lemma rewatch_spec:
  assumes ok: "loop_ok l" and k: "wkind l w = Some Ev_io" and a: "active l w = 0" and fd: "0 \<le> fd"
  shows "\<exists>l'. ev_io_start w (ev_io_set w fd (m AND 3) l) = Inr l' \<and> loop_ok l' \<and> io_frame l l' \<and>
    active l' = (active l)(w := 1) \<and> w_fd l' = (w_fd l)(w := fd) \<and> w_events l' = (w_events l)(w := m AND 3) \<and>
    pending l' = pending l"
proof -
  let ?s = "ev_io_set w fd (m AND 3) l"
  have s: "loop_ok ?s" "wkind ?s w = Some Ev_io" "active ?s w = 0" "0 \<le> w_fd ?s w"
    "w_events ?s w = (m AND 3) OR EV__IOFDSET"
    using ev_io_set_ok [OF ok a] k a fd by (simp_all add: ev_io_set_def)
  have e: "ev_mask_legal (w_events ?s w)" using legal_mask(1) s(5) by simp
  have "io_frame l (io_started w ?s)"
    using a by (simp add: io_frame_def io_started_def relink_def grown_def Let_def ev_io_set_def HEAP0_def)
  moreover have "w_events (io_started w ?s) = (w_events l)(w := m AND 3)"
    using legal_mask(2) [of m] by (simp add: io_started_def Let_def ev_io_set_def fun_eq_iff)
  ultimately show ?thesis
    using ev_io_start_eq [OF s(1-4) e] io_started_ok [OF s(1-4)]
    by (simp add: io_started_def Let_def grown_def, simp add: ev_io_set_def)
qed

lemma interest_frame:
  "active l' = (active l)(w := a) \<Longrightarrow> w_fd l' = (w_fd l)(w := f) \<Longrightarrow> w_events l' = (w_events l)(w := e) \<Longrightarrow>
   x \<noteq> w \<Longrightarrow> interest l' x = interest l x"
  by (simp add: interest_def)

definition old_mask :: "(fd \<times> u32) option \<Rightarrow> u32" where
  "old_mask i = (case i of None \<Rightarrow> 0 | Some (_, e) \<Rightarrow> e)"

lemma io_active:
  assumes "loop_ok l" "wkind l w = Some Ev_io" "active l w \<noteq> 0"
  shows "active l w = 1"
  using kind_okD(4) [OF assms(1,2)] assms(3) by simp

lemma restart_spec:
  assumes ok: "el_ok l" and k: "wkind l w = Some Ev_io" and fd: "0 \<le> fd"
  shows "\<exists>l'. rbind (ev_io_stop w l) (\<lambda>l. ev_io_start w (ev_io_set w fd (m AND 3) l)) = Inr l' \<and>
    el_ok l' \<and> io_frame l l' \<and> interest l' w = Some (fd, m AND 3) \<and> (\<forall>x. x \<noteq> w \<longrightarrow> interest l' x = interest l x)"
proof -
  have lok: "loop_ok l" "reps_ok l" using ok by (simp_all add: el_ok_def)
  from ev_io_stop_spec [OF lok(1) k] obtain l1 where l1: "ev_io_stop w l = Inr l1" "loop_ok l1" "io_frame l l1"
    "active l1 = (active l)(w := 0)" "w_fd l1 = w_fd l" "w_events l1 = w_events l" by blast
  have k1: "wkind l1 w = Some Ev_io" using l1(3) k by (simp add: io_frame_def)
  from rewatch_spec [OF l1(2) k1 _ fd, of m] l1(4) obtain l2 where
    l2: "ev_io_start w (ev_io_set w fd (m AND 3) l1) = Inr l2" "loop_ok l2" "io_frame l1 l2"
      "active l2 = (active l1)(w := 1)" "w_fd l2 = (w_fd l1)(w := fd)" "w_events l2 = (w_events l1)(w := m AND 3)" by auto
  have fr: "io_frame l l2" using io_frame_trans l1(3) l2(3) by blast
  have "interest l2 x = interest l x" if "x \<noteq> w" for x
    using that l1(4-6) l2(4-6) by (simp add: interest_def)
  moreover have "interest l2 w = Some (fd, m AND 3)"
    using l2(4-6) by (simp add: interest_def TRANS_from and_3_and_3)
  ultimately show ?thesis
    using l1(1) l2(1,2) fr io_frame_reps [OF fr lok(2)] by (simp add: el_ok_def)
qed

lemma start_io_event_spec:
  assumes ok: "el_ok l" and k: "wkind l w = Some Ev_io" and fd: "0 \<le> fd"
    and same: "\<And>f e. interest l w = Some (f, e) \<Longrightarrow> f = fd"
  shows "\<exists>l'. start_io_event w fd msk l = Inr l' \<and> el_ok l' \<and> io_frame l l' \<and>
    interest l' w = Some (fd, (old_mask (interest l w) OR msk) AND 3) \<and>
    (\<forall>x. x \<noteq> w \<longrightarrow> interest l' x = interest l x)"
proof (cases "active l w = 0")
  case True
  have lok: "loop_ok l" "reps_ok l" using ok by (simp_all add: el_ok_def)
  from rewatch_spec [OF lok(1) k True fd, of msk] obtain l2 where
    l2: "ev_io_start w (ev_io_set w fd (msk AND 3) l) = Inr l2" "loop_ok l2" "io_frame l l2"
      "active l2 = (active l)(w := 1)" "w_fd l2 = (w_fd l)(w := fd)" "w_events l2 = (w_events l)(w := msk AND 3)" by auto
  have "old_mask (interest l w) = 0" using True by (simp add: interest_def old_mask_def)
  then have "interest l2 w = Some (fd, (old_mask (interest l w) OR msk) AND 3)"
    using l2(4-6) by (simp add: interest_def TRANS_from and_3_and_3)
  then show ?thesis
    using True k l2 io_frame_reps [OF l2(3) lok(2)] interest_frame [OF l2(4-6)]
    by (simp add: start_io_event_def TRANS_to el_ok_def)
next
  case False
  let ?a = "TRANS_FROM_EV_MASK (w_events l w)"
  have a1: "active l w = 1" using io_active [OF _ k False] ok by (simp add: el_ok_def)
  then have i: "interest l w = Some (w_fd l w, ?a)" by (simp add: interest_def)
  with same have f: "w_fd l w = fd" by simp
  have old: "old_mask (interest l w) = ?a" by (simp add: i old_mask_def)
  show ?thesis
  proof (cases "?a OR msk = ?a")
    case True
    then have "start_io_event w fd msk l = Inr l" using k a1 by (simp add: start_io_event_def)
    moreover have "interest l w = Some (fd, (old_mask (interest l w) OR msk) AND 3)"
      unfolding old True by (simp add: i f TRANS_from and_3_and_3)
    ultimately show ?thesis using ok by auto
  next
    case ne: False
    then have eq: "start_io_event w fd msk l =
        rbind (ev_io_stop w l) (\<lambda>l. ev_io_start w (ev_io_set w fd ((?a OR msk) AND 3) l))"
      using k a1 by (simp add: start_io_event_def TRANS_to)
    show ?thesis unfolding old eq by (rule restart_spec [OF ok k fd])
  qed
qed

lemma stop_io_event_spec:
  assumes ok: "el_ok l" and k: "wkind l w = Some Ev_io" and fd: "0 \<le> fd" and i: "interest l w = Some (fd, e)"
  shows "\<exists>l'. stop_io_event w fd msk l = Inr l' \<and> el_ok l' \<and> io_frame l l' \<and>
    interest l' w = (if e AND NOT msk = e \<or> e AND NOT msk \<noteq> 0 then Some (fd, e AND NOT msk) else None) \<and>
    (\<forall>x. x \<noteq> w \<longrightarrow> interest l' x = interest l x)"
proof -
  let ?r = "e AND NOT msk"
  have e: "e = TRANS_FROM_EV_MASK (w_events l w)" using i by (simp add: interest_def split: if_splits)
  have r3: "?r AND 3 = ?r" unfolding e TRANS_from by (rule bit_word_eqI) (auto simp: bit_and_iff)
  show ?thesis
  proof (cases "?r = e")
    case True
    then show ?thesis using ok k i e by (simp add: stop_io_event_def)
  next
    case False
    show ?thesis
    proof (cases "?r = 0")
      case True
      have lok: "loop_ok l" "reps_ok l" using ok by (simp_all add: el_ok_def)
      from ev_io_stop_spec [OF lok(1) k] obtain l1 where l1: "ev_io_stop w l = Inr l1" "loop_ok l1" "io_frame l l1"
        "active l1 = (active l)(w := 0)" "w_fd l1 = w_fd l" "w_events l1 = w_events l" by blast
      have "stop_io_event w fd msk l = Inr l1"
        using False True k l1(1) e by (simp add: stop_io_event_def TRANS_to EV_NONE_def Let_def)
      moreover have "interest l1 w = None" using l1(4) by (simp add: interest_def)
      moreover have "interest l1 x = interest l x" if "x \<noteq> w" for x using that l1(4-6) by (simp add: interest_def)
      ultimately show ?thesis
        using False True l1 io_frame_reps [OF l1(3) lok(2)] by (simp add: el_ok_def)
    next
      case ne: False
      have eq: "stop_io_event w fd msk l = rbind (ev_io_stop w l) (\<lambda>l. ev_io_start w (ev_io_set w fd (?r AND 3) l))"
        using False ne k e r3 by (simp add: stop_io_event_def TRANS_to EV_NONE_def Let_def)
      show ?thesis using restart_spec [OF ok k fd, of ?r] False ne unfolding eq r3 by simp
    qed
  qed
qed

section \<open>Creating and deleting watchers\<close>

text \<open>No list, heap or queue of the loop refers to the watcher.\<close>

definition unreferenced :: "'a ev_loop_scheme \<Rightarrow> addr \<Rightarrow> bool" where
  "unreferenced l w \<longleftrightarrow> (\<forall>i < length (anfds l). w \<notin> set (head (anfds l ! i))) \<and>
     w \<notin> ANHE_w ` set (timers l) \<and> (\<forall>p i. \<not> queued l p i w)"

lemma idle_unreferenced:
  assumes ok: "loop_ok l" and a: "active l w = 0" and p: "pending l w = 0"
  shows "unreferenced l w"
  using io_okD(1) [OF ok, of _ w] io_not_timer [OF ok, of w] pend_okD(2) [of l _ _ w] ok a p
  by (auto simp: unreferenced_def loop_ok_def)

lemma free_watcher_ok:
  assumes "el_ok l" "active l w = 0" "pending l w = 0"
  shows "el_ok (free_watcher w l)"
  using assms by (auto simp: el_ok_def reps_ok_def free_watcher_def loop_ok_def ok_defs queued_def ABSPRI_def wanted_def)

lemma unallocated_idle:
  assumes "el_ok l" "wkind l w = None"
  shows "active l w = 0" "pending l w = 0" "unreferenced l w"
proof -
  have ok: "loop_ok l" using assms by (simp add: el_ok_def)
  show "active l w = 0" "pending l w = 0" using kind_okD(1,2) [OF ok, of w] assms by auto
  then show "unreferenced l w" using idle_unreferenced [OF ok] by blast
qed

lemma ev_init_ok:
  assumes ok: "el_ok l" and k: "wkind l a = None"
  shows "el_ok (ev_init kd a l)"
proof -
  note u = unallocated_idle [OF assms]
  have nq: "\<not> queued l p i a" for p i using u(3) by (simp add: unreferenced_def)
  have p: "(pending l)(a := 0) = pending l" "(active l)(a := 0) = active l" using u(1,2) by auto
  have L: "loop_ok l" using ok by (simp add: el_ok_def)
  let ?l = "ev_init kd a l"
  have q: "queued ?l = queued l" by (auto simp: queued_def ev_init_def fun_eq_iff)
  have pri: "ABSPRI ?l x = (if x = a then nat (0 - EV_MINPRI) else ABSPRI l x)" for x by (simp add: ABSPRI_def ev_init_def)
  have "pend_ok ?l"
    unfolding pend_ok_def q pri using L nq u(2) by (auto simp: loop_ok_def pend_ok_def ev_init_def p)
  moreover have "kind_ok ?l" using L u by (auto simp: loop_ok_def kind_ok_def ev_init_def p pri_ok_def EV_MINPRI_def EV_MAXPRI_def)
  ultimately show ?thesis
    using ok L by (simp add: el_ok_def loop_ok_def reps_ok_def tim_ok_def io_ok_def chg_ok_def mask_ok_def cnt_ok_def
        wanted_def ev_init_def p)
qed

lemma create_io_event_spec:
  assumes "el_ok l" "wkind l a = None"
  shows "el_ok (create_io_event a cb l)" "wkind (create_io_event a cb l) = (wkind l)(a \<mapsto> Ev_io)"
    "interest (create_io_event a cb l) = interest l" "w_cb (create_io_event a cb l) = (w_cb l)(a := cb)"
proof -
  let ?l = "l\<lparr>w_cb := (w_cb l)(a := cb)\<rparr>"
  have "el_ok ?l" using assms(1) by (simp add: el_ok_def loop_ok_def reps_ok_def ok_defs queued_def ABSPRI_def wanted_def)
  then show "el_ok (create_io_event a cb l)"
    using assms(2) unfolding create_io_event_def by (intro ev_init_ok) simp_all
  show "interest (create_io_event a cb l) = interest l"
    using unallocated_idle(1) [OF assms] by (auto simp: interest_def create_io_event_def ev_init_def fun_eq_iff)
qed (simp_all add: create_io_event_def ev_init_def)

lemma create_timer_spec:
  assumes "el_ok l" "wkind l a = None"
  shows "el_ok (create_timer a cb rpt l)" "wkind (create_timer a cb rpt l) = (wkind l)(a \<mapsto> Ev_timer)"
    "interest (create_timer a cb rpt l) = interest l" "w_cb (create_timer a cb rpt l) = (w_cb l)(a := cb)"
    "need_repeat (create_timer a cb rpt l) = (need_repeat l)(a := rpt)"
proof -
  let ?l = "l\<lparr>w_cb := (w_cb l)(a := cb), need_repeat := (need_repeat l)(a := rpt)\<rparr>"
  have "el_ok ?l" using assms(1) by (simp add: el_ok_def loop_ok_def reps_ok_def ok_defs queued_def ABSPRI_def wanted_def)
  then show "el_ok (create_timer a cb rpt l)"
    using assms(2) unfolding create_timer_def by (intro ev_init_ok) simp_all
  show "interest (create_timer a cb rpt l) = interest l"
    using unallocated_idle(1) [OF assms] by (auto simp: interest_def create_timer_def ev_init_def fun_eq_iff)
qed (simp_all add: create_timer_def ev_init_def)

lemma delete_io_event_spec:
  assumes ok: "el_ok l" and k: "wkind l w = Some Ev_io"
  shows "\<exists>l'. delete_io_event w l = Inr l' \<and> el_ok l' \<and> wkind l' = (wkind l)(w := None) \<and> unreferenced l' w \<and>
    interest l' w = None \<and> (\<forall>x. x \<noteq> w \<longrightarrow> interest l' x = interest l x) \<and>
    (\<exists>m. io_frame l m \<and> l' = free_watcher w m)"
proof -
  have lok: "loop_ok l" "reps_ok l" using ok by (simp_all add: el_ok_def)
  from ev_io_stop_spec [OF lok(1) k] obtain m where m: "ev_io_stop w l = Inr m" "loop_ok m" "io_frame l m"
    "active m = (active l)(w := 0)" "w_fd m = w_fd l" "w_events m = w_events l" "pending m = (pending l)(w := 0)" by blast
  have mok: "el_ok m" using m(2) io_frame_reps [OF m(3) lok(2)] by (simp add: el_ok_def)
  have idle: "active m w = 0" "pending m w = 0" using m(4,7) by simp_all
  have "unreferenced (free_watcher w m) w"
    using idle_unreferenced [OF m(2) idle] by (simp add: unreferenced_def free_watcher_def queued_def)
  moreover have "wkind (free_watcher w m) = (wkind l)(w := None)"
    using m(3) by (simp add: free_watcher_def io_frame_def)
  moreover have "interest (free_watcher w m) = interest m" by (simp add: interest_def free_watcher_def fun_eq_iff)
  moreover have "interest m w = None" "\<forall>x. x \<noteq> w \<longrightarrow> interest m x = interest l x"
    using m(4-6) by (simp_all add: interest_def)
  ultimately show ?thesis
    using m(1,3) k free_watcher_ok [OF mok idle] by (auto simp: delete_io_event_def)
qed

section \<open>Timers\<close>

text \<open>When a timer will fire, on the loop's monotonic clock, and after what time again (0 for never).\<close>

definition expiry :: "'a ev_loop_scheme \<Rightarrow> addr \<Rightarrow> (real \<times> real) option" where
  "expiry l w = (if HEAP0 \<le> active l w then Some (w_at l w, w_repeat l w) else None)"

text \<open>The part of the loop that operations on timers leave alone.\<close>

definition tm_frame :: "'a ev_loop_scheme \<Rightarrow> 'a ev_loop_scheme \<Rightarrow> bool" where
  "tm_frame l l' \<longleftrightarrow> wkind l' = wkind l \<and> w_fd l' = w_fd l \<and> w_events l' = w_events l \<and> anfds l' = anfds l \<and>
     fdchanges l' = fdchanges l \<and> rfeeds l' = rfeeds l \<and> mn_now l' = mn_now l \<and> ev_rt_now l' = ev_rt_now l \<and>
     ev_loop.more l' = ev_loop.more l \<and> (\<forall>p. length (pendings l' p) = length (pendings l p)) \<and>
     pendingpri l' = pendingpri l \<and> loop_done l' = loop_done l"

lemma tm_frame_trans: "tm_frame a b \<Longrightarrow> tm_frame b c \<Longrightarrow> tm_frame a c"
  by (simp add: tm_frame_def)

lemma clear_pending_tm_frame [simp]: "tm_frame l (clear_pending w l)"
  by (simp add: tm_frame_def clear_pending_def Let_def)

lemma active_io_iff:
  assumes "loop_ok l"
  shows "active l x = 1 \<longleftrightarrow> 0 \<le> w_fd l x \<and> w_fd l x < int (length (anfds l)) \<and> x \<in> set (head (anfds l ! nat (w_fd l x)))"
proof
  assume r: "0 \<le> w_fd l x \<and> w_fd l x < int (length (anfds l)) \<and> x \<in> set (head (anfds l ! nat (w_fd l x)))"
  then have "nat (w_fd l x) < length (anfds l)" by (simp add: nat_less_iff)
  then show "active l x = 1" using io_okD(1) [OF assms] r by blast
qed (use io_okD(3) [OF assms] in blast)

lemma tm_frame_interest:
  assumes "loop_ok l" "loop_ok l'" "tm_frame l l'"
  shows "interest l' = interest l"
  using active_io_iff [OF assms(1)] active_io_iff [OF assms(2)] assms(3)
  by (simp add: interest_def tm_frame_def fun_eq_iff)

lemma clear_pending_el_ok: "el_ok l \<Longrightarrow> el_ok (clear_pending w l)"
  by (auto simp: el_ok_def reps_ok_def clear_pending_ok)

lemma ev_timer_stop_spec:
  assumes ok: "el_ok l" and k: "wkind l w = Some Ev_timer"
  shows "\<exists>l'. ev_timer_stop w l = Inr l' \<and> el_ok l' \<and> tm_frame l l' \<and> active l' w = 0 \<and> pending l' w = 0 \<and>
    w_repeat l' = w_repeat l \<and> (\<forall>x. x \<noteq> w \<longrightarrow> expiry l' x = expiry l x)"
proof (cases "active l w = 0")
  case True
  then show ?thesis using clear_pending_el_ok [OF ok] by (simp add: ev_timer_stop_inactive expiry_def)
next
  case False
  have lok: "loop_ok l" "reps_ok l" using ok by (simp_all add: el_ok_def)
  let ?c = "clear_pending w l" and ?l = "timer_stopped w (clear_pending w l)"
  have cok: "loop_ok ?c" by (rule clear_pending_ok [OF lok(1)])
  have ok': "loop_ok ?l" by (rule timer_stopped_ok) (use cok k False in simp_all)
  let ?k = "active l w - HEAP0"
  define h where "h = (if ?k < length (timers l) - 1
    then adjustheap ((butlast (timers l))[?k := last (timers l)], active l) (length (timers l) - 1) ?k
    else (butlast (timers l), active l))"
  note i = timer_index [OF lok(1) k False]
  from heap_remove [OF tim_okD(1,2) [OF lok(1)] i(1) h_def] i(2) obtain vs where
    vs: "heap_of vs (active l) h" "add_mset (timers l ! ?k) (mset vs) = mset (timers l)" "w \<notin> ANHE_w ` set vs" by auto
  have "timers ?l = fst h" by (simp add: timer_stopped_def Let_def h_def)
  moreover have "set (timers l) = insert (timers l ! ?k) (set vs)" using arg_cong [OF vs(2), of set_mset] by simp
  ultimately have "ANHE_w ` set (timers ?l) = ANHE_w ` set (timers l) - {w}"
    using heap_of_set(1) [OF vs(1)] vs(3) i(2) by auto
  then have on: "HEAP0 \<le> active ?l x \<longleftrightarrow> HEAP0 \<le> active l x \<and> x \<noteq> w" for x
    using timer_on [OF ok', of x] timer_on [OF lok(1), of x] by auto
  have f: "w_repeat ?l = w_repeat l" "active ?l w = 0" "pending ?l w = 0" "\<And>x. x \<noteq> w \<Longrightarrow> w_at ?l x = w_at l x"
    by (simp_all add: timer_stopped_def Let_def)
  have "tm_frame ?c ?l" by (simp add: tm_frame_def timer_stopped_def Let_def)
  then have fr: "tm_frame l ?l" using tm_frame_trans clear_pending_tm_frame by blast
  have "reps_ok ?l" by (rule reps_ok_less [OF lok(2) f(1)]) (simp add: on)
  with ok' fr f on ev_timer_stop_eq [OF lok(1) k False] show ?thesis
    by (simp add: el_ok_def expiry_def)
qed

lemma ev_timer_start_spec:
  assumes ok: "el_ok l" and k: "wkind l w = Some Ev_timer" and a: "active l w = 0" and r: "0 \<le> w_repeat l w"
  shows "\<exists>l'. ev_timer_start w l = Inr l' \<and> el_ok l' \<and> tm_frame l l' \<and> expiry l' w = Some (mn_now l + w_at l w, w_repeat l w) \<and>
    w_repeat l' = w_repeat l \<and> (\<forall>x. x \<noteq> w \<longrightarrow> expiry l' x = expiry l x)"
proof -
  have lok: "loop_ok l" "reps_ok l" using ok by (simp_all add: el_ok_def)
  let ?l = "timer_started w l" and ?at = "w_at l w + mn_now l"
  have ok': "loop_ok ?l" by (rule timer_started_ok [OF lok(1) k a])
  define h where "h = upheap (timers l @ [(?at, w)], (active l)(w := length (timers l) + HEAP0)) (length (timers l))"
  have w: "w \<notin> ANHE_w ` set (timers l)" using io_not_timer [OF lok(1)] a by simp
  have h: "heap_of (timers l @ [(?at, w)]) (active l) h"
    unfolding h_def by (rule upheap_last [OF tim_okD(1,2) [OF lok(1)] w])
  have "timers ?l = fst h" by (simp add: timer_started_def Let_def h_def)
  then have "ANHE_w ` set (timers ?l) = insert w (ANHE_w ` set (timers l))"
    using heap_of_set(1) [OF h] by simp
  then have on: "HEAP0 \<le> active ?l x \<longleftrightarrow> HEAP0 \<le> active l x \<or> x = w" for x
    using timer_on [OF ok', of x] timer_on [OF lok(1), of x] by auto
  have f: "w_repeat ?l = w_repeat l" "w_at ?l = (w_at l)(w := ?at)" by (simp_all add: timer_started_def Let_def)
  have "reps_ok ?l" using lok(2) r by (auto simp: reps_ok_def on f)
  moreover have "tm_frame l ?l" by (simp add: tm_frame_def timer_started_def Let_def)
  ultimately show ?thesis
    using ok' on f ev_timer_start_eq [OF lok(1) k a r] by (auto simp: el_ok_def expiry_def)
qed

lemma timer_readjusted_spec:
  assumes ok: "el_ok l" and k: "wkind l w = Some Ev_timer" and a: "active l w \<noteq> 0"
  shows "el_ok (timer_readjusted w t l)" "tm_frame l (timer_readjusted w t l)"
    "expiry (timer_readjusted w t l) = (expiry l)(w \<mapsto> (t, w_repeat l w))" "w_repeat (timer_readjusted w t l) = w_repeat l"
proof -
  have lok: "loop_ok l" "reps_ok l" using ok by (simp_all add: el_ok_def)
  let ?l = "timer_readjusted w t l" and ?k = "active l w - HEAP0"
  note i = timer_index [OF lok(1) k a]
  have ok': "loop_ok ?l" by (rule timer_readjusted_ok [OF lok(1) k a])
  have d: "distinct (map ANHE_w ((timers l)[?k := (t, w)]))"
    unfolding same_watchers [OF i(1,2)] using tim_okD(2) [OF lok(1)] by (simp add: heap_act_def)
  have h: "heap_of ((timers l)[?k := (t, w)]) (active l) (adjustheap ((timers l)[?k := (t, w)], active l) (length (timers l)) ?k)"
    using adjustheap_replace [OF tim_okD(1) [OF lok(1)] i(1) _ d] tim_okD(2) [OF lok(1)] by blast
  have "ANHE_w ` set (timers ?l) = ANHE_w ` set (timers l)"
    using heap_of_set(1) [OF h] same_watchers [OF i(1,2), of t]
    by (simp add: timer_readjusted_def timer_moved_def Let_def) (metis list.set_map)
  then have on: "HEAP0 \<le> active ?l x \<longleftrightarrow> HEAP0 \<le> active l x" for x
    using timer_on [OF ok', of x] timer_on [OF lok(1), of x] by auto
  have f: "w_repeat ?l = w_repeat l" "w_at ?l = (w_at l)(w := t)"
    by (simp_all add: timer_readjusted_def timer_moved_def Let_def)
  then show "w_repeat ?l = w_repeat l" by blast
  show "el_ok ?l" using ok' lok(2) by (simp add: el_ok_def reps_ok_def on f)
  show "tm_frame l ?l" by (simp add: tm_frame_def timer_readjusted_def timer_moved_def Let_def)
  show "expiry ?l = (expiry l)(w \<mapsto> (t, w_repeat l w))" using i(3) by (auto simp: expiry_def on f fun_eq_iff)
qed

lemma loop_ok_repeat [simp]: "loop_ok (l\<lparr>w_repeat := x\<rparr>) = loop_ok l"
  by (simp add: loop_ok_def ok_defs queued_def wanted_def ABSPRI_def)

lemma set_at_ok:
  assumes ok: "loop_ok l" and a: "active l w = 0"
  shows "loop_ok (l\<lparr>w_at := (w_at l)(w := t)\<rparr>)"
proof -
  have w: "ANHE_w he \<noteq> w" if "he \<in> set (timers l)" for he using io_not_timer [OF ok, of w] a that by force
  have "tim_ok (l\<lparr>w_at := (w_at l)(w := t)\<rparr>)" using ok w by (auto simp: loop_ok_def tim_ok_def)
  then show ?thesis
    using ok by (simp add: loop_ok_def pend_ok_def io_ok_def chg_ok_def mask_ok_def kind_ok_def cnt_ok_def
        queued_def wanted_def ABSPRI_def)
qed

lemma set_idle_timer_ok:
  assumes "el_ok l" "active l w = 0"
  shows "el_ok (l\<lparr>w_at := (w_at l)(w := t), w_repeat := (w_repeat l)(w := r)\<rparr>)"
    "el_ok (l\<lparr>w_at := (w_at l)(w := t)\<rparr>)"
  using assms set_at_ok [of l w t] by (auto simp: el_ok_def reps_ok_def HEAP0_def)

text \<open>The timer \<open>w\<close> will fire \<open>usec\<close> from now, and nothing else changed.\<close>

lemma to_float_pos:
  assumes "0 < x"
  shows "0 < to_float x"
proof -
  let ?e = "of_int \<lfloor>log 2 x\<rfloor> :: real" and ?u = "2 powr (of_int \<lfloor>log 2 x\<rfloor> - 23) :: real"
  have "2 powr ?e \<le> 2 powr (log 2 x)" by (intro powr_mono) simp_all
  then have "2 powr ?e \<le> x" using assms by simp
  moreover have "?u \<le> 2 powr ?e" by (intro powr_mono) simp_all
  ultimately have "?u \<le> x" by (rule order_trans [rotated])
  then have "1 \<le> x / ?u" by simp
  then have "1 \<le> \<lfloor>x / ?u\<rfloor>" by linarith
  then have "(0 :: real) < of_int \<lfloor>x / ?u\<rfloor>" by (metis of_int_0_less_iff zero_less_one order_less_le_trans)
  moreover have "0 < k \<Longrightarrow> 0 < (if b then k else k + 1)" for k :: real and b by simp
  ultimately show ?thesis using assms unfolding to_float_def Let_def
    by (simp only: if_False abs_of_pos less_imp_neq [OF assms, symmetric]) (rule mult_pos_pos, blast, simp)
qed

lemma float_sec_pos: "usec \<noteq> 0 \<Longrightarrow> 0 < float_sec usec"
proof -
  assume "usec \<noteq> 0"
  then have "unat usec \<noteq> 0" by (simp add: unsigned_eq_0_iff)
  then have "0 < unat usec" by (rule neq0_conv [THEN iffD1])
  then have "0 < real (unat usec)" by (simp only: of_nat_0_less_iff)
  then show ?thesis unfolding float_sec_def by (intro to_float_pos divide_pos_pos) simp_all
qed

definition armed :: "addr \<Rightarrow> u32 \<Rightarrow> ('cb, 'a) event_loop_scheme \<Rightarrow> ('cb, 'a) event_loop_scheme \<Rightarrow> bool" where
  "armed w usec l l' \<longleftrightarrow> el_ok l' \<and> tm_frame l l' \<and> interest l' = interest l \<and>
     expiry l' w = Some (mn_now l + float_sec usec, if need_repeat l w then float_sec usec else 0) \<and>
     (\<forall>x. x \<noteq> w \<longrightarrow> expiry l' x = expiry l x)"

lemma start_timer_once:
  assumes ok: "el_ok l" and k: "wkind l w = Some Ev_timer" and r: "\<not> need_repeat l w"
  shows "\<exists>l'. start_timer w usec l = Inr l' \<and> armed w usec l l'"
proof -
  let ?sec = "float_sec usec"
  from ev_timer_stop_spec [OF ok k] obtain m where m: "ev_timer_stop w l = Inr m" "el_ok m" "tm_frame l m" "active m w = 0"
    "\<forall>x. x \<noteq> w \<longrightarrow> expiry m x = expiry l x" by blast
  let ?s = "ev_timer_set w ?sec 0 m"
  have sok: "el_ok ?s" unfolding ev_timer_set_def by (rule set_idle_timer_ok [OF m(2,4)])
  have "expiry ?s x = expiry m x" if "x \<noteq> w" for x using that by (simp add: expiry_def ev_timer_set_def)
  then have es: "\<And>x. x \<noteq> w \<Longrightarrow> expiry ?s x = expiry l x" using m(5) by simp
  have s: "wkind ?s w = Some Ev_timer" "active ?s w = 0" "0 \<le> w_repeat ?s w" "w_at ?s w = ?sec" "mn_now ?s = mn_now l"
    "tm_frame l ?s" "w_repeat ?s w = 0"
    using m(3,4) k by (simp_all add: ev_timer_set_def tm_frame_def)
  from ev_timer_start_spec [OF sok s(1-3)] s es obtain l' where
    l': "ev_timer_start w ?s = Inr l'" "el_ok l'" "tm_frame ?s l'" "expiry l' w = Some (mn_now l + ?sec, 0)"
      "w_repeat l' = w_repeat ?s" "\<forall>x. x \<noteq> w \<longrightarrow> expiry l' x = expiry l x" by auto
  have fr: "tm_frame l l'" using tm_frame_trans s(6) l'(3) by blast
  have "interest l' = interest l" using tm_frame_interest [OF _ _ fr] ok l'(2) by (simp add: el_ok_def)
  with r k m(1) l' s(7) fr show ?thesis by (simp add: start_timer_def armed_def)
qed

lemma start_timer_repeat:
  assumes ok: "el_ok l" and k: "wkind l w = Some Ev_timer" and r: "need_repeat l w" and pos: "usec \<noteq> 0"
  shows "\<exists>l'. start_timer w usec l = Inr l' \<and> armed w usec l l'"
proof -
  let ?sec = "float_sec usec" and ?r = "l\<lparr>w_repeat := (w_repeat l)(w := float_sec usec)\<rparr>"
  have sec: "0 < ?sec" by (rule float_sec_pos [OF pos])
  have rok: "el_ok ?r" using ok sec by (auto simp: el_ok_def reps_ok_def)
  let ?c = "clear_pending w ?r"
  have cok: "el_ok ?c" by (rule clear_pending_el_ok [OF rok])
  have "tm_frame ?r ?c" by simp
  then have fc: "tm_frame l ?c" by (simp add: tm_frame_def)
  have eq: "start_timer w usec l = ev_timer_again w ?r" using r k by (simp add: start_timer_def)
  have "\<exists>l'. ev_timer_again w ?r = Inr l' \<and> el_ok l' \<and> tm_frame l l' \<and> expiry l' w = Some (mn_now l + ?sec, ?sec) \<and>
      w_repeat l' w = ?sec \<and> (\<forall>x. x \<noteq> w \<longrightarrow> expiry l' x = expiry l x)"
  proof (cases "active l w = 0")
    case False
    let ?l = "timer_readjusted w (mn_now l + ?sec) ?c"
    have c: "wkind ?c w = Some Ev_timer" "active ?c w \<noteq> 0" using k False by simp_all
    note R = timer_readjusted_spec [OF cok c, of "mn_now l + ?sec"]
    have "tm_frame l ?l" using tm_frame_trans fc R(2) by blast
    then show ?thesis
      using ev_timer_again_eq(1) [of ?r w] rok k False sec R
      by (intro exI [of _ ?l]) (auto simp: expiry_def el_ok_def)
  next
    case a: True
    let ?s = "?c\<lparr>w_at := (w_at l)(w := ?sec)\<rparr>"
    have sok: "el_ok ?s" using set_idle_timer_ok(2) [OF cok, of w ?sec] a by simp
    have s: "wkind ?s w = Some Ev_timer" "active ?s w = 0" "0 \<le> w_repeat ?s w" "w_repeat ?s w = ?sec"
      "tm_frame l ?s" "mn_now ?s + w_at ?s w = mn_now l + ?sec" "\<And>x. x \<noteq> w \<Longrightarrow> expiry ?s x = expiry l x"
      using a k sec fc by (simp_all add: tm_frame_def expiry_def)
    have "ev_timer_again w ?r = ev_timer_start w ?s"
      using ev_timer_again_eq(3) [of ?r w] rok k a sec by (simp add: el_ok_def)
    moreover from ev_timer_start_spec [OF sok s(1-3)] s(6) obtain l' where
      l': "ev_timer_start w ?s = Inr l'" "el_ok l'" "tm_frame ?s l'" "expiry l' w = Some (mn_now l + ?sec, ?sec)"
        "w_repeat l' = w_repeat ?s" "\<forall>x. x \<noteq> w \<longrightarrow> expiry l' x = expiry ?s x" by auto
    moreover have "tm_frame l l'" by (rule tm_frame_trans [OF s(5) l'(3)])
    moreover have "w_repeat l' w = ?sec" using l'(5) s(4) by simp
    ultimately show ?thesis using s(7) by (intro exI [of _ l']) auto
  qed
  then obtain l' where l': "ev_timer_again w ?r = Inr l'" "el_ok l'" "tm_frame l l'" "expiry l' w = Some (mn_now l + ?sec, ?sec)"
    "w_repeat l' w = ?sec" "\<forall>x. x \<noteq> w \<longrightarrow> expiry l' x = expiry l x" by blast
  have "interest l' = interest l" using tm_frame_interest [OF _ _ l'(3)] ok l'(2) by (simp add: el_ok_def)
  with l' r eq show ?thesis by (simp add: armed_def)
qed

lemma start_timer_spec:
  assumes "el_ok l" "wkind l w = Some Ev_timer" "need_repeat l w \<Longrightarrow> usec \<noteq> 0"
  shows "\<exists>l'. start_timer w usec l = Inr l' \<and> armed w usec l l'"
  using start_timer_once [OF assms(1,2)] start_timer_repeat [OF assms(1,2)] assms(3) by blast

lemma stop_timer_spec:
  assumes ok: "el_ok l" and k: "wkind l w = Some Ev_timer"
  shows "\<exists>l'. stop_timer w l = Inr l' \<and> el_ok l' \<and> tm_frame l l' \<and> interest l' = interest l \<and>
    expiry l' w = None \<and> active l' w = 0 \<and> pending l' w = 0 \<and> (\<forall>x. x \<noteq> w \<longrightarrow> expiry l' x = expiry l x)"
proof -
  from ev_timer_stop_spec [OF ok k] obtain l' where l': "ev_timer_stop w l = Inr l'" "el_ok l'" "tm_frame l l'"
    "active l' w = 0" "pending l' w = 0" "\<forall>x. x \<noteq> w \<longrightarrow> expiry l' x = expiry l x" by blast
  have "interest l' = interest l" using tm_frame_interest [OF _ _ l'(3)] ok l'(2) by (simp add: el_ok_def)
  moreover have "expiry l' w = None" using l'(4) by (simp add: expiry_def HEAP0_def)
  ultimately show ?thesis using k l' by (simp add: stop_timer_def)
qed

lemma delete_timer_spec:
  assumes ok: "el_ok l" and k: "wkind l w = Some Ev_timer"
  shows "\<exists>l'. delete_timer w l = Inr l' \<and> el_ok l' \<and> wkind l' = (wkind l)(w := None) \<and> unreferenced l' w \<and>
    interest l' = interest l \<and> expiry l' w = None \<and> (\<forall>x. x \<noteq> w \<longrightarrow> expiry l' x = expiry l x) \<and>
    (\<exists>m. tm_frame l m \<and> l' = free_watcher w m)"
proof -
  from stop_timer_spec [OF ok k] obtain m where m: "stop_timer w l = Inr m" "el_ok m" "tm_frame l m" "interest m = interest l"
    "expiry m w = None" "active m w = 0" "pending m w = 0" "\<forall>x. x \<noteq> w \<longrightarrow> expiry m x = expiry l x" by blast
  have "unreferenced m w" using idle_unreferenced [OF _ m(6,7)] m(2) by (simp add: el_ok_def)
  then have "unreferenced (free_watcher w m) w" by (simp add: unreferenced_def free_watcher_def queued_def)
  moreover have "wkind (free_watcher w m) = (wkind l)(w := None)" using m(3) by (simp add: free_watcher_def tm_frame_def)
  moreover have "interest (free_watcher w m) = interest m" "expiry (free_watcher w m) = expiry m"
    by (simp_all add: interest_def expiry_def free_watcher_def fun_eq_iff)
  ultimately show ?thesis using m free_watcher_ok [OF m(2,6,7)] by (auto simp: delete_timer_def)
qed

section \<open>The interface the connections use\<close>

text \<open>
  What the rest of the server relies on: for each watcher the events it waits for, and how
  starting, stopping and deleting it change them. \<open>others\<close> are the parts of the state the
  operations must leave alone.
\<close>

locale io_events =
  fixes ok :: "'s \<Rightarrow> bool"
    and io_alive :: "'s \<Rightarrow> addr \<Rightarrow> bool"
    and intr :: "'s \<Rightarrow> addr \<Rightarrow> (fd \<times> u32) option"
    and others :: "'s \<Rightarrow> 'o"
    and start :: "addr \<Rightarrow> fd \<Rightarrow> u32 \<Rightarrow> 's \<Rightarrow> 's res"
    and stop :: "addr \<Rightarrow> fd \<Rightarrow> u32 \<Rightarrow> 's \<Rightarrow> 's res"
    and del :: "addr \<Rightarrow> 's \<Rightarrow> 's res"
  assumes start_law: "ok s \<Longrightarrow> io_alive s w \<Longrightarrow> 0 \<le> fd \<Longrightarrow> (\<And>f e. intr s w = Some (f, e) \<Longrightarrow> f = fd) \<Longrightarrow>
      \<exists>t. start w fd m s = Inr t \<and> ok t \<and> io_alive t = io_alive s \<and> others t = others s \<and>
        intr t = (intr s)(w \<mapsto> (fd, (old_mask (intr s w) OR m) AND 3))"
    and stop_law: "ok s \<Longrightarrow> io_alive s w \<Longrightarrow> 0 \<le> fd \<Longrightarrow> intr s w = Some (fd, e) \<Longrightarrow>
      \<exists>t. stop w fd m s = Inr t \<and> ok t \<and> io_alive t = io_alive s \<and> others t = others s \<and>
        intr t = (intr s)(w := if e AND NOT m = e \<or> e AND NOT m \<noteq> 0 then Some (fd, e AND NOT m) else None)"
    and del_law: "ok s \<Longrightarrow> io_alive s w \<Longrightarrow>
      \<exists>t. del w s = Inr t \<and> ok t \<and> io_alive t = (io_alive s)(w := False) \<and> others t = others s \<and>
        intr t = (intr s)(w := None)"
begin

text \<open>A watcher that waits for reads can wait for writes for a while and then go back.\<close>

lemma add_write:
  assumes "ok s" "io_alive s w" "0 \<le> fd" "intr s w = Some (fd, READ)"
  shows "\<exists>t. start w fd WRITE s = Inr t \<and> ok t \<and> io_alive t = io_alive s \<and> others t = others s \<and>
    intr t = (intr s)(w \<mapsto> (fd, READ OR WRITE))"
  using start_law [OF assms(1-3), of WRITE] assms(4)
  by (simp add: old_mask_def READ_def WRITE_def)

lemma add_write_again:
  assumes "ok s" "io_alive s w" "0 \<le> fd" "intr s w = Some (fd, READ OR WRITE)"
  shows "\<exists>t. start w fd WRITE s = Inr t \<and> ok t \<and> io_alive t = io_alive s \<and> others t = others s \<and> intr t = intr s"
proof -
  have "(intr s)(w \<mapsto> (fd, (old_mask (intr s w) OR WRITE) AND 3)) = intr s"
    using assms(4) by (auto simp: old_mask_def READ_def WRITE_def)
  then show ?thesis using start_law [OF assms(1-3), of WRITE] assms(4) by simp
qed

lemma remove_write:
  assumes "ok s" "io_alive s w" "0 \<le> fd" "intr s w = Some (fd, READ OR WRITE)"
  shows "\<exists>t. stop w fd WRITE s = Inr t \<and> ok t \<and> io_alive t = io_alive s \<and> others t = others s \<and>
    intr t = (intr s)(w \<mapsto> (fd, READ))"
  using stop_law [OF assms, of WRITE] by (simp add: READ_def WRITE_def)

lemma write_round_trip:
  assumes "ok s" "io_alive s w" "0 \<le> fd" "intr s w = Some (fd, READ)"
  shows "\<exists>t u. start w fd WRITE s = Inr t \<and> stop w fd WRITE t = Inr u \<and> ok u \<and> intr u = intr s"
proof -
  from add_write [OF assms] obtain t where t: "start w fd WRITE s = Inr t" "ok t" "io_alive t = io_alive s"
    "intr t = (intr s)(w \<mapsto> (fd, READ OR WRITE))" by blast
  then have "io_alive t w" "intr t w = Some (fd, READ OR WRITE)" using assms(2) by simp_all
  from remove_write [OF t(2) this(1) assms(3) this(2)] obtain u where
    "stop w fd WRITE t = Inr u" "ok u" "intr u = (intr t)(w \<mapsto> (fd, READ))" by blast
  with t assms(4) show ?thesis by (auto simp: fun_upd_idem_iff)
qed

end

lemma interest_upd:
  "(\<forall>x. x \<noteq> w \<longrightarrow> interest l' x = interest l x) \<Longrightarrow> interest l' w = v \<Longrightarrow> interest l' = (interest l)(w := v)"
  by auto

text \<open>What the operations on io watchers never touch, of a server thread's state.\<close>

definition io_others ::
    "('cb, 'a) event_loop_scheme \<Rightarrow> (addr \<Rightarrow> (real \<times> real) option) \<times> (addr \<Rightarrow> 'cb) \<times> (addr \<Rightarrow> bool) \<times> addr set \<times> evbreak \<times> real \<times> 'a" where
  "io_others l = (expiry l, w_cb l, need_repeat l, {x. wkind l x = Some Ev_timer}, loop_done l, ev_rt_now l, event_loop.more l)"

lemma io_frame_others: "io_frame l l' \<Longrightarrow> io_others l' = io_others l"
  by (cases l; cases l') (auto simp: io_frame_def io_others_def expiry_def fun_eq_iff)

lemma wkind_eqI:
  assumes "\<And>x. wkind t x = Some Ev_io \<longleftrightarrow> wkind s x = Some Ev_io" "{x. wkind t x = Some Ev_timer} = {x. wkind s x = Some Ev_timer}"
  shows "wkind t = wkind s"
proof
  fix x
  have "wkind t x = Some Ev_timer \<longleftrightarrow> wkind s x = Some Ev_timer" using assms(2) by auto
  with assms(1) [of x] show "wkind t x = wkind s x"
    by (cases "wkind t x"; cases "wkind s x"; cases "the (wkind t x)"; cases "the (wkind s x)") simp_all
qed

interpretation el: io_events el_ok "\<lambda>l w. wkind l w = Some Ev_io" interest io_others start_io_event stop_io_event delete_io_event
proof (unfold_locales, goal_cases)
  case (1 s w fd m)
  from start_io_event_spec [OF 1(1-3), of m] 1(4) obtain t where
    t: "start_io_event w fd m s = Inr t" "el_ok t" "io_frame s t"
      "interest t w = Some (fd, (old_mask (interest s w) OR m) AND 3)" "\<forall>x. x \<noteq> w \<longrightarrow> interest t x = interest s x" by blast
  then show ?case using interest_upd [OF t(5,4)] io_frame_others [OF t(3)] by (auto simp: io_frame_def)
next
  case (2 s w fd e m)
  from stop_io_event_spec [OF 2, of m] obtain t where
    t: "stop_io_event w fd m s = Inr t" "el_ok t" "io_frame s t"
      "interest t w = (if e AND NOT m = e \<or> e AND NOT m \<noteq> 0 then Some (fd, e AND NOT m) else None)"
      "\<forall>x. x \<noteq> w \<longrightarrow> interest t x = interest s x" by blast
  then show ?case using interest_upd [OF t(5,4)] io_frame_others [OF t(3)] by (auto simp: io_frame_def)
next
  case (3 s w)
  from delete_io_event_spec [OF 3] obtain t m where
    t: "delete_io_event w s = Inr t" "el_ok t" "wkind t = (wkind s)(w := None)" "interest t w = None"
      "\<forall>x. x \<noteq> w \<longrightarrow> interest t x = interest s x" "io_frame s m" "t = free_watcher w m" by blast
  have "wkind m w = Some Ev_io" using t(6) 3(2) by (simp add: io_frame_def)
  then have "io_others t = io_others m" by (auto simp: t(7) io_others_def free_watcher_def expiry_def fun_eq_iff)
  with t interest_upd [OF t(5,4)] io_frame_others [OF t(6)] show ?case by auto
qed

end
