(* ===== verification/Ev_Epoll.thy ===== *)
theory Ev_Epoll
  imports Ev_Loop_Inv
begin

unbundle bit_operations_syntax

text \<open>
  The epoll backend of libev (\<open>ev_epoll.c\<close>) and the functions of \<open>ev.c\<close> that call it or recover
  from its errors. The kernel is a parameter: \<open>ctl\<close> is \<open>epoll_ctl\<close> on the loop's epoll descriptor,
  with a kernel state that is threaded through, and what \<open>epoll_wait\<close> delivers is an argument.
  What the code relies on is the predicate \<open>epoll_doc\<close>, the behaviour the manual page documents.
\<close>

section \<open>The kernel's interface\<close>

definition EPOLLIN :: u32 where "EPOLLIN = 0x001"

definition EPOLLOUT :: u32 where "EPOLLOUT = 0x004"

definition EPOLLERR :: u32 where "EPOLLERR = 0x008"

definition EPOLLHUP :: u32 where "EPOLLHUP = 0x010"

definition EV_EMASK_EPERM :: byte where "EV_EMASK_EPERM = 0x80"

datatype ctl_op = EPOLL_CTL_ADD | EPOLL_CTL_MOD | EPOLL_CTL_DEL

datatype errno = ENOENT | EEXIST | EPERM | EINTR | EBADF | Other_errno int

record epoll_event =
  ee_events :: u32
  ee_data :: u64

text \<open>The new state of the kernel, and \<open>None\<close> for the result 0 or the \<open>errno\<close>.\<close>

type_synonym 'k epoll_ctl = "ctl_op \<Rightarrow> fd \<Rightarrow> epoll_event \<Rightarrow> 'k \<Rightarrow> 'k \<times> errno option"

section \<open>Killing a descriptor\<close>

partial_function (option) fd_kill :: "fd \<Rightarrow> 'a ev_loop_scheme \<Rightarrow> 'a ev_loop_scheme res option" where
  "fd_kill fd l =
     (case head (anfds l ! nat fd) of
        [] \<Rightarrow> Some (Inr l)
      | w # _ \<Rightarrow>
          (case ev_io_stop w l of
             Inl e \<Rightarrow> Some (Inl e)
           | Inr l1 \<Rightarrow> fd_kill fd (ev_feed_event w (EV_ERROR OR EV_READ OR EV_WRITE) l1)))"

text \<open>\<open>fd_ebadf\<close>: \<open>bad fd\<close> says whether \<open>fcntl\<close> fails with \<open>EBADF\<close>. The loop is over the indices from \<open>i\<close> on.\<close>

partial_function (option) fd_ebadf :: "(fd \<Rightarrow> bool) \<Rightarrow> nat \<Rightarrow> 'a ev_loop_scheme \<Rightarrow> 'a ev_loop_scheme res option" where
  "fd_ebadf bad i l =
     (if i < length (anfds l)
      then (case (if ev_mask (anfds l ! i) \<noteq> 0 \<and> bad (int i) then fd_kill (int i) l else Some (Inr l)) of
              None \<Rightarrow> None
            | Some (Inl e) \<Rightarrow> Some (Inl e)
            | Some (Inr l1) \<Rightarrow> fd_ebadf bad (Suc i) l1)
      else Some (Inr l))"

definition fd_enomem :: "'a ev_loop_scheme \<Rightarrow> 'a ev_loop_scheme res option" where
  "fd_enomem l =
     (case List.find (\<lambda>i. ev_mask (anfds l ! i) \<noteq> 0) (rev [0..<length (anfds l)]) of
        None \<Rightarrow> Some (Inr l)
      | Some i \<Rightarrow> fd_kill (int i) l)"

definition fd_rearm_all :: "'a ev_loop_scheme \<Rightarrow> 'a ev_loop_scheme" where
  "fd_rearm_all l =
     fold (\<lambda>i l. if ev_mask (anfds l ! i) \<noteq> 0
                 then fd_change (int i) (EV__IOFDSET OR EV_ANFD_REIFY)
                        (l\<lparr>anfds := (anfds l)[i := (anfds l ! i)\<lparr>ev_mask := 0, emask := 0\<rparr>]\<rparr>)
                 else l)
       [0..<length (anfds l)] l"

section \<open>Changing the interest in a descriptor\<close>

definition to_epoll :: "byte \<Rightarrow> u32" where
  "to_epoll m = ((if m AND ucast EV_READ \<noteq> 0 then EPOLLIN else 0) OR (if m AND ucast EV_WRITE \<noteq> 0 then EPOLLOUT else 0))"

text \<open>The descriptor in the lower and the generation in the upper 32 bits.\<close>

definition epoll_data :: "fd \<Rightarrow> u32 \<Rightarrow> u64" where
  "epoll_data fd gen = (ucast (of_int fd :: u32) OR push_bit 32 (ucast gen))"

definition upd_anfd :: "fd \<Rightarrow> (anfd \<Rightarrow> anfd) \<Rightarrow> 'a ev_loop_scheme \<Rightarrow> 'a ev_loop_scheme" where
  "upd_anfd fd f l = l\<lparr>anfds := (anfds l)[nat fd := f (anfds l ! nat fd)]\<rparr>"

definition dec_egen :: "fd \<Rightarrow> 'a ev_loop_scheme \<Rightarrow> 'a ev_loop_scheme" where
  "dec_egen fd l = upd_anfd fd (\<lambda>a. a\<lparr>egen := egen a - 1\<rparr>) l"

text \<open>The end of \<open>epoll_modify\<close> when no call succeeded.\<close>

definition modify_failed :: "fd \<Rightarrow> 'a ev_loop_scheme \<Rightarrow> 'k \<Rightarrow> ('a ev_loop_scheme \<times> 'k) res option" where
  "modify_failed fd l k = map_option (\<lambda>m. rbind m (\<lambda>l1. Inr (dec_egen fd l1, k))) (fd_kill fd l)"

definition epoll_modify ::
    "'k epoll_ctl \<Rightarrow> fd \<Rightarrow> byte \<Rightarrow> byte \<Rightarrow> 'a ev_loop_scheme \<Rightarrow> 'k \<Rightarrow> ('a ev_loop_scheme \<times> 'k) res option" where
  "epoll_modify ctl fd oev nev l k =
     (if nev = 0 then Some (Inr (l, k))
      else
        let oldmask = emask (anfds l ! nat fd);
            l1 = upd_anfd fd (\<lambda>a. a\<lparr>emask := nev, egen := egen a + 1\<rparr>) l;
            ev = \<lparr>ee_events = to_epoll nev, ee_data = epoll_data fd (egen (anfds l1 ! nat fd))\<rparr>
        in case ctl (if oev \<noteq> 0 \<and> oldmask \<noteq> nev then EPOLL_CTL_MOD else EPOLL_CTL_ADD) fd ev k of
             (k1, None) \<Rightarrow> Some (Inr (l1, k1))
           | (k1, Some e) \<Rightarrow>
               if e = ENOENT
               then (case ctl EPOLL_CTL_ADD fd ev k1 of
                       (k2, None) \<Rightarrow> Some (Inr (l1, k2))
                     | (k2, Some _) \<Rightarrow> modify_failed fd l1 k2)
               else if e = EEXIST
               then if oldmask = nev then Some (Inr (dec_egen fd l1, k1))
                    else (case ctl EPOLL_CTL_MOD fd ev k1 of
                            (k2, None) \<Rightarrow> Some (Inr (l1, k2))
                          | (k2, Some _) \<Rightarrow> modify_failed fd l1 k2)
               else if e = EPERM
               then let l2 = upd_anfd fd (\<lambda>a. a\<lparr>emask := EV_EMASK_EPERM\<rparr>) l1
                    in Some (Inr (if oldmask AND EV_EMASK_EPERM = 0 then l2\<lparr>epoll_eperms := epoll_eperms l2 @ [fd]\<rparr> else l2, k1))
               else modify_failed fd l1 k1)"

text \<open>
  \<open>fd_reify\<close>, from index \<open>i\<close> on; \<open>epoll_modify\<close> may append to \<open>fdchanges\<close>, whose length is read again
  in each turn.
\<close>

partial_function (option) reify_from ::
    "'k epoll_ctl \<Rightarrow> nat \<Rightarrow> 'a ev_loop_scheme \<Rightarrow> 'k \<Rightarrow> ('a ev_loop_scheme \<times> 'k) res option" where
  "reify_from ctl i l k =
     (if i < length (fdchanges l)
      then (case reify_fd (fdchanges l ! i) l of
              (l1, []) \<Rightarrow> reify_from ctl (Suc i) l1 k
            | (l1, (fd, oev, nev) # _) \<Rightarrow>
                (case epoll_modify ctl fd oev nev l1 k of
                   None \<Rightarrow> None
                 | Some (Inl e) \<Rightarrow> Some (Inl e)
                 | Some (Inr (l2, k2)) \<Rightarrow> reify_from ctl (Suc i) l2 k2))
      else Some (Inr (l\<lparr>fdchanges := []\<rparr>, k)))"

definition fd_reify :: "'k epoll_ctl \<Rightarrow> 'a ev_loop_scheme \<Rightarrow> 'k \<Rightarrow> ('a ev_loop_scheme \<times> 'k) res option" where
  "fd_reify ctl l k = reify_from ctl 0 l k"

section \<open>Receiving events\<close>

text \<open>
  What one event of \<open>epoll_wait\<close> does. \<open>int fd = (uint32_t)data\<close> is taken as the index of \<open>anfds\<close>; the
  comment says it is in range.
\<close>

definition epoll_got :: "u32 \<Rightarrow> u32" where
  "epoll_got e =
     ((if e AND (EPOLLOUT OR EPOLLERR OR EPOLLHUP) \<noteq> 0 then EV_WRITE else 0) OR
      (if e AND (EPOLLIN OR EPOLLERR OR EPOLLHUP) \<noteq> 0 then EV_READ else 0))"

definition poll_event :: "'k epoll_ctl \<Rightarrow> epoll_event \<Rightarrow> 'a ev_loop_scheme \<Rightarrow> 'k \<Rightarrow> ('a ev_loop_scheme \<times> 'k) res" where
  "poll_event ctl ev l k =
     (let fd = unat (ucast (ee_data ev) :: u32) in
      if \<not> fd < length (anfds l) then Inl OutOfBounds
      else
        let want = ev_mask (anfds l ! fd); got = epoll_got (ee_events ev) in
        if egen (anfds l ! fd) \<noteq> ucast (drop_bit 32 (ee_data ev)) then Inr (l\<lparr>postfork := postfork l OR 2\<rparr>, k)
        else if got AND NOT (ucast want) \<noteq> 0
        then let l1 = upd_anfd (int fd) (\<lambda>a. a\<lparr>emask := want\<rparr>) l
             in case ctl (if want \<noteq> 0 then EPOLL_CTL_MOD else EPOLL_CTL_DEL) (int fd) (ev\<lparr>ee_events := to_epoll want\<rparr>) k of
                  (k1, None) \<Rightarrow> Inr (fd_event (int fd) got l1, k1)
                | (k1, Some _) \<Rightarrow> Inr (l1\<lparr>postfork := postfork l1 OR 2\<rparr>, k1)
        else Inr (fd_event (int fd) got l, k))"

fun poll_events :: "'k epoll_ctl \<Rightarrow> epoll_event list \<Rightarrow> 'a ev_loop_scheme \<Rightarrow> 'k \<Rightarrow> ('a ev_loop_scheme \<times> 'k) res" where
  "poll_events ctl [] l k = Inr (l, k)"
| "poll_events ctl (ev # evs) l k = rbind (poll_event ctl ev l k) (\<lambda>(l1, k1). poll_events ctl evs l1 k1)"

text \<open>
  The loop over \<open>epoll_eperms\<close> from the last index down; an entry that is not needed any more is
  overwritten with the last one.
\<close>

fun eperm_loop :: "nat \<Rightarrow> 'a ev_loop_scheme \<Rightarrow> 'a ev_loop_scheme res" where
  "eperm_loop 0 l = Inr l"
| "eperm_loop (Suc i) l =
     (let fd = epoll_eperms l ! i; a = anfds l ! nat fd; events = ev_mask a AND (ucast EV_READ OR ucast EV_WRITE)
      in if \<not> (0 \<le> fd \<and> nat fd < length (anfds l)) then Inl OutOfBounds
         else if emask a AND EV_EMASK_EPERM \<noteq> 0 \<and> events \<noteq> 0
         then eperm_loop i (fd_event fd (ucast events) l)
         else eperm_loop i
                (upd_anfd fd (\<lambda>a. a\<lparr>emask := 0\<rparr>)
                  (l\<lparr>epoll_eperms := butlast ((epoll_eperms l)[i := last (epoll_eperms l)])\<rparr>)))"

definition sizeof_epoll_event :: int where "sizeof_epoll_event = 12"

text \<open>
  \<open>epoll_poll\<close>: what \<open>epoll_wait\<close> gives is an argument. It is interrupted (\<open>EINTR\<close>), or fails with another
  error, for which \<open>ev_syserr\<close> aborts the process, or returns events.
\<close>

datatype epoll_result = Wait_events "epoll_event list" | Wait_eintr | Wait_error

definition epoll_timeout :: "'a ev_loop_scheme \<Rightarrow> real \<Rightarrow> real" where
  "epoll_timeout l timeout = (if epoll_eperms l \<noteq> [] then 0 else timeout)"

definition epoll_poll ::
    "'k epoll_ctl \<Rightarrow> epoll_result \<Rightarrow> 'a ev_loop_scheme \<Rightarrow> 'k \<Rightarrow> ('a ev_loop_scheme \<times> 'k) res" where
  "epoll_poll ctl res l k =
     (case res of
        Wait_eintr \<Rightarrow> Inr (l, k)
      | Wait_error \<Rightarrow> Inl Terminate
      | Wait_events es \<Rightarrow>
          rbind (poll_events ctl es l k) (\<lambda>(l1, k1).
            let l2 = (if int (length es) = epoll_eventmax l1
                      then l1\<lparr>epoll_eventmax := array_nextsize sizeof_epoll_event (epoll_eventmax l1) (epoll_eventmax l1 + 1)\<rparr>
                      else l1)
            in rbind (eperm_loop (length (epoll_eperms l2)) l2) (\<lambda>l3. Inr (l3, k1))))"

text \<open>\<open>epoll_fork\<close>: a new epoll descriptor with an empty interest list, \<open>k0\<close>, and all descriptors are armed again.\<close>

definition epoll_fork :: "'k \<Rightarrow> 'a ev_loop_scheme \<Rightarrow> 'a ev_loop_scheme \<times> 'k" where
  "epoll_fork k0 l = (fd_rearm_all l, k0)"

end
