(* ===== verification/Ev_Epoll_Proofs.thy ===== *)
theory Ev_Epoll_Proofs
  imports Ev_Epoll
begin

unbundle bit_operations_syntax

text \<open>
  What the epoll backend does: killing a descriptor ends and keeps the loop's invariant; the
  reconciliation with the kernel ends, whatever the kernel answers, and if the kernel behaves as
  documented its interest list then matches the watchers; events reach exactly the watchers that
  wait for them.
\<close>

section \<open>Killing a descriptor\<close>

text \<open>\<open>pre xs l\<close>: entries of \<open>fdchanges\<close> that \<open>fd_reify\<close> has already passed.\<close>

definition pre :: "fd list \<Rightarrow> 'a ev_loop_scheme \<Rightarrow> 'a ev_loop_scheme" where
  "pre xs l = l\<lparr>fdchanges := xs @ fdchanges l\<rparr>"

lemma pre_fields [simp]:
  "anfds (pre xs l) = anfds l" "active (pre xs l) = active l" "w_fd (pre xs l) = w_fd l" "w_events (pre xs l) = w_events l"
  "pending (pre xs l) = pending l" "pendings (pre xs l) = pendings l" "ABSPRI (pre xs l) = ABSPRI l"
  "fdchanges (pre xs l) = xs @ fdchanges l" "activecnt (pre xs l) = activecnt l" "epoll_eperms (pre xs l) = epoll_eperms l"
  "pre [] l = l"
  by (simp_all add: pre_def ABSPRI_def fun_eq_iff)

lemma pre_clear [simp]: "clear_pending w (pre xs l) = pre xs (clear_pending w l)"
  by (simp add: clear_pending_def Let_def) (simp add: pre_def)

lemma pre_feed [simp]: "ev_feed_event w r (pre xs l) = pre xs (ev_feed_event w r l)"
  by (simp add: ev_feed_event_def Let_def) (simp add: pre_def)

lemma pre_stop: "ev_io_stop w (pre xs l) = map_sum id (pre xs) (ev_io_stop w l)"
  by (simp add: ev_io_stop_def fd_change_def ev_stop_def Let_def) (simp add: pre_def)

text \<open>The fields that the backend never touches.\<close>

definition lmisc where
  "lmisc l = (w_repeat l, rfeeds l, timers l, w_at l, w_fd l, loop_done l, mn_now l, ev_rt_now l, now_floor l, rtmn_diff l, postfork l,
     priority l, ev_loop.more l)"

text \<open>What killing the descriptor \<open>fd\<close> changes.\<close>

definition killed :: "fd \<Rightarrow> 'a ev_loop_scheme \<Rightarrow> 'a ev_loop_scheme \<Rightarrow> bool" where
  "killed fd l l' \<longleftrightarrow> length (anfds l') = length (anfds l) \<and> (\<forall>j. j \<noteq> nat fd \<longrightarrow> anfds l' ! j = anfds l ! j) \<and>
     head (anfds l' ! nat fd) = [] \<and> ev_mask (anfds l' ! nat fd) = ev_mask (anfds l ! nat fd) \<and>
     emask (anfds l' ! nat fd) = emask (anfds l ! nat fd) \<and> egen (anfds l' ! nat fd) = egen (anfds l ! nat fd) \<and>
     w_events l' = w_events l \<and> epoll_eperms l' = epoll_eperms l \<and> wkind l' = wkind l \<and>
     (\<forall>w \<in> set (head (anfds l ! nat fd)). pending l' w \<noteq> 0 \<and> active l' w = 0) \<and>
     (\<forall>w. w \<notin> set (head (anfds l ! nat fd)) \<longrightarrow> active l' w = active l w \<and> pending l' w = pending l w) \<and>
     fdchanges l' = fdchanges l @ (if head (anfds l ! nat fd) \<noteq> [] \<and> reify (anfds l ! nat fd) = 0 then [fd] else []) \<and>
     lmisc l' = lmisc l \<and> (head (anfds l ! nat fd) = [] \<longrightarrow> l' = l)"

text \<open>One turn: the first watcher is stopped and gets an error event.\<close>

lemma kill_turn:
  assumes ok: "loop_ok l" and fd: "0 \<le> fd" "nat fd < length (anfds l)" and hd: "head (anfds l ! nat fd) = w # ws"
    and l2: "l2 = ev_feed_event w r (io_stopped w l)"
  shows "ev_io_stop w l = Inr (io_stopped w l)" "loop_ok l2" "length (anfds l2) = length (anfds l)"
    "\<And>j. j \<noteq> nat fd \<Longrightarrow> anfds l2 ! j = anfds l ! j"
    "anfds l2 ! nat fd = (anfds l ! nat fd)\<lparr>head := ws, reify := reify (anfds l ! nat fd) OR ucast EV_ANFD_REIFY\<rparr>"
    "w_events l2 = w_events l" "epoll_eperms l2 = epoll_eperms l" "wkind l2 = wkind l"
    "active l2 = (active l)(w := 0)" "pending l2 w \<noteq> 0" "\<And>x. x \<noteq> w \<Longrightarrow> pending l2 x = pending l x"
    "fdchanges l2 = fdchanges l @ (if reify (anfds l ! nat fd) = 0 then [fd] else [])"
    "reify (anfds l2 ! nat fd) \<noteq> 0" "lmisc l2 = lmisc l"
proof -
  have w: "w \<in> set (head (anfds l ! nat fd))" using hd by simp
  have a: "active l w = 1" "w_fd l w = fd" using io_okD(1) [OF ok fd(2) w] fd(1) by simp_all
  have k: "wkind l w = Some Ev_io" by (rule kind_okD(3) [OF ok a(1)])
  show "ev_io_stop w l = Inr (io_stopped w l)" by (rule ev_io_stop_eq [OF ok k]) (simp add: a)
  have "loop_ok (io_stopped w l)" by (rule io_stopped_ok [OF ok k]) (simp add: a)
  moreover have ks: "wkind (io_stopped w l) = wkind l" by (simp add: io_stopped_def Let_def)
  ultimately show "loop_ok l2" unfolding l2 using k by (intro ev_feed_event_ok) simp_all
  have s: "io_stopped w l = relink w 0 (nat fd) ws EV_ANFD_REIFY (- 1) (clear_pending w l)"
    using hd a(2) by (simp add: io_stopped_def Let_def)
  have ep: "epoll_eperms (ev_feed_event w r m) = epoll_eperms m" "epoll_eperms (clear_pending w m) = epoll_eperms m" for m :: "'a ev_loop_scheme"
    by (simp_all add: ev_feed_event_def clear_pending_def Let_def)
  show "length (anfds l2) = length (anfds l)" "w_events l2 = w_events l" "epoll_eperms l2 = epoll_eperms l" "wkind l2 = wkind l"
    "active l2 = (active l)(w := 0)"
    by (simp_all add: l2 s ep) (simp add: relink_def Let_def ep)
  show "anfds l2 ! j = anfds l ! j" if "j \<noteq> nat fd" for j using that by (simp add: l2 s relink_def Let_def)
  show an: "anfds l2 ! nat fd = (anfds l ! nat fd)\<lparr>head := ws, reify := reify (anfds l ! nat fd) OR ucast EV_ANFD_REIFY\<rparr>"
    using fd(2) by (simp add: l2 s relink_def Let_def)
  show "pending l2 w \<noteq> 0" by (simp add: l2)
  show "pending l2 x = pending l x" if "x \<noteq> w" for x using that by (simp add: l2 s)
  show "fdchanges l2 = fdchanges l @ (if reify (anfds l ! nat fd) = 0 then [fd] else [])"
    using fd(1) by (simp add: l2 s relink_def Let_def)
  have mi: "lmisc (ev_feed_event w r m) = lmisc m" "lmisc (clear_pending w m) = lmisc m" "lmisc (relink w a j vs fl d m) = lmisc m"
    for m :: "'a ev_loop_scheme" and a j vs fl d
    by (simp_all add: lmisc_def ev_feed_event_def clear_pending_def relink_def Let_def)
  show "lmisc l2 = lmisc l" by (simp add: l2 s mi)
  show "reify (anfds l2 ! nat fd) \<noteq> 0" unfolding an using reify_flag [OF reify_flags(2)] by simp
qed

lemma fd_kill_correct:
  assumes "loop_ok l" "0 \<le> fd" "nat fd < length (anfds l)"
  shows "\<exists>l'. (\<forall>xs. fd_kill fd (pre xs l) = Some (Inr (pre xs l'))) \<and> loop_ok l' \<and> killed fd l l'"
  using assms
proof (induction "head (anfds l ! nat fd)" arbitrary: l)
  case Nil
  then show ?case by (intro exI [of _ l] conjI allI) (simp_all add: fd_kill.simps killed_def flip: Nil(1))
next
  case (Cons w ws)
  define l2 where "l2 = ev_feed_event w (EV_ERROR OR EV_READ OR EV_WRITE) (io_stopped w l)"
  note T = kill_turn [OF Cons.prems Cons.hyps(2) [symmetric] l2_def]
  have fd2: "nat fd < length (anfds l2)" using T(3) Cons.prems(3) by simp
  from Cons.hyps(1) [of l2] T(2,5) Cons.prems(2) fd2 obtain l' where
    l': "\<And>xs. fd_kill fd (pre xs l2) = Some (Inr (pre xs l'))" "loop_ok l'" "killed fd l2 l'" by auto
  have "fd_kill fd (pre xs l) = Some (Inr (pre xs l'))" for xs
  proof -
    have "fd_kill fd (pre xs l) = fd_kill fd (pre xs l2)"
      by (subst fd_kill.simps) (simp add: pre_stop T(1) l2_def flip: Cons.hyps(2))
    then show ?thesis using l'(1) by simp
  qed
  moreover have "killed fd l l'"
  proof -
    have d: "distinct (w # ws)" using io_okD(2) [OF Cons.prems(1,3)] Cons.hyps(2) by simp
    have h2: "head (anfds l2 ! nat fd) = ws" using T(5) by simp
    have k: "\<And>x. x \<in> set ws \<Longrightarrow> pending l' x \<noteq> 0 \<and> active l' x = 0"
      "\<And>x. x \<notin> set ws \<Longrightarrow> active l' x = active l2 x \<and> pending l' x = pending l2 x"
      using l'(3) h2 by (auto simp: killed_def)
    have "pending l' w \<noteq> 0 \<and> active l' w = 0" using k(2) [of w] d T(9,10) by simp
    moreover have "active l' x = active l x \<and> pending l' x = pending l x" if "x \<notin> set (w # ws)" for x
      using k(2) [of x] that T(9) T(11) [of x] by auto
    ultimately show ?thesis
      using l'(3) k(1) T(3-8,12,13,14) h2 unfolding killed_def Cons.hyps(2) [symmetric] by auto
  qed
  ultimately show ?case using l'(2) by blast
qed

section \<open>Changing the kernel's interest\<close>

text \<open>
  What the manual page says of \<open>epoll_ctl\<close>; \<open>kint\<close> is the interest list of the loop's epoll
  descriptor in a state of the kernel. Adding a registered descriptor fails with \<open>EEXIST\<close>, and only
  that; a registered one can be modified and deleted; a call that fails changes nothing.
\<close>

definition epoll_doc :: "('k \<Rightarrow> fd \<rightharpoonup> u32 \<times> u64) \<Rightarrow> 'k epoll_ctl \<Rightarrow> bool" where
  "epoll_doc kint ctl \<longleftrightarrow> (\<forall>fd ev k.
     (\<forall>opr k' e. ctl opr fd ev k = (k', Some e) \<longrightarrow> kint k' = kint k \<and> (e = EEXIST \<longrightarrow> kint k fd \<noteq> None)) \<and>
     (\<forall>opr k'. ctl opr fd ev k = (k', None) \<longrightarrow> kint k' = (kint k)(fd :=
        (if opr = EPOLL_CTL_DEL then None else Some (ee_events ev, ee_data ev)))) \<and>
     (kint k fd \<noteq> None \<longrightarrow> snd (ctl EPOLL_CTL_ADD fd ev k) = Some EEXIST \<and> snd (ctl EPOLL_CTL_MOD fd ev k) = None \<and>
        snd (ctl EPOLL_CTL_DEL fd ev k) = None))"

lemma epoll_docD:
  assumes "epoll_doc kint ctl"
  shows "ctl opr fd ev k = (k', Some e) \<Longrightarrow> kint k' = kint k"
    and "ctl opr fd ev k = (k', Some EEXIST) \<Longrightarrow> kint k fd \<noteq> None"
    and "ctl opr fd ev k = (k', None) \<Longrightarrow> opr \<noteq> EPOLL_CTL_DEL \<Longrightarrow> kint k' = (kint k)(fd \<mapsto> (ee_events ev, ee_data ev))"
    and "ctl EPOLL_CTL_DEL fd ev k = (k', None) \<Longrightarrow> kint k' = (kint k)(fd := None)"
    and "ctl EPOLL_CTL_ADD fd ev k = (k', Some e) \<Longrightarrow> e \<noteq> EEXIST \<Longrightarrow> kint k fd = None"
    and "ctl EPOLL_CTL_MOD fd ev k = (k', Some e) \<Longrightarrow> kint k fd = None"
proof -
  have d: "(\<forall>opr k' e. ctl opr fd ev k = (k', Some e) \<longrightarrow> kint k' = kint k \<and> (e = EEXIST \<longrightarrow> kint k fd \<noteq> None)) \<and>
     (\<forall>opr k'. ctl opr fd ev k = (k', None) \<longrightarrow> kint k' = (kint k)(fd :=
        (if opr = EPOLL_CTL_DEL then None else Some (ee_events ev, ee_data ev)))) \<and>
     (kint k fd \<noteq> None \<longrightarrow> snd (ctl EPOLL_CTL_ADD fd ev k) = Some EEXIST \<and> snd (ctl EPOLL_CTL_MOD fd ev k) = None \<and>
        snd (ctl EPOLL_CTL_DEL fd ev k) = None)"
    using assms unfolding epoll_doc_def by (elim allE)
  note d1 = conjunct1 [OF d, rule_format] and d2 = conjunct1 [OF conjunct2 [OF d], rule_format]
    and d3 = conjunct2 [OF conjunct2 [OF d], rule_format]
  show "ctl opr fd ev k = (k', Some e) \<Longrightarrow> kint k' = kint k" using d1 by simp
  show "ctl opr fd ev k = (k', Some EEXIST) \<Longrightarrow> kint k fd \<noteq> None" using d1 by simp
  show "ctl opr fd ev k = (k', None) \<Longrightarrow> opr \<noteq> EPOLL_CTL_DEL \<Longrightarrow> kint k' = (kint k)(fd \<mapsto> (ee_events ev, ee_data ev))" using d2 by simp
  show "ctl EPOLL_CTL_DEL fd ev k = (k', None) \<Longrightarrow> kint k' = (kint k)(fd := None)" using d2 by simp
  show "ctl EPOLL_CTL_ADD fd ev k = (k', Some e) \<Longrightarrow> e \<noteq> EEXIST \<Longrightarrow> kint k fd = None" using d3 by (cases "kint k fd") simp_all
  show "ctl EPOLL_CTL_MOD fd ev k = (k', Some e) \<Longrightarrow> kint k fd = None" using d3 by (cases "kint k fd") simp_all
qed

text \<open>
  The part of it that holds whatever the kernel refuses: a call that fails changes nothing, one that succeeds
  stores or removes the entry of its descriptor.
\<close>

definition ctl_doc :: "('k \<Rightarrow> fd \<rightharpoonup> u32 \<times> u64) \<Rightarrow> 'k epoll_ctl \<Rightarrow> bool" where
  "ctl_doc kint ctl \<longleftrightarrow> (\<forall>opr fd ev k k' r. ctl opr fd ev k = (k', r) \<longrightarrow>
     kint k' = (if r = None then (kint k)(fd := if opr = EPOLL_CTL_DEL then None else Some (ee_events ev, ee_data ev)) else kint k))"

text \<open>The index that the data of an event stands for, and that it is below \<open>n\<close> in the whole interest list.\<close>

definition data_index :: "u64 \<Rightarrow> nat" where
  "data_index d = unat (ucast d :: u32)"

definition data_in :: "('k \<Rightarrow> fd \<rightharpoonup> u32 \<times> u64) \<Rightarrow> nat \<Rightarrow> 'k \<Rightarrow> bool" where
  "data_in kint n k \<longleftrightarrow> (\<forall>fd e d. kint k fd = Some (e, d) \<longrightarrow> data_index d < n)"

lemma data_in_mono: "data_in kint n k \<Longrightarrow> n \<le> m \<Longrightarrow> data_in kint m k"
  by (fastforce simp: data_in_def)

lemma ctl_data_in:
  assumes "ctl_doc kint ctl" "data_in kint n k" "data_index (ee_data ev) < n" "ctl opr fd ev k = (k', r)"
  shows "data_in kint n k'"
proof -
  have "kint k' = (if r = None then (kint k)(fd := if opr = EPOLL_CTL_DEL then None else Some (ee_events ev, ee_data ev)) else kint k)"
    using assms(1,4) unfolding ctl_doc_def by blast
  then show ?thesis using assms(2,3) by (auto simp: data_in_def split: if_splits)
qed

lemma data_index_less:
  assumes "0 \<le> fd" "nat fd < n"
  shows "data_index (epoll_data fd gen) < n"
proof -
  have "(ucast (epoll_data fd gen) :: u32) = of_int fd"
    unfolding epoll_data_def by (rule bit_word_eqI) (auto simp: bit_simps)
  moreover have "unat (of_int fd :: u32) \<le> nat fd"
    using assms(1) by (simp add: unsigned_of_int take_bit_eq_mod nat_mono zmod_le_nonneg_dividend)
  ultimately show ?thesis using assms(2) by (simp add: data_index_def)
qed

text \<open>The loop after \<open>epoll_modify\<close> has stored the new mask and generation.\<close>

abbreviation marked :: "fd \<Rightarrow> byte \<Rightarrow> 'a ev_loop_scheme \<Rightarrow> 'a ev_loop_scheme" where
  "marked fd nev l \<equiv> upd_anfd fd (\<lambda>a. a\<lparr>emask := nev, egen := egen a + 1\<rparr>) l"

abbreviation epermed :: "fd \<Rightarrow> byte \<Rightarrow> 'a ev_loop_scheme \<Rightarrow> 'a ev_loop_scheme" where
  "epermed fd nev l \<equiv> upd_anfd fd (\<lambda>a. a\<lparr>emask := EV_EMASK_EPERM\<rparr>) (marked fd nev l)"

lemma upd_anfd_nth:
  "nat fd < length (anfds l) \<Longrightarrow> anfds (upd_anfd fd f l) ! nat fd = f (anfds l ! nat fd)"
  "j \<noteq> nat fd \<Longrightarrow> anfds (upd_anfd fd f l) ! j = anfds l ! j"
  "length (anfds (upd_anfd fd f l)) = length (anfds l)"
  by (simp_all add: upd_anfd_def)

lemma upd_anfd_fields [simp]:
  "w_events (upd_anfd fd f l) = w_events l" "epoll_eperms (upd_anfd fd f l) = epoll_eperms l" "wkind (upd_anfd fd f l) = wkind l"
  "fdchanges (upd_anfd fd f l) = fdchanges l" "pending (upd_anfd fd f l) = pending l" "active (upd_anfd fd f l) = active l"
  by (simp_all add: upd_anfd_def)

lemma upd_anfd_misc [simp]: "lmisc (upd_anfd fd f l) = lmisc l" "lmisc (l\<lparr>epoll_eperms := es\<rparr>) = lmisc l"
  by (simp_all add: lmisc_def upd_anfd_def)

lemma pre_upd [simp]: "upd_anfd fd f (pre xs l) = pre xs (upd_anfd fd f l)" "dec_egen fd (pre xs l) = pre xs (dec_egen fd l)"
  by (simp_all add: upd_anfd_def dec_egen_def pre_def)

text \<open>The fields of an \<open>anfd\<close> that the invariant of the loop speaks of.\<close>

lemma anfds_same_ok:
  assumes ok: "loop_ok l" and f: "l' = l\<lparr>anfds := as, epoll_eperms := es\<rparr>" "length as = length (anfds l)"
    and h: "\<And>i. i < length (anfds l) \<Longrightarrow> head (as ! i) = head (anfds l ! i) \<and> reify (as ! i) = reify (anfds l ! i) \<and>
      ev_mask (as ! i) = ev_mask (anfds l ! i)"
  shows "loop_ok l'"
proof -
  have m: "map (\<lambda>a. length (head a)) as = map (\<lambda>a. length (head a)) (anfds l)"
    using f(2) h by (intro nth_equalityI) auto
  have w: "wanted l' i = wanted l i" if "i < length (anfds l)" for i
    using h [OF that] by (simp add: wanted_def f(1))
  have "pend_ok l'" "tim_ok l'" "kind_ok l'"
    using ok by (simp_all add: loop_ok_def pend_ok_def tim_ok_def kind_ok_def queued_def ABSPRI_def f(1))
  moreover have "cnt_ok l'" using ok m by (simp add: loop_ok_def cnt_ok_def f(1))
  moreover have "chg_ok l'" using ok h f(2) by (auto simp: loop_ok_def chg_ok_def f(1))
  moreover have "mask_ok l'" using ok h f(2) w by (simp add: loop_ok_def mask_ok_def f(1))
  moreover have "io_ok l'"
  proof -
    have "nat (w_fd l w) < length (anfds l)" if "active l w = 1" for w
      using io_okD(3) [OF ok that] by (simp add: nat_less_iff)
    then show ?thesis using ok h f(2) by (auto simp: loop_ok_def io_ok_def f(1))
  qed
  ultimately show ?thesis by (simp add: loop_ok_def)
qed

lemma upd_anfd_ok:
  assumes "loop_ok l" "\<And>a. head (f a) = head a \<and> reify (f a) = reify a \<and> ev_mask (f a) = ev_mask a"
  shows "loop_ok (upd_anfd fd f l)"
proof (rule anfds_same_ok [OF assms(1), where as = "(anfds l)[nat fd := f (anfds l ! nat fd)]" and es = "epoll_eperms l"], goal_cases)
  case (3 i)
  then show ?case using assms(2) by (cases "i = nat fd") simp_all
qed (simp_all add: upd_anfd_def)

lemma eperms_ok: "loop_ok l \<Longrightarrow> loop_ok (l\<lparr>epoll_eperms := es\<rparr>)"
  by (rule anfds_same_ok [where l = l and as = "anfds l" and es = es]) simp_all

text \<open>The four ways in which \<open>epoll_modify\<close> ends.\<close>

lemma modify_cases:
  assumes "nev \<noteq> 0" and l1: "l1 = marked fd nev l"
    and ev: "ev = \<lparr>ee_events = to_epoll nev, ee_data = epoll_data fd (egen (anfds l1 ! nat fd))\<rparr>"
  obtains (stored) k' k0 opr where "epoll_modify ctl fd oev nev l k = Some (Inr (l1, k'))" "ctl opr fd ev k0 = (k', None)"
      "opr \<noteq> EPOLL_CTL_DEL" "k0 = k \<or> (\<exists>o2 e. ctl o2 fd ev k = (k0, Some e))"
  | (same) k' opr where "epoll_modify ctl fd oev nev l k = Some (Inr (dec_egen fd l1, k'))"
      "ctl opr fd ev k = (k', Some EEXIST)" "emask (anfds l ! nat fd) = nev"
  | (eperm) k' opr l2 where "epoll_modify ctl fd oev nev l k = Some (Inr (l2, k'))" "ctl opr fd ev k = (k', Some EPERM)"
      "opr = EPOLL_CTL_ADD \<or> opr = EPOLL_CTL_MOD"
      "l2 = (if emask (anfds l ! nat fd) AND EV_EMASK_EPERM = 0 then (epermed fd nev l)\<lparr>epoll_eperms := epoll_eperms l @ [fd]\<rparr>
             else epermed fd nev l)"
  | (failed) k' k0 opr e where "epoll_modify ctl fd oev nev l k = modify_failed fd l1 k'" "ctl opr fd ev k0 = (k', Some e)"
      "opr = EPOLL_CTL_MOD \<or> opr = EPOLL_CTL_ADD \<and> e \<noteq> EEXIST \<or> opr = EPOLL_CTL_ADD \<and> ctl EPOLL_CTL_MOD fd ev k = (k0, Some ENOENT) \<or>
       opr = EPOLL_CTL_ADD \<and> ctl EPOLL_CTL_ADD fd ev k = (k0, Some ENOENT)"
      "k0 = k \<or> (\<exists>o2 e. ctl o2 fd ev k = (k0, Some e))"
proof -
  let ?op = "if oev \<noteq> 0 \<and> emask (anfds l ! nat fd) \<noteq> nev then EPOLL_CTL_MOD else EPOLL_CTL_ADD"
  have op: "?op \<noteq> EPOLL_CTL_DEL" "?op = EPOLL_CTL_ADD \<or> ?op = EPOLL_CTL_MOD" by simp_all
  have def: "epoll_modify ctl fd oev nev l k = (case ctl ?op fd ev k of
       (k1, None) \<Rightarrow> Some (Inr (l1, k1))
     | (k1, Some e) \<Rightarrow>
         if e = ENOENT
         then (case ctl EPOLL_CTL_ADD fd ev k1 of (k2, None) \<Rightarrow> Some (Inr (l1, k2)) | (k2, Some _) \<Rightarrow> modify_failed fd l1 k2)
         else if e = EEXIST
         then if emask (anfds l ! nat fd) = nev then Some (Inr (dec_egen fd l1, k1))
              else (case ctl EPOLL_CTL_MOD fd ev k1 of (k2, None) \<Rightarrow> Some (Inr (l1, k2)) | (k2, Some _) \<Rightarrow> modify_failed fd l1 k2)
         else if e = EPERM
         then Some (Inr (if emask (anfds l ! nat fd) AND EV_EMASK_EPERM = 0
                then (epermed fd nev l)\<lparr>epoll_eperms := epoll_eperms l @ [fd]\<rparr> else epermed fd nev l, k1))
         else modify_failed fd l1 k1)"
    using assms(1) unfolding epoll_modify_def Let_def l1 ev upd_anfd_fields by simp
  obtain k1 r where c: "ctl ?op fd ev k = (k1, r)" by (cases "ctl ?op fd ev k")
  show thesis
  proof (cases r)
    case None
    then show ?thesis using stored [OF _ _ op(1)] c def by simp
  next
    case (Some e)
    obtain k2 r2 where a: "ctl EPOLL_CTL_ADD fd ev k1 = (k2, r2)" by (cases "ctl EPOLL_CTL_ADD fd ev k1")
    obtain k3 r3 where m: "ctl EPOLL_CTL_MOD fd ev k1 = (k3, r3)" by (cases "ctl EPOLL_CTL_MOD fd ev k1")
    have c': "ctl ?op fd ev k = (k1, Some e)" using c Some by simp
    consider "e = ENOENT" "r2 = None" | e2 where "e = ENOENT" "r2 = Some e2" | "e = EEXIST" "emask (anfds l ! nat fd) = nev"
      | "e = EEXIST" "emask (anfds l ! nat fd) \<noteq> nev" "r3 = None" | e3 where "e = EEXIST" "emask (anfds l ! nat fd) \<noteq> nev" "r3 = Some e3"
      | "e = EPERM" | "e \<noteq> ENOENT" "e \<noteq> EEXIST" "e \<noteq> EPERM" by (cases r2; cases r3; blast)
    then show ?thesis
    proof cases
      case 1
      then show ?thesis using stored [of k2 EPOLL_CTL_ADD k1] def c' a by auto
    next
      case 2
      have "ctl EPOLL_CTL_MOD fd ev k = (k1, Some ENOENT) \<or> ctl EPOLL_CTL_ADD fd ev k = (k1, Some ENOENT)"
        using c' 2(1) by (cases "oev \<noteq> 0 \<and> emask (anfds l ! nat fd) \<noteq> nev") simp_all
      then show ?thesis using failed [of k2 EPOLL_CTL_ADD k1 e2] def c' a 2 by auto
    next
      case 3
      then show ?thesis using same [of k1 ?op] def c' by simp
    next
      case 4
      then show ?thesis using stored [of k3 EPOLL_CTL_MOD k1] def c' m by auto
    next
      case 5
      then show ?thesis using failed [of k3 EPOLL_CTL_MOD k1 e3] def c' m by auto
    next
      case 6
      show ?thesis by (rule eperm [OF _ _ op(2) refl, of k1]) (use def c' 6 in simp_all)
    next
      case 7
      then show ?thesis using failed [of k1 ?op k e] def c' op(2) by auto
    qed
  qed
qed

section \<open>The reconciliation\<close>

text \<open>
  Where an entry of the interest list belongs to the descriptor's present registration, it has the
  mask and the generation that libev remembers.
\<close>

definition reg_ok :: "('k \<Rightarrow> fd \<rightharpoonup> u32 \<times> u64) \<Rightarrow> 'a ev_loop_scheme \<Rightarrow> 'k \<Rightarrow> nat \<Rightarrow> bool" where
  "reg_ok kint l k i \<longleftrightarrow> (\<forall>e. kint k (int i) = Some e \<longrightarrow>
     e = (to_epoll (emask (anfds l ! i)), epoll_data (int i) (egen (anfds l ! i))))"

text \<open>
  The kernel reports the events \<open>m\<close> of descriptor \<open>i\<close>, with the generation that libev expects; or
  epoll refuses the descriptor and libev reports it as ready itself.
\<close>

definition armed_fd :: "('k \<Rightarrow> fd \<rightharpoonup> u32 \<times> u64) \<Rightarrow> 'a ev_loop_scheme \<Rightarrow> 'k \<Rightarrow> nat \<Rightarrow> byte \<Rightarrow> bool" where
  "armed_fd kint l k i m \<longleftrightarrow> kint k (int i) = Some (to_epoll m, epoll_data (int i) (egen (anfds l ! i))) \<or>
     emask (anfds l ! i) AND EV_EMASK_EPERM \<noteq> 0 \<and> int i \<in> set (epoll_eperms l)"

text \<open>
  One descriptor is in step with the kernel. The application closes a descriptor only when no
  watcher waits for it any more, or tells libev with \<open>ev_io_set\<close> that the descriptor is a new one.
\<close>

definition fd_sync :: "('k \<Rightarrow> fd \<rightharpoonup> u32 \<times> u64) \<Rightarrow> 'a ev_loop_scheme \<Rightarrow> 'k \<Rightarrow> nat \<Rightarrow> bool" where
  "fd_sync kint l k i \<longleftrightarrow> reg_ok kint l k i \<and>
     (emask (anfds l ! i) AND EV_EMASK_EPERM \<noteq> 0 \<longrightarrow> int i \<in> set (epoll_eperms l)) \<and>
     wanted l i AND EV_EMASK_EPERM = 0 \<and>
     (reify (anfds l ! i) AND ucast EV__IOFDSET = 0 \<and> ev_mask (anfds l ! i) \<noteq> 0 \<and> wanted l i \<noteq> 0 \<longrightarrow>
        armed_fd kint l k i (ev_mask (anfds l ! i)))"

definition epoll_sync :: "('k \<Rightarrow> fd \<rightharpoonup> u32 \<times> u64) \<Rightarrow> 'a ev_loop_scheme \<Rightarrow> 'k \<Rightarrow> bool" where
  "epoll_sync kint l k \<longleftrightarrow> (\<forall>i < length (anfds l). fd_sync kint l k i)"

text \<open>What \<open>epoll_modify\<close> and one turn of the reconciliation leave of the loop.\<close>

definition mod_frame :: "fd \<Rightarrow> 'a ev_loop_scheme \<Rightarrow> 'a ev_loop_scheme \<Rightarrow> bool" where
  "mod_frame fd l l' \<longleftrightarrow> length (anfds l') = length (anfds l) \<and> w_events l' = w_events l \<and> wkind l' = wkind l \<and>
     (\<forall>j. j \<noteq> nat fd \<longrightarrow> anfds l' ! j = anfds l ! j) \<and> set (epoll_eperms l) \<subseteq> set (epoll_eperms l') \<and>
     set (epoll_eperms l') \<subseteq> insert fd (set (epoll_eperms l)) \<and> lmisc l' = lmisc l \<and>
     (\<forall>w. active l' w = active l w \<or> active l' w = 0 \<and> active l w = 1) \<and>
     ev_mask (anfds l' ! nat fd) = ev_mask (anfds l ! nat fd) \<and>
     (head (anfds l' ! nat fd) = head (anfds l ! nat fd) \<and> reify (anfds l' ! nat fd) = reify (anfds l ! nat fd) \<and>
        fdchanges l' = fdchanges l \<and> active l' = active l \<and> pending l' = pending l \<or>
      head (anfds l' ! nat fd) = [] \<and> head (anfds l ! nat fd) \<noteq> [] \<and> length (fdchanges l') \<le> Suc (length (fdchanges l)) \<and>
        (\<forall>w \<in> set (head (anfds l ! nat fd)). pending l' w \<noteq> 0) \<and> (\<forall>w. pending l w \<noteq> 0 \<longrightarrow> pending l' w \<noteq> 0))"

lemma fd_sync_other:
  assumes "mod_frame fd l l'" "fd_sync kint l k i" "i \<noteq> nat fd" "kint k' (int i) = kint k (int i)"
  shows "fd_sync kint l' k' i"
proof -
  have a: "anfds l' ! i = anfds l ! i" and e: "set (epoll_eperms l) \<subseteq> set (epoll_eperms l')" and w: "wanted l' i = wanted l i"
    using assms(1,3) by (auto simp: mod_frame_def wanted_def)
  show ?thesis using assms(2,4) e unfolding fd_sync_def reg_ok_def armed_fd_def a w by auto
qed

lemma egen_undo [simp]: "egen a + 1 - 1 = egen a" by simp

lemma emask_eperm [simp]: "EV_EMASK_EPERM AND EV_EMASK_EPERM \<noteq> 0" "EV_EMASK_EPERM \<noteq> 0"
  by (simp_all add: EV_EMASK_EPERM_def)

text \<open>The descriptor that is modified: what the kernel knows of it afterwards.\<close>

definition now_sync :: "('k \<Rightarrow> fd \<rightharpoonup> u32 \<times> u64) \<Rightarrow> 'a ev_loop_scheme \<Rightarrow> 'k \<Rightarrow> nat \<Rightarrow> byte \<Rightarrow> bool" where
  "now_sync kint l k i m \<longleftrightarrow> reg_ok kint l k i \<and>
     (emask (anfds l ! i) AND EV_EMASK_EPERM \<noteq> 0 \<longrightarrow> int i \<in> set (epoll_eperms l)) \<and>
     (head (anfds l ! i) \<noteq> [] \<longrightarrow> armed_fd kint l k i m)"

lemma modify_failed_correct:
  assumes ok: "loop_ok l" and fd: "0 \<le> fd" "nat fd < length (anfds l)" and nev: "nev AND EV_EMASK_EPERM = 0"
    and hd: "head (anfds l ! nat fd) \<noteq> []"
  shows "\<exists>l'. (\<forall>xs. modify_failed fd (pre xs (marked fd nev l)) k = Some (Inr (pre xs l', k))) \<and> loop_ok l' \<and> mod_frame fd l l' \<and>
    (\<forall>kint. kint k fd = None \<longrightarrow> now_sync kint l' k (nat fd) nev)"
proof -
  let ?m = "marked fd nev l"
  have m: "loop_ok ?m" by (rule upd_anfd_ok [OF ok]) simp
  have fdm: "nat fd < length (anfds ?m)" using fd by (simp add: upd_anfd_nth)
  from fd_kill_correct [OF m fd(1) fdm] obtain l2 where
    l2: "\<And>xs. fd_kill fd (pre xs ?m) = Some (Inr (pre xs l2))" "loop_ok l2" "killed fd ?m l2" by blast
  let ?l' = "dec_egen fd l2"
  have ok': "loop_ok ?l'" unfolding dec_egen_def by (rule upd_anfd_ok [OF l2(2)]) simp
  have len: "length (anfds l2) = length (anfds l)" using l2(3) by (simp add: killed_def upd_anfd_nth)
  have an: "anfds ?l' ! nat fd = (anfds l2 ! nat fd)\<lparr>egen := egen (anfds l ! nat fd)\<rparr>"
    using l2(3) fd len by (simp add: dec_egen_def upd_anfd_nth killed_def)
  have nth: "anfds ?l' ! j = anfds l ! j" if "j \<noteq> nat fd" for j
    using l2(3) that by (simp add: dec_egen_def upd_anfd_nth killed_def)
  have am: "anfds ?m ! nat fd = (anfds l ! nat fd)\<lparr>emask := nev, egen := egen (anfds l ! nat fd) + 1\<rparr>"
    using fd by (simp add: upd_anfd_nth)
  have "active l w = 1" if "w \<in> set (head (anfds l ! nat fd))" for w using io_okD(1) [OF ok fd(2) that] by simp
  then have "mod_frame fd l ?l'"
    using l2(3) nth an am hd len unfolding killed_def mod_frame_def
    by (auto simp: dec_egen_def upd_anfd_nth)
  moreover have "now_sync kint ?l' k (nat fd) nev" if "kint k fd = None" for kint
    using that l2(3) an am nev fd(1) by (simp add: now_sync_def reg_ok_def killed_def)
  ultimately show ?thesis using l2(1) ok' by (intro exI [of _ ?l']) (simp add: modify_failed_def)
qed

definition pre_res :: "fd list \<Rightarrow> ('a ev_loop_scheme \<times> 'k) res option \<Rightarrow> ('a ev_loop_scheme \<times> 'k) res option" where
  "pre_res xs m = map_option (map_sum id (map_prod (pre xs) id)) m"

lemma pre_res_simps [simp]: "pre_res xs (Some (Inr (l, k))) = Some (Inr (pre xs l, k))"
  by (simp add: pre_res_def)

lemma modify_pre:
  fixes l :: "'a ev_loop_scheme" and k :: 'k
  assumes ok: "loop_ok l" and fd: "0 \<le> fd" "nat fd < length (anfds l)"
  shows "epoll_modify ctl fd oev nev (pre xs l) k = pre_res xs (epoll_modify ctl fd oev nev l k)"
proof -
  let ?m = "marked fd nev l"
  have m: "loop_ok ?m" by (rule upd_anfd_ok [OF ok]) simp
  have fdm: "nat fd < length (anfds ?m)" using fd by (simp add: upd_anfd_nth)
  from fd_kill_correct [OF m fd(1) fdm] obtain l2 where
    l2: "\<And>xs. fd_kill fd (pre xs ?m) = Some (Inr (pre xs l2))" by blast
  have f: "modify_failed fd (pre xs ?m) k0 = pre_res xs (modify_failed fd ?m k0)" for k0 :: 'k
    using l2 [of xs] l2 [of "[]"] by (simp add: modify_failed_def)
  have e: "(pre xs l1)\<lparr>epoll_eperms := es\<rparr> = pre xs (l1\<lparr>epoll_eperms := es\<rparr>)" for l1 :: "'a ev_loop_scheme" and es
    by (simp add: pre_def)
  show ?thesis
    unfolding epoll_modify_def Let_def pre_upd pre_fields f e
    by (simp only: if_distrib [of "pre_res xs"] prod.case_distrib [of "pre_res xs"] option.case_distrib [of "pre_res xs"]
        if_distrib [of "pre xs"] pre_res_simps)
qed

lemma epoll_modify_correct:
  assumes ok: "loop_ok l" and fd: "0 \<le> fd" "nat fd < length (anfds l)" and n0: "nev \<noteq> 0" and nev: "nev AND EV_EMASK_EPERM = 0"
    and hd: "head (anfds l ! nat fd) \<noteq> []"
  shows "\<exists>l' k'. epoll_modify ctl fd oev nev l k = Some (Inr (l', k')) \<and> loop_ok l' \<and> mod_frame fd l l' \<and>
    (\<forall>kint. epoll_doc kint ctl \<and> reg_ok kint l k (nat fd) \<and>
       (emask (anfds l ! nat fd) AND EV_EMASK_EPERM \<noteq> 0 \<longrightarrow> fd \<in> set (epoll_eperms l)) \<longrightarrow>
       (\<forall>x. x \<noteq> fd \<longrightarrow> kint k' x = kint k x) \<and> now_sync kint l' k' (nat fd) nev)"
proof -
  let ?m = "marked fd nev l"
  define ev where "ev = \<lparr>ee_events = to_epoll nev, ee_data = epoll_data fd (egen (anfds ?m ! nat fd))\<rparr>"
  have m: "loop_ok ?m" by (rule upd_anfd_ok [OF ok]) simp
  have am: "anfds ?m ! nat fd = (anfds l ! nat fd)\<lparr>emask := nev, egen := egen (anfds l ! nat fd) + 1\<rparr>"
    using fd by (simp add: upd_anfd_nth)
  have fm: "mod_frame fd l ?m" using fd by (auto simp: mod_frame_def upd_anfd_nth)
  have evf: "ee_events ev = to_epoll nev" "ee_data ev = epoll_data fd (egen (anfds ?m ! nat fd))" by (simp_all add: ev_def)
  show ?thesis
  proof (rule modify_cases [OF n0 refl ev_def, of ctl oev k])
    fix k' k0 opr assume e: "epoll_modify ctl fd oev nev l k = Some (Inr (?m, k'))" "ctl opr fd ev k0 = (k', None)"
      "opr \<noteq> EPOLL_CTL_DEL" "k0 = k \<or> (\<exists>o2 e. ctl o2 fd ev k = (k0, Some e))"
    have "(\<forall>x. x \<noteq> fd \<longrightarrow> kint k' x = kint k x) \<and> now_sync kint ?m k' (nat fd) nev" if d: "epoll_doc kint ctl" for kint
    proof -
      have "kint k0 = kint k" using e(4) epoll_docD(1) [OF d] by blast
      then have "kint k' = (kint k)(fd \<mapsto> (to_epoll nev, epoll_data fd (egen (anfds ?m ! nat fd))))"
        using epoll_docD(3) [OF d e(2,3)] evf by simp
      then show ?thesis using fd(1) am nev by (simp add: now_sync_def reg_ok_def armed_fd_def)
    qed
    then show ?thesis using e(1) m fm by blast
  next
    fix k' opr assume e: "epoll_modify ctl fd oev nev l k = Some (Inr (dec_egen fd ?m, k'))"
      "ctl opr fd ev k = (k', Some EEXIST)" "emask (anfds l ! nat fd) = nev"
    have am': "anfds (dec_egen fd ?m) ! nat fd = anfds l ! nat fd"
      using fd e(3) by (simp add: dec_egen_def upd_anfd_nth)
    have "loop_ok (dec_egen fd ?m)" unfolding dec_egen_def by (rule upd_anfd_ok [OF m]) simp
    moreover have "mod_frame fd l (dec_egen fd ?m)" using am' by (auto simp: mod_frame_def dec_egen_def upd_anfd_nth)
    moreover have "(\<forall>x. x \<noteq> fd \<longrightarrow> kint k' x = kint k x) \<and> now_sync kint (dec_egen fd ?m) k' (nat fd) nev"
      if d: "epoll_doc kint ctl" and r: "reg_ok kint l k (nat fd)" for kint
    proof -
      have k: "kint k' = kint k" "kint k fd \<noteq> None" using epoll_docD(1,2) [OF d] e(2) by blast+
      then show ?thesis using r fd(1) am' e(3) nev by (auto simp: now_sync_def reg_ok_def armed_fd_def)
    qed
    ultimately show ?thesis using e(1) by blast
  next
    fix k' opr l2 assume e: "epoll_modify ctl fd oev nev l k = Some (Inr (l2, k'))" "ctl opr fd ev k = (k', Some EPERM)"
      "opr = EPOLL_CTL_ADD \<or> opr = EPOLL_CTL_MOD"
      "l2 = (if emask (anfds l ! nat fd) AND EV_EMASK_EPERM = 0 then (epermed fd nev l)\<lparr>epoll_eperms := epoll_eperms l @ [fd]\<rparr>
             else epermed fd nev l)"
    have p: "loop_ok (epermed fd nev l)" by (rule upd_anfd_ok [OF m]) simp
    have "loop_ok l2" using p eperms_ok [OF p] e(4) by simp
    moreover have "mod_frame fd l l2" using fd e(4) by (auto simp: mod_frame_def upd_anfd_nth)
    moreover have "(\<forall>x. x \<noteq> fd \<longrightarrow> kint k' x = kint k x) \<and> now_sync kint l2 k' (nat fd) nev"
      if d: "epoll_doc kint ctl" and r: "emask (anfds l ! nat fd) AND EV_EMASK_EPERM \<noteq> 0 \<longrightarrow> fd \<in> set (epoll_eperms l)" for kint
    proof -
      have "kint k' = kint k" "kint k fd = None"
        using epoll_docD(1) [OF d e(2)] epoll_docD(5,6) [OF d] e(2,3) by (blast, blast)
      moreover have "emask (anfds l2 ! nat fd) = EV_EMASK_EPERM" "fd \<in> set (epoll_eperms l2)"
        using fd e(4) r by (auto simp: upd_anfd_nth)
      ultimately show ?thesis using fd(1) by (simp add: now_sync_def reg_ok_def armed_fd_def)
    qed
    ultimately show ?thesis using e(1) by blast
  next
    fix k' k0 opr e assume e: "epoll_modify ctl fd oev nev l k = modify_failed fd ?m k'" "ctl opr fd ev k0 = (k', Some e)"
      "opr = EPOLL_CTL_MOD \<or> opr = EPOLL_CTL_ADD \<and> e \<noteq> EEXIST \<or> opr = EPOLL_CTL_ADD \<and> ctl EPOLL_CTL_MOD fd ev k = (k0, Some ENOENT) \<or>
       opr = EPOLL_CTL_ADD \<and> ctl EPOLL_CTL_ADD fd ev k = (k0, Some ENOENT)"
      "k0 = k \<or> (\<exists>o2 e. ctl o2 fd ev k = (k0, Some e))"
    from modify_failed_correct [OF ok fd nev hd, of k'] obtain l' where
      l': "\<And>xs. modify_failed fd (pre xs ?m) k' = Some (Inr (pre xs l', k'))" "loop_ok l'" "mod_frame fd l l'"
        "\<And>kint. kint k' fd = None \<Longrightarrow> now_sync kint l' k' (nat fd) nev" by blast
    have "(\<forall>x. x \<noteq> fd \<longrightarrow> kint k' x = kint k x) \<and> now_sync kint l' k' (nat fd) nev" if d: "epoll_doc kint ctl" for kint
    proof -
      have k0: "kint k0 = kint k" using e(4) epoll_docD(1) [OF d] by blast
      have k': "kint k' = kint k0" by (rule epoll_docD(1) [OF d e(2)])
      have "kint k0 fd = None"
        using e(3) epoll_docD(5) [OF d, of fd ev k0 k' e] epoll_docD(6) [OF d, of fd ev k0 k' e] e(2)
          epoll_docD(5) [OF d, of fd ev k k0 ENOENT] epoll_docD(6) [OF d, of fd ev k k0 ENOENT] k0 by auto
      then show ?thesis using l'(4) [of kint] k0 k' by simp
    qed
    then show ?thesis using e(1) l'(1) [of "[]"] l'(2,3) by auto
  qed
qed

text \<open>Whatever the kernel answers, the data that is registered stays in range.\<close>

lemma epoll_modify_data:
  fixes l :: "'a ev_loop_scheme"
  assumes m: "epoll_modify ctl fd oev nev l k = Some (Inr (l', k'))" and d: "ctl_doc kint ctl" "data_in kint n k" and fd: "0 \<le> fd" "nat fd < n"
  shows "data_in kint n k'"
proof (cases "nev = 0")
  case True
  then show ?thesis using m d(2) by (simp add: epoll_modify_def)
next
  case False
  define ev where "ev = \<lparr>ee_events = to_epoll nev, ee_data = epoll_data fd (egen (anfds (marked fd nev l) ! nat fd))\<rparr>"
  have i: "data_index (ee_data ev) < n" using data_index_less [OF fd] by (simp add: ev_def)
  note step = ctl_data_in [OF d(1) _ i]
  have two: "data_in kint n k2" if "ctl opr fd ev k1 = (k2, r)" "k1 = k \<or> (\<exists>o2 e. ctl o2 fd ev k = (k1, Some e))" for opr k1 k2 r
    using that step d(2) by blast
  have failed: "k' = k1" if "modify_failed fd l1 k1 = Some (Inr (l', k'))" for k1 and l1 :: "'a ev_loop_scheme"
    using that by (auto simp: modify_failed_def)
  show ?thesis
  proof (rule modify_cases [OF False refl ev_def, of ctl oev k], goal_cases)
    case (4 k1 k0 opr e)
    then show ?case using failed m two by (metis (no_types))
  qed (use m two in auto)
qed

text \<open>The loop after the turn of \<open>fd_reify\<close> for the first entry of \<open>fdchanges\<close>, before the backend is called.\<close>

definition reified :: "fd \<Rightarrow> 'a ev_loop_scheme \<Rightarrow> 'a ev_loop_scheme" where
  "reified fd l = l\<lparr>anfds := (anfds l)[nat fd := (anfds l ! nat fd)\<lparr>reify := 0, ev_mask := wanted l (nat fd)\<rparr>],
     fdchanges := tl (fdchanges l)\<rparr>"

lemma reified_fields [simp]:
  "w_events (reified fd l) = w_events l" "wkind (reified fd l) = wkind l" "pending (reified fd l) = pending l"
  "active (reified fd l) = active l" "epoll_eperms (reified fd l) = epoll_eperms l" "length (anfds (reified fd l)) = length (anfds l)"
  "fdchanges (reified fd l) = tl (fdchanges l)"
  by (simp_all add: reified_def)

lemma reified_misc [simp]: "lmisc (reified fd l) = lmisc l"
  by (simp add: lmisc_def reified_def)

lemma reified_nth:
  "nat fd < length (anfds l) \<Longrightarrow> anfds (reified fd l) ! nat fd = (anfds l ! nat fd)\<lparr>reify := 0, ev_mask := wanted l (nat fd)\<rparr>"
  "j \<noteq> nat fd \<Longrightarrow> anfds (reified fd l) ! j = anfds l ! j"
  by (simp_all add: reified_def)

lemma reified_head: "head (anfds (reified fd l) ! i) = head (anfds l ! i)"
  by (cases "nat fd < length (anfds l)"; cases "i = nat fd") (simp_all add: reified_def list_update_beyond)

lemma reified_wanted [simp]: "wanted (reified fd l) i = wanted l i"
  by (simp add: wanted_def reified_head)

lemma reified_ok:
  assumes ok: "loop_ok l" and c: "fdchanges l = fd # cs"
  shows "loop_ok (reified fd l)" "0 \<le> fd" "nat fd < length (anfds l)"
proof -
  have chg: "distinct (fd # cs)" "\<And>x. x \<in> set (fd # cs) \<longleftrightarrow> 0 \<le> x \<and> nat x < length (anfds l) \<and> reify (anfds l ! nat x) \<noteq> 0"
    using ok c by (simp_all add: loop_ok_def chg_ok_def)
  then show fd: "0 \<le> fd" "nat fd < length (anfds l)" by auto
  let ?r = "reified fd l"
  have m: "map (\<lambda>a. length (head a)) (anfds ?r) = map (\<lambda>a. length (head a)) (anfds l)"
    by (intro nth_equalityI) (simp_all add: reified_head)
  have "pend_ok ?r" "tim_ok ?r" "kind_ok ?r"
    using ok by (simp_all add: loop_ok_def pend_ok_def tim_ok_def kind_ok_def queued_def ABSPRI_def reified_def)
  moreover have "cnt_ok ?r"
  proof -
    have "activecnt ?r = activecnt l" "timers ?r = timers l" by (simp_all add: reified_def)
    then show ?thesis using ok m unfolding loop_ok_def cnt_ok_def by metis
  qed
  moreover have "chg_ok ?r"
    unfolding chg_ok_def
  proof (intro conjI allI)
    fix x
    show "x \<in> set (fdchanges ?r) \<longleftrightarrow> 0 \<le> x \<and> nat x < length (anfds ?r) \<and> reify (anfds ?r ! nat x) \<noteq> 0"
    proof (cases "x = fd")
      case True
      then show ?thesis using chg(1) c fd by (simp add: reified_nth)
    next
      case False
      have "nat x \<noteq> nat fd" if "0 \<le> x" using that fd(1) False by simp
      then show ?thesis using chg(2) [of x] c False by (auto simp: reified_nth)
    qed
  qed (use chg(1) c in simp)
  moreover have "mask_ok ?r"
    unfolding mask_ok_def
  proof (intro allI impI)
    fix i assume i: "i < length (anfds ?r)" "reify (anfds ?r ! i) = 0"
    show "ev_mask (anfds ?r ! i) = wanted ?r i"
      using i ok fd by (cases "i = nat fd") (simp_all add: reified_nth loop_ok_def mask_ok_def)
  qed
  moreover have "io_ok ?r"
  proof -
    have "w_fd ?r = w_fd l" by (simp add: reified_def)
    then show ?thesis using ok unfolding loop_ok_def io_ok_def reified_head reified_fields by simp
  qed
  ultimately show "loop_ok ?r" by (simp add: loop_ok_def)
qed

text \<open>What the reconciliation keeps: watchers only leave the lists with an event pending.\<close>

definition rframe :: "'a ev_loop_scheme \<Rightarrow> 'a ev_loop_scheme \<Rightarrow> bool" where
  "rframe l l' \<longleftrightarrow> length (anfds l') = length (anfds l) \<and> w_events l' = w_events l \<and> wkind l' = wkind l \<and> lmisc l' = lmisc l \<and>
     (\<forall>w. active l' w = active l w \<or> active l' w = 0 \<and> active l w = 1) \<and>
     (\<forall>fd \<in> set (epoll_eperms l'). fd \<in> set (epoll_eperms l) \<or> 0 \<le> fd \<and> nat fd < length (anfds l)) \<and>
     (\<forall>w. pending l w \<noteq> 0 \<longrightarrow> pending l' w \<noteq> 0) \<and>
     (\<forall>i < length (anfds l). head (anfds l' ! i) = head (anfds l ! i) \<or>
        head (anfds l' ! i) = [] \<and> (\<forall>w \<in> set (head (anfds l ! i)). pending l' w \<noteq> 0))"

lemma rframe_trans:
  assumes a: "rframe a b" and b: "rframe b c"
  shows "rframe a c"
  unfolding rframe_def
proof (intro conjI allI impI ballI)
  show "active c w = active a w \<or> active c w = 0 \<and> active a w = 1" for w
    using a b unfolding rframe_def by metis
  show "fd \<in> set (epoll_eperms a) \<or> 0 \<le> fd \<and> nat fd < length (anfds a)" if "fd \<in> set (epoll_eperms c)" for fd
    using a b that unfolding rframe_def by metis
  show "head (anfds c ! i) = head (anfds a ! i) \<or> head (anfds c ! i) = [] \<and> (\<forall>w \<in> set (head (anfds a ! i)). pending c w \<noteq> 0)"
    if "i < length (anfds a)" for i
    using a b that unfolding rframe_def by metis
qed (use a b in \<open>simp_all add: rframe_def\<close>)

definition masks_clean :: "'a ev_loop_scheme \<Rightarrow> bool" where
  "masks_clean l \<longleftrightarrow> (\<forall>i < length (anfds l). wanted l i AND EV_EMASK_EPERM = 0)"

lemma rframe_clean: "rframe l l' \<Longrightarrow> masks_clean l \<Longrightarrow> masks_clean l'"
  by (fastforce simp: rframe_def masks_clean_def wanted_def)

definition busy_fds :: "'a ev_loop_scheme \<Rightarrow> nat set" where
  "busy_fds l = {i. i < length (anfds l) \<and> head (anfds l ! i) \<noteq> []}"

lemma finite_busy [simp]: "finite (busy_fds l)"
  by (simp add: busy_fds_def)

definition reify_left :: "'a ev_loop_scheme \<Rightarrow> nat" where
  "reify_left l = length (fdchanges l) + card (busy_fds l)"

text \<open>One turn and the call of the backend.\<close>

definition reify_turn :: "'k epoll_ctl \<Rightarrow> fd \<Rightarrow> 'a ev_loop_scheme \<Rightarrow> 'k \<Rightarrow> ('a ev_loop_scheme \<times> 'k) res option" where
  "reify_turn ctl fd l k = (case reify_fd fd l of
     (l1, []) \<Rightarrow> Some (Inr (l1, k)) | (l1, (fd, oev, nev) # _) \<Rightarrow> epoll_modify ctl fd oev nev l1 k)"

lemma reify_from_turn:
  assumes "i < length (fdchanges l)"
  shows "reify_from ctl i l k = (case reify_turn ctl (fdchanges l ! i) l k of
     None \<Rightarrow> None | Some (Inl e) \<Rightarrow> Some (Inl e) | Some (Inr (l2, k2)) \<Rightarrow> reify_from ctl (Suc i) l2 k2)"
  by (subst reify_from.simps) (simp add: assms reify_turn_def split: prod.split list.split)

lemma reify_fd_pre:
  assumes "fdchanges l = fd # cs"
  shows "fst (reify_fd fd (pre xs l)) = pre (xs @ [fd]) (reified fd l)"
    and "snd (reify_fd fd (pre xs l)) = snd (reify_fd fd l)"
proof -
  have "wanted (pre xs l) i = wanted l i" for i by (simp add: wanted_def)
  then show "fst (reify_fd fd (pre xs l)) = pre (xs @ [fd]) (reified fd l)"
    using reify_fd_fields(1) [of fd "pre xs l"] assms
    by (cases "reify_fd fd (pre xs l)") (simp add: reified_def pre_def)
  show "snd (reify_fd fd (pre xs l)) = snd (reify_fd fd l)"
    by (simp add: reify_fd_def Let_def)
qed

lemma reified_sync:
  assumes "epoll_sync kint l k" "i < length (anfds l)" "i \<noteq> nat fd"
  shows "fd_sync kint (reified fd l) k i"
  using assms unfolding epoll_sync_def fd_sync_def reg_ok_def armed_fd_def by (simp add: reified_nth)

lemma reified_rframe: "rframe l (reified fd l)"
  by (simp add: rframe_def reified_head)

lemma mod_frame_rframe:
  assumes "mod_frame fd l l'" "0 \<le> fd" "nat fd < length (anfds l)"
  shows "rframe l l'"
  unfolding rframe_def
proof (intro conjI allI impI)
  fix i assume "i < length (anfds l)"
  show "head (anfds l' ! i) = head (anfds l ! i) \<or> head (anfds l' ! i) = [] \<and> (\<forall>w \<in> set (head (anfds l ! i)). pending l' w \<noteq> 0)"
    using assms by (cases "i = nat fd") (auto simp: mod_frame_def)
qed (use assms in \<open>auto simp: mod_frame_def\<close>)

lemma mod_frame_left:
  assumes f: "mod_frame fd (reified fd l) l'" and c: "fdchanges l = fd # cs" and fd: "nat fd < length (anfds l)"
  shows "reify_left l' < reify_left l"
proof -
  let ?r = "reified fd l"
  have len: "length (anfds l') = length (anfds l)" using f by (simp add: mod_frame_def)
  have o: "head (anfds l' ! i) = head (anfds l ! i)" if "i \<noteq> nat fd" for i
    using f that reified_head [of fd l i] by (simp add: mod_frame_def)
  show ?thesis
  proof (cases "head (anfds l' ! nat fd) = head (anfds l ! nat fd)")
    case True
    then have "fdchanges l' = cs"
      using f c reified_head [of fd l "nat fd"] by (auto simp: mod_frame_def)
    moreover have "head (anfds l' ! i) = head (anfds l ! i)" for i using o True by (cases "i = nat fd") simp_all
    then have "busy_fds l' = busy_fds l" using len by (simp add: busy_fds_def)
    ultimately show ?thesis using c by (simp add: reify_left_def)
  next
    case False
    then have k: "head (anfds l' ! nat fd) = []" "head (anfds l ! nat fd) \<noteq> []" "length (fdchanges l') \<le> Suc (length cs)"
      using f c reified_head [of fd l "nat fd"] by (auto simp: mod_frame_def)
    have "i \<in> busy_fds l' \<longleftrightarrow> i \<in> busy_fds l - {nat fd}" for i
      using o k(1) len by (cases "i = nat fd") (simp_all add: busy_fds_def)
    then have "busy_fds l' = busy_fds l - {nat fd}" by blast
    moreover have "nat fd \<in> busy_fds l" using k(2) fd by (simp add: busy_fds_def)
    ultimately have "card (busy_fds l') < card (busy_fds l)" by (simp add: card_Diff1_less del: card_Diff_insert)
    then show ?thesis using k(3) c by (simp add: reify_left_def)
  qed
qed

lemma reify_turn_correct:
  assumes ok: "loop_ok l" and c: "fdchanges l = fd # cs" and cl: "masks_clean l"
  shows "\<exists>l2 k2. (\<forall>xs. reify_turn ctl fd (pre xs l) k = Some (Inr (pre (xs @ [fd]) l2, k2))) \<and> loop_ok l2 \<and>
    reify_left l2 < reify_left l \<and> rframe l l2 \<and>
    (\<forall>kint. epoll_doc kint ctl \<and> epoll_sync kint l k \<longrightarrow> epoll_sync kint l2 k2) \<and>
    (\<forall>kint. ctl_doc kint ctl \<and> data_in kint (length (anfds l)) k \<longrightarrow> data_in kint (length (anfds l)) k2)"
proof -
  note R = reified_ok [OF ok c]
  let ?r = "reified fd l" and ?o = "ev_mask (anfds l ! nat fd)" and ?n = "wanted l (nat fd)"
  obtain m cs1 where s: "reify_fd fd l = (m, cs1)" by (cases "reify_fd fd l") simp
  have fp: "reify_fd fd (pre xs l) = (pre (xs @ [fd]) ?r, cs1)" for xs
    using reify_fd_pre [OF c, of xs] s by (cases "reify_fd fd (pre xs l)") simp
  have rfd: "anfds ?r ! nat fd = (anfds l ! nat fd)\<lparr>reify := 0, ev_mask := ?n\<rparr>" by (rule reified_nth(1) [OF R(3)])
  have f0: "mod_frame fd ?r ?r" by (auto simp: mod_frame_def)
  have here: "epoll_sync kint l' k'" if f: "mod_frame fd ?r l'" and s: "epoll_sync kint l k"
    and o: "\<And>x. x \<noteq> fd \<Longrightarrow> kint k' x = kint k x" and h: "fd_sync kint l' k' (nat fd)" for kint l' k'
    unfolding epoll_sync_def
  proof (intro allI impI)
    fix i assume "i < length (anfds l')"
    then have i: "i < length (anfds l)" using f by (simp add: mod_frame_def)
    show "fd_sync kint l' k' i"
    proof (cases "i = nat fd")
      case False
      show ?thesis by (rule fd_sync_other [OF f reified_sync [OF s i False] False]) (use o R(2) False in auto)
    qed (use h in simp)
  qed
  have sfd: "fd_sync kint l k (nat fd)" if "epoll_sync kint l k" for kint using that R(3) by (simp add: epoll_sync_def)
  show ?thesis
  proof (cases "cs1 = [] \<or> ?n = 0")
    case True
    have "reify_turn ctl fd (pre xs l) k = Some (Inr (pre (xs @ [fd]) ?r, k))" for xs
    proof (cases cs1)
      case (Cons a as)
      then have "cs1 = [(fd, ?o, ?n)]" using reify_fd_fields(3) [OF s] by simp
      then show ?thesis using True by (simp add: reify_turn_def fp epoll_modify_def)
    qed (simp add: reify_turn_def fp)
    moreover have "epoll_sync kint ?r k" if d: "epoll_sync kint l k" for kint
    proof (rule here [OF f0 d])
      have mask: "?o = ?n" and io: "reify (anfds l ! nat fd) AND ucast EV__IOFDSET = 0" if "?n \<noteq> 0"
      proof -
        have "cs1 = []" using True that by blast
        then show "?o = ?n" "reify (anfds l ! nat fd) AND ucast EV__IOFDSET = 0"
          using s reify_fd_fields(2) [OF s] unfolding reify_fd_def Let_def wanted_def [symmetric]
          by (auto split: if_splits)
      qed
      show "fd_sync kint ?r k (nat fd)"
        using sfd [OF d] mask io unfolding fd_sync_def reg_ok_def armed_fd_def by (auto simp: rfd)
    qed simp
    moreover have "reify_left ?r < reify_left l" by (rule mod_frame_left [OF f0 c R(3)])
    ultimately show ?thesis using R(1) reified_rframe by blast
  next
    case False
    then have cs1: "cs1 = [(fd, ?o, ?n)]" and n0: "?n \<noteq> 0" using reify_fd_fields(3) [OF s] by simp_all
    have cln: "?n AND EV_EMASK_EPERM = 0" using cl R(3) by (simp add: masks_clean_def)
    have len: "nat fd < length (anfds ?r)" using R(3) by simp
    have hd: "head (anfds ?r ! nat fd) \<noteq> []" using n0 by (auto simp: reified_head wanted_def)
    from epoll_modify_correct [OF R(1,2) len n0 cln hd, of ctl ?o k] obtain l2 k2 where
      e: "epoll_modify ctl fd ?o ?n ?r k = Some (Inr (l2, k2))" "loop_ok l2" "mod_frame fd ?r l2"
      and sy: "\<And>kint. epoll_doc kint ctl \<Longrightarrow> reg_ok kint ?r k (nat fd) \<Longrightarrow>
         (emask (anfds ?r ! nat fd) AND EV_EMASK_EPERM \<noteq> 0 \<longrightarrow> fd \<in> set (epoll_eperms ?r)) \<Longrightarrow>
         (\<forall>x. x \<noteq> fd \<longrightarrow> kint k2 x = kint k x) \<and> now_sync kint l2 k2 (nat fd) ?n" by auto
    have "reify_turn ctl fd (pre xs l) k = Some (Inr (pre (xs @ [fd]) l2, k2))" for xs
      using modify_pre [OF R(1,2) len, of ctl ?o ?n "xs @ [fd]" k] e(1) by (simp add: reify_turn_def fp cs1)
    moreover have "epoll_sync kint l2 k2" if d: "epoll_doc kint ctl" and s: "epoll_sync kint l k" for kint
    proof (rule here [OF e(3) s])
      have p: "reg_ok kint ?r k (nat fd)" "emask (anfds ?r ! nat fd) AND EV_EMASK_EPERM \<noteq> 0 \<longrightarrow> fd \<in> set (epoll_eperms ?r)"
        using sfd [OF s] R(2) by (simp_all add: fd_sync_def reg_ok_def rfd)
      note q = sy [OF d p]
      show "x \<noteq> fd \<Longrightarrow> kint k2 x = kint k x" for x using q by blast
      have w: "wanted l2 (nat fd) = (if head (anfds l2 ! nat fd) = [] then 0 else ?n)"
        using e(3) by (auto simp: mod_frame_def wanted_def reified_head)
      have "ev_mask (anfds l2 ! nat fd) = ?n" using e(3) rfd by (simp add: mod_frame_def)
      then show "fd_sync kint l2 k2 (nat fd)"
        using q w cln by (auto simp: fd_sync_def now_sync_def)
    qed
    moreover have "reify_left l2 < reify_left l" by (rule mod_frame_left [OF e(3) c R(3)])
    moreover have "rframe l l2" by (rule rframe_trans [OF reified_rframe mod_frame_rframe [OF e(3) R(2) len]])
    moreover have "data_in kint (length (anfds l)) k2" if "ctl_doc kint ctl" "data_in kint (length (anfds l)) k" for kint
      by (rule epoll_modify_data [OF e(1) that R(2,3)])
    ultimately show ?thesis using e(2) by blast
  qed
qed

lemma reify_from_correct:
  assumes "loop_ok l" "masks_clean l"
  shows "\<exists>l' k'. reify_from ctl (length xs) (pre xs l) k = Some (Inr (l', k')) \<and> loop_ok l' \<and> fdchanges l' = [] \<and> rframe l l' \<and>
    (\<forall>kint. epoll_doc kint ctl \<and> epoll_sync kint l k \<longrightarrow> epoll_sync kint l' k') \<and>
    (\<forall>kint. ctl_doc kint ctl \<and> data_in kint (length (anfds l)) k \<longrightarrow> data_in kint (length (anfds l)) k')"
  using assms
proof (induction "reify_left l" arbitrary: l k xs rule: less_induct)
  case less
  show ?case
  proof (cases "fdchanges l")
    case Nil
    have "reify_from ctl (length xs) (pre xs l) k = Some (Inr (l, k))"
      using Nil by (subst reify_from.simps) (simp add: pre_def)
    then show ?thesis using less.prems Nil by (auto simp: rframe_def)
  next
    case (Cons fd cs)
    from reify_turn_correct [OF less.prems(1) Cons less.prems(2), of ctl k] obtain l2 k2 where
      t: "\<And>xs. reify_turn ctl fd (pre xs l) k = Some (Inr (pre (xs @ [fd]) l2, k2))" "loop_ok l2" "reify_left l2 < reify_left l"
        "rframe l l2" and sy: "\<And>kint. epoll_doc kint ctl \<and> epoll_sync kint l k \<Longrightarrow> epoll_sync kint l2 k2"
        and da: "\<And>kint. ctl_doc kint ctl \<and> data_in kint (length (anfds l)) k \<Longrightarrow> data_in kint (length (anfds l)) k2" by blast
    have len: "length (anfds l2) = length (anfds l)" using t(4) by (simp add: rframe_def)
    have "length xs < length (fdchanges (pre xs l))" "fdchanges (pre xs l) ! length xs = fd" using Cons by simp_all
    then have "reify_from ctl (length xs) (pre xs l) k = reify_from ctl (length (xs @ [fd])) (pre (xs @ [fd]) l2) k2"
      using reify_from_turn [of "length xs" "pre xs l" ctl k] t(1) [of xs] by simp
    moreover from less.hyps [OF t(3,2) rframe_clean [OF t(4) less.prems(2)], of "xs @ [fd]" k2] obtain l' k' where
      "reify_from ctl (length (xs @ [fd])) (pre (xs @ [fd]) l2) k2 = Some (Inr (l', k'))" "loop_ok l'" "fdchanges l' = []" "rframe l2 l'"
      "\<forall>kint. epoll_doc kint ctl \<and> epoll_sync kint l2 k2 \<longrightarrow> epoll_sync kint l' k'"
      "\<forall>kint. ctl_doc kint ctl \<and> data_in kint (length (anfds l)) k2 \<longrightarrow> data_in kint (length (anfds l)) k'" unfolding len by blast
    ultimately show ?thesis using rframe_trans [OF t(4)] sy da by (intro exI [of _ l'] exI [of _ k']) auto
  qed
qed

lemma fd_reify_correct:
  assumes "loop_ok l" "masks_clean l"
  shows "\<exists>l' k'. fd_reify ctl l k = Some (Inr (l', k')) \<and> loop_ok l' \<and> fdchanges l' = [] \<and> rframe l l' \<and>
    (\<forall>i < length (anfds l'). ev_mask (anfds l' ! i) = wanted l' i) \<and>
    (\<forall>kint. epoll_doc kint ctl \<and> epoll_sync kint l k \<longrightarrow> epoll_sync kint l' k' \<and>
       (\<forall>i < length (anfds l'). wanted l' i \<noteq> 0 \<longrightarrow> armed_fd kint l' k' i (wanted l' i))) \<and>
    (\<forall>kint. ctl_doc kint ctl \<and> data_in kint (length (anfds l)) k \<longrightarrow> data_in kint (length (anfds l)) k')"
proof -
  from reify_from_correct [OF assms, of ctl "[]" k] obtain l' k' where
    l': "fd_reify ctl l k = Some (Inr (l', k'))" "loop_ok l'" "fdchanges l' = []" "rframe l l'"
      "\<And>kint. epoll_doc kint ctl \<and> epoll_sync kint l k \<Longrightarrow> epoll_sync kint l' k'"
      "\<And>kint. ctl_doc kint ctl \<and> data_in kint (length (anfds l)) k \<Longrightarrow> data_in kint (length (anfds l)) k'"
    by (auto simp: fd_reify_def)
  have r: "reify (anfds l' ! i) = 0" if "i < length (anfds l')" for i
  proof -
    have "(int i \<in> set (fdchanges l')) = (0 \<le> int i \<and> nat (int i) < length (anfds l') \<and> reify (anfds l' ! nat (int i)) \<noteq> 0)"
      using l'(2) unfolding loop_ok_def chg_ok_def by blast
    then show ?thesis using l'(3) that by simp
  qed
  then have m: "ev_mask (anfds l' ! i) = wanted l' i" if "i < length (anfds l')" for i
    using l'(2) that by (simp add: loop_ok_def mask_ok_def)
  have "armed_fd kint l' k' i (wanted l' i)" if "epoll_sync kint l' k'" "i < length (anfds l')" "wanted l' i \<noteq> 0" for kint i
    using that r m by (auto simp: epoll_sync_def fd_sync_def)
  then show ?thesis using l' m by (intro exI [of _ l'] exI [of _ k'] conjI allI impI) simp_all
qed

end
