(* ===== verification/Ev_Poll.thy ===== *)
theory Ev_Poll
  imports Ev_Epoll_Proofs
begin

unbundle bit_operations_syntax

text \<open>
  Receiving events from the kernel: the index the backend takes out of the event's data is the
  descriptor that was registered, the invariant of the loop is kept, and an event reaches exactly
  the watchers of the descriptor that wait for it.
\<close>

section \<open>The data word\<close>

lemma epoll_data_fd:
  assumes "0 \<le> fd" "fd < 2 ^ 31"
  shows "unat (ucast (epoll_data fd gen) :: u32) = nat fd"
proof -
  have "(ucast (epoll_data fd gen) :: u32) = of_int fd"
    unfolding epoll_data_def by (rule bit_word_eqI) (auto simp: bit_simps)
  moreover have "unat (of_int fd :: u32) = nat fd"
  proof -
    have "fd mod 2 ^ 32 = fd" using assms by (intro mod_pos_pos_trivial) auto
    then show ?thesis by (simp add: unsigned_of_int take_bit_eq_mod)
  qed
  ultimately show ?thesis by simp
qed

lemma epoll_data_gen: "ucast (drop_bit 32 (epoll_data fd gen)) = gen"
  unfolding epoll_data_def by (rule bit_word_eqI) (auto simp: bit_simps dest: bit_imp_le_length)

section \<open>Feeding the events of a descriptor\<close>

text \<open>What receiving events leaves of the loop.\<close>

definition poll_frame :: "'a ev_loop_scheme \<Rightarrow> 'a ev_loop_scheme \<Rightarrow> bool" where
  "poll_frame l l' \<longleftrightarrow> length (anfds l') = length (anfds l) \<and>
     (\<forall>i < length (anfds l). head (anfds l' ! i) = head (anfds l ! i) \<and> reify (anfds l' ! i) = reify (anfds l ! i) \<and>
        ev_mask (anfds l' ! i) = ev_mask (anfds l ! i) \<and> egen (anfds l' ! i) = egen (anfds l ! i)) \<and>
     active l' = active l \<and> w_events l' = w_events l \<and> w_fd l' = w_fd l \<and> wkind l' = wkind l \<and> priority l' = priority l \<and>
     fdchanges l' = fdchanges l \<and> timers l' = timers l \<and> w_at l' = w_at l \<and> w_repeat l' = w_repeat l \<and> mn_now l' = mn_now l \<and>
     ev_rt_now l' = ev_rt_now l \<and> rfeeds l' = rfeeds l \<and> loop_done l' = loop_done l \<and> activecnt l' = activecnt l \<and>
     ev_loop.more l' = ev_loop.more l \<and> set (epoll_eperms l') \<subseteq> set (epoll_eperms l) \<and>
     (\<forall>w. pending l w \<noteq> 0 \<longrightarrow> pending l' w \<noteq> 0)"

lemma poll_frame_refl [simp]: "poll_frame l l" by (simp add: poll_frame_def)

lemma poll_frame_trans: "poll_frame a b \<Longrightarrow> poll_frame b c \<Longrightarrow> poll_frame a c"
  unfolding poll_frame_def by auto

lemma feed_poll_frame: "poll_frame l (ev_feed_event w r l)"
proof -
  have "ev_rt_now (ev_feed_event w r l) = ev_rt_now l" "loop_done (ev_feed_event w r l) = loop_done l"
    "ev_loop.more (ev_feed_event w r l) = ev_loop.more l" "epoll_eperms (ev_feed_event w r l) = epoll_eperms l"
    by (simp_all add: ev_feed_event_def Let_def)
  then show ?thesis by (simp add: poll_frame_def)
qed

text \<open>The watchers of the descriptor \<open>fd\<close> that wait for some of the events \<open>r\<close>.\<close>

definition waiting :: "'a ev_loop_scheme \<Rightarrow> nat \<Rightarrow> u32 \<Rightarrow> addr set" where
  "waiting l fd r = {w \<in> set (head (anfds l ! fd)). w_events l w AND r \<noteq> 0}"

lemma fd_event_nocheck_spec:
  assumes "loop_ok l" "0 \<le> fd" "nat fd < length (anfds l)"
  shows "loop_ok (fd_event_nocheck fd r l)" "poll_frame l (fd_event_nocheck fd r l)"
    "pending (fd_event_nocheck fd r l) w \<noteq> 0 \<longleftrightarrow> pending l w \<noteq> 0 \<or> w \<in> waiting l (nat fd) r"
proof -
  show "loop_ok (fd_event_nocheck fd r l)" by (rule fd_event_nocheck_ok [OF assms])
  let ?f = "\<lambda>w l. let ev = w_events l w AND r in if ev \<noteq> 0 then ev_feed_event w ev l else l"
  have *: "poll_frame m (fold ?f ws m) \<and>
      (pending (fold ?f ws m) w \<noteq> 0 \<longleftrightarrow> pending m w \<noteq> 0 \<or> w \<in> set ws \<and> w_events m w AND r \<noteq> 0)" for ws and m :: "'a ev_loop_scheme"
  proof (induction ws arbitrary: m)
    case (Cons x ws)
    let ?m = "?f x m"
    have f: "poll_frame m ?m" by (simp add: Let_def feed_poll_frame)
    have e: "w_events ?m = w_events m" using f by (simp add: poll_frame_def)
    have p: "pending ?m w \<noteq> 0 \<longleftrightarrow> pending m w \<noteq> 0 \<or> w = x \<and> w_events m w AND r \<noteq> 0" by (auto simp: Let_def)
    show ?case using Cons.IH [of ?m] poll_frame_trans [OF f] e p by auto
  qed simp
  show "poll_frame l (fd_event_nocheck fd r l)" using * by (simp add: fd_event_nocheck_def)
  show "pending (fd_event_nocheck fd r l) w \<noteq> 0 \<longleftrightarrow> pending l w \<noteq> 0 \<or> w \<in> waiting l (nat fd) r"
    using *[of l "head (anfds l ! nat fd)"] by (simp add: fd_event_nocheck_def waiting_def)
qed

lemma fd_event_spec:
  assumes "loop_ok l" "0 \<le> fd" "nat fd < length (anfds l)"
  shows "loop_ok (fd_event fd r l)" "poll_frame l (fd_event fd r l)"
    "pending (fd_event fd r l) w \<noteq> 0 \<longleftrightarrow> pending l w \<noteq> 0 \<or> reify (anfds l ! nat fd) = 0 \<and> w \<in> waiting l (nat fd) r"
  using fd_event_nocheck_spec [OF assms] assms(1) by (simp_all add: fd_event_def)

lemma poll_frame_waiting: "poll_frame l l' \<Longrightarrow> i < length (anfds l) \<Longrightarrow> waiting l' i r = waiting l i r"
  by (simp add: poll_frame_def waiting_def)

section \<open>The events of one poll\<close>

text \<open>An event that the kernel may deliver: its data is that of a descriptor in range.\<close>

definition ev_known :: "'a ev_loop_scheme \<Rightarrow> epoll_event \<Rightarrow> bool" where
  "ev_known l ev \<longleftrightarrow> unat (ucast (ee_data ev) :: u32) < length (anfds l)"

text \<open>The event was registered in the present generation, and its descriptor has no change outstanding.\<close>

definition ev_current :: "'a ev_loop_scheme \<Rightarrow> epoll_event \<Rightarrow> bool" where
  "ev_current l ev \<longleftrightarrow> (let a = anfds l ! unat (ucast (ee_data ev) :: u32)
     in egen a = ucast (drop_bit 32 (ee_data ev)) \<and> reify a = 0)"

definition ev_wakes :: "'a ev_loop_scheme \<Rightarrow> epoll_event \<Rightarrow> addr set" where
  "ev_wakes l ev = waiting l (unat (ucast (ee_data ev) :: u32)) (epoll_got (ee_events ev))"

lemma emask_frame:
  assumes "loop_ok l"
  shows "loop_ok (upd_anfd fd (\<lambda>a. a\<lparr>emask := m\<rparr>) l)" "poll_frame l (upd_anfd fd (\<lambda>a. a\<lparr>emask := m\<rparr>) l)"
proof -
  show "loop_ok (upd_anfd fd (\<lambda>a. a\<lparr>emask := m\<rparr>) l)" by (rule upd_anfd_ok [OF assms]) simp
  show "poll_frame l (upd_anfd fd (\<lambda>a. a\<lparr>emask := m\<rparr>) l)"
    unfolding poll_frame_def
  proof (intro conjI allI impI, goal_cases)
    case (2 i)
    then show ?case by (cases "i = nat fd") (simp_all add: upd_anfd_def)
  next
    case (3 i)
    then show ?case by (cases "i = nat fd") (simp_all add: upd_anfd_def)
  next
    case (4 i)
    then show ?case by (cases "i = nat fd") (simp_all add: upd_anfd_def)
  next
    case (5 i)
    then show ?case by (cases "i = nat fd") (simp_all add: upd_anfd_def)
  qed (simp_all add: upd_anfd_def)
qed

lemma postfork_ok: "loop_ok (l\<lparr>postfork := x\<rparr>) = loop_ok l"
  by (simp add: loop_ok_def ok_defs queued_def wanted_def ABSPRI_def)

lemma postfork_frame: "poll_frame l l' \<Longrightarrow> poll_frame l (l'\<lparr>postfork := x\<rparr>)"
  by (simp add: poll_frame_def)

lemma poll_event_spec:
  assumes ok: "loop_ok l" and kn: "ev_known l ev"
  shows "\<exists>l' k'. poll_event ctl ev l k = Inr (l', k') \<and> loop_ok l' \<and> poll_frame l l' \<and>
    (\<forall>w. pending l' w \<noteq> 0 \<longrightarrow> pending l w \<noteq> 0 \<or> ev_current l ev \<and> w \<in> ev_wakes l ev) \<and>
    (ev_current l ev \<and> epoll_got (ee_events ev) AND NOT (ucast (ev_mask (anfds l ! unat (ucast (ee_data ev) :: u32)))) = 0 \<longrightarrow>
       k' = k \<and> (\<forall>w \<in> ev_wakes l ev. pending l' w \<noteq> 0))"
proof -
  define i where "i = unat (ucast (ee_data ev) :: u32)"
  define got where "got = epoll_got (ee_events ev)"
  define want where "want = ev_mask (anfds l ! i)"
  have i: "i < length (anfds l)" using kn by (simp add: ev_known_def i_def)
  note E = fd_event_spec [OF ok, of "int i" got, simplified, OF i]
  let ?l1 = "upd_anfd (int i) (\<lambda>a. a\<lparr>emask := want\<rparr>) l"
  have l1: "loop_ok ?l1" "poll_frame l ?l1" by (rule emask_frame [OF ok])+
  have i1: "i < length (anfds ?l1)" using i by (simp add: upd_anfd_nth)
  note E1 = fd_event_spec [OF l1(1), of "int i" got, simplified, OF i1]
  have w1: "waiting ?l1 i got = waiting l i got" by (rule poll_frame_waiting [OF l1(2) i])
  have r1: "reify (anfds ?l1 ! i) = reify (anfds l ! i)" "pending ?l1 = pending l" using l1(2) i by (simp_all add: poll_frame_def)
  have def: "poll_event ctl ev l k =
      (if egen (anfds l ! i) \<noteq> ucast (drop_bit 32 (ee_data ev)) then Inr (l\<lparr>postfork := postfork l OR 2\<rparr>, k)
       else if got AND NOT (ucast want) \<noteq> 0
       then case ctl (if want \<noteq> 0 then EPOLL_CTL_MOD else EPOLL_CTL_DEL) (int i) (ev\<lparr>ee_events := to_epoll want\<rparr>) k of
              (k1, None) \<Rightarrow> Inr (fd_event (int i) got ?l1, k1)
            | (k1, Some _) \<Rightarrow> Inr (?l1\<lparr>postfork := postfork ?l1 OR 2\<rparr>, k1)
       else Inr (fd_event (int i) got l, k))"
    using i by (simp add: poll_event_def Let_def i_def got_def want_def)
  have cur: "ev_current l ev \<longleftrightarrow> egen (anfds l ! i) = ucast (drop_bit 32 (ee_data ev)) \<and> reify (anfds l ! i) = 0"
    by (simp add: ev_current_def i_def Let_def)
  have wk: "ev_wakes l ev = waiting l i got" by (simp add: ev_wakes_def i_def got_def)
  show ?thesis
    unfolding wk got_def [symmetric] i_def [symmetric] want_def [symmetric]
  proof (cases "egen (anfds l ! i) = ucast (drop_bit 32 (ee_data ev))")
    case False
    then show "\<exists>l' k'. poll_event ctl ev l k = Inr (l', k') \<and> loop_ok l' \<and> poll_frame l l' \<and>
      (\<forall>w. pending l' w \<noteq> 0 \<longrightarrow> pending l w \<noteq> 0 \<or> ev_current l ev \<and> w \<in> waiting l i got) \<and>
      (ev_current l ev \<and> got AND NOT (ucast want) = 0 \<longrightarrow> k' = k \<and> (\<forall>w \<in> waiting l i got. pending l' w \<noteq> 0))"
      using ok def cur by (simp add: postfork_ok postfork_frame)
  next
    case g: True
    obtain k1 r where c: "ctl (if want \<noteq> 0 then EPOLL_CTL_MOD else EPOLL_CTL_DEL) (int i) (ev\<lparr>ee_events := to_epoll want\<rparr>) k = (k1, r)"
      by fastforce
    show "\<exists>l' k'. poll_event ctl ev l k = Inr (l', k') \<and> loop_ok l' \<and> poll_frame l l' \<and>
      (\<forall>w. pending l' w \<noteq> 0 \<longrightarrow> pending l w \<noteq> 0 \<or> ev_current l ev \<and> w \<in> waiting l i got) \<and>
      (ev_current l ev \<and> got AND NOT (ucast want) = 0 \<longrightarrow> k' = k \<and> (\<forall>w \<in> waiting l i got. pending l' w \<noteq> 0))"
    proof (cases "got AND NOT (ucast want) = 0")
      case True
      then show ?thesis using def g E cur ok by (intro exI [of _ "fd_event (int i) got l"] exI [of _ k]) auto
    next
      case False
      show ?thesis
      proof (cases r)
        case None
        then show ?thesis
          using def g c False E1 w1 r1 cur poll_frame_trans [OF l1(2) E1(2)]
          by (intro exI [of _ "fd_event (int i) got ?l1"] exI [of _ k1]) auto
      next
        case (Some e)
        then show ?thesis
          using def g c False l1 r1 by (auto simp: postfork_ok postfork_frame)
      qed
    qed
  qed
qed

lemma ev_known_frame: "poll_frame l l' \<Longrightarrow> ev_known l' ev = ev_known l ev"
  by (simp add: ev_known_def poll_frame_def)

lemma ev_frame:
  assumes "poll_frame l l'" "ev_known l ev"
  shows "ev_current l' ev = ev_current l ev" "ev_wakes l' ev = ev_wakes l ev"
    "ev_mask (anfds l' ! unat (ucast (ee_data ev) :: u32)) = ev_mask (anfds l ! unat (ucast (ee_data ev) :: u32))"
  using assms poll_frame_waiting [OF assms(1)] by (simp_all add: ev_current_def ev_wakes_def ev_known_def poll_frame_def Let_def)

lemma poll_events_spec:
  assumes "loop_ok l" "\<forall>ev \<in> set evs. ev_known l ev"
  shows "\<exists>l' k'. poll_events ctl evs l k = Inr (l', k') \<and> loop_ok l' \<and> poll_frame l l' \<and>
    (\<forall>w. pending l' w \<noteq> 0 \<longrightarrow> pending l w \<noteq> 0 \<or> (\<exists>ev \<in> set evs. ev_current l ev \<and> w \<in> ev_wakes l ev)) \<and>
    (\<forall>ev \<in> set evs. ev_current l ev \<and> epoll_got (ee_events ev) AND NOT (ucast (ev_mask (anfds l ! unat (ucast (ee_data ev) :: u32)))) = 0 \<longrightarrow>
       (\<forall>w \<in> ev_wakes l ev. pending l' w \<noteq> 0))"
  using assms
proof (induction evs arbitrary: l k)
  case Nil
  then show ?case by auto
next
  case (Cons ev evs)
  have kn: "ev_known l ev" using Cons.prems(2) by simp
  from poll_event_spec [OF Cons.prems(1) kn, of ctl k] obtain l1 k1 where
    1: "poll_event ctl ev l k = Inr (l1, k1)" "loop_ok l1" "poll_frame l l1"
      "\<And>w. pending l1 w \<noteq> 0 \<Longrightarrow> pending l w \<noteq> 0 \<or> ev_current l ev \<and> w \<in> ev_wakes l ev"
      "ev_current l ev \<Longrightarrow> epoll_got (ee_events ev) AND NOT (ucast (ev_mask (anfds l ! unat (ucast (ee_data ev) :: u32)))) = 0 \<Longrightarrow>
       (\<forall>w \<in> ev_wakes l ev. pending l1 w \<noteq> 0)" by auto
  note kf = ev_known_frame [OF 1(3)] and ef = ev_frame [OF 1(3)]
  have "\<forall>e \<in> set evs. ev_known l1 e" using Cons.prems(2) kf by simp
  from Cons.IH [OF 1(2) this, of k1] obtain l2 k2 where
    2: "poll_events ctl evs l1 k1 = Inr (l2, k2)" "loop_ok l2" "poll_frame l1 l2"
      "\<And>w. pending l2 w \<noteq> 0 \<Longrightarrow> pending l1 w \<noteq> 0 \<or> (\<exists>e \<in> set evs. ev_current l1 e \<and> w \<in> ev_wakes l1 e)"
      "\<And>e w. e \<in> set evs \<Longrightarrow> ev_current l1 e \<Longrightarrow>
         epoll_got (ee_events e) AND NOT (ucast (ev_mask (anfds l1 ! unat (ucast (ee_data e) :: u32)))) = 0 \<Longrightarrow>
         w \<in> ev_wakes l1 e \<Longrightarrow> pending l2 w \<noteq> 0" by auto
  have mono: "pending l1 w \<noteq> 0 \<Longrightarrow> pending l2 w \<noteq> 0" for w using 2(3) by (simp add: poll_frame_def)
  have "pending l w \<noteq> 0 \<or> (\<exists>e \<in> set (ev # evs). ev_current l e \<and> w \<in> ev_wakes l e)" if "pending l2 w \<noteq> 0" for w
    using 2(4) [OF that] 1(4) [of w] ef Cons.prems(2) by auto
  moreover have "pending l2 w \<noteq> 0" if "e \<in> set (ev # evs)" "ev_current l e" "w \<in> ev_wakes l e"
    "epoll_got (ee_events e) AND NOT (ucast (ev_mask (anfds l ! unat (ucast (ee_data e) :: u32)))) = 0" for e w
  proof (cases "e \<in> set evs")
    case True
    then show ?thesis using 2(5) [OF True] ef [of e] that Cons.prems(2) by simp
  next
    case False
    then show ?thesis using 1(5) that mono by auto
  qed
  ultimately show ?case
    using 1(1) 2(1,2) poll_frame_trans [OF 1(3) 2(3)] by (intro exI [of _ l2] exI [of _ k2]) auto
qed

section \<open>Descriptors that epoll refuses, and the whole poll\<close>

definition eperms_in :: "'a ev_loop_scheme \<Rightarrow> bool" where
  "eperms_in l \<longleftrightarrow> (\<forall>fd \<in> set (epoll_eperms l). 0 \<le> fd \<and> nat fd < length (anfds l))"

lemma eperms_in_frame: "poll_frame l l' \<Longrightarrow> eperms_in l \<Longrightarrow> eperms_in l'"
  by (auto simp: eperms_in_def poll_frame_def)

text \<open>The watchers of the refused descriptors, which libev itself takes for ready.\<close>

definition eperm_wakes :: "'a ev_loop_scheme \<Rightarrow> addr set" where
  "eperm_wakes l = {w. \<exists>fd \<in> set (epoll_eperms l). reify (anfds l ! nat fd) = 0 \<and>
     w \<in> waiting l (nat fd) (ucast (ev_mask (anfds l ! nat fd) AND (ucast EV_READ OR ucast EV_WRITE)))}"

lemma eperm_wakes_frame:
  assumes "poll_frame l l'" "eperms_in l"
  shows "eperm_wakes l' \<subseteq> eperm_wakes l"
proof
  fix w assume "w \<in> eperm_wakes l'"
  then obtain fd where fd: "fd \<in> set (epoll_eperms l')" "reify (anfds l' ! nat fd) = 0"
    "w \<in> waiting l' (nat fd) (ucast (ev_mask (anfds l' ! nat fd) AND (ucast EV_READ OR ucast EV_WRITE)))"
    by (auto simp: eperm_wakes_def)
  then have m: "fd \<in> set (epoll_eperms l)" and i: "nat fd < length (anfds l)" using assms by (auto simp: poll_frame_def eperms_in_def)
  then have e: "reify (anfds l' ! nat fd) = reify (anfds l ! nat fd)" "ev_mask (anfds l' ! nat fd) = ev_mask (anfds l ! nat fd)"
    using assms(1) by (auto simp: poll_frame_def)
  show "w \<in> eperm_wakes l"
    using m fd e poll_frame_waiting [OF assms(1) i] by (auto simp: eperm_wakes_def)
qed

lemma eperm_drop:
  assumes "i < length xs"
  shows "set (butlast (xs[i := last xs])) \<subseteq> set xs"
proof -
  have "set (butlast (xs[i := last xs])) \<subseteq> set (xs[i := last xs])" by (auto dest: in_set_butlastD)
  also have "\<dots> \<subseteq> insert (last xs) (set xs)" by (rule set_update_subset_insert)
  also have "\<dots> = set xs" using assms by (cases xs rule: rev_cases) auto
  finally show ?thesis .
qed

lemma eperm_loop_spec:
  assumes "loop_ok l" "eperms_in l" "i \<le> length (epoll_eperms l)"
  shows "\<exists>l'. eperm_loop i l = Inr l' \<and> loop_ok l' \<and> poll_frame l l' \<and>
    (\<forall>w. pending l' w \<noteq> 0 \<longrightarrow> pending l w \<noteq> 0 \<or> w \<in> eperm_wakes l)"
  using assms
proof (induction i arbitrary: l)
  case (Suc i)
  let ?fd = "epoll_eperms l ! i"
  let ?events = "ev_mask (anfds l ! nat ?fd) AND (ucast EV_READ OR ucast EV_WRITE)"
  have i: "i < length (epoll_eperms l)" using Suc.prems(3) by simp
  then have mem: "?fd \<in> set (epoll_eperms l)" by simp
  then have fd: "0 \<le> ?fd" "nat ?fd < length (anfds l)" using Suc.prems(2) by (auto simp: eperms_in_def)
  have step: "\<exists>l'. eperm_loop (Suc i) l = Inr l' \<and> loop_ok l' \<and> poll_frame l l' \<and>
      (\<forall>w. pending l' w \<noteq> 0 \<longrightarrow> pending l w \<noteq> 0 \<or> w \<in> eperm_wakes l)"
    if e: "eperm_loop (Suc i) l = eperm_loop i m" and m: "loop_ok m" "poll_frame l m" "i \<le> length (epoll_eperms m)"
      and p: "\<And>w. pending m w \<noteq> 0 \<Longrightarrow> pending l w \<noteq> 0 \<or> w \<in> eperm_wakes l" for m
    using Suc.IH [OF m(1) eperms_in_frame [OF m(2) Suc.prems(2)] m(3)] poll_frame_trans [OF m(2)]
      eperm_wakes_frame [OF m(2) Suc.prems(2)] p unfolding e by blast
  show ?case
  proof (cases "emask (anfds l ! nat ?fd) AND EV_EMASK_EPERM \<noteq> 0 \<and> ?events \<noteq> 0")
    case True
    note E = fd_event_spec [OF Suc.prems(1) fd, of "ucast ?events"]
    have ep: "epoll_eperms (fd_event ?fd r l) = epoll_eperms l" for r
    proof -
      have "epoll_eperms (fold (\<lambda>w l. let ev = w_events l w AND r in if ev \<noteq> 0 then ev_feed_event w ev l else l) ws m) = epoll_eperms m"
        for ws and m :: "'a ev_loop_scheme"
        by (induction ws arbitrary: m) (simp_all add: Let_def ev_feed_event_def)
      then show ?thesis by (simp add: fd_event_def fd_event_nocheck_def)
    qed
    show ?thesis
    proof (rule step)
      show "eperm_loop (Suc i) l = eperm_loop i (fd_event ?fd (ucast ?events) l)" using True fd by (simp add: Let_def)
      show "pending (fd_event ?fd (ucast ?events) l) w \<noteq> 0 \<Longrightarrow> pending l w \<noteq> 0 \<or> w \<in> eperm_wakes l" for w
        using E(3) [of w] mem by (auto simp: eperm_wakes_def)
    qed (use E i ep in simp_all)
  next
    case False
    let ?l1 = "l\<lparr>epoll_eperms := butlast ((epoll_eperms l)[i := last (epoll_eperms l)])\<rparr>"
    have l1: "loop_ok ?l1" "poll_frame l ?l1"
      using eperms_ok [OF Suc.prems(1)] eperm_drop [OF i] by (simp_all add: poll_frame_def)
    show ?thesis
    proof (rule step)
      show "eperm_loop (Suc i) l = eperm_loop i (upd_anfd ?fd (\<lambda>a. a\<lparr>emask := 0\<rparr>) ?l1)"
        by (subst eperm_loop.simps) (use False fd in \<open>simp only: Let_def if_False simp_thms\<close>)
      show "poll_frame l (upd_anfd ?fd (\<lambda>a. a\<lparr>emask := 0\<rparr>) ?l1)"
        by (rule poll_frame_trans [OF l1(2) emask_frame(2) [OF l1(1)]])
      show "loop_ok (upd_anfd ?fd (\<lambda>a. a\<lparr>emask := 0\<rparr>) ?l1)" by (rule emask_frame(1) [OF l1(1)])
    qed (use i in auto)
  qed
qed auto

lemma eventmax_spec:
  "loop_ok (l\<lparr>epoll_eventmax := x\<rparr>) = loop_ok l" "poll_frame l (l\<lparr>epoll_eventmax := x\<rparr>)"
  "eperm_wakes (l\<lparr>epoll_eventmax := x\<rparr>) = eperm_wakes l"
  by (simp_all add: loop_ok_def ok_defs queued_def wanted_def ABSPRI_def poll_frame_def eperm_wakes_def waiting_def)

text \<open>The data of the interest list stays in range.\<close>

lemma poll_event_data:
  assumes "poll_event ctl ev l k = Inr (l', k')" "ctl_doc kint ctl" "data_in kint n k" "data_index (ee_data ev) < n"
  shows "data_in kint n k'"
  using assms(1,3) ctl_data_in [OF assms(2,3), of "ev\<lparr>ee_events := x\<rparr>" for x] assms(4)
  by (auto simp: poll_event_def Let_def split: if_splits prod.splits option.splits)

lemma poll_events_data:
  assumes "poll_events ctl evs l k = Inr (l', k')" "ctl_doc kint ctl" "data_in kint n k" "\<forall>ev \<in> set evs. data_index (ee_data ev) < n"
  shows "data_in kint n k'"
  using assms(1,3,4)
proof (induction evs arbitrary: l k)
  case (Cons ev evs)
  then obtain l1 k1 where "poll_event ctl ev l k = Inr (l1, k1)" "poll_events ctl evs l1 k1 = Inr (l', k')" by auto
  with Cons poll_event_data [OF _ assms(2)] show ?case by (metis list.set_intros)
qed simp

lemma epoll_poll_data:
  assumes "epoll_poll ctl (Wait_events evs) l k = Inr (l', k')" "ctl_doc kint ctl" "data_in kint n k" "\<forall>ev \<in> set evs. data_index (ee_data ev) < n"
  shows "data_in kint n k'"
proof -
  from assms(1) obtain l1 where "poll_events ctl evs l k = Inr (l1, k')" by (auto simp: epoll_poll_def Let_def)
  then show ?thesis by (rule poll_events_data [OF _ assms(2-4)])
qed

lemma epoll_poll_correct:
  assumes ok: "loop_ok l" and ep: "eperms_in l" and kn: "\<forall>ev \<in> set evs. ev_known l ev"
  shows "\<exists>l' k'. epoll_poll ctl (Wait_events evs) l k = Inr (l', k') \<and> loop_ok l' \<and> poll_frame l l' \<and>
    (\<forall>w. pending l' w \<noteq> 0 \<longrightarrow> pending l w \<noteq> 0 \<or> (\<exists>ev \<in> set evs. ev_current l ev \<and> w \<in> ev_wakes l ev) \<or> w \<in> eperm_wakes l) \<and>
    (\<forall>ev \<in> set evs. ev_current l ev \<and> epoll_got (ee_events ev) AND NOT (ucast (ev_mask (anfds l ! unat (ucast (ee_data ev) :: u32)))) = 0 \<longrightarrow>
       (\<forall>w \<in> ev_wakes l ev. pending l' w \<noteq> 0))"
proof -
  from poll_events_spec [OF ok kn, of ctl k] obtain l1 k1 where
    1: "poll_events ctl evs l k = Inr (l1, k1)" "loop_ok l1" "poll_frame l l1"
      "\<And>w. pending l1 w \<noteq> 0 \<Longrightarrow> pending l w \<noteq> 0 \<or> (\<exists>ev \<in> set evs. ev_current l ev \<and> w \<in> ev_wakes l ev)"
      "\<And>ev w. ev \<in> set evs \<Longrightarrow> ev_current l ev \<Longrightarrow>
         epoll_got (ee_events ev) AND NOT (ucast (ev_mask (anfds l ! unat (ucast (ee_data ev) :: u32)))) = 0 \<Longrightarrow>
         w \<in> ev_wakes l ev \<Longrightarrow> pending l1 w \<noteq> 0" by blast
  define l2 where "l2 = (if int (length evs) = epoll_eventmax l1
      then l1\<lparr>epoll_eventmax := array_nextsize sizeof_epoll_event (epoll_eventmax l1) (epoll_eventmax l1 + 1)\<rparr> else l1)"
  have l2: "loop_ok l2" "poll_frame l1 l2" "pending l2 = pending l1" "eperm_wakes l2 = eperm_wakes l1"
    using 1(2) by (simp_all add: l2_def eventmax_spec)
  have f2: "poll_frame l l2" by (rule poll_frame_trans [OF 1(3) l2(2)])
  from eperm_loop_spec [OF l2(1) eperms_in_frame [OF f2 ep] order.refl] obtain l3 where
    3: "eperm_loop (length (epoll_eperms l2)) l2 = Inr l3" "loop_ok l3" "poll_frame l2 l3"
      "\<And>w. pending l3 w \<noteq> 0 \<Longrightarrow> pending l2 w \<noteq> 0 \<or> w \<in> eperm_wakes l2" by blast
  have "epoll_poll ctl (Wait_events evs) l k = rbind (eperm_loop (length (epoll_eperms l2)) l2) (\<lambda>l3. Inr (l3, k1))"
    using 1(1) by (simp add: epoll_poll_def l2_def Let_def)
  then have "epoll_poll ctl (Wait_events evs) l k = Inr (l3, k1)" using 3(1) by simp
  moreover have "poll_frame l l3" using poll_frame_trans [OF f2] 3(3) by blast
  moreover have "pending l w \<noteq> 0 \<or> (\<exists>ev \<in> set evs. ev_current l ev \<and> w \<in> ev_wakes l ev) \<or> w \<in> eperm_wakes l" if "pending l3 w \<noteq> 0" for w
  proof -
    have "pending l1 w \<noteq> 0 \<or> w \<in> eperm_wakes l1" using 3(4) that l2(3,4) by simp
    then show ?thesis using 1(4) [of w] subsetD [OF eperm_wakes_frame [OF 1(3) ep], of w] by blast
  qed
  moreover have "pending l3 w \<noteq> 0" if "pending l1 w \<noteq> 0" for w
    using 3(3) that l2(3) by (simp add: poll_frame_def)
  ultimately show ?thesis using 3(2) 1(5) by (intro exI [of _ l3] exI [of _ k1]) blast
qed

end
