(* ===== verification/Ev_Run.thy ===== *)
theory Ev_Run
  imports Ev_Poll
begin

unbundle bit_operations_syntax

text \<open>
  The main loop of libev (\<open>ev.c\<close>): reading the clocks, the time a poll may block, one iteration of
  \<open>ev_run\<close> and the loop itself, and the run-time self check \<open>ev_verify\<close>. What the kernel gives in an
  iteration (the readings of the clocks, the events, the state of a new epoll descriptor) is an
  argument. The server uses io and timer watchers only, so prepare, check, idle, fork and periodic
  watchers and the signal pipe are not there, and the blocking times that an application may
  configure are 0, their initial value.
\<close>

section \<open>Time\<close>

definition MIN_TIMEJUMP :: real where "MIN_TIMEJUMP = 1"

definition MAX_BLOCKTIME :: real where "MAX_BLOCKTIME = 59.743"

definition unbounded_block :: real where "unbounded_block = 10 ^ 100"

definition backend_mintime :: real where "backend_mintime = 1 / 1000"

definition timers_reschedule :: "real \<Rightarrow> 'a ev_loop_scheme \<Rightarrow> 'a ev_loop_scheme" where
  "timers_reschedule adjust l =
     fold (\<lambda>i l. let w = ANHE_w (timers l ! i); at1 = w_at l w + adjust
                 in l\<lparr>w_at := (w_at l)(w := at1), timers := (timers l)[i := (at1, w)]\<rparr>)
       [0..<length (timers l)] l"

text \<open>The \<open>n\<close>-th readings of \<open>ev_time\<close> and \<open>get_clock\<close> of one call.\<close>

type_synonym clock = "nat \<Rightarrow> real \<times> real"

fun time_jump :: "nat \<Rightarrow> real \<Rightarrow> clock \<Rightarrow> nat \<Rightarrow> 'a ev_loop_scheme \<Rightarrow> 'a ev_loop_scheme" where
  "time_jump 0 odiff clk n l = l"
| "time_jump (Suc i) odiff clk n l =
     (let l1 = l\<lparr>rtmn_diff := ev_rt_now l - mn_now l\<rparr>; diff = odiff - rtmn_diff l1
      in if (if diff < 0 then - diff else diff) < MIN_TIMEJUMP then l1
         else time_jump i odiff clk (Suc n)
                (l1\<lparr>ev_rt_now := fst (clk (Suc n)), mn_now := snd (clk (Suc n)), now_floor := snd (clk (Suc n))\<rparr>))"

definition time_update :: "bool \<Rightarrow> clock \<Rightarrow> real \<Rightarrow> 'a ev_loop_scheme \<Rightarrow> 'a ev_loop_scheme" where
  "time_update have_monotonic clk max_block l =
     (if have_monotonic
      then let odiff = rtmn_diff l; l1 = l\<lparr>mn_now := snd (clk 0)\<rparr>
           in if mn_now l1 - now_floor l1 < MIN_TIMEJUMP * (1 / 2) then l1\<lparr>ev_rt_now := rtmn_diff l1 + mn_now l1\<rparr>
              else time_jump 3 odiff clk 0 (l1\<lparr>now_floor := mn_now l1, ev_rt_now := fst (clk 0)\<rparr>)
      else let l1 = l\<lparr>ev_rt_now := fst (clk 0)\<rparr>;
               l2 = (if mn_now l1 > ev_rt_now l1 \<or> ev_rt_now l1 > mn_now l1 + max_block + MIN_TIMEJUMP
                     then timers_reschedule (ev_rt_now l1 - mn_now l1) l1 else l1)
           in l2\<lparr>mn_now := ev_rt_now l2\<rparr>)"

definition ev_now_update :: "bool \<Rightarrow> clock \<Rightarrow> 'a ev_loop_scheme \<Rightarrow> 'a ev_loop_scheme" where
  "ev_now_update have_monotonic clk l = time_update have_monotonic clk unbounded_block l"

definition ev_suspend :: "bool \<Rightarrow> clock \<Rightarrow> 'a ev_loop_scheme \<Rightarrow> 'a ev_loop_scheme" where
  "ev_suspend have_monotonic clk l = ev_now_update have_monotonic clk l"

definition ev_resume :: "bool \<Rightarrow> clock \<Rightarrow> 'a ev_loop_scheme \<Rightarrow> 'a ev_loop_scheme" where
  "ev_resume have_monotonic clk l =
     (let mn_prev = mn_now l; l1 = ev_now_update have_monotonic clk l
      in timers_reschedule (mn_now l1 - mn_prev) l1)"

definition ev_ref :: "'a ev_loop_scheme \<Rightarrow> 'a ev_loop_scheme" where
  "ev_ref l = l\<lparr>activecnt := activecnt l + 1\<rparr>"

definition ev_unref :: "'a ev_loop_scheme \<Rightarrow> 'a ev_loop_scheme" where
  "ev_unref l = l\<lparr>activecnt := activecnt l - 1\<rparr>"

section \<open>The loop\<close>

definition EVRUN_NOWAIT :: u32 where "EVRUN_NOWAIT = 1"

definition EVRUN_ONCE :: u32 where "EVRUN_ONCE = 2"

text \<open>How long \<open>ev_run\<close> lets the backend block.\<close>

definition waittime :: "u32 \<Rightarrow> 'a ev_loop_scheme \<Rightarrow> real" where
  "waittime flags l =
     (if \<not> (flags AND EVRUN_NOWAIT \<noteq> 0 \<or> activecnt l = 0)
      then let t = MAX_BLOCKTIME;
               t = (if timers l \<noteq> []
                    then let to = ANHE_at (timers l ! 0) - mn_now l in if t > to then to else t
                    else t);
               t = (if t < 0 then 0 else t)
           in if t < backend_mintime then backend_mintime else t
      else 0)"

text \<open>\<open>loop_fork\<close>, without the signal pipe: \<open>postfork\<close> is cleared at the end.\<close>

definition loop_fork :: "'k \<Rightarrow> 'a ev_loop_scheme \<Rightarrow> 'a ev_loop_scheme \<times> 'k" where
  "loop_fork k0 l = (let (l1, k1) = epoll_fork k0 l in (l1\<lparr>postfork := 0\<rparr>, k1))"

text \<open>
  What the kernel gives in one iteration; \<open>epoll_wait\<close> depends on the interest list, that is, on the state
  of the kernel at that time.
\<close>

record 'k iter_env =
  ie_clock1 :: clock
  ie_clock2 :: clock
  ie_wait :: "'k \<Rightarrow> epoll_result"
  ie_fork :: 'k

text \<open>
  The body of the loop of \<open>ev_run\<close>; the flag of the result says whether it was left by \<open>break\<close>.
\<close>

definition run_iter ::
    "('a ev_loop_scheme, 'g) callback \<Rightarrow> 'k epoll_ctl \<Rightarrow> u32 \<Rightarrow> 'k iter_env \<Rightarrow> 'a ev_loop_scheme \<Rightarrow> 'k \<Rightarrow> 'g \<Rightarrow>
     (bool \<times> 'a ev_loop_scheme \<times> 'k \<times> 'g) res option" where
  "run_iter cb ctl flags e l k g =
     (if loop_done l \<noteq> EVBREAK_CANCEL then Some (Inr (True, l, k, g))
      else
        let (l1, k1) = (if postfork l \<noteq> 0 then loop_fork (ie_fork e) l else (l, k))
        in case fd_reify ctl l1 k1 of
             None \<Rightarrow> None
           | Some (Inl f) \<Rightarrow> Some (Inl f)
           | Some (Inr (l2, k2)) \<Rightarrow>
               let l3 = time_update True (ie_clock1 e) unbounded_block l2; wait = waittime flags l3
               in case epoll_poll ctl (ie_wait e k2) l3 k2 of
                    Inl f \<Rightarrow> Some (Inl f)
                  | Inr (l4, k4) \<Rightarrow>
                      let l5 = time_update True (ie_clock2 e) wait (l4\<lparr>loop_done := EVBREAK_CANCEL\<rparr>)
                      in case timers_reify l5 of
                           None \<Rightarrow> None
                         | Some (Inl f) \<Rightarrow> Some (Inl f)
                         | Some (Inr l6) \<Rightarrow>
                             map_option (\<lambda>m. rbind m (\<lambda>(l7, g7). Inr (False, l7, k4, g7))) (ev_invoke_pending cb l6 g))"

text \<open>The \<open>do ... while\<close> loop, in iteration \<open>n\<close>.\<close>

partial_function (option) run_loop ::
    "('a ev_loop_scheme, 'g) callback \<Rightarrow> 'k epoll_ctl \<Rightarrow> u32 \<Rightarrow> (nat \<Rightarrow> 'k iter_env) \<Rightarrow> nat \<Rightarrow> 'a ev_loop_scheme \<Rightarrow> 'k \<Rightarrow> 'g \<Rightarrow>
     ('a ev_loop_scheme \<times> 'k \<times> 'g) res option" where
  "run_loop cb ctl flags env n l k g =
     (case run_iter cb ctl flags (env n) l k g of
        None \<Rightarrow> None
      | Some (Inl f) \<Rightarrow> Some (Inl f)
      | Some (Inr (brk, l1, k1, g1)) \<Rightarrow>
          if \<not> brk \<and> activecnt l1 \<noteq> 0 \<and> loop_done l1 = EVBREAK_CANCEL \<and> flags AND (EVRUN_ONCE OR EVRUN_NOWAIT) = 0
          then run_loop cb ctl flags env (Suc n) l1 k1 g1
          else Some (Inr (l1, k1, g1)))"

definition ev_run ::
    "('a ev_loop_scheme, 'g) callback \<Rightarrow> 'k epoll_ctl \<Rightarrow> u32 \<Rightarrow> (nat \<Rightarrow> 'k iter_env) \<Rightarrow> 'a ev_loop_scheme \<Rightarrow> 'k \<Rightarrow> 'g \<Rightarrow>
     (int \<times> 'a ev_loop_scheme \<times> 'k \<times> 'g) res option" where
  "ev_run cb ctl flags env l k g =
     (case ev_invoke_pending cb (l\<lparr>loop_done := EVBREAK_CANCEL\<rparr>) g of
        None \<Rightarrow> None
      | Some (Inl f) \<Rightarrow> Some (Inl f)
      | Some (Inr (l1, g1)) \<Rightarrow>
          map_option (\<lambda>m. rbind m (\<lambda>(l2, k2, g2).
              let l3 = (if loop_done l2 = EVBREAK_ONE then l2\<lparr>loop_done := EVBREAK_CANCEL\<rparr> else l2)
              in Inr (activecnt l3, l3, k2, g2)))
            (run_loop cb ctl flags env 0 l1 k g1))"

section \<open>The self check\<close>

definition verify_watcher :: "'a ev_loop_scheme \<Rightarrow> addr \<Rightarrow> bool" where
  "verify_watcher l w \<longleftrightarrow> EV_MINPRI \<le> priority l w \<and> ABSPRI l w < NUMPRI \<and>
     (pending l w \<noteq> 0 \<longrightarrow> pending l w - 1 < length (pendings l (ABSPRI l w)) \<and> fst (pendings l (ABSPRI l w) ! (pending l w - 1)) = W w)"

definition verify_heap :: "'a ev_loop_scheme \<Rightarrow> bool" where
  "verify_heap l \<longleftrightarrow> list_all (\<lambda>i. active l (ANHE_w (timers l ! i)) = i + HEAP0 \<and>
     (i = 0 \<or> ANHE_at (timers l ! HPARENT i) \<le> ANHE_at (timers l ! i)) \<and>
     ANHE_at (timers l ! i) = w_at l (ANHE_w (timers l ! i)) \<and> verify_watcher l (ANHE_w (timers l ! i))) [0..<length (timers l)]"

text \<open>
  The walk over one watcher list, with the second pointer that moves at half the speed: \<open>j\<close> counts
  the turns, \<open>w2\<close> is what the second pointer has still in front.
\<close>

fun verify_list :: "'a ev_loop_scheme \<Rightarrow> nat \<Rightarrow> nat \<Rightarrow> addr list \<Rightarrow> addr list \<Rightarrow> bool" where
  "verify_list l i j w2 [] = True"
| "verify_list l i j w2 (w # ws) =
     (verify_watcher l w \<and> (odd j \<longrightarrow> w2 \<noteq> [] \<and> w \<noteq> hd w2) \<and> active l w = 1 \<and> w_fd l w = int i \<and>
      verify_list l i (Suc j) (if odd j then tl w2 else w2) ws)"

definition ev_verify :: "'a ev_loop_scheme \<Rightarrow> bool" where
  "ev_verify l \<longleftrightarrow> activecnt l \<ge> - 1 \<and> list_all (\<lambda>fd. fd \<ge> 0) (fdchanges l) \<and>
     list_all (\<lambda>i. verify_list l i 0 (head (anfds l ! i)) (head (anfds l ! i))) [0..<length (anfds l)] \<and> verify_heap l"

declare run_loop.simps [code] reify_from.simps [code] fd_kill.simps [code]

end
