(* ===== verification/Ev_Run_Proofs.thy ===== *)
theory Ev_Run_Proofs
  imports Ev_Run
begin

unbundle bit_operations_syntax

text \<open>
  What the main loop of libev does: the clocks never disturb the timers, the poll never blocks
  past the next timer, one iteration returns and keeps the invariant, and the self check
  \<open>ev_verify\<close> passes in every state that satisfies the invariant.
\<close>

section \<open>Arming all descriptors again\<close>

text \<open>A change of one entry of \<open>anfds\<close> that keeps its watchers and marks it as changed.\<close>

lemma touch_ok:
  assumes ok: "loop_ok l" and i: "i < length (anfds l)" and a: "head a = head (anfds l ! i)" "reify a \<noteq> 0"
    and l': "l' = l\<lparr>anfds := (anfds l)[i := a], fdchanges := (if reify (anfds l ! i) = 0 then fdchanges l @ [int i] else fdchanges l)\<rparr>"
  shows "loop_ok l'"
proof -
  have nth: "anfds l' ! j = (if j = i then a else anfds l ! j)" if "j < length (anfds l)" for j
    using that i by (simp add: l')
  have h: "head (anfds l' ! j) = head (anfds l ! j)" if "j < length (anfds l)" for j using nth [OF that] a(1) by simp
  have len: "length (anfds l') = length (anfds l)" by (simp add: l')
  have m: "map (\<lambda>a. length (head a)) (anfds l') = map (\<lambda>a. length (head a)) (anfds l)"
    by (intro nth_equalityI) (simp_all add: len h)
  have w: "wanted l' j = wanted l j" if "j < length (anfds l)" for j
    using h [OF that] by (simp add: wanted_def) (simp add: l')
  have "pend_ok l'" "tim_ok l'" "kind_ok l'"
    using ok by (simp_all add: loop_ok_def pend_ok_def tim_ok_def kind_ok_def queued_def ABSPRI_def l')
  moreover have "cnt_ok l'"
  proof -
    have "activecnt l' = activecnt l" "timers l' = timers l" by (simp_all add: l')
    then show ?thesis using ok m unfolding loop_ok_def cnt_ok_def by metis
  qed
  moreover have "chg_ok l'"
  proof -
    have c: "distinct (fdchanges l)" "\<And>x. x \<in> set (fdchanges l) \<longleftrightarrow> 0 \<le> x \<and> nat x < length (anfds l) \<and> reify (anfds l ! nat x) \<noteq> 0"
      using ok by (simp_all add: loop_ok_def chg_ok_def)
    have "fdchanges l' = (if reify (anfds l ! i) = 0 then fdchanges l @ [int i] else fdchanges l)" by (simp add: l')
    then show ?thesis
      unfolding chg_ok_def len using c i a(2) nth by (auto simp: nat_eq_iff2 split: if_splits)
  qed
  moreover have "mask_ok l'"
    using ok a(2) i nth w len by (auto simp: loop_ok_def mask_ok_def)
  moreover have "io_ok l'"
  proof -
    have f: "w_fd l' = w_fd l" "active l' = active l" by (simp_all add: l')
    have "nat (w_fd l x) < length (anfds l)" if "active l x = 1" for x using io_okD(3) [OF ok that] by (simp add: nat_less_iff)
    then show ?thesis using ok h unfolding loop_ok_def io_ok_def len f by auto
  qed
  ultimately show ?thesis by (simp add: loop_ok_def)
qed

text \<open>What arming again keeps.\<close>

definition rearmed :: "'a ev_loop_scheme \<Rightarrow> 'a ev_loop_scheme \<Rightarrow> bool" where
  "rearmed l l' \<longleftrightarrow> length (anfds l') = length (anfds l) \<and> (\<forall>i < length (anfds l). head (anfds l' ! i) = head (anfds l ! i)) \<and>
     active l' = active l \<and> pending l' = pending l \<and> w_events l' = w_events l \<and> wkind l' = wkind l \<and> lmisc l' = lmisc l \<and>
     epoll_eperms l' = epoll_eperms l"

lemma rearmed_trans: "rearmed a b \<Longrightarrow> rearmed b c \<Longrightarrow> rearmed a c"
  by (simp add: rearmed_def)

lemma rearm_flag: "r OR ucast (EV__IOFDSET OR EV_ANFD_REIFY) \<noteq> (0 :: byte)"
  by (rule reify_flag) (simp add: EV_ANFD_REIFY_def EV__IOFDSET_def bit_simps)

lemma fd_rearm_all_ok:
  assumes "loop_ok l"
  shows "loop_ok (fd_rearm_all l)" "rearmed l (fd_rearm_all l)"
proof -
  let ?f = "\<lambda>i l. if ev_mask (anfds l ! i) \<noteq> 0
      then fd_change (int i) (EV__IOFDSET OR EV_ANFD_REIFY) (l\<lparr>anfds := (anfds l)[i := (anfds l ! i)\<lparr>ev_mask := 0, emask := 0\<rparr>]\<rparr>)
      else l"
  have step: "loop_ok (?f i m) \<and> rearmed m (?f i m)" if "loop_ok m" "i < length (anfds m)" for i and m :: "'a ev_loop_scheme"
  proof (cases "ev_mask (anfds m ! i) = 0")
    case True
    then show ?thesis using that by (simp add: rearmed_def)
  next
    case False
    let ?a = "(anfds m ! i)\<lparr>ev_mask := 0, emask := 0, reify := reify (anfds m ! i) OR ucast (EV__IOFDSET OR EV_ANFD_REIFY)\<rparr>"
    have e: "?f i m = m\<lparr>anfds := (anfds m)[i := ?a], fdchanges := (if reify (anfds m ! i) = 0 then fdchanges m @ [int i] else fdchanges m)\<rparr>"
      using False that(2) by (simp add: fd_change_def Let_def)
    have "loop_ok (?f i m)" by (rule touch_ok [OF that _ _ e]) (simp_all add: rearm_flag)
    moreover have "rearmed m (?f i m)"
      unfolding e using that(2) by (auto simp: rearmed_def lmisc_def nth_list_update)
    ultimately show ?thesis by blast
  qed
  have all: "loop_ok (fold ?f is m) \<and> rearmed m (fold ?f is m)"
    if "loop_ok m" "\<forall>i \<in> set is. i < length (anfds m)" for "is" and m :: "'a ev_loop_scheme"
    using that
  proof (induction "is" arbitrary: m)
    case Nil
    then show ?case by (simp add: rearmed_def)
  next
    case (Cons i "is")
    have s: "loop_ok (?f i m)" "rearmed m (?f i m)" using step Cons.prems by simp_all
    have "\<forall>j \<in> set is. j < length (anfds (?f i m))" using Cons.prems(2) s(2) by (simp add: rearmed_def)
    from Cons.IH [OF s(1) this] show ?case using rearmed_trans [OF s(2)] by (simp del: if_split)
  qed
  show "loop_ok (fd_rearm_all l)" "rearmed l (fd_rearm_all l)"
    using all [OF assms, of "[0..<length (anfds l)]"] unfolding fd_rearm_all_def by simp_all
qed

section \<open>Time\<close>

text \<open>The clocks of the loop change and nothing else.\<close>

definition clocks_only :: "'a ev_loop_scheme \<Rightarrow> 'a ev_loop_scheme \<Rightarrow> bool" where
  "clocks_only l l' \<longleftrightarrow> l' = l\<lparr>mn_now := mn_now l', ev_rt_now := ev_rt_now l', now_floor := now_floor l', rtmn_diff := rtmn_diff l'\<rparr>"

lemma time_jump_only:
  "clocks_only l (time_jump i odiff clk n l)"
  "mn_now (time_jump i odiff clk n l) = mn_now l \<or> (\<exists>m. mn_now (time_jump i odiff clk n l) = snd (clk m))"
proof (induction i odiff clk n l rule: time_jump.induct)
  case (2 i odiff clk n l)
  let ?l1 = "l\<lparr>rtmn_diff := ev_rt_now l - mn_now l\<rparr>"
  let ?l2 = "?l1\<lparr>ev_rt_now := fst (clk (Suc n)), mn_now := snd (clk (Suc n)), now_floor := snd (clk (Suc n))\<rparr>"
  {
    case 1
    have "clocks_only l l'" if "clocks_only ?l2 l'" for l'
    proof -
      have "?l2\<lparr>mn_now := a, ev_rt_now := b, now_floor := c, rtmn_diff := d\<rparr> = l\<lparr>mn_now := a, ev_rt_now := b, now_floor := c, rtmn_diff := d\<rparr>" for a b c d
        by simp
      then show ?thesis using that unfolding clocks_only_def by metis
    qed
    moreover have "clocks_only l ?l1" by (simp add: clocks_only_def)
    ultimately show ?case using "2.IH"(1) [OF refl refl] by (simp add: Let_def)
  next
    case 2
    show ?case using "2.IH"(2) [OF refl refl] by (auto simp: Let_def)
  }
qed (auto simp: clocks_only_def)

lemma time_update_monotonic:
  "clocks_only l (time_update True clk b l)" "\<exists>m. mn_now (time_update True clk b l) = snd (clk m)"
proof -
  let ?l1 = "l\<lparr>mn_now := snd (clk 0)\<rparr>"
  let ?l2 = "?l1\<lparr>now_floor := mn_now ?l1, ev_rt_now := fst (clk 0)\<rparr>"
  note j = time_jump_only [where l = ?l2 and i = 3 and odiff = "rtmn_diff l" and clk = clk and n = 0]
  have "clocks_only l l'" if "clocks_only ?l2 l'" for l'
  proof -
    have "?l2\<lparr>mn_now := a, ev_rt_now := b, now_floor := c, rtmn_diff := d\<rparr> = l\<lparr>mn_now := a, ev_rt_now := b, now_floor := c, rtmn_diff := d\<rparr>" for a b c d
      by simp
    then show ?thesis using that unfolding clocks_only_def by metis
  qed
  moreover have "clocks_only l (?l1\<lparr>ev_rt_now := rtmn_diff ?l1 + mn_now ?l1\<rparr>)" by (simp add: clocks_only_def)
  ultimately show "clocks_only l (time_update True clk b l)"
    using j(1) by (simp add: time_update_def Let_def)
  show "\<exists>m. mn_now (time_update True clk b l) = snd (clk m)"
    using j(2) by (auto simp: time_update_def Let_def)
qed

lemma clocks_only_ok:
  assumes "clocks_only l l'"
  shows "loop_ok l' = loop_ok l" "reps_ok l' = reps_ok l" "masks_clean l' = masks_clean l" "eperms_in l' = eperms_in l"
    "rfeeds l' = rfeeds l" "timers l' = timers l" "w_at l' = w_at l" "pending l' = pending l" "wkind l' = wkind l" "active l' = active l"
    "loop_done l' = loop_done l" "w_repeat l' = w_repeat l" "anfds l' = anfds l"
proof -
  obtain a b c d where e: "l' = l\<lparr>mn_now := a, ev_rt_now := b, now_floor := c, rtmn_diff := d\<rparr>"
    using assms by (auto simp: clocks_only_def)
  show "loop_ok l' = loop_ok l" "reps_ok l' = reps_ok l" "masks_clean l' = masks_clean l" "eperms_in l' = eperms_in l"
    "rfeeds l' = rfeeds l" "timers l' = timers l" "w_at l' = w_at l" "pending l' = pending l" "wkind l' = wkind l" "active l' = active l"
    "loop_done l' = loop_done l" "w_repeat l' = w_repeat l" "anfds l' = anfds l"
    unfolding e by (simp_all add: loop_ok_def ok_defs queued_def wanted_def ABSPRI_def reps_ok_def masks_clean_def eperms_in_def)
qed

text \<open>Moving all timers by the same amount keeps the heap.\<close>

definition shift_he :: "real \<Rightarrow> anhe \<Rightarrow> anhe" where
  "shift_he d he = (ANHE_at he + d, ANHE_w he)"

definition shifted :: "real \<Rightarrow> 'a ev_loop_scheme \<Rightarrow> 'a ev_loop_scheme" where
  "shifted d l = l\<lparr>w_at := (\<lambda>w. if w \<in> ANHE_w ` set (timers l) then w_at l w + d else w_at l w), timers := map (shift_he d) (timers l)\<rparr>"

lemma timers_reschedule_eq:
  assumes ok: "loop_ok l"
  shows "timers_reschedule d l = shifted d l"
proof -
  let ?ts = "timers l"
  let ?f = "\<lambda>i l. let w = ANHE_w (timers l ! i); at1 = w_at l w + d
      in l\<lparr>w_at := (w_at l)(w := at1), timers := (timers l)[i := (at1, w)]\<rparr>"
  have dist: "distinct (map ANHE_w ?ts)" and cache: "\<And>i. i < length ?ts \<Longrightarrow> ANHE_at (?ts ! i) = w_at l (ANHE_w (?ts ! i))"
    using ok by (auto simp: loop_ok_def tim_ok_def heap_act_def)
  have "fold ?f [0..<n] l = l\<lparr>w_at := (\<lambda>w. if w \<in> ANHE_w ` set (take n ?ts) then w_at l w + d else w_at l w),
      timers := map (shift_he d) (take n ?ts) @ drop n ?ts\<rparr>" if "n \<le> length ?ts" for n
    using that
  proof (induction n)
    case (Suc n)
    let ?w = "ANHE_w (?ts ! n)"
    have n: "n < length ?ts" using Suc.prems by simp
    have nw: "?w \<notin> ANHE_w ` set (take n ?ts)"
    proof
      assume "?w \<in> ANHE_w ` set (take n ?ts)"
      then obtain j where "j < n" "ANHE_w (?ts ! j) = ?w" using n by (auto simp: in_set_conv_nth)
      then show False using dist n nth_eq_iff_index_eq [of "map ANHE_w ?ts" j n] by simp
    qed
    have t: "take (Suc n) ?ts = take n ?ts @ [?ts ! n]" "drop n ?ts = ?ts ! n # drop (Suc n) ?ts"
      using n by (simp_all add: take_Suc_conv_app_nth Cons_nth_drop_Suc)
    have nth: "(map (shift_he d) (take n ?ts) @ drop n ?ts) ! n = ?ts ! n" using n by (simp add: nth_append)
    have upd: "(map (shift_he d) (take n ?ts) @ drop n ?ts)[n := (w_at l ?w + d, ?w)] = map (shift_he d) (take (Suc n) ?ts) @ drop (Suc n) ?ts"
      using n cache [OF n] by (simp add: t list_update_append shift_he_def)
    have wt: "(\<lambda>w. if w \<in> ANHE_w ` set (take n ?ts) then w_at l w + d else w_at l w)(?w := w_at l ?w + d) =
        (\<lambda>w. if w \<in> ANHE_w ` set (take (Suc n) ?ts) then w_at l w + d else w_at l w)"
      by (auto simp: t fun_eq_iff)
    let ?A = "\<lambda>w. if w \<in> ANHE_w ` set (take n ?ts) then w_at l w + d else w_at l w"
      and ?T = "map (shift_he d) (take n ?ts) @ drop n ?ts"
    define m where "m = fold ?f [0..<n] l"
    have m: "m = l\<lparr>w_at := ?A, timers := ?T\<rparr>" unfolding m_def by (rule Suc.IH) (use n in simp)
    have tm: "timers m = ?T" "w_at m = ?A" by (simp_all add: m)
    have aw: "?A ?w = w_at l ?w" using nw by simp
    have "fold ?f [0..<Suc n] l = ?f n m" by (simp add: m_def)
    also have "?f n m = m\<lparr>w_at := ?A(?w := w_at l ?w + d), timers := ?T[n := (w_at l ?w + d, ?w)]\<rparr>"
      unfolding Let_def tm nth aw ..
    also have "\<dots> = l\<lparr>w_at := (\<lambda>w. if w \<in> ANHE_w ` set (take (Suc n) ?ts) then w_at l w + d else w_at l w),
        timers := map (shift_he d) (take (Suc n) ?ts) @ drop (Suc n) ?ts\<rparr>"
      unfolding upd wt by (simp add: m)
    finally show ?case .
  qed simp
  from this [of "length ?ts"] show ?thesis by (simp add: timers_reschedule_def shifted_def)
qed

lemma shifted_ok:
  assumes ok: "loop_ok l"
  shows "loop_ok (shifted d l)"
proof -
  have "heap_ord (timers (shifted d l))"
    unfolding heap_ord_def
  proof (intro allI impI)
    fix i assume i: "0 < i \<and> i < length (timers (shifted d l))"
    then have "i < length (timers l)" "HPARENT i < length (timers l)" using HPARENT_less [of i] by (simp_all add: shifted_def)
    moreover have "ANHE_at (timers l ! HPARENT i) \<le> ANHE_at (timers l ! i)"
    proof -
      have "heap_ord (timers l)" using ok by (simp add: loop_ok_def tim_ok_def)
      then show ?thesis using i by (simp add: heap_ord_def shifted_def)
    qed
    ultimately show "ANHE_at (timers (shifted d l) ! HPARENT i) \<le> ANHE_at (timers (shifted d l) ! i)"
      by (simp add: shifted_def shift_he_def)
  qed
  moreover have "map ANHE_w (map (shift_he d) (timers l)) = map ANHE_w (timers l)" by (simp add: shift_he_def)
  then have "heap_act (timers (shifted d l), active (shifted d l))"
    using ok unfolding loop_ok_def tim_ok_def heap_act_def by (simp add: shifted_def shift_he_def comp_def)
  moreover have "ANHE_w ` set (map (shift_he d) (timers l)) = ANHE_w ` set (timers l)"
    by (simp add: shift_he_def image_image)
  ultimately have "tim_ok (shifted d l)"
    using ok unfolding loop_ok_def tim_ok_def by (auto simp: shifted_def shift_he_def)
  then show ?thesis
    using ok by (simp add: loop_ok_def pend_ok_def io_ok_def chg_ok_def mask_ok_def kind_ok_def cnt_ok_def queued_def ABSPRI_def
        wanted_def shifted_def)
qed

text \<open>Without a monotonic clock: a jump of the clock moves all timers with it.\<close>

lemma time_update_jump:
  assumes ok: "loop_ok l" and w: "w \<in> ANHE_w ` set (timers l)" and l': "l' = time_update False clk b l"
    and jump: "fst (clk 0) < mn_now l \<or> mn_now l + b + MIN_TIMEJUMP < fst (clk 0)"
  shows "loop_ok l'" "w_at l' w - mn_now l' = w_at l w - mn_now l"
proof -
  let ?l1 = "l\<lparr>ev_rt_now := fst (clk 0)\<rparr>"
  have k: "loop_ok ?l1" using ok by (simp add: loop_ok_def ok_defs queued_def wanted_def ABSPRI_def)
  have e: "l' = (shifted (fst (clk 0) - mn_now l) ?l1)\<lparr>mn_now := fst (clk 0)\<rparr>"
    using jump timers_reschedule_eq [OF k] by (auto simp: l' time_update_def Let_def shifted_def)
  have "loop_ok (m\<lparr>mn_now := x\<rparr>) = loop_ok m" for m :: "'a ev_loop_scheme" and x
    by (simp add: loop_ok_def ok_defs queued_def wanted_def ABSPRI_def)
  then show "loop_ok l'" using shifted_ok [OF k] by (simp add: e)
  show "w_at l' w - mn_now l' = w_at l w - mn_now l" using w by (simp add: e shifted_def)
qed

text \<open>The poll ends before any timer is overdue by more than the backend's resolution.\<close>

lemma waittime_bounds:
  assumes ok: "loop_ok l"
  shows "0 \<le> waittime flags l" "waittime flags l \<le> MAX_BLOCKTIME"
    "he \<in> set (timers l) \<Longrightarrow> waittime flags l \<le> max backend_mintime (ANHE_at he - mn_now l)"
    "flags AND EVRUN_NOWAIT \<noteq> 0 \<Longrightarrow> waittime flags l = 0"
proof -
  show "0 \<le> waittime flags l" "waittime flags l \<le> MAX_BLOCKTIME" "flags AND EVRUN_NOWAIT \<noteq> 0 \<Longrightarrow> waittime flags l = 0"
    by (simp_all add: waittime_def Let_def backend_mintime_def MAX_BLOCKTIME_def)
  show "waittime flags l \<le> max backend_mintime (ANHE_at he - mn_now l)" if he: "he \<in> set (timers l)"
  proof -
    obtain i where i: "i < length (timers l)" "timers l ! i = he" using he by (auto simp: in_set_conv_nth)
    have "heap_ord (timers l)" using ok by (simp add: loop_ok_def tim_ok_def)
    then have "ANHE_at (timers l ! 0) \<le> ANHE_at he" using heap_root_min i by blast
    moreover have "timers l \<noteq> []" using i by auto
    ultimately show ?thesis by (auto simp: waittime_def Let_def backend_mintime_def)
  qed
qed

section \<open>The self check\<close>

lemma verify_watcher_ok:
  assumes ok: "loop_ok l" and k: "wkind l w \<noteq> None"
  shows "verify_watcher l w"
proof -
  have p: "pri_ok (priority l w)" by (rule kind_okD(7) [OF ok k])
  have "pend_ok l" using ok by (simp add: loop_ok_def)
  from pend_okD(1) [OF this, of w] show ?thesis
    using p ABSPRI_less [OF p] by (auto simp: verify_watcher_def queued_def pri_ok_def)
qed

lemma verify_list_ok:
  assumes ok: "loop_ok l" and i: "i < length (anfds l)" and h: "head (anfds l ! i) = as @ ws"
    and j: "j = length as" and w2: "w2 = drop (j div 2) (as @ ws)"
  shows "verify_list l i j w2 ws"
  using h j w2
proof (induction ws arbitrary: as j w2)
  case (Cons w ws)
  have w: "w \<in> set (head (anfds l ! i))" using Cons.prems(1) by simp
  note a = io_okD(1) [OF ok i w]
  have "verify_watcher l w" by (rule verify_watcher_ok [OF ok kind_okD(1) [OF ok]]) (use a in simp)
  moreover have "w2 \<noteq> [] \<and> w \<noteq> hd w2" if "odd j"
  proof -
    have lt: "j div 2 < length as" using that Cons.prems(2) by presburger
    have "hd w2 = as ! (j div 2)" using lt Cons.prems(3) by (simp add: hd_drop_conv_nth nth_append)
    moreover have "distinct (as @ w # ws)" using io_okD(2) [OF ok i] Cons.prems(1) by simp
    ultimately show ?thesis using lt Cons.prems(3) by auto
  qed
  moreover have "verify_list l i (Suc j) (if odd j then tl w2 else w2) ws"
    by (rule Cons.IH [of "as @ [w]"]) (use Cons.prems in \<open>auto simp: tl_drop drop_Suc elim!: oddE evenE\<close>)
  ultimately show ?case using a by simp
qed simp

lemma ev_verify_ok:
  assumes ok: "loop_ok l"
  shows "ev_verify l"
proof -
  have "activecnt l \<ge> -1" using ok by (simp add: loop_ok_def cnt_ok_def)
  moreover have "list_all (\<lambda>fd. fd \<ge> 0) (fdchanges l)" using ok by (simp add: loop_ok_def chg_ok_def list_all_iff)
  moreover have "verify_list l i 0 (head (anfds l ! i)) (head (anfds l ! i))" if "i < length (anfds l)" for i
    by (rule verify_list_ok [OF ok that, of "[]"]) simp_all
  moreover have "verify_heap l"
    unfolding verify_heap_def list_all_iff
  proof (intro ballI conjI)
    fix i assume "i \<in> set [0..<length (timers l)]"
    then have i: "i < length (timers l)" by simp
    have t: "tim_ok l" using ok by (simp add: loop_ok_def)
    show act: "active l (ANHE_w (timers l ! i)) = i + HEAP0" using t i by (simp add: tim_ok_def heap_act_def)
    show "i = 0 \<or> ANHE_at (timers l ! HPARENT i) \<le> ANHE_at (timers l ! i)" using t i by (auto simp: tim_ok_def heap_ord_def)
    show "ANHE_at (timers l ! i) = w_at l (ANHE_w (timers l ! i))" using t i by (simp add: tim_ok_def)
    show "verify_watcher l (ANHE_w (timers l ! i))"
      by (rule verify_watcher_ok [OF ok kind_okD(1) [OF ok]]) (simp add: act HEAP0_def)
  qed
  ultimately show ?thesis by (simp add: ev_verify_def list_all_iff)
qed

section \<open>One iteration\<close>

text \<open>Timers do not touch the descriptors.\<close>

definition lio where
  "lio l = (anfds l, w_events l, epoll_eperms l, w_fd l, fdchanges l, loop_done l, mn_now l, ev_rt_now l, ev_loop.more l, w_repeat l)"

lemma on_heap_lio [simp]: "lio (on_heap f l) = lio l"
  by (simp add: on_heap_def lio_def split: prod.split)

lemma clear_pending_lio [simp]: "lio (clear_pending w l) = lio l"
  by (simp add: clear_pending_def lio_def Let_def)

lemma lio_upd [simp]:
  "lio (l\<lparr>timers := x\<rparr>) = lio l" "lio (l\<lparr>w_at := y\<rparr>) = lio l" "lio (l\<lparr>rfeeds := z\<rparr>) = lio l" "lio (ev_stop w l) = lio l"
  by (simp_all add: lio_def ev_stop_def)

lemma ev_timer_stop_lio: "ev_timer_stop w l = Inr l' \<Longrightarrow> lio l' = lio l"
  by (auto simp: ev_timer_stop_def Let_def split: if_splits)

lemma timer_fire_lio: "timer_fire l = Inr l' \<Longrightarrow> lio l' = lio l"
  by (auto simp: timer_fire_def Let_def feed_reverse_def dest: ev_timer_stop_lio split: if_splits)

lemma fire_loop_lio: "fire_loop l = Some r \<Longrightarrow> r = Inr l' \<Longrightarrow> lio l' = lio l"
proof (induction arbitrary: l' rule: fire_loop.raw_induct [rotated 1, consumes 1])
  case (1 fire l r)
  show ?case
  proof (cases "timer_due l")
    case True
    then obtain l1 where l1: "timer_fire l = Inr l1" "fire l1 = Some r"
      using 1(2,3) by (auto split: sum.splits)
    then show ?thesis using 1(1) [OF l1(2) 1(3)] timer_fire_lio by metis
  next
    case False
    then show ?thesis using 1(2,3) by simp
  qed
qed

lemma feed_lio: "lio (ev_feed_event w r l) = lio l" "lio (feed_reverse_done r l) = lio l"
proof -
  show 1: "lio (ev_feed_event w r l) = lio l" for w and l :: "'a ev_loop_scheme"
    by (simp add: ev_feed_event_def Let_def lio_def)
  have "lio (fold (\<lambda>w. ev_feed_event w r) ws m) = lio m" for ws and m :: "'a ev_loop_scheme"
    by (induction ws arbitrary: m) (simp_all add: 1)
  then show "lio (feed_reverse_done r l) = lio l" by (simp add: feed_reverse_done_def)
qed

lemma timers_reify_lio: "timers_reify l = Some (Inr l') \<Longrightarrow> lio l' = lio l"
  by (auto simp: timers_reify_def feed_lio dest!: fire_loop_lio split: if_splits)

text \<open>What the iteration relies on and keeps, beside the invariant of the loop.\<close>

definition run_ok :: "'a ev_loop_scheme \<Rightarrow> bool" where
  "run_ok l \<longleftrightarrow> reps_ok l \<and> rfeeds l = [] \<and> masks_clean l \<and> eperms_in l"

lemma run_ok_queue_free: "queue_free (\<lambda>l g. run_ok l)"
  by (simp add: queue_free_def run_ok_def reps_ok_def masks_clean_def eperms_in_def wanted_def)

lemma rframe_run_ok:
  assumes "rframe l l'" "run_ok l"
  shows "run_ok l'"
proof -
  have f: "w_repeat l' = w_repeat l" "rfeeds l' = rfeeds l" using assms(1) by (simp_all add: rframe_def lmisc_def)
  have "HEAP0 \<le> active l w" if "HEAP0 \<le> active l' w" for w
    using assms(1) that unfolding rframe_def by (metis HEAP0_def not_numeral_le_zero)
  then have "reps_ok l'" using assms(2) f by (auto simp: run_ok_def reps_ok_def)
  moreover have "eperms_in l'" using assms unfolding rframe_def run_ok_def eperms_in_def by metis
  ultimately show ?thesis using assms(2) f rframe_clean [OF assms(1)] by (simp add: run_ok_def)
qed

lemma rearmed_rframe: "rearmed l l' \<Longrightarrow> rframe l l'"
  by (simp add: rearmed_def rframe_def)

lemma poll_frame_run_ok:
  assumes "poll_frame l l'" "run_ok l"
  shows "run_ok l'"
proof -
  have "wanted l' i = wanted l i" if "i < length (anfds l)" for i
    using assms(1) that by (simp add: poll_frame_def wanted_def)
  then show ?thesis
    using assms eperms_in_frame [OF assms(1)] by (simp add: run_ok_def reps_ok_def masks_clean_def poll_frame_def)
qed

lemma clocks_run_ok: "clocks_only l l' \<Longrightarrow> run_ok l' = run_ok l"
  using clocks_only_ok [of l l'] by (simp add: run_ok_def)

lemma loop_done_ok: "loop_ok (l\<lparr>loop_done := x\<rparr>) = loop_ok l" "run_ok (l\<lparr>loop_done := x\<rparr>) = run_ok l"
  by (simp_all add: loop_ok_def ok_defs queued_def wanted_def ABSPRI_def run_ok_def reps_ok_def masks_clean_def eperms_in_def)

end
