(* ===== verification/Ev_Reach.thy ===== *)
theory Ev_Reach
  imports Event_Loop Ev_Run_Proofs
begin

unbundle bit_operations_syntax

text \<open>
  The states that a thread's event loop can get into, and one iteration of \<open>ev_run\<close> in them. The
  program uses a loop through the operations of the class \<open>EventLoop\<close> only, outside of the loop and in
  callbacks; the kernel reports only events of descriptors that are registered. From that it follows
  that the indices the backend takes out of events and out of \<open>epoll_eperms\<close> are in range and that no
  callback makes an event pending, so that an iteration ends.
\<close>

section \<open>The operations of the class\<close>

datatype 'cb el_op =
    Create_io addr 'cb
  | Start_io addr fd u32
  | Stop_io addr fd u32
  | Delete_io addr
  | Create_timer addr 'cb bool
  | Start_timer addr u32
  | Stop_timer addr
  | Delete_timer addr
  | Stop_loop

fun el_do :: "'cb el_op \<Rightarrow> ('cb, 'a) event_loop_scheme \<Rightarrow> ('cb, 'a) event_loop_scheme res" where
  "el_do (Create_io a cb) l = Inr (create_io_event a cb l)"
| "el_do (Start_io w fd m) l = start_io_event w fd m l"
| "el_do (Stop_io w fd m) l = stop_io_event w fd m l"
| "el_do (Delete_io w) l = delete_io_event w l"
| "el_do (Create_timer a cb rpt) l = Inr (create_timer a cb rpt l)"
| "el_do (Start_timer w usec) l = start_timer w usec l"
| "el_do (Stop_timer w) l = stop_timer w l"
| "el_do (Delete_timer w) l = delete_timer w l"
| "el_do Stop_loop l = Inr (stop l)"

text \<open>
  How they are used: on watchers that are allocated, with the descriptor the watcher waits for; what \<open>new\<close> returns is not in use,
  and a repeating timer has a time that is not zero.
\<close>

fun el_pre :: "'cb el_op \<Rightarrow> ('cb, 'a) event_loop_scheme \<Rightarrow> bool" where
  "el_pre (Create_io a cb) l \<longleftrightarrow> wkind l a = None"
| "el_pre (Start_io w fd m) l \<longleftrightarrow> wkind l w = Some Ev_io \<and> 0 \<le> fd \<and> (case interest l w of None \<Rightarrow> True | Some (f, _) \<Rightarrow> f = fd)"
| "el_pre (Stop_io w fd m) l \<longleftrightarrow> wkind l w = Some Ev_io \<and> 0 \<le> fd \<and> (case interest l w of None \<Rightarrow> False | Some (f, _) \<Rightarrow> f = fd)"
| "el_pre (Delete_io w) l \<longleftrightarrow> wkind l w = Some Ev_io"
| "el_pre (Create_timer a cb rpt) l \<longleftrightarrow> wkind l a = None"
| "el_pre (Start_timer w usec) l \<longleftrightarrow> wkind l w = Some Ev_timer \<and> (need_repeat l w \<longrightarrow> usec \<noteq> 0)"
| "el_pre (Stop_timer w) l \<longleftrightarrow> wkind l w = Some Ev_timer"
| "el_pre (Delete_timer w) l \<longleftrightarrow> wkind l w = Some Ev_timer"
| "el_pre Stop_loop l \<longleftrightarrow> True"

inductive el_runs :: "('cb, 'a) event_loop_scheme \<Rightarrow> ('cb, 'a) event_loop_scheme \<Rightarrow> bool" where
  el_none: "el_runs l l"
| el_next: "el_runs l l1 \<Longrightarrow> el_pre op l1 \<Longrightarrow> el_do op l1 = Inr l2 \<Longrightarrow> el_runs l l2"

section \<open>What the operations leave of the backend\<close>

text \<open>The table of descriptors only grows, and nothing else of the backend's own data changes.\<close>

definition fd_frame :: "'a ev_loop_scheme \<Rightarrow> 'a ev_loop_scheme \<Rightarrow> bool" where
  "fd_frame l l' \<longleftrightarrow> length (anfds l) \<le> length (anfds l') \<and> epoll_eperms l' = epoll_eperms l"

lemma fd_frame_refl [simp]: "fd_frame l l" by (simp add: fd_frame_def)

lemma fd_frame_trans: "fd_frame a b \<Longrightarrow> fd_frame b c \<Longrightarrow> fd_frame a c"
  by (simp add: fd_frame_def)

lemma fd_frame_parts [simp]:
  "fd_frame l (clear_pending w l)" "fd_frame l (ev_stop w l)" "fd_frame l (ev_start w a l)" "fd_frame l (fd_change fd fl l)"
  "fd_frame l (ev_io_set w fd e l)" "fd_frame l (ev_timer_set w t r l)" "fd_frame l (ev_init kd w l)" "fd_frame l (free_watcher w l)"
  "fd_frame l (on_heap f l)" "fd_frame l (l\<lparr>w_at := x\<rparr>)" "fd_frame l (l\<lparr>timers := y\<rparr>)" "fd_frame l (l\<lparr>w_repeat := z\<rparr>)"
  by (simp_all add: fd_frame_def clear_pending_def ev_stop_def ev_start_def pri_adjust_def fd_change_def ev_io_set_def ev_timer_set_def
      ev_init_def free_watcher_def on_heap_def Let_def split: prod.split)

lemma needsize_length: "length as \<le> length (anfds_needsize as n)"
  by (simp add: anfds_needsize_def)

lemma ev_io_stop_fd: "ev_io_stop w l = Inr l' \<Longrightarrow> fd_frame l l'"
  by (auto simp: ev_io_stop_def Let_def fd_frame_def fd_change_def ev_stop_def clear_pending_def split: if_splits)

lemma ev_io_start_fd: "ev_io_start w l = Inr l' \<Longrightarrow> fd_frame l l'"
  using needsize_length [of "anfds l" "nat (w_fd l w) + 1"]
  by (auto simp: ev_io_start_def Let_def fd_frame_def fd_change_def ev_start_def pri_adjust_def split: if_splits list.splits)

lemma ev_timer_stop_fd: "ev_timer_stop w l = Inr l' \<Longrightarrow> fd_frame l l'"
  by (auto simp: ev_timer_stop_def Let_def fd_frame_def on_heap_def ev_stop_def clear_pending_def split: if_splits prod.splits)

lemma ev_timer_start_fd: "ev_timer_start w l = Inr l' \<Longrightarrow> fd_frame l l'"
  by (auto simp: ev_timer_start_def Let_def fd_frame_def on_heap_def ev_start_def pri_adjust_def split: if_splits prod.splits)

lemma ev_timer_again_fd:
  assumes "ev_timer_again w l = Inr l'"
  shows "fd_frame l l'"
proof -
  have c: "fd_frame l (clear_pending w l)" by simp
  have "fd_frame (clear_pending w l) l'"
    using assms ev_timer_stop_fd [of w "clear_pending w l" l'] ev_timer_start_fd [of w _ l']
    by (auto simp: ev_timer_again_def Let_def fd_frame_def on_heap_def split: if_splits prod.splits dest!: ev_timer_start_fd)
  then show ?thesis using fd_frame_trans c by blast
qed

lemmas op_fd = ev_io_stop_fd ev_io_start_fd ev_timer_stop_fd ev_timer_start_fd ev_timer_again_fd

lemma el_do_fd:
  assumes "el_do op l = Inr l'"
  shows "fd_frame l l'"
proof -
  have set: "fd_frame (ev_io_set w fd e m) n \<longleftrightarrow> fd_frame m n" "fd_frame (ev_timer_set w t r m) n \<longleftrightarrow> fd_frame m n"
    "fd_frame (m\<lparr>w_repeat := x\<rparr>) n \<longleftrightarrow> fd_frame m n" "fd_frame m (free_watcher w n) \<longleftrightarrow> fd_frame m n"
    for w fd e t r x and m n :: "('a, 'b) event_loop_scheme"
    by (simp_all add: fd_frame_def ev_io_set_def ev_timer_set_def free_watcher_def)
  show ?thesis
  proof (cases op)
    case (Start_io w fd m)
    then show ?thesis using assms
      by (auto simp: start_io_event_def Let_def set split: if_splits dest!: op_fd intro: fd_frame_trans)
  next
    case (Stop_io w fd m)
    then show ?thesis using assms
      by (auto simp: stop_io_event_def Let_def set split: if_splits dest!: op_fd intro: fd_frame_trans)
  next
    case (Start_timer w usec)
    then show ?thesis using assms
      by (auto simp: start_timer_def Let_def set split: if_splits dest!: op_fd intro: fd_frame_trans)
  qed (use assms in \<open>auto simp: create_io_event_def create_timer_def delete_io_event_def delete_timer_def stop_timer_def stop_def ev_break_def
      fd_frame_def ev_init_def free_watcher_def set split: if_splits dest!: op_fd\<close>)
qed

section \<open>Masks\<close>

text \<open>No watcher that is active has the bit set by which the backend marks descriptors that epoll refuses.\<close>

definition masks_low :: "'a ev_loop_scheme \<Rightarrow> bool" where
  "masks_low l \<longleftrightarrow> (\<forall>w. active l w = 1 \<longrightarrow> \<not> bit (w_events l w) 7)"

lemma bit_wanted: "n < 8 \<Longrightarrow> bit (wanted l i) n \<longleftrightarrow> (\<exists>w \<in> set (head (anfds l ! i)). bit (w_events l w) n)"
proof -
  assume n: "n < 8"
  have "bit (fold (\<lambda>w m. m OR ucast (w_events l w)) ws (a :: byte)) n \<longleftrightarrow> bit a n \<or> (\<exists>w \<in> set ws. bit (w_events l w) n)" for ws a
    by (induction ws arbitrary: a) (use n in \<open>auto simp: bit_simps\<close>)
  then show ?thesis by (simp add: wanted_def)
qed

lemma masks_clean_iff:
  assumes ok: "loop_ok l"
  shows "masks_clean l \<longleftrightarrow> masks_low l"
proof -
  have "wanted l i AND EV_EMASK_EPERM = 0 \<longleftrightarrow> \<not> bit (wanted l i) 7" for i
    using and_exp_eq_0_iff_not_bit [of "wanted l i" 7] by (simp add: EV_EMASK_EPERM_def)
  then have "masks_clean l \<longleftrightarrow> (\<forall>i < length (anfds l). \<forall>w \<in> set (head (anfds l ! i)). \<not> bit (w_events l w) 7)"
    by (simp add: masks_clean_def bit_wanted)
  also have "\<dots> \<longleftrightarrow> masks_low l"
  proof
    assume a: "\<forall>i < length (anfds l). \<forall>w \<in> set (head (anfds l ! i)). \<not> bit (w_events l w) 7"
    show "masks_low l"
      unfolding masks_low_def
    proof (intro allI impI)
      fix w assume "active l w = 1"
      then have "0 \<le> w_fd l w" "w_fd l w < int (length (anfds l))" "w \<in> set (head (anfds l ! nat (w_fd l w)))"
        using active_io_iff [OF ok, of w] by simp_all
      moreover have "nat (w_fd l w) < length (anfds l)" using calculation by linarith
      ultimately show "\<not> bit (w_events l w) 7" using a by blast
    qed
  qed (use io_okD(1) [OF ok] in \<open>auto simp: masks_low_def\<close>)
  finally show ?thesis .
qed

lemma bit_and_3_7: "\<not> bit (m AND 3 :: u32) 7"
  by (simp add: bit_and_iff)

lemma restart_low:
  assumes ok: "loop_ok l" and k: "wkind l w = Some Ev_io" and fd: "0 \<le> fd" and low: "masks_low l"
    and r: "rbind (ev_io_stop w l) (\<lambda>l. ev_io_start w (ev_io_set w fd (m AND 3) l)) = Inr l'"
  shows "masks_low l'"
proof -
  from ev_io_stop_spec [OF ok k] obtain l1 where l1: "ev_io_stop w l = Inr l1" "loop_ok l1" "io_frame l l1"
    "active l1 = (active l)(w := 0)" "w_events l1 = w_events l" by blast
  have "wkind l1 w = Some Ev_io" "active l1 w = 0" using l1(3,4) k by (simp_all add: io_frame_def)
  from rewatch_spec [OF l1(2) this fd, of m] r l1(1) have "active l' = (active l1)(w := 1)" "w_events l' = (w_events l1)(w := m AND 3)" by auto
  then show ?thesis using low l1(4,5) bit_and_3_7 [of m] by (auto simp: masks_low_def)
qed

lemma start_io_low:
  assumes ok: "loop_ok l" and k: "wkind l w = Some Ev_io" and fd: "0 \<le> fd" and low: "masks_low l" and s: "start_io_event w fd m l = Inr l'"
  shows "masks_low l'"
proof (cases "active l w = 0")
  case True
  then have "ev_io_start w (ev_io_set w fd (m AND 3) l) = Inr l'" using s k by (simp add: start_io_event_def TRANS_to)
  with rewatch_spec [OF ok k True fd, of m] have "active l' = (active l)(w := 1)" "w_events l' = (w_events l)(w := m AND 3)" by auto
  then show ?thesis using low bit_and_3_7 [of m] by (auto simp: masks_low_def)
next
  case False
  let ?e = "TRANS_FROM_EV_MASK (w_events l w) OR m"
  have "l' = l \<or> rbind (ev_io_stop w l) (\<lambda>l. ev_io_start w (ev_io_set w fd (?e AND 3) l)) = Inr l'"
    using s k False by (auto simp: start_io_event_def TRANS_to Let_def split: if_splits)
  then show ?thesis using low restart_low [OF ok k fd low] by blast
qed

lemma stop_io_low:
  assumes ok: "loop_ok l" and k: "wkind l w = Some Ev_io" and fd: "0 \<le> fd" and low: "masks_low l" and s: "stop_io_event w fd m l = Inr l'"
  shows "masks_low l'"
proof -
  let ?e = "TRANS_FROM_EV_MASK (w_events l w) AND NOT m"
  have "stop_io_event w fd m l = (if ?e = TRANS_FROM_EV_MASK (w_events l w) then Inr l
      else rbind (ev_io_stop w l) (\<lambda>l. if ?e AND 3 \<noteq> EV_NONE then ev_io_start w (ev_io_set w fd (?e AND 3) l) else Inr l))"
    unfolding stop_io_event_def Let_def TRANS_to by (simp only: k simp_thms if_False)
  then consider "l' = l" | "ev_io_stop w l = Inr l'" | "rbind (ev_io_stop w l) (\<lambda>l. ev_io_start w (ev_io_set w fd (?e AND 3) l)) = Inr l'"
    using s by (cases "?e = TRANS_FROM_EV_MASK (w_events l w)"; cases "?e AND 3 = EV_NONE"; cases "ev_io_stop w l")
      (simp_all only: if_True if_False simp_thms rbind.simps sum.inject)
  then show ?thesis
  proof cases
    case 2
    with ev_io_stop_spec [OF ok k] have "active l' = (active l)(w := 0)" "w_events l' = w_events l" by auto
    then show ?thesis using low by (auto simp: masks_low_def)
  qed (use low restart_low [OF ok k fd low] in blast)+
qed

lemma tm_frame_low: "loop_ok l \<Longrightarrow> loop_ok l' \<Longrightarrow> tm_frame l l' \<Longrightarrow> masks_low l \<Longrightarrow> masks_low l'"
  using active_io_iff [of l] active_io_iff [of l'] by (simp add: masks_low_def tm_frame_def)

lemma free_low: "masks_low (free_watcher w l) = masks_low l" "masks_low (stop m) = masks_low m"
  by (simp_all add: masks_low_def free_watcher_def stop_def ev_break_def)

section \<open>One operation\<close>

text \<open>What the running of callbacks relies on: the queues do not get longer.\<close>

definition q_frame :: "'a ev_loop_scheme \<Rightarrow> 'a ev_loop_scheme \<Rightarrow> bool" where
  "q_frame l l' \<longleftrightarrow> rfeeds l' = rfeeds l \<and> (\<forall>p. length (pendings l' p) = length (pendings l p)) \<and> pendingpri l' = pendingpri l"

lemma q_frames: "io_frame l l' \<Longrightarrow> q_frame l l'" "tm_frame l l' \<Longrightarrow> q_frame l l'" "q_frame l (free_watcher w l') = q_frame l l'"
  by (simp_all add: io_frame_def tm_frame_def q_frame_def free_watcher_def)

lemma el_do_ok:
  assumes ok: "el_ok l" and low: "masks_low l" and pre: "el_pre op l"
  shows "\<exists>l'. el_do op l = Inr l' \<and> el_ok l' \<and> masks_low l' \<and> q_frame l l'"
proof -
  have L: "loop_ok l" using ok by (simp add: el_ok_def)
  show ?thesis
  proof (cases op)
    case (Create_io a cb)
    then show ?thesis using pre create_io_event_spec(1) [OF ok, of a cb] low unallocated_idle(1) [OF ok, of a]
      by (auto simp: q_frame_def create_io_event_def ev_init_def masks_low_def)
  next
    case (Create_timer a cb rpt)
    then show ?thesis using pre create_timer_spec(1) [OF ok, of a cb rpt] low unallocated_idle(1) [OF ok, of a]
      by (auto simp: q_frame_def create_timer_def ev_init_def masks_low_def)
  next
    case (Start_io w fd m)
    then have p: "wkind l w = Some Ev_io" "0 \<le> fd" "\<And>f e. interest l w = Some (f, e) \<Longrightarrow> f = fd" using pre by auto
    from start_io_event_spec [OF ok p(1,2), of m] p(3) obtain l' where "start_io_event w fd m l = Inr l'" "el_ok l'" "io_frame l l'" by blast
    then show ?thesis using Start_io start_io_low [OF L p(1,2) low] q_frames(1) by auto
  next
    case (Stop_io w fd m)
    then obtain e where p: "wkind l w = Some Ev_io" "0 \<le> fd" "interest l w = Some (fd, e)" using pre by (auto split: option.splits)
    from stop_io_event_spec [OF ok p, where msk = m] obtain l' where "stop_io_event w fd m l = Inr l'" "el_ok l'" "io_frame l l'" by blast
    then show ?thesis using Stop_io stop_io_low [OF L p(1,2) low] q_frames(1) by auto
  next
    case (Delete_io w)
    then have k: "wkind l w = Some Ev_io" using pre by simp
    from ev_io_stop_spec [OF L k] obtain m where m: "ev_io_stop w l = Inr m" "io_frame l m" "active m = (active l)(w := 0)" "w_events m = w_events l"
      by blast
    have "masks_low m" using low m(3,4) by (auto simp: masks_low_def)
    moreover have "delete_io_event w l = Inr (free_watcher w m)" using k m(1) by (simp add: delete_io_event_def)
    moreover have "el_ok (free_watcher w m)" using delete_io_event_spec [OF ok k] calculation(2) by auto
    ultimately show ?thesis using Delete_io q_frames(1) [OF m(2)] by (auto simp: free_low q_frames(3))
  next
    case (Start_timer w usec)
    then have p: "wkind l w = Some Ev_timer" "need_repeat l w \<Longrightarrow> usec \<noteq> 0" using pre by auto
    from start_timer_spec [OF ok p] obtain l' where "start_timer w usec l = Inr l'" "el_ok l'" "tm_frame l l'" by (auto simp: armed_def)
    then show ?thesis using Start_timer tm_frame_low [OF L _ _ low] q_frames(2) by (auto simp: el_ok_def)
  next
    case (Stop_timer w)
    then show ?thesis using stop_timer_spec [OF ok, of w] pre tm_frame_low [OF L _ _ low] q_frames(2) by (auto simp: el_ok_def)
  next
    case (Delete_timer w)
    then have k: "wkind l w = Some Ev_timer" using pre by simp
    from stop_timer_spec [OF ok k] obtain m where m: "stop_timer w l = Inr m" "el_ok m" "tm_frame l m" "active m w = 0" "pending m w = 0" by blast
    have "masks_low m" using tm_frame_low [OF L _ m(3) low] m(2) by (simp add: el_ok_def)
    then show ?thesis using Delete_timer m free_watcher_ok [OF m(2,4,5)] q_frames(2) [OF m(3)]
      by (auto simp: delete_timer_def free_low q_frames(3))
  next
    case Stop_loop
    then show ?thesis using ok low
      by (simp add: q_frame_def free_low) (simp add: stop_def ev_break_def el_ok_def loop_done_ok reps_ok_def)
  qed
qed

section \<open>States that the iteration relies on\<close>

definition ready :: "('k \<Rightarrow> fd \<rightharpoonup> u32 \<times> u64) \<Rightarrow> 'a ev_loop_scheme \<Rightarrow> 'k \<Rightarrow> bool" where
  "ready kint l k \<longleftrightarrow> loop_ok l \<and> run_ok l \<and> data_in kint (length (anfds l)) k"

lemma el_do_ready:
  assumes ok: "loop_ok l" "run_ok l" and pre: "el_pre op l"
  shows "\<exists>l'. el_do op l = Inr l' \<and> loop_ok l' \<and> run_ok l' \<and> q_frame l l' \<and> length (anfds l) \<le> length (anfds l')"
proof -
  have e: "el_ok l" "masks_low l" "rfeeds l = []" "eperms_in l" using ok masks_clean_iff [OF ok(1)] by (simp_all add: el_ok_def run_ok_def)
  from el_do_ok [OF e(1,2) pre] obtain l' where l': "el_do op l = Inr l'" "el_ok l'" "masks_low l'" "q_frame l l'" by blast
  have f: "fd_frame l l'" by (rule el_do_fd [OF l'(1)])
  then have "eperms_in l'" using e(4) by (fastforce simp: eperms_in_def fd_frame_def)
  then have "run_ok l'" using l' e(3) masks_clean_iff [of l'] by (auto simp: run_ok_def el_ok_def q_frame_def)
  then show ?thesis using l' f by (auto simp: el_ok_def fd_frame_def)
qed

lemma el_runs_ready:
  assumes "el_runs l l'" "loop_ok l" "run_ok l"
  shows "loop_ok l' \<and> run_ok l' \<and> q_frame l l' \<and> length (anfds l) \<le> length (anfds l')"
  using assms
proof (induction rule: el_runs.induct)
  case (el_none l)
  then show ?case by (simp add: q_frame_def)
next
  case (el_next l l1 op l2)
  then have i: "loop_ok l1" "run_ok l1" "q_frame l l1" "length (anfds l) \<le> length (anfds l1)" by simp_all
  from el_do_ready [OF i(1,2) el_next.hyps(2)] el_next.hyps(3) i(3,4) show ?case by (auto simp: q_frame_def)
qed

text \<open>The parts of an iteration.\<close>

lemma ready_reify:
  assumes r: "ready kint l k" and d: "ctl_doc kint ctl"
  shows "\<exists>l' k'. fd_reify ctl l k = Some (Inr (l', k')) \<and> ready kint l' k' \<and> loop_done l' = loop_done l"
proof -
  have R: "loop_ok l" "run_ok l" "masks_clean l" "data_in kint (length (anfds l)) k" using r by (simp_all add: ready_def run_ok_def)
  from fd_reify_correct [OF R(1,3), of ctl k] obtain l' k' where
    l': "fd_reify ctl l k = Some (Inr (l', k'))" "loop_ok l'" "rframe l l'" "data_in kint (length (anfds l)) k'"
    using d R(4) by blast
  then have "length (anfds l') = length (anfds l)" "loop_done l' = loop_done l" by (simp_all add: rframe_def lmisc_def)
  then show ?thesis using l' rframe_run_ok [OF l'(3) R(2)] by (simp add: ready_def)
qed

lemma ready_fork:
  assumes r: "ready kint l k" and k0: "kint k0 = Map.empty"
  shows "ready kint (fst (loop_fork k0 l)) (snd (loop_fork k0 l))"
proof -
  have "loop_ok (m\<lparr>postfork := 0\<rparr>) = loop_ok m" "run_ok (m\<lparr>postfork := 0\<rparr>) = run_ok m" for m :: "'b ev_loop_scheme"
    by (simp_all add: postfork_ok run_ok_def reps_ok_def masks_clean_def eperms_in_def wanted_def)
  moreover have "loop_ok l" "run_ok l" using r by (simp_all add: ready_def)
  moreover note fd_rearm_all_ok [OF calculation(3)]
  ultimately show ?thesis
    using rframe_run_ok [OF rearmed_rframe] k0 by (auto simp: ready_def loop_fork_def epoll_fork_def data_in_def)
qed

lemma ready_clock: "ready kint (time_update True clk b l) k = ready kint l k"
proof -
  note c = time_update_monotonic(1) [of l clk b]
  show ?thesis using clocks_only_ok(1,13) [OF c] clocks_run_ok [OF c] by (simp add: ready_def)
qed

text \<open>
  What \<open>epoll_wait\<close> is documented to return: the data of an event is that of a descriptor in the
  interest list.
\<close>

definition reported :: "('k \<Rightarrow> fd \<rightharpoonup> u32 \<times> u64) \<Rightarrow> 'k \<Rightarrow> epoll_event list \<Rightarrow> bool" where
  "reported kint k evs \<longleftrightarrow> (\<forall>ev \<in> set evs. \<exists>fd e. kint k fd = Some (e, ee_data ev))"

lemma reported_known:
  assumes "ready kint l k" "reported kint k evs" "ev \<in> set evs"
  shows "ev_known l ev" "data_index (ee_data ev) < length (anfds l)"
  using assms by (fastforce simp: ready_def reported_def data_in_def ev_known_def data_index_def)+

lemma ready_poll:
  assumes r: "ready kint l k" and d: "ctl_doc kint ctl" and rep: "reported kint k evs"
  shows "\<exists>l' k'. epoll_poll ctl (Wait_events evs) l k = Inr (l', k') \<and> ready kint l' k'"
proof -
  have R: "loop_ok l" "run_ok l" "eperms_in l" "data_in kint (length (anfds l)) k" using r by (simp_all add: ready_def run_ok_def)
  have kn: "\<forall>ev \<in> set evs. ev_known l ev" "\<forall>ev \<in> set evs. data_index (ee_data ev) < length (anfds l)"
    using reported_known [OF r rep] by simp_all
  from epoll_poll_correct [OF R(1,3) kn(1), of ctl k] obtain l' k' where
    l': "epoll_poll ctl (Wait_events evs) l k = Inr (l', k')" "loop_ok l'" "poll_frame l l'" by blast
  have "data_in kint (length (anfds l)) k'" by (rule epoll_poll_data [OF l'(1) d R(4) kn(2)])
  then show ?thesis using l' poll_frame_run_ok [OF l'(3) R(2)] by (auto simp: ready_def poll_frame_def)
qed

lemma ready_done [simp]: "ready kint (l\<lparr>loop_done := x\<rparr>) k = ready kint l k"
  by (simp add: ready_def loop_done_ok)

lemma ready_timers:
  assumes r: "ready kint l k"
  shows "\<exists>l'. timers_reify l = Some (Inr l') \<and> ready kint l' k"
proof -
  have R: "loop_ok l" "reps_ok l" "rfeeds l = []" using r by (simp_all add: ready_def run_ok_def)
  from timers_reify_correct [OF this] obtain l' where
    l': "timers_reify l = Some (Inr l')" "loop_ok l'" "reps_ok l'" "rfeeds l' = []" by blast
  have "masks_clean l' \<and> eperms_in l' \<and> anfds l' = anfds l"
    using timers_reify_lio [OF l'(1)] r by (simp add: lio_def ready_def run_ok_def masks_clean_def eperms_in_def wanted_def)
  then show ?thesis using l' r by (simp add: ready_def run_ok_def)
qed

text \<open>
  What a callback may do: it returns after finitely many operations of the class, each used as it has to be. \<open>J\<close>
  is what it keeps of its own data.
\<close>

definition api_cb :: "('g \<Rightarrow> bool) \<Rightarrow> (('cb, 'a) event_loop_scheme, 'g) callback \<Rightarrow> bool" where
  "api_cb J cb \<longleftrightarrow> (\<forall>w r l g. loop_ok l \<and> run_ok l \<and> wkind l w \<noteq> None \<and> J g \<longrightarrow>
     (\<exists>l' g'. cb w r l g = Some (Inr (l', g')) \<and> el_runs l l' \<and> J g'))"

lemma api_cb_quiet:
  fixes cb :: "(('cb, 'a) event_loop_scheme, 'g) callback"
  assumes "api_cb J cb"
  shows "quiet_cb (\<lambda>l g. run_ok l \<and> n \<le> length (anfds l) \<and> J g) cb"
  unfolding quiet_cb_def
proof (intro allI impI)
  fix w r g and l :: "('cb, 'a) event_loop_scheme" assume a: "(run_ok l \<and> n \<le> length (anfds l) \<and> J g) \<and> loop_ok l \<and> wkind l w \<noteq> None"
  then obtain l' g' where c: "cb w r l g = Some (Inr (l', g'))" "el_runs l l'" "J g'" using assms unfolding api_cb_def by blast
  from el_runs_ready [OF c(2)] a have "loop_ok l' \<and> run_ok l' \<and> q_frame l l' \<and> length (anfds l) \<le> length (anfds l')" by blast
  then show "\<exists>l' g'. cb w r l g = Some (Inr (l', g')) \<and> (run_ok l' \<and> n \<le> length (anfds l') \<and> J g') \<and> loop_ok l' \<and>
      (\<forall>p. length (pendings l' p) \<le> length (pendings l p)) \<and> pendingpri l' = pendingpri l"
    using c a by (auto simp: q_frame_def)
qed

lemma ready_invoke:
  fixes l :: "('cb, 'a) event_loop_scheme"
  assumes r: "ready kint l k" and cb: "api_cb J cb" and J: "J g"
  shows "\<exists>l' g'. ev_invoke_pending cb l g = Some (Inr (l', g')) \<and> ready kint l' k \<and> J g' \<and> (\<forall>p. pendings l' p = [])"
proof -
  have f: "queue_free (\<lambda>(m :: ('cb, 'a) event_loop_scheme) g. run_ok m \<and> length (anfds l) \<le> length (anfds m) \<and> J g)"
    by (simp add: queue_free_def run_ok_def reps_ok_def masks_clean_def eperms_in_def wanted_def)
  have "loop_ok l" "run_ok l" "data_in kint (length (anfds l)) k" using r by (simp_all add: ready_def)
  with ev_invoke_pending_correct [OF api_cb_quiet [OF cb, of "length (anfds l)"] f, of l g] J show ?thesis
    using data_in_mono by (fastforce simp: ready_def)
qed

section \<open>Reachable states\<close>

text \<open>
  The states of a thread's loop and of its interest list in the kernel, from the constructor on. Closing a descriptor takes it out of
  the interest list.
\<close>

inductive ev_reach :: "('k \<Rightarrow> fd \<rightharpoonup> u32 \<times> u64) \<Rightarrow> 'k epoll_ctl \<Rightarrow> ('g \<Rightarrow> bool) \<Rightarrow> 'cb event_loop \<Rightarrow> 'k \<Rightarrow> bool"
  for kint :: "'k \<Rightarrow> fd \<rightharpoonup> u32 \<times> u64" and ctl :: "'k epoll_ctl" and J :: "'g \<Rightarrow> bool" where
  r_new: "kint k = Map.empty \<Longrightarrow> ev_reach kint ctl J (event_loop_new rt mn cb0) k"
| r_api: "ev_reach kint ctl J l k \<Longrightarrow> el_pre op l \<Longrightarrow> el_do op l = Inr l' \<Longrightarrow> ev_reach kint ctl J l' k"
| r_close: "ev_reach kint ctl J l k \<Longrightarrow> kint k' \<subseteq>\<^sub>m kint k \<Longrightarrow> ev_reach kint ctl J l k'"
| r_fork: "ev_reach kint ctl J l k \<Longrightarrow> kint k0 = Map.empty \<Longrightarrow> loop_fork k0 l = (l', k') \<Longrightarrow> ev_reach kint ctl J l' k'"
| r_reify: "ev_reach kint ctl J l k \<Longrightarrow> fd_reify ctl l k = Some (Inr (l', k')) \<Longrightarrow> ev_reach kint ctl J l' k'"
| r_clock: "ev_reach kint ctl J l k \<Longrightarrow> ev_reach kint ctl J (time_update True clk b l) k"
| r_poll: "ev_reach kint ctl J l k \<Longrightarrow> reported kint k evs \<Longrightarrow> epoll_poll ctl (Wait_events evs) l k = Inr (l', k') \<Longrightarrow> ev_reach kint ctl J l' k'"
| r_done: "ev_reach kint ctl J l k \<Longrightarrow> ev_reach kint ctl J (l\<lparr>loop_done := b\<rparr>) k"
| r_timers: "ev_reach kint ctl J l k \<Longrightarrow> timers_reify l = Some (Inr l') \<Longrightarrow> ev_reach kint ctl J l' k"
| r_invoke: "ev_reach kint ctl J l k \<Longrightarrow> api_cb J cb \<Longrightarrow> J g \<Longrightarrow> ev_invoke_pending cb l g = Some (Inr (l', g')) \<Longrightarrow> ev_reach kint ctl J l' k"

lemma new_ready:
  assumes "kint k = Map.empty"
  shows "ready kint (event_loop_new rt mn cb0) k"
  using assms
  by (auto simp: ready_def event_loop_new_def loop_ok_def ok_defs queued_def wanted_def ABSPRI_def run_ok_def reps_ok_def masks_clean_def
      eperms_in_def data_in_def heap_ord_def heap_act_def HEAP0_def)

lemma ev_reach_ready:
  assumes "ev_reach kint ctl J l k" "ctl_doc kint ctl"
  shows "ready kint l k"
  using assms(1)
proof (induction rule: ev_reach.induct)
  case (r_new k rt mn cb0)
  then show ?case by (rule new_ready)
next
  case (r_api l k op l')
  then have "loop_ok l" "run_ok l" "data_in kint (length (anfds l)) k" by (simp_all add: ready_def)
  with el_do_ready [OF this(1,2) r_api.hyps(2)] r_api.hyps(3) show ?case by (auto simp: ready_def intro: data_in_mono)
next
  case (r_close l k k')
  then show ?case by (auto simp: ready_def data_in_def map_le_def) (metis domI)
next
  case (r_fork l k k0 l' k')
  then show ?case using ready_fork [OF r_fork.IH r_fork.hyps(2)] by simp
next
  case (r_reify l k l' k')
  then show ?case using ready_reify [OF r_reify.IH assms(2)] by auto
next
  case (r_clock l k clk b)
  then show ?case by (simp add: ready_clock)
next
  case (r_poll l k evs l' k')
  then show ?case using ready_poll [OF r_poll.IH assms(2) r_poll.hyps(2)] by auto
next
  case (r_timers l k l')
  then show ?case using ready_timers [OF r_timers.IH] by auto
next
  case (r_invoke l k cb g l' g')
  then show ?case using ready_invoke [OF r_invoke.IH r_invoke.hyps(2,3)] by auto
qed simp

section \<open>One iteration\<close>

text \<open>
  The environment of an iteration behaves as documented: events are those of registered descriptors,
  and a new epoll descriptor has an empty interest list.
\<close>

definition env_doc :: "('k \<Rightarrow> fd \<rightharpoonup> u32 \<times> u64) \<Rightarrow> 'k iter_env \<Rightarrow> bool" where
  "env_doc kint e \<longleftrightarrow> kint (ie_fork e) = Map.empty \<and> (\<forall>k evs. ie_wait e k = Wait_events evs \<longrightarrow> reported kint k evs)"

lemma run_iter_reach:
  assumes reach: "ev_reach kint ctl J l k" and d: "ctl_doc kint ctl" and cb: "api_cb J cb" "J g" and e: "env_doc kint e"
  shows "(run_iter cb ctl flags e l k g = Some (Inl Terminate) \<and> (\<exists>k2. ie_wait e k2 = Wait_error)) \<or>
    (\<exists>brk l' k' g'. run_iter cb ctl flags e l k g = Some (Inr (brk, l', k', g')) \<and> ev_reach kint ctl J l' k' \<and> J g' \<and>
      (brk \<longleftrightarrow> loop_done l \<noteq> EVBREAK_CANCEL) \<and> (if brk then l' = l \<and> g' = g else \<forall>p. pendings l' p = []))"
proof (cases "loop_done l = EVBREAK_CANCEL")
  case False
  then show ?thesis using reach cb(2) by (auto simp: run_iter_def)
next
  case True
  obtain l1 k1 where 1: "(if postfork l \<noteq> 0 then loop_fork (ie_fork e) l else (l, k)) = (l1, k1)" by fastforce
  have r1: "ev_reach kint ctl J l1 k1" using reach 1 e r_fork [OF reach] by (auto simp: env_doc_def split: if_splits)
  from ready_reify [OF ev_reach_ready [OF r1 d] d] obtain l2 k2 where 2: "fd_reify ctl l1 k1 = Some (Inr (l2, k2))" by blast
  define l3 where "l3 = time_update True (ie_clock1 e) unbounded_block l2"
  have r3: "ev_reach kint ctl J l3 k2" unfolding l3_def by (rule r_clock [OF r_reify [OF r1 2]])
  have it: "run_iter cb ctl flags e l k g = (case epoll_poll ctl (ie_wait e k2) l3 k2 of
      Inl f \<Rightarrow> Some (Inl f)
    | Inr (l4, k4) \<Rightarrow>
        (case timers_reify (time_update True (ie_clock2 e) (waittime flags l3) (l4\<lparr>loop_done := EVBREAK_CANCEL\<rparr>)) of
           None \<Rightarrow> None
         | Some (Inl f) \<Rightarrow> Some (Inl f)
         | Some (Inr l6) \<Rightarrow> map_option (\<lambda>m. rbind m (\<lambda>(l7, g7). Inr (False, l7, k4, g7))) (ev_invoke_pending cb l6 g)))"
    using True 1 2 unfolding run_iter_def Let_def l3_def by simp
  show ?thesis
  proof (cases "ie_wait e k2 = Wait_error")
    case we: True
    then show ?thesis using it by (auto simp: epoll_poll_def)
  next
    case False
    have "\<exists>l4 k4. epoll_poll ctl (ie_wait e k2) l3 k2 = Inr (l4, k4) \<and> ev_reach kint ctl J l4 k4"
    proof (cases "ie_wait e k2")
      case (Wait_events evs)
      then have rep: "reported kint k2 evs" using e by (simp add: env_doc_def)
      from ready_poll [OF ev_reach_ready [OF r3 d] d rep] show ?thesis unfolding Wait_events using r_poll [OF r3 rep] by blast
    qed (use False r3 in \<open>simp_all add: epoll_poll_def\<close>)
    then obtain l4 k4 where 4: "epoll_poll ctl (ie_wait e k2) l3 k2 = Inr (l4, k4)" "ev_reach kint ctl J l4 k4" by blast
    define l5 where "l5 = time_update True (ie_clock2 e) (waittime flags l3) (l4\<lparr>loop_done := EVBREAK_CANCEL\<rparr>)"
    have r5: "ev_reach kint ctl J l5 k4" unfolding l5_def by (rule r_clock [OF r_done [OF 4(2)]])
    from ready_timers [OF ev_reach_ready [OF r5 d]] obtain l6 where 6: "timers_reify l5 = Some (Inr l6)" by blast
    have r6: "ev_reach kint ctl J l6 k4" by (rule r_timers [OF r5 6])
    from ready_invoke [OF ev_reach_ready [OF r6 d] cb] obtain l7 g7 where
      7: "ev_invoke_pending cb l6 g = Some (Inr (l7, g7))" "J g7" "\<forall>p. pendings l7 p = []" by blast
    have "run_iter cb ctl flags e l k g = Some (Inr (False, l7, k4, g7))"
      using it 4(1) 6 7(1) by (simp flip: l5_def)
    then show ?thesis using True 7 r_invoke [OF r6 cb 7(1)] by (intro disjI2 exI [of _ False]) simp
  qed
qed

end
