(* ===== verification/Ev_Props.thy ===== *)
theory Ev_Props
  imports Ev_Reach
begin

unbundle bit_operations_syntax

text \<open>
  The properties of libev and of the server's event loop class.
\<close>

section \<open>A concrete loop and a concrete kernel\<close>

text \<open>
  An io watcher at 10 that has just been started for reads of descriptor 1, and a timer at 20 that is
  overdue and repeats every two seconds.
\<close>

definition demo_loop :: "unit event_loop" where
  "demo_loop = (event_loop_new 0 0 ())\<lparr>wkind := [10 \<mapsto> Ev_io, 20 \<mapsto> Ev_timer], active := (\<lambda>_. 0)(10 := 1, 20 := 3),
     w_fd := (\<lambda>_. 0)(10 := 1), w_events := (\<lambda>_. 0)(10 := 1), w_at := (\<lambda>_. 0)(20 := 1), w_repeat := (\<lambda>_. 0)(20 := 2),
     mn_now := 5, anfds := [anfd0, anfd0\<lparr>head := [10], reify := 0x81\<rparr>], fdchanges := [1], timers := [(1, 20)], activecnt := 2\<rparr>"

lemma demo_loop_fields [simp]:
  "wkind demo_loop = [10 \<mapsto> Ev_io, 20 \<mapsto> Ev_timer]" "active demo_loop = (\<lambda>_. 0)(10 := 1, 20 := 3)"
  "w_fd demo_loop = (\<lambda>_. 0)(10 := 1)" "w_events demo_loop = (\<lambda>_. 0)(10 := 1)" "w_at demo_loop = (\<lambda>_. 0)(20 := 1)"
  "w_repeat demo_loop = (\<lambda>_. 0)(20 := 2)" "mn_now demo_loop = 5" "anfds demo_loop = [anfd0, anfd0\<lparr>head := [10], reify := 0x81\<rparr>]"
  "fdchanges demo_loop = [1]" "timers demo_loop = [(1, 20)]" "activecnt demo_loop = 2" "pending demo_loop = (\<lambda>_. 0)"
  "pendings demo_loop = (\<lambda>_. [])" "priority demo_loop = (\<lambda>_. 0)" "rfeeds demo_loop = []" "epoll_eperms demo_loop = []"
  "loop_done demo_loop = EVBREAK_CANCEL" "postfork demo_loop = 0" "need_repeat demo_loop = (\<lambda>_. False)"
  by (simp_all add: demo_loop_def event_loop_new_def)

lemma demo_loop_ok: "loop_ok demo_loop"
proof -
  have "pend_ok demo_loop" by (simp add: pend_ok_def queued_def)
  moreover have "tim_ok demo_loop" by (auto simp: tim_ok_def heap_ord_def heap_act_def HEAP0_def)
  moreover have "io_ok demo_loop" by (auto simp: io_ok_def anfd0_def less_Suc_eq)
  moreover have "chg_ok demo_loop"
    unfolding chg_ok_def
  proof (intro conjI allI)
    fix x :: fd
    consider "x < 0" | "x = 0" | "x = 1" | "x \<ge> 2" by linarith
    then show "x \<in> set (fdchanges demo_loop) \<longleftrightarrow> 0 \<le> x \<and> nat x < length (anfds demo_loop) \<and> reify (anfds demo_loop ! nat x) \<noteq> 0"
      by cases (auto simp: anfd0_def)
  qed simp
  moreover have "mask_ok demo_loop" by (auto simp: mask_ok_def anfd0_def wanted_def less_Suc_eq)
  moreover have "kind_ok demo_loop" by (auto simp: kind_ok_def pri_ok_def EV_MINPRI_def EV_MAXPRI_def)
  moreover have "cnt_ok demo_loop" by (simp add: cnt_ok_def anfd0_def)
  ultimately show ?thesis by (simp add: loop_ok_def)
qed

lemma demo_loop_run_ok: "run_ok demo_loop" "el_ok demo_loop"
  using demo_loop_ok
  by (auto simp: run_ok_def reps_ok_def masks_clean_def eperms_in_def wanted_def anfd0_def less_Suc_eq EV_EMASK_EPERM_def el_ok_def)

text \<open>A kernel whose state is the interest list, and in which every call succeeds that can.\<close>

definition demo_ctl :: "(fd \<rightharpoonup> u32 \<times> u64) epoll_ctl" where
  "demo_ctl opr fd ev k =
     (case (opr, k fd) of
        (EPOLL_CTL_ADD, None) \<Rightarrow> (k(fd \<mapsto> (ee_events ev, ee_data ev)), None)
      | (EPOLL_CTL_ADD, Some _) \<Rightarrow> (k, Some EEXIST)
      | (EPOLL_CTL_MOD, Some _) \<Rightarrow> (k(fd \<mapsto> (ee_events ev, ee_data ev)), None)
      | (EPOLL_CTL_DEL, Some _) \<Rightarrow> (k(fd := None), None)
      | (_, None) \<Rightarrow> (k, Some ENOENT))"

lemma demo_ctl_doc: "epoll_doc (\<lambda>k. k) demo_ctl"
  unfolding epoll_doc_def
  by (intro allI conjI impI) (auto simp: demo_ctl_def split: ctl_op.splits option.splits)

lemma demo_sync: "epoll_sync (\<lambda>k. k) demo_loop Map.empty"
  by (auto simp: epoll_sync_def fd_sync_def reg_ok_def wanted_def anfd0_def less_Suc_eq EV_EMASK_EPERM_def)

section \<open>Properties of libev\<close>

text \<open>
  C16: reconciling with the kernel. Before each poll \<open>fd_reify\<close> returns, keeps the invariant, leaves no
  descriptor marked as changed, and sets every descriptor's mask to what its watchers wait for. With
  an \<open>epoll_ctl\<close> that behaves as documented, each descriptor with a watcher is afterwards
  registered in the kernel for exactly those events and with the generation that the
  loop expects, or is one that epoll refuses and that the loop treats as ready.
\<close>

theorem kernel_in_step:
  assumes "loop_ok l" "masks_clean l" "epoll_doc kint ctl" "epoll_sync kint l k"
  shows "\<exists>l' k'. fd_reify ctl l k = Some (Inr (l', k')) \<and> loop_ok l' \<and> fdchanges l' = [] \<and> epoll_sync kint l' k' \<and>
    (\<forall>i < length (anfds l'). ev_mask (anfds l' ! i) = wanted l' i) \<and>
    (\<forall>i < length (anfds l'). wanted l' i \<noteq> 0 \<longrightarrow> armed_fd kint l' k' i (wanted l' i))"
  using fd_reify_correct [OF assms(1,2), of ctl k] assms(3,4) by blast

theorem kernel_in_step_witness:
  "\<exists>l' k'. fd_reify demo_ctl demo_loop Map.empty = Some (Inr (l', k')) \<and> loop_ok l' \<and> fdchanges l' = [] \<and> epoll_sync (\<lambda>k. k) l' k' \<and>
    (\<forall>i < length (anfds l'). ev_mask (anfds l' ! i) = wanted l' i) \<and>
    (\<forall>i < length (anfds l'). wanted l' i \<noteq> 0 \<longrightarrow> armed_fd (\<lambda>k. k) l' k' i (wanted l' i))"
proof (rule kernel_in_step [OF demo_loop_ok _ demo_ctl_doc demo_sync])
  show "masks_clean demo_loop" using demo_loop_run_ok(1) by (simp add: run_ok_def)
qed

text \<open>
  C17: what the poll delivers. In every state that a thread's loop can reach, whatever events of registered descriptors
  \<open>epoll_wait\<close> reports, \<open>epoll_poll\<close> never indexes outside of its tables and keeps the
  invariant. A watcher that becomes pending waits for an event that was reported for its descriptor
  in the present generation (or for a descriptor that epoll refuses); and an event that the loop asked
  for makes every watcher pending that waits for it.
\<close>

theorem poll_delivers:
  assumes "ev_reach kint ctl J l k" "ctl_doc kint ctl" "reported kint k evs"
  shows "\<exists>l' k'. epoll_poll ctl (Wait_events evs) l k = Inr (l', k') \<and> ev_reach kint ctl J l' k' \<and> loop_ok l' \<and> poll_frame l l' \<and>
    (\<forall>w. pending l' w \<noteq> 0 \<longrightarrow> pending l w \<noteq> 0 \<or> (\<exists>ev \<in> set evs. ev_current l ev \<and> w \<in> ev_wakes l ev) \<or> w \<in> eperm_wakes l) \<and>
    (\<forall>ev \<in> set evs. ev_current l ev \<and> epoll_got (ee_events ev) AND NOT (ucast (ev_mask (anfds l ! unat (ucast (ee_data ev) :: u32)))) = 0 \<longrightarrow>
       (\<forall>w \<in> ev_wakes l ev. pending l' w \<noteq> 0))"
proof -
  have r: "ready kint l k" by (rule ev_reach_ready [OF assms(1,2)])
  then have "loop_ok l" "eperms_in l" by (simp_all add: ready_def run_ok_def)
  moreover have "\<forall>ev \<in> set evs. ev_known l ev" using reported_known(1) [OF r assms(3)] by simp
  ultimately show ?thesis using epoll_poll_correct [of l evs ctl k] r_poll [OF assms(1,3)] by blast
qed

text \<open>
  A loop in which an io watcher at 10 was created and started for reads of descriptor 1, the same loop after
  its registration, and the event that the descriptor is readable.
\<close>

definition demo_io :: "unit event_loop" where
  "demo_io = (event_loop_new 0 0 ())\<lparr>wkind := [10 \<mapsto> Ev_io], active := (\<lambda>_. 0)(10 := 1), w_fd := (\<lambda>_. 0)(10 := 1), w_events := (\<lambda>_. 0)(10 := 1),
     activecnt := 1, anfds := [anfd0, anfd0\<lparr>head := [10], reify := 0x81\<rparr>], fdchanges := [1]\<rparr>"

definition demo_reg :: "unit event_loop" where
  "demo_reg = demo_io\<lparr>anfds := [anfd0, anfd0\<lparr>head := [10], ev_mask := 1, emask := 1, egen := 1\<rparr>], fdchanges := []\<rparr>"

definition demo_kernel :: "fd \<rightharpoonup> u32 \<times> u64" where
  "demo_kernel = [1 \<mapsto> (EPOLLIN, epoll_data 1 1)]"

definition demo_event :: epoll_event where
  "demo_event = \<lparr>ee_events = EPOLLIN, ee_data = epoll_data 1 1\<rparr>"

lemma demo_loop_started: "el_do (Start_io 10 1 READ) (create_io_event 10 () (event_loop_new 0 0 ())) = Inr demo_io"
proof -
  have n: "anfds_needsize [] (Suc (Suc 0)) = [anfd0, anfd0]"
    by (simp add: anfds_needsize_def array_nextsize_def sizeof_ANFD_def MALLOC_ROUND_def dbl_loop.simps numeral_2_eq_2)
  show ?thesis
    by (simp add: demo_io_def event_loop_new_def create_io_event_def ev_init_def start_io_event_def TRANS_to ev_io_set_def ev_io_start_def
        ev_start_def pri_adjust_def fd_change_def wlist_add_def n Let_def mask_consts EV_ANFD_REIFY_def EV_MINPRI_def EV_MAXPRI_def)
      (simp add: anfd0_def fun_eq_iff)
qed

lemma demo_registered: "fd_reify demo_ctl demo_io Map.empty = Some (Inr (demo_reg, demo_kernel))"
  by (simp add: fd_reify_def reify_from.simps reify_fd_def epoll_modify_def upd_anfd_def demo_ctl_def Let_def demo_reg_def demo_kernel_def
      demo_io_def event_loop_new_def anfd0_def to_epoll_def EV__IOFDSET_def EV_READ_def EV_WRITE_def)

lemma demo_ctl_ctl_doc: "ctl_doc (\<lambda>k. k) demo_ctl"
  unfolding ctl_doc_def by (intro allI impI) (auto simp: demo_ctl_def split: ctl_op.splits option.splits if_splits)

lemma demo_reach:
  "ev_reach (\<lambda>k. k) demo_ctl (\<lambda>_ :: nat. True) demo_io Map.empty"
  "ev_reach (\<lambda>k. k) demo_ctl (\<lambda>_ :: nat. True) demo_reg demo_kernel"
proof -
  let ?l0 = "event_loop_new 0 0 ()"
  have "ev_reach (\<lambda>k. k) demo_ctl (\<lambda>_ :: nat. True) ?l0 Map.empty" by (rule r_new) simp
  then have "ev_reach (\<lambda>k. k) demo_ctl (\<lambda>_ :: nat. True) (create_io_event 10 () ?l0) Map.empty"
    by (rule r_api [of _ _ _ _ _ "Create_io 10 ()"]) (simp_all add: event_loop_new_def)
  then show 1: "ev_reach (\<lambda>k. k) demo_ctl (\<lambda>_ :: nat. True) demo_io Map.empty"
    by (rule r_api [OF _ _ demo_loop_started]) (simp add: create_io_event_def ev_init_def event_loop_new_def interest_def)
  show "ev_reach (\<lambda>k. k) demo_ctl (\<lambda>_ :: nat. True) demo_reg demo_kernel" by (rule r_reify [OF 1 demo_registered])
qed

lemma demo_event_current:
  "reported (\<lambda>k. k) demo_kernel [demo_event]" "ev_current demo_reg demo_event" "10 \<in> ev_wakes demo_reg demo_event"
  using epoll_data_fd [of 1 1]
  by (simp_all add: reported_def demo_kernel_def ev_current_def ev_wakes_def waiting_def demo_event_def demo_reg_def demo_io_def anfd0_def
      epoll_data_gen epoll_got_def EPOLLIN_def EPOLLOUT_def EPOLLERR_def EPOLLHUP_def EV_READ_def EV_WRITE_def)

theorem poll_delivers_witness:
  "\<exists>l' k'. epoll_poll demo_ctl (Wait_events [demo_event]) demo_reg demo_kernel = Inr (l', k') \<and> loop_ok l' \<and> pending l' 10 \<noteq> 0"
proof -
  obtain l' k' where "epoll_poll demo_ctl (Wait_events [demo_event]) demo_reg demo_kernel = Inr (l', k')" "loop_ok l'"
    and *: "\<forall>ev \<in> set [demo_event]. ev_current demo_reg ev \<and>
         epoll_got (ee_events ev) AND NOT (ucast (ev_mask (anfds demo_reg ! unat (ucast (ee_data ev) :: u32)))) = 0 \<longrightarrow>
         (\<forall>w \<in> ev_wakes demo_reg ev. pending l' w \<noteq> 0)"
    using poll_delivers [OF demo_reach(2) demo_ctl_ctl_doc demo_event_current(1)] by blast
  moreover have "epoll_got (ee_events demo_event) AND NOT (ucast (ev_mask (anfds demo_reg ! unat (ucast (ee_data demo_event) :: u32)))) = 0"
    using epoll_data_fd [of 1 1]
    by (simp add: demo_event_def demo_reg_def anfd0_def epoll_got_def EPOLLIN_def EPOLLOUT_def EPOLLERR_def EPOLLHUP_def
        EV_READ_def EV_WRITE_def)
  ultimately show ?thesis using demo_event_current by auto
qed

text \<open>
  The data word of a registration carries the descriptor and its generation: both can be read
  back, so two registrations with the same word are the same.
\<close>

theorem epoll_data_roundtrip:
  assumes "0 \<le> fd" "fd < 2 ^ 31"
  shows "unat (ucast (epoll_data fd gen) :: u32) = nat fd \<and> ucast (drop_bit 32 (epoll_data fd gen)) = gen"
  using epoll_data_fd [OF assms] epoll_data_gen by simp

theorem epoll_data_roundtrip_witness:
  "unat (ucast (epoll_data 7 5) :: u32) = 7 \<and> ucast (drop_bit 32 (epoll_data 7 5)) = (5 :: u32)"
  using epoll_data_roundtrip [of 7 5] by simp

text \<open>
  C18: one iteration of the main loop. In every state that a thread's loop can reach, with callbacks that use the loop through
  finitely many operations of its class, the body of \<open>ev_run\<close> runs to its end without a fault: reconciling, polling, firing
  timers and running callbacks all terminate, and the loop is again in a reachable state. The iteration ends the loop only if a
  break was requested; otherwise every pending callback has run. Only an \<open>epoll_wait\<close> that fails with an error other than
  \<open>EINTR\<close> ends the process.
\<close>

theorem iteration_returns:
  assumes "ev_reach kint ctl J l k" "ctl_doc kint ctl" "api_cb J cb" "J g" "env_doc kint e"
  shows "(run_iter cb ctl flags e l k g = Some (Inl Terminate) \<and> (\<exists>k2. ie_wait e k2 = Wait_error)) \<or>
    (\<exists>brk l' k' g'. run_iter cb ctl flags e l k g = Some (Inr (brk, l', k', g')) \<and> ev_reach kint ctl J l' k' \<and> loop_ok l' \<and> J g' \<and>
      (brk \<longleftrightarrow> loop_done l \<noteq> EVBREAK_CANCEL) \<and> (if brk then l' = l \<and> g' = g else \<forall>p. pendings l' p = []))"
proof -
  have "ev_reach kint ctl J l' k' \<Longrightarrow> loop_ok l'" for l' k' using ev_reach_ready [OF _ assms(2), of J l' k'] by (simp add: ready_def)
  then show ?thesis using run_iter_reach [OF assms, of flags] by blast
qed

text \<open>
  Callbacks that work on their loop: that of an io watcher deletes the watcher and, if the address 40 is free, starts a repeating
  timer there; that of a timer deletes the timer and ends the loop.
\<close>

definition demo_ops :: "addr \<Rightarrow> unit event_loop \<Rightarrow> unit el_op list" where
  "demo_ops w l = (case wkind l w of
     Some Ev_io \<Rightarrow> Delete_io w # (if wkind l 40 = None then [Create_timer 40 () True, Start_timer 40 500000] else [])
   | Some Ev_timer \<Rightarrow> [Delete_timer w, Stop_loop]
   | None \<Rightarrow> [])"

fun el_exec :: "'cb el_op list \<Rightarrow> 'cb event_loop \<Rightarrow> 'cb event_loop res" where
  "el_exec [] l = Inr l"
| "el_exec (op # ops) l = rbind (el_do op l) (el_exec ops)"

definition demo_cb :: "(unit event_loop, nat) callback" where
  "demo_cb w r l g = Some (rbind (el_exec (demo_ops w l) l) (\<lambda>l'. Inr (l', g + 1)))"

text \<open>Sequences of operations each of which may be used in the state it meets.\<close>

fun el_all_pre :: "'cb el_op list \<Rightarrow> 'cb event_loop \<Rightarrow> bool" where
  "el_all_pre [] l \<longleftrightarrow> True"
| "el_all_pre (op # ops) l \<longleftrightarrow> el_pre op l \<and> (\<forall>l1. el_do op l = Inr l1 \<longrightarrow> el_all_pre ops l1)"

lemma el_exec_runs:
  assumes "loop_ok m" "run_ok m" "el_runs l m" "el_all_pre ops m"
  shows "\<exists>l'. el_exec ops m = Inr l' \<and> el_runs l l'"
  using assms
proof (induction ops arbitrary: m)
  case (Cons op ops)
  then have p: "el_pre op m" by simp
  from el_do_ready [OF Cons.prems(1,2) p] obtain m1 where m1: "el_do op m = Inr m1" "loop_ok m1" "run_ok m1" by blast
  have "el_runs l m1" by (rule el_next [OF Cons.prems(3) p m1(1)])
  then show ?case using Cons.IH [OF m1(2,3)] Cons.prems(4) m1(1) by simp
qed auto

lemma delete_io_wkind: "delete_io_event w l = Inr l' \<Longrightarrow> x \<noteq> w \<Longrightarrow> wkind l' x = wkind l x"
  by (auto simp: delete_io_event_def free_watcher_def ev_io_stop_def Let_def fd_change_def ev_stop_def clear_pending_def split: if_splits)

lemma demo_cb_api: "api_cb (\<lambda>_. True) demo_cb"
  unfolding api_cb_def
proof (intro allI impI)
  fix w r and l :: "unit event_loop" and g :: nat assume a: "loop_ok l \<and> run_ok l \<and> wkind l w \<noteq> None \<and> True"
  have "el_all_pre (demo_ops w l) l"
  proof (cases "wkind l w = Some Ev_io")
    case True
    then show ?thesis
      by (auto simp: demo_ops_def create_timer_def ev_init_def dest!: delete_io_wkind [of w l _ 40])
  next
    case False
    then show ?thesis using a by (auto simp: demo_ops_def split: option.split wkind.split)
  qed
  then obtain l' where "el_exec (demo_ops w l) l = Inr l'" "el_runs l l'" using el_exec_runs [OF _ _ el_none] a by blast
  then show "\<exists>l' g'. demo_cb w r l g = Some (Inr (l', g')) \<and> el_runs l l' \<and> True" by (simp add: demo_cb_def)
qed

text \<open>The kernel reports descriptor 1 as readable as soon as it is registered.\<close>

definition demo_env :: "(fd \<rightharpoonup> u32 \<times> u64) iter_env" where
  "demo_env = \<lparr>ie_clock1 = \<lambda>n. (6, 6), ie_clock2 = \<lambda>n. (7, 7),
     ie_wait = \<lambda>k. case k 1 of None \<Rightarrow> Wait_eintr | Some (e, d) \<Rightarrow> Wait_events [\<lparr>ee_events = EPOLLIN, ee_data = d\<rparr>], ie_fork = Map.empty\<rparr>"

lemma demo_env_doc: "env_doc (\<lambda>k. k) demo_env" "ie_wait demo_env k \<noteq> Wait_error"
  by (auto simp: env_doc_def demo_env_def reported_def split: option.splits)

theorem iteration_returns_witness:
  "\<exists>l' k' g'. run_iter demo_cb demo_ctl 0 demo_env demo_io Map.empty 0 = Some (Inr (False, l', k', g')) \<and>
    ev_reach (\<lambda>k. k) demo_ctl (\<lambda>_ :: nat. True) l' k' \<and> loop_ok l' \<and> (\<forall>p. pendings l' p = [])"
proof -
  have "loop_done demo_io = EVBREAK_CANCEL" by (simp add: demo_io_def event_loop_new_def)
  then show ?thesis
    using iteration_returns [OF demo_reach(1) demo_ctl_ctl_doc demo_cb_api TrueI demo_env_doc(1), of 0 0] demo_env_doc(2) by auto
qed

text \<open>
  C19: timers. \<open>timers_reify\<close> terminates, leaves no timer that is due, and makes the watcher of every timer
  that was due pending; afterwards exactly those timers are active that were active and were either
  not due or repeat.
\<close>

theorem timers_fire:
  assumes "loop_ok l" "reps_ok l" "rfeeds l = []"
  shows "\<exists>l'. timers_reify l = Some (Inr l') \<and> loop_ok l' \<and> reps_ok l' \<and> due l' = [] \<and>
    (\<forall>x \<in> ANHE_w ` set (due l). pending l' x \<noteq> 0) \<and>
    (\<forall>x. HEAP0 \<le> active l' x \<longleftrightarrow> HEAP0 \<le> active l x \<and> (x \<in> ANHE_w ` set (due l) \<longrightarrow> w_repeat l x \<noteq> 0))"
  using timers_reify_correct [OF assms] by blast

theorem timers_fire_witness:
  "\<exists>l'. timers_reify demo_loop = Some (Inr l') \<and> loop_ok l' \<and> due l' = [] \<and> pending l' 20 \<noteq> 0 \<and> HEAP0 \<le> active l' 20"
proof -
  have r: "reps_ok demo_loop" "rfeeds demo_loop = []" using demo_loop_run_ok(1) by (simp_all add: run_ok_def)
  obtain l' where *: "timers_reify demo_loop = Some (Inr l')" "loop_ok l'" "due l' = []"
    "\<forall>x \<in> ANHE_w ` set (due demo_loop). pending l' x \<noteq> 0"
    "\<forall>x. HEAP0 \<le> active l' x \<longleftrightarrow> HEAP0 \<le> active demo_loop x \<and> (x \<in> ANHE_w ` set (due demo_loop) \<longrightarrow> w_repeat demo_loop x \<noteq> 0)"
    using timers_fire [OF demo_loop_ok r] by blast
  have "due demo_loop = [(1, 20)]" by (simp add: due_def)
  moreover have "HEAP0 \<le> active l' 20" using *(5) by (simp add: HEAP0_def)
  ultimately show ?thesis using * by auto
qed

text \<open>
  C20: the four-ary timer heap. Replacing the element at index \<open>k\<close> of a heap by one of the same watcher or of a new one
  and calling \<open>adjustheap\<close> gives a heap of the same elements in which each watcher knows its
  index, and no other \<open>active\<close> field changes.
\<close>

theorem timer_heap_adjusted:
  assumes "heap_ord hs" "k < length hs" "heap_act (hs, act)" "distinct (map ANHE_w (hs[k := he]))"
  shows "heap_of (hs[k := he]) act (adjustheap (hs[k := he], act) (length hs) k)"
  using adjustheap_replace [OF assms(1,2) _ assms(4)] assms(3) by blast

theorem timer_heap_adjusted_witness:
  "heap_of [(9, 1), (2, 2), (3, 3)] ((\<lambda>_. 0)(1 := 3, 2 := 4, 3 := 5))
     (adjustheap ([(9, 1), (2, 2), (3, 3)], (\<lambda>_. 0)(1 := 3, 2 := 4, 3 := 5)) 3 0)"
proof -
  let ?hs = "[(1, 1), (2, 2), (3, 3)] :: anhe list" and ?act = "(\<lambda>_. 0)(1 := 3, 2 := 4, 3 := 5) :: addr \<Rightarrow> nat"
  have "heap_ord ?hs" by (auto simp: heap_ord_def HPARENT_def DHEAP_def HEAP0_def less_Suc_eq nth_Cons')
  moreover have "heap_act (?hs, ?act)" by (auto simp: heap_act_def HEAP0_def less_Suc_eq nth_Cons')
  ultimately show ?thesis using timer_heap_adjusted [of ?hs 0 ?act "(9, 1)"] by (simp add: numeral_3_eq_3)
qed

text \<open>
  C31: the loop's own self check. \<open>ev_verify\<close>, which libev offers to detect corruption, passes in
  every state of the invariant: priorities are in range, pending entries point back to their watchers,
  the watcher lists are acyclic and belong to their descriptors, and the heap is ordered.
\<close>

theorem self_check_passes:
  assumes "loop_ok l"
  shows "ev_verify l"
  by (rule ev_verify_ok [OF assms])

theorem self_check_passes_witness: "ev_verify demo_loop"
  by (rule self_check_passes [OF demo_loop_ok])

text \<open>
  Clock jumps. With the monotonic clock, \<open>time_update\<close> changes nothing but the loop's four clock
  fields; without it, when the wall clock jumps back or forward, every timer is moved
  with it, so that the time until it fires does not change, and the heap stays in order.
\<close>

theorem clock_jump:
  assumes "loop_ok l" "w \<in> ANHE_w ` set (timers l)"
    and "fst (clk 0) < mn_now l \<or> mn_now l + b + MIN_TIMEJUMP < fst (clk 0)"
  shows "clocks_only l (time_update True clk b l) \<and> loop_ok (time_update False clk b l) \<and>
    w_at (time_update False clk b l) w - mn_now (time_update False clk b l) = w_at l w - mn_now l"
  using time_update_monotonic(1) time_update_jump [where clk = clk and b = b, OF assms(1,2) refl assms(3)] by blast

theorem clock_jump_witness:
  "w_at (time_update False (\<lambda>_. (100, 0)) 10 demo_loop) 20 - mn_now (time_update False (\<lambda>_. (100, 0)) 10 demo_loop) = - 4"
  using clock_jump [OF demo_loop_ok, of 20 "\<lambda>_. (100, 0)" 10] by (simp add: MIN_TIMEJUMP_def)

text \<open>
  C32: blocking times. The time that the loop lets the kernel block is never negative, never more than
  \<open>MAX_BLOCKTIME\<close>, and ends no later than the first timer (up to the millisecond
  resolution of the backend); with \<open>EVRUN_NOWAIT\<close> it is zero.
\<close>

theorem blocking_time:
  assumes "loop_ok l" "he \<in> set (timers l)"
  shows "0 \<le> waittime flags l \<and> waittime flags l \<le> MAX_BLOCKTIME \<and>
    waittime flags l \<le> max backend_mintime (ANHE_at he - mn_now l) \<and> (flags AND EVRUN_NOWAIT \<noteq> 0 \<longrightarrow> waittime flags l = 0)"
  using waittime_bounds [OF assms(1)] assms(2) by simp

theorem blocking_time_witness: "0 \<le> waittime 0 demo_loop \<and> waittime 0 demo_loop \<le> 1 / 1000"
  using blocking_time [OF demo_loop_ok, of "(1, 20)" 0] by (simp add: backend_mintime_def)

section \<open>Properties of the event loop class\<close>

text \<open>
  Waiting for writes and back. For a watcher that waits for reads of a descriptor, starting writes and stopping them again
  succeeds and gives back the interests of all watchers, whatever the events that are pending.
\<close>

theorem write_interest_roundtrip:
  assumes "el_ok l" "wkind l w = Some Ev_io" "0 \<le> fd" "interest l w = Some (fd, READ)"
  shows "\<exists>m n. start_io_event w fd WRITE l = Inr m \<and> stop_io_event w fd WRITE m = Inr n \<and> el_ok n \<and> interest n = interest l"
  by (rule el.write_round_trip [OF assms])

theorem write_interest_roundtrip_witness:
  "\<exists>m n. start_io_event 10 1 WRITE demo_loop = Inr m \<and> stop_io_event 10 1 WRITE m = Inr n \<and> el_ok n \<and> interest n = interest demo_loop"
  using write_interest_roundtrip [OF demo_loop_run_ok(2), of 10 1] by (simp add: interest_def READ_def TRANS_from)

text \<open>
  C33: deleting a watcher. When \<open>delete_io_event\<close> or \<open>delete_timer\<close> gives a watcher's memory back, no
  list, heap or pending queue of libev refers to it any more, whatever was registered or
  pending before, and all other watchers keep their interests and expiry times.
\<close>

theorem deleted_watcher_unreferenced:
  assumes "el_ok l"
  shows "(wkind l w = Some Ev_io \<longrightarrow> (\<exists>l'. delete_io_event w l = Inr l' \<and> el_ok l' \<and> wkind l' = (wkind l)(w := None) \<and> unreferenced l' w \<and>
      (\<forall>x. x \<noteq> w \<longrightarrow> interest l' x = interest l x))) \<and>
    (wkind l w = Some Ev_timer \<longrightarrow> (\<exists>l'. delete_timer w l = Inr l' \<and> el_ok l' \<and> wkind l' = (wkind l)(w := None) \<and> unreferenced l' w \<and>
      interest l' = interest l \<and> (\<forall>x. x \<noteq> w \<longrightarrow> expiry l' x = expiry l x)))"
  using delete_io_event_spec [OF assms] delete_timer_spec [OF assms] by blast

theorem deleted_watcher_unreferenced_witness:
  "\<exists>l'. delete_io_event 10 demo_loop = Inr l' \<and> el_ok l' \<and> wkind l' = [20 \<mapsto> Ev_timer] \<and> unreferenced l' 10"
proof -
  obtain l' where l': "delete_io_event 10 demo_loop = Inr l'" "el_ok l'" "wkind l' = (wkind demo_loop)(10 := None)" "unreferenced l' 10"
    using deleted_watcher_unreferenced [OF demo_loop_run_ok(2), of 10] by auto
  have "wkind l' = [20 \<mapsto> Ev_timer]" using l'(3) by auto
  then show ?thesis using l' by blast
qed

text \<open>
  Starting a timer. \<open>start_timer\<close> succeeds on every allocated timer, running or not: it will fire after the given
  time, again after it if it repeats, and no other watcher changes. For a repeating timer the time must not be zero, for libev would
  then stop it.
\<close>

theorem timer_started:
  assumes "el_ok l" "wkind l w = Some Ev_timer" "need_repeat l w \<Longrightarrow> usec \<noteq> 0"
  shows "\<exists>l'. start_timer w usec l = Inr l' \<and> el_ok l' \<and> interest l' = interest l \<and>
    expiry l' w = Some (mn_now l + float_sec usec, if need_repeat l w then float_sec usec else 0) \<and>
    (\<forall>x. x \<noteq> w \<longrightarrow> expiry l' x = expiry l x)"
  using start_timer_spec [OF assms] by (auto simp: armed_def)

theorem timer_started_witness:
  "\<exists>l'. start_timer 20 100000 demo_loop = Inr l' \<and> el_ok l' \<and> expiry l' 20 = Some (5 + float_sec 100000, 0)"
  using timer_started [OF demo_loop_run_ok(2), of 20 100000] by auto

end
