(* ===== verification/Socket.thy ===== *)
theory Socket
  imports Xrtc_Prelude
begin

text \<open>
  The socket helpers of \<open>base/socket.cpp\<close>. A system call is a parameter: its outcome is a value
  of one of the types below, which list what the code distinguishes. Logging is left out.
\<close>

section \<open>Outcomes of system calls\<close>

text \<open>
  \<open>read\<close> delivers the bytes that have arrived, at most as many as the caller asked for; no byte
  at all is the end of the stream.
\<close>

datatype rres = R_bytes "byte list" | R_eagain | R_err

text \<open>\<open>write\<close> accepts some of the bytes it is given.\<close>

datatype wres = W_bytes nat | W_eagain | W_err

datatype ares = A_fd nat | A_eintr | A_err

section \<open>Reading and writing\<close>

text \<open>The returned \<open>int\<close> and the bytes stored in the buffer.\<close>

definition sock_read_data :: "rres \<Rightarrow> nat \<Rightarrow> int \<times> byte list" where
  "sock_read_data r len =
     (case r of
        R_err \<Rightarrow> (-1, [])
      | R_eagain \<Rightarrow> (0, [])
      | R_bytes bs \<Rightarrow>
          let nread = int (length (take len bs))
          in if nread = 0 then (-1, []) else (nread, take len bs))"

definition sock_write_data :: "wres \<Rightarrow> nat \<Rightarrow> int" where
  "sock_write_data r len =
     (case r of
        W_err \<Rightarrow> -1
      | W_eagain \<Rightarrow> 0
      | W_bytes n \<Rightarrow> int (min n len))"

section \<open>Accepting connections\<close>

text \<open>
  The loop of \<open>generic_accept\<close>, over the outcomes of the successive calls of \<open>accept\<close>: an
  interrupted call is repeated. \<open>None\<close> when the given outcomes are used up.
\<close>

fun generic_accept :: "ares list \<Rightarrow> int option" where
  "generic_accept [] = None"
| "generic_accept (A_fd fd # rs) = Some (int fd)"
| "generic_accept (A_eintr # rs) = generic_accept rs"
| "generic_accept (A_err # rs) = Some (-1)"

text \<open>The peer's address is stored only when a connection was accepted.\<close>

definition tcp_accept :: "ares list \<Rightarrow> byte list \<times> u16 \<Rightarrow> (int \<times> (byte list \<times> int) option) option" where
  "tcp_accept rs peer =
     (case generic_accept rs of
        None \<Rightarrow> None
      | Some fd \<Rightarrow> if fd = -1 then Some (-1, None)
                   else Some (fd, Some (fst peer, int (unat (snd peer)))))"

text \<open>
  \<open>create_tcp_server\<close>: the outcomes of \<open>socket\<close>, \<open>setsockopt\<close>, \<open>inet_pton\<close>, \<open>bind\<close> and
  \<open>listen\<close>; the result and the descriptors closed on the way out.
\<close>

record listen_calls =
  lc_socket :: int
  lc_setsockopt :: int
  lc_inet_pton :: int
  lc_bind :: int
  lc_listen :: int

definition create_tcp_server :: "listen_calls \<Rightarrow> byte list option \<Rightarrow> int \<Rightarrow> int \<times> fd list" where
  "create_tcp_server sys addr port =
     (if addr = None \<or> port \<le> 0 then (-1, [])
      else let sockfd = lc_socket sys
        in if sockfd < 0 then (-1, [])
           else if lc_setsockopt sys < 0 then (-1, [sockfd])
           else if lc_inet_pton sys = 0 then (-1, [sockfd])
           else if lc_bind sys < 0 then (-1, [sockfd])
           else if lc_listen sys < 0 then (-1, [sockfd])
           else (sockfd, []))"

text \<open>\<open>fcntl (sock, F_GETFL)\<close> gives flags or \<open>-1\<close>; the flags that \<open>F_SETFL\<close> then sets.\<close>

definition O_NONBLOCK :: u32 where "O_NONBLOCK = 0x800"

definition sock_setnonblock :: "u32 option \<Rightarrow> bool \<Rightarrow> int \<times> u32 option" where
  "sock_setnonblock flags set_ok =
     (case flags of
        None \<Rightarrow> (-1, None)
      | Some f \<Rightarrow> if set_ok then (0, Some (or f O_NONBLOCK)) else (-1, None))"

definition sock_setnodelay :: "bool \<Rightarrow> int" where
  "sock_setnodelay set_ok = (if set_ok then 0 else -1)"

definition sock_peer_to_str :: "(byte list \<times> u16) option \<Rightarrow> int \<times> (byte list \<times> int) option" where
  "sock_peer_to_str peer =
     (case peer of
        None \<Rightarrow> (-1, None)
      | Some (ip, port) \<Rightarrow> (0, Some (ip, int (unat port))))"

section \<open>Lemmas\<close>

lemma sock_read_data_cases:
  obtains "fst (sock_read_data r len) = -1" "snd (sock_read_data r len) = []"
  | "sock_read_data r len = (0, [])"
  | bs where "sock_read_data r len = (int (length bs), bs)" "bs \<noteq> []" "length bs \<le> len"
proof (cases r)
  case (R_bytes bs)
  show ?thesis
  proof (cases "take len bs = []")
    case True
    with R_bytes show ?thesis by (intro that(1)) (auto simp: sock_read_data_def)
  next
    case False
    then have "min (length bs) len \<noteq> 0" by auto
    with R_bytes False show ?thesis by (intro that(3) [of "take len bs"]) (auto simp: sock_read_data_def)
  qed
qed (use that in \<open>auto simp: sock_read_data_def\<close>)

lemma sock_write_data_bound: "sock_write_data r len \<le> int len" "- 1 \<le> sock_write_data r len"
  by (auto simp: sock_write_data_def split: wres.splits)

lemma generic_accept_eintr:
  "(\<forall>r \<in> set rs. r = A_eintr) \<Longrightarrow> generic_accept (rs @ A_fd fd # ss) = Some (int fd)"
  by (induction rs) auto

text \<open>A socket that is not returned is closed.\<close>

lemma create_tcp_server_no_leak:
  assumes "create_tcp_server sys addr port = (r, cl)" "0 \<le> lc_socket sys" "addr \<noteq> None" "0 < port"
  shows "r = lc_socket sys \<and> cl = [] \<or> r = -1 \<and> cl = [lc_socket sys]"
  using assms by (auto simp: create_tcp_server_def Let_def split: if_splits)

section \<open>Properties\<close>

text \<open>
  The listening socket: \<open>create_tcp_server\<close> leaks no descriptor: a socket it opened is returned open, or it is closed
  and -1 is returned; bad arguments give -1 without a socket. An accept that is interrupted by
  signals is repeated until it succeeds or fails.
\<close>

theorem listen_socket_no_leak:
  assumes "create_tcp_server sys addr port = (r, cl)" "0 \<le> lc_socket sys" "\<forall>x \<in> set rs. x = A_eintr"
  shows "(if addr = None \<or> port \<le> 0 then r = -1 \<and> cl = [] else r = lc_socket sys \<and> cl = [] \<or> r = -1 \<and> cl = [lc_socket sys]) \<and>
    generic_accept (rs @ A_fd k # ss) = Some (int k) \<and> generic_accept (rs @ A_err # ss) = Some (-1)"
proof -
  have "generic_accept (rs @ A_err # ss) = Some (-1)" using assms(3) by (induction rs) auto
  then show ?thesis
    using create_tcp_server_no_leak [OF assms(1,2)] generic_accept_eintr [OF assms(3)] assms(1)
    by (auto simp: create_tcp_server_def)
qed

theorem listen_socket_no_leak_witness:
  "create_tcp_server \<lparr>lc_socket = 4, lc_setsockopt = 0, lc_inet_pton = 1, lc_bind = -1, lc_listen = 0\<rparr> (Some [48]) 9000 = (-1, [4]) \<and>
   generic_accept [A_eintr, A_fd 5] = Some 5"
  using listen_socket_no_leak [of "\<lparr>lc_socket = 4, lc_setsockopt = 0, lc_inet_pton = 1, lc_bind = -1, lc_listen = 0\<rparr>" "Some [48]" 9000 "-1" "[4]"
      "[A_eintr]" 5 "[]"] by (simp add: create_tcp_server_def)

end
