(* ===== verification/Tcp_Connection.thy ===== *)
theory Tcp_Connection
  imports Sds Slice Xhead Socket Rtc_Msg
begin

text \<open>
  A client connection (\<open>server/tcp_connection.h\<close>) and what the signalling worker does with one
  connection (\<open>server/signaling_worker.cpp\<close>): reading into its buffer, cutting the byte stream
  into requests, decoding a request, and writing the queued replies. The functions here change
  the connection only; the theory \<open>Signaling_Worker\<close> puts them into the worker.
\<close>

section \<open>The connection\<close>

datatype cstate = STATE_HEAD | STATE_BODY

record tcp_connection =
  c_addr :: addr
  cfd :: fd
  ip :: "byte list"
  port :: int
  io_watcher :: "addr option"
  timer_watcher :: "addr option"
  querybuf :: sdshdr
  bytes_expected :: nat
  bytes_processed :: nat
  current_state :: cstate
  last_interaction :: u64
  reply_list :: "slice list"
  cur_resp_pos :: nat

text \<open>
  The constructor, at the address \<open>a\<close>; \<open>timer_watcher\<close>, \<open>ip\<close> and \<open>port\<close> are set by \<open>new_conn\<close>.
\<close>

definition TcpConnection :: "allocator \<Rightarrow> addr \<Rightarrow> fd \<Rightarrow> tcp_connection res" where
  "TcpConnection al a fd = rbind (sdsempty al) (\<lambda>qb. Inr
     \<lparr>c_addr = a, cfd = fd, ip = [], port = 0, io_watcher = None, timer_watcher = None, querybuf = qb,
      bytes_expected = XHEAD_SIZE, bytes_processed = 0, current_state = STATE_HEAD, last_interaction = 0,
      reply_list = [], cur_resp_pos = 0\<rparr>)"

section \<open>Requests\<close>

text \<open>
  \<open>send\<close> is \<open>RtcServer::send_rtc_msg\<close> of the global server; its state is threaded through. \<open>wk\<close> is
  the address of the worker.
\<close>

type_synonym 'g send = "rtc_msg \<Rightarrow> 'g \<Rightarrow> 'g \<times> int"

definition process_push ::
    "'j json_lib \<Rightarrow> 'g send \<Rightarrow> addr \<Rightarrow> int \<Rightarrow> tcp_connection \<Rightarrow> 'j \<Rightarrow> u32 \<Rightarrow> 'g \<Rightarrow> 'g \<times> int" where
  "process_push J send wk cmd c root lid g =
     (case (j_uint64 J root ''uid'', j_string J root ''stream_name'', j_int J root ''audio'', j_int J root ''video'') of
        (Some u, Some sn, Some au, Some vi) \<Rightarrow>
          send (rtc_msg0\<lparr>cmdno := cmd, uid := u, stream_name := sn, audio := au, video := vi, log_id := lid,
                 m_worker := Some wk, m_conn := Some (c_addr c), m_fd := cfd c\<rparr>) g
      | _ \<Rightarrow> (g, -1))"

definition process_request ::
    "'j json_lib \<Rightarrow> 'g send \<Rightarrow> addr \<Rightarrow> tcp_connection \<Rightarrow> slice \<Rightarrow> slice \<Rightarrow> 'g \<Rightarrow> ('g \<times> int) res" where
  "process_request J send wk c header body g =
     rbind (slice_to_string header) (\<lambda>hd. rbind (xhead_of_bytes hd) (\<lambda>xh.
     rbind (slice_to_string body) (\<lambda>txt.
       case j_parse J txt of
         None \<Rightarrow> Inr (g, -1)
       | Some root \<Rightarrow>
           (case j_int J root ''cmdno'' of
              None \<Rightarrow> Inr (g, -1)
            | Some cmd \<Rightarrow>
                if cmd = CMDNO_PUSH then Inr (process_push J send wk cmd c root (xh_log_id xh) g)
                else if cmd = CMDNO_PULL \<or> cmd = CMDNO_ANSWER \<or> cmd = CMDNO_STOPPUSH \<or> cmd = CMDNO_STOPPULL
                then Inr (g, 0)
                else Inr (g, -1)))))"

text \<open>
  The loop of \<open>process_query_buffer\<close>: the result, the connection and the global server. \<open>None\<close>
  when it does not end. Sums of \<open>size_t\<close> values wrap.
\<close>

partial_function (option) process_query_buffer ::
    "'j json_lib \<Rightarrow> 'g send \<Rightarrow> addr \<Rightarrow> tcp_connection \<Rightarrow> 'g \<Rightarrow> (int \<times> tcp_connection \<times> 'g) res option" where
  "process_query_buffer J send wk c g =
     (if sdslen (querybuf c) \<ge> (bytes_processed c + bytes_expected c) mod 2 ^ 64
      then (case xhead_of_bytes (sh_buf (querybuf c)) of
              Inl e \<Rightarrow> Some (Inl e)
            | Inr xh \<Rightarrow>
                if current_state c = STATE_HEAD
                then if XHEAD_MAGIC_NUM \<noteq> xh_magic_num xh then Some (Inr (-1, c, g))
                     else process_query_buffer J send wk
                            (c\<lparr>current_state := STATE_BODY,
                               bytes_processed := (bytes_processed c + XHEAD_SIZE) mod 2 ^ 64,
                               bytes_expected := unat (xh_body_len xh)\<rparr>) g
                else let header = slice_of (sh_buf (querybuf c)) XHEAD_SIZE;
                         body = \<lparr>sl_buffer = sh_buf (querybuf c), sl_off = XHEAD_SIZE, sl_size = unat (xh_body_len xh)\<rparr>
                     in (case process_request J send wk c header body g of
                           Inl e \<Rightarrow> Some (Inl e)
                         | Inr (g', ret) \<Rightarrow>
                             if ret \<noteq> 0 then Some (Inr (-1, c, g'))
                             else process_query_buffer J send wk (c\<lparr>bytes_processed := 65535\<rparr>) g'))
      else Some (Inr (0, c, g)))"

text \<open>
  The part of \<open>read_query\<close> that concerns the connection: make room for what is expected, read,
  and process the buffer. The result is the connection and whether it has to be closed;
  \<open>t\<close> is \<open>el_->now()\<close>. The \<open>size_t\<close> expected is stored in an \<open>int\<close> and converted back.
\<close>

definition conn_read ::
    "allocator \<Rightarrow> bool \<Rightarrow> 'j json_lib \<Rightarrow> 'g send \<Rightarrow> addr \<Rightarrow> rres \<Rightarrow> u64 \<Rightarrow> tcp_connection \<Rightarrow> 'g \<Rightarrow>
     (bool \<times> tcp_connection \<times> 'g) res option" where
  "conn_read al ndebug J send wk r t c g =
     (let read_len = to_int32 (int (bytes_expected c));
          qb_len = to_int32 (int (sdslen (querybuf c)));
          len = nat (to_size_t read_len)
      in case sdsMakeRoomFor al (querybuf c) len of
           Inl e \<Rightarrow> Some (Inl e)
         | Inr qb \<Rightarrow>
             let (nread, bs) = sock_read_data r len in
             (case (if 0 \<le> qb_len then sds_write qb (nat qb_len) bs else Inl OutOfBounds) of
                Inl e \<Rightarrow> Some (Inl e)
              | Inr qb1 \<Rightarrow>
                  let c1 = c\<lparr>querybuf := qb1, last_interaction := t\<rparr> in
                  if nread = -1 then Some (Inr (True, c1, g))
                  else (case (if nread > 0 then sdsIncrLen ndebug qb1 nread else Inr qb1) of
                          Inl e \<Rightarrow> Some (Inl e)
                        | Inr qb2 \<Rightarrow>
                            map_option (\<lambda>m. rbind m (\<lambda>(ret, c3, g3). Inr (ret \<noteq> 0, c3, g3)))
                              (process_query_buffer J send wk (c1\<lparr>querybuf := qb2\<rparr>) g))))"

section \<open>Replies\<close>

text \<open>
  The loop of \<open>write_reply\<close>. The outcome of the \<open>n\<close>-th call of \<open>write\<close> is \<open>wr n\<close>; \<open>out\<close> is what was
  handed to the socket so far. The result is whether the connection has to be closed, the
  connection and the output; \<open>None\<close> when the loop does not end.
\<close>

partial_function (option) write_loop ::
    "(nat \<Rightarrow> wres) \<Rightarrow> nat \<Rightarrow> tcp_connection \<Rightarrow> byte list \<Rightarrow> (bool \<times> tcp_connection \<times> byte list) res option" where
  "write_loop wr n c out =
     (case reply_list c of
        [] \<Rightarrow> Some (Inr (False, c, out))
      | reply # rest \<Rightarrow>
          let pos = cur_resp_pos c; len = nat (to_size_t (int (sl_size reply) - int pos));
              nwritten = sock_write_data (wr n) len
          in if nwritten < 0 then Some (Inr (True, c, out))
             else if nwritten = 0 then write_loop wr (Suc n) c out
             else (case slice_read (reply\<lparr>sl_off := sl_off reply + pos\<rparr>) (nat nwritten) of
                     Inl e \<Rightarrow> Some (Inl e)
                   | Inr bs \<Rightarrow>
                       if nat nwritten + pos \<ge> sl_size reply
                       then write_loop wr (Suc n) (c\<lparr>reply_list := rest, cur_resp_pos := 0\<rparr>) (out @ bs)
                       else write_loop wr (Suc n) (c\<lparr>cur_resp_pos := pos + nat nwritten\<rparr>) (out @ bs)))"

text \<open>
  The reply to a request, as \<open>response_server_offer\<close> builds it in a block of \<open>XHEAD_SIZE + MAX_RES_BUF\<close>
  bytes: the header of the request with the new length, and the JSON text as far as \<open>snprintf\<close>
  stores it (at most \<open>MAX_RES_BUF - 1\<close> characters and a null).
\<close>

definition snprintf_s :: "byte list \<Rightarrow> nat \<Rightarrow> nat \<Rightarrow> byte list \<Rightarrow> byte list" where
  "snprintf_s buf off n s = write_at buf off (take (n - 1) (takeWhile (\<lambda>b. b \<noteq> 0) s) @ [0])"

definition make_reply :: "allocator \<Rightarrow> byte list \<Rightarrow> byte list \<Rightarrow> slice res" where
  "make_reply al header json =
     (if length header < XHEAD_SIZE then Inl OutOfBounds
      else if \<not> zalloc_ok al (XHEAD_SIZE + MAX_RES_BUF) then Inl OutOfMemory
      else let buf = write_at (map (junk al) [0..<XHEAD_SIZE + MAX_RES_BUF]) 0 (take XHEAD_SIZE header);
               body_len = of_nat (length json) :: u32;
               buf1 = set_body_len buf body_len;
               buf2 = snprintf_s buf1 XHEAD_SIZE MAX_RES_BUF json
           in Inr (slice_of buf2 (unat (of_nat XHEAD_SIZE + body_len))))"

end
