(* ===== verification/Conn_Proofs.thy ===== *)
theory Conn_Proofs
  imports Tcp_Connection
begin

text \<open>
  What the functions of \<open>Tcp_Connection\<close> do. The buffer parser is compared with an abstract one
  that looks at all the bytes received so far; the read loop is shown not to depend on how the
  network cuts the stream; the write loop is shown to send the queued replies in order.
\<close>

section \<open>The abstract parser\<close>

datatype stage = Need_head | Bad_magic | Need_body xhead_t | Full xhead_t "byte list"

definition xhead :: "byte list \<Rightarrow> xhead_t" where
  "xhead xs = (case xhead_of_bytes xs of Inr h \<Rightarrow> h | Inl e \<Rightarrow> undefined)"

definition stage_of :: "byte list \<Rightarrow> stage" where
  "stage_of xs =
     (if length xs < XHEAD_SIZE then Need_head
      else let h = xhead xs; n = unat (xh_body_len h)
        in if xh_magic_num h \<noteq> XHEAD_MAGIC_NUM then Bad_magic
           else if length xs < XHEAD_SIZE + n then Need_body h
           else Full h (take n (drop XHEAD_SIZE xs)))"

text \<open>What a request does, given its header and body.\<close>

definition request :: "'j json_lib \<Rightarrow> 'g send \<Rightarrow> addr \<Rightarrow> tcp_connection \<Rightarrow> xhead_t \<Rightarrow> byte list \<Rightarrow> 'g \<Rightarrow> 'g \<times> int" where
  "request J send wk c h body g =
     (case j_parse J body of
        None \<Rightarrow> (g, -1)
      | Some root \<Rightarrow>
          (case j_int J root ''cmdno'' of
             None \<Rightarrow> (g, -1)
           | Some cmd \<Rightarrow>
               if cmd = CMDNO_PUSH then process_push J send wk cmd c root (xh_log_id h) g
               else if cmd \<in> {CMDNO_PULL, CMDNO_ANSWER, CMDNO_STOPPUSH, CMDNO_STOPPULL} then (g, 0)
               else (g, -1)))"

lemma xhead_ok: "XHEAD_SIZE \<le> length xs \<Longrightarrow> xhead_of_bytes xs = Inr (xhead xs) \<and> xhead_wf (xhead xs)"
  using xhead_of_bytes_total [of xs] by (auto simp: xhead_def)

lemma sds_str_buf:
  assumes "sds_str s xs"
  shows "take (length xs) (sh_buf s) = xs" "length xs < length (sh_buf s)" "sdslen s = length xs" "length xs < 2 ^ 31"
proof -
  have wf: "sds_wf s" and c: "sds_content s = xs" and l: "length xs = nat (sh_len s)"
    using assms sds_str_length [OF assms] by (simp_all add: sds_str_def)
  show "take (length xs) (sh_buf s) = xs" using c l by (simp add: sds_content_def)
  show "length xs < length (sh_buf s)" using wf l by (simp add: sds_wf_buf)
  show "sdslen s = length xs" using wf l by (simp add: sds_wf_len)
  show "length xs < 2 ^ 31" using wf l by (auto simp: sds_wf_def)
qed

lemma xhead_of_buf:
  assumes "sds_str s xs" "XHEAD_SIZE \<le> length xs"
  shows "xhead_of_bytes (sh_buf s) = Inr (xhead xs)"
proof -
  note b = sds_str_buf [OF assms(1)]
  have "xhead_of_bytes (sh_buf s) = xhead_of_bytes (take (length xs) (sh_buf s))"
    using xhead_of_bytes_take [OF assms(2), of "sh_buf s"] b(2) by simp
  also have "\<dots> = Inr (xhead xs)" using b(1) xhead_ok [OF assms(2)] by simp
  finally show ?thesis .
qed

lemma process_request_eq:
  assumes s: "sds_str s xs" and len: "XHEAD_SIZE + n \<le> length xs"
  shows "process_request J send wk c (slice_of (sh_buf s) XHEAD_SIZE)
      \<lparr>sl_buffer = sh_buf s, sl_off = XHEAD_SIZE, sl_size = n\<rparr> g =
    Inr (request J send wk c (xhead xs) (take n (drop XHEAD_SIZE xs)) g)"
proof -
  note b = sds_str_buf [OF s]
  have t: "take m (drop k (sh_buf s)) = take m (drop k xs)" if "k + m \<le> length xs" for k m
  proof -
    have "take m (drop k (take (length xs) (sh_buf s))) = take m (drop k (sh_buf s))"
      using that by (simp add: drop_take min_def)
    then show ?thesis using b(1) by simp
  qed
  have h: "slice_to_string (slice_of (sh_buf s) XHEAD_SIZE) = Inr (take XHEAD_SIZE xs)"
    using t [of 0 XHEAD_SIZE] len b(2) by (simp add: slice_to_string_def slice_read_def slice_of_def)
  have "xhead_of_bytes (take XHEAD_SIZE xs) = xhead_of_bytes xs" using len by (intro xhead_of_bytes_take) simp_all
  then have xh: "xhead_of_bytes (take XHEAD_SIZE xs) = Inr (xhead xs)" using xhead_ok [of xs] len by simp
  have bd: "slice_to_string \<lparr>sl_buffer = sh_buf s, sl_off = XHEAD_SIZE, sl_size = n\<rparr> = Inr (take n (drop XHEAD_SIZE xs))"
    using t [of XHEAD_SIZE n] len b(2) by (simp add: slice_to_string_def slice_read_def)
  show ?thesis
    by (simp add: process_request_def h xh bd request_def split: option.split)
qed

section \<open>One run over the buffer\<close>

definition fresh_conn :: "tcp_connection \<Rightarrow> bool" where
  "fresh_conn c \<longleftrightarrow> current_state c = STATE_HEAD \<and> bytes_processed c = 0 \<and> bytes_expected c = XHEAD_SIZE"

definition body_conn :: "nat \<Rightarrow> tcp_connection \<Rightarrow> bool" where
  "body_conn n c \<longleftrightarrow> current_state c = STATE_BODY \<and> bytes_processed c = XHEAD_SIZE \<and> bytes_expected c = n"

definition to_body :: "xhead_t \<Rightarrow> tcp_connection \<Rightarrow> tcp_connection" where
  "to_body h c = c\<lparr>current_state := STATE_BODY, bytes_processed := XHEAD_SIZE, bytes_expected := unat (xh_body_len h)\<rparr>"

text \<open>The result of a run over a buffer that holds \<open>xs\<close>, from the abstract parser.\<close>

definition run_result ::
    "'j json_lib \<Rightarrow> 'g send \<Rightarrow> addr \<Rightarrow> tcp_connection \<Rightarrow> byte list \<Rightarrow> 'g \<Rightarrow> int \<times> tcp_connection \<times> 'g" where
  "run_result J send wk c xs g =
     (case stage_of xs of
        Need_head \<Rightarrow> (0, c, g)
      | Bad_magic \<Rightarrow> (-1, c, g)
      | Need_body h \<Rightarrow> (0, to_body h c, g)
      | Full h body \<Rightarrow>
          (case request J send wk c h body g of
             (g', ret) \<Rightarrow> if ret \<noteq> 0 then (-1, to_body h c, g')
                          else (0, (to_body h c)\<lparr>bytes_processed := 65535\<rparr>, g')))"

lemma request_conn: "c_addr c = c_addr d \<Longrightarrow> cfd c = cfd d \<Longrightarrow> request J send wk c = request J send wk d"
  by (simp add: request_def process_push_def fun_eq_iff split: option.split)

lemma body_run:
  assumes b: "body_conn (unat (xh_body_len (xhead xs))) c" and s: "sds_str (querybuf c) xs" and h: "XHEAD_SIZE \<le> length xs"
    and m: "xh_magic_num (xhead xs) = XHEAD_MAGIC_NUM" and len: "length xs < 65535 + unat (xh_body_len (xhead xs))"
  shows "process_query_buffer J send wk c g = Some (Inr (run_result J send wk c xs g))"
proof -
  let ?n = "unat (xh_body_len (xhead xs))"
  have "?n < 2 ^ 32" using unsigned_less [of "xh_body_len (xhead xs)", where 'a = nat] by simp
  then have mods: "(XHEAD_SIZE + ?n) mod 2 ^ 64 = XHEAD_SIZE + ?n" "(65535 + ?n) mod 2 ^ 64 = 65535 + ?n"
    by (simp_all add: XHEAD_SIZE_def)
  note l = sds_str_buf(3) [OF s]
  have c: "to_body (xhead xs) c = c" using b by (simp add: to_body_def body_conn_def)
  show ?thesis
  proof (cases "length xs < XHEAD_SIZE + ?n")
    case True
    then show ?thesis
      using b h m mods l c by (subst process_query_buffer.simps) (simp add: body_conn_def run_result_def stage_of_def Let_def)
  next
    case False
    then have st: "stage_of xs = Full (xhead xs) (take ?n (drop XHEAD_SIZE xs))" using h m by (simp add: stage_of_def Let_def)
    obtain g' ret where r: "request J send wk c (xhead xs) (take ?n (drop XHEAD_SIZE xs)) g = (g', ret)"
      by (cases "request J send wk c (xhead xs) (take ?n (drop XHEAD_SIZE xs)) g")
    have stop: "process_query_buffer J send wk (c\<lparr>bytes_processed := 65535\<rparr>) g' = Some (Inr (0, c\<lparr>bytes_processed := 65535\<rparr>, g'))"
      using len mods l b by (subst process_query_buffer.simps) (simp add: body_conn_def)
    have req: "process_request J send wk c (slice_of (sh_buf (querybuf c)) XHEAD_SIZE)
        \<lparr>sl_buffer = sh_buf (querybuf c), sl_off = XHEAD_SIZE, sl_size = ?n\<rparr> g = Inr (g', ret)"
      using process_request_eq [OF s, of ?n J send wk c g] False r by simp
    show ?thesis
      using False b mods l xhead_of_buf [OF s h] req stop c r
      by (subst process_query_buffer.simps) (simp add: body_conn_def Let_def run_result_def st)
  qed
qed

lemma head_run:
  assumes f: "fresh_conn c" and s: "sds_str (querybuf c) xs"
    and len: "length xs < 65535 + unat (xh_body_len (xhead xs))"
  shows "process_query_buffer J send wk c g = Some (Inr (run_result J send wk c xs g))"
proof (cases "length xs < XHEAD_SIZE")
  case True
  then show ?thesis
    using f sds_str_buf(3) [OF s] by (subst process_query_buffer.simps)
      (simp add: fresh_conn_def run_result_def stage_of_def XHEAD_SIZE_def)
next
  case False
  then have h: "XHEAD_SIZE \<le> length xs" by simp
  note x = xhead_of_buf [OF s h] sds_str_buf(3) [OF s]
  show ?thesis
  proof (cases "xh_magic_num (xhead xs) = XHEAD_MAGIC_NUM")
    case False
    then show ?thesis
      using h f x by (subst process_query_buffer.simps) (auto simp: fresh_conn_def run_result_def stage_of_def Let_def XHEAD_SIZE_def)
  next
    case True
    let ?d = "to_body (xhead xs) c"
    have "process_query_buffer J send wk c g = process_query_buffer J send wk ?d g"
      using h f x True by (subst process_query_buffer.simps) (simp add: fresh_conn_def to_body_def XHEAD_SIZE_def)
    also have "\<dots> = Some (Inr (run_result J send wk ?d xs g))"
      by (rule body_run) (use s h True len in \<open>simp_all add: to_body_def body_conn_def\<close>)
    also have "run_result J send wk ?d xs g = run_result J send wk c xs g"
      using h True request_conn [of ?d c J send wk]
      by (simp add: run_result_def stage_of_def Let_def to_body_def split: prod.split)
    finally show ?thesis .
  qed
qed

section \<open>Reading\<close>

text \<open>The connection has received \<open>xs\<close>, which is not yet a whole request.\<close>

definition partial_conn :: "tcp_connection \<Rightarrow> byte list \<Rightarrow> bool" where
  "partial_conn c xs \<longleftrightarrow> sds_str (querybuf c) xs \<and>
     (case stage_of xs of
        Need_head \<Rightarrow> fresh_conn c
      | Need_body h \<Rightarrow> body_conn (unat (xh_body_len h)) c \<and> unat (xh_body_len h) < 2 ^ 29
      | _ \<Rightarrow> False)"

lemma xhead_append: "XHEAD_SIZE \<le> length xs \<Longrightarrow> xhead (xs @ ys) = xhead xs"
  using xhead_of_bytes_take [of "length xs" "xs @ ys"] by (simp add: xhead_def)

lemma partial_conn_expected:
  assumes "partial_conn c xs"
  shows "0 < bytes_expected c" "bytes_expected c < 2 ^ 29" "length xs < XHEAD_SIZE + bytes_expected c"
  using assms
  by (auto simp: partial_conn_def stage_of_def Let_def fresh_conn_def body_conn_def XHEAD_SIZE_def split: if_splits)

lemma partial_run:
  assumes p: "partial_conn c xs" and s: "sds_str (querybuf d) (xs @ ys)"
    and d: "current_state d = current_state c" "bytes_processed d = bytes_processed c" "bytes_expected d = bytes_expected c"
    and len: "length (xs @ ys) < 65535 + unat (xh_body_len (xhead (xs @ ys)))"
  shows "process_query_buffer J send wk d g = Some (Inr (run_result J send wk d (xs @ ys) g))"
proof (cases "length xs < XHEAD_SIZE")
  case True
  then have "fresh_conn d" using p d by (simp add: partial_conn_def stage_of_def fresh_conn_def)
  then show ?thesis by (rule head_run [OF _ s len])
next
  case False
  then have h: "XHEAD_SIZE \<le> length xs" "XHEAD_SIZE \<le> length (xs @ ys)" by simp_all
  have e: "xhead (xs @ ys) = xhead xs" by (rule xhead_append [OF h(1)])
  have m: "xh_magic_num (xhead xs) = XHEAD_MAGIC_NUM" "body_conn (unat (xh_body_len (xhead xs))) d"
    using p h d by (auto simp: partial_conn_def stage_of_def Let_def body_conn_def split: if_splits)
  show ?thesis using body_run [OF _ s h(2) _ len, of J send wk g] m e by simp
qed

text \<open>A read event that brings bytes: they are appended to the buffer, and the buffer is processed.\<close>

lemma conn_read_step:
  assumes s: "sds_str (querybuf c) xs" and e: "0 < bytes_expected c" "bytes_expected c < 2 ^ 29"
    "length xs < 65535 + bytes_expected c"
    and mem: "mem_ok al" and ne: "ys \<noteq> []" and bs: "bs = take (bytes_expected c) ys"
  shows "\<exists>qb. sds_str qb (xs @ bs) \<and> conn_read al nd J send wk (R_bytes ys) t c g =
    map_option (\<lambda>m. rbind m (\<lambda>(ret, c3, g3). Inr (ret \<noteq> 0, c3, g3)))
      (process_query_buffer J send wk (c\<lparr>last_interaction := t, querybuf := qb\<rparr>) g)"
proof -
  note b = sds_str_buf [OF s]
  have rl: "to_int32 (int (bytes_expected c)) = int (bytes_expected c)"
    "nat (to_size_t (int (bytes_expected c))) = bytes_expected c"
    "to_int32 (int (sdslen (querybuf c))) = int (sdslen (querybuf c))"
    using e b by simp_all
  have room: "sds_grown (length xs + bytes_expected c) < 2 ^ 31"
    using e by (simp add: sds_grown_def SDS_MAX_PREALLOC_def)
  then have "zalloc_ok al (8 + sds_grown (length xs + bytes_expected c) + 1)" using mem by (simp add: mem_ok_def)
  then obtain qb0 where q0: "sdsMakeRoomFor al (querybuf c) (bytes_expected c) = Inr qb0" "sds_str qb0 xs"
    "bytes_expected c \<le> sdsavail qb0" using sdsMakeRoomFor_str [OF s room] by blast
  have bl: "length bs \<le> bytes_expected c" "bs \<noteq> []" using bs ne e(1) by auto
  then have nr: "sock_read_data (R_bytes ys) (bytes_expected c) = (int (length bs), bs)"
    using bs by (simp add: sock_read_data_def Let_def)
  have sl: "sdslen (querybuf c) = sdslen qb0" using b(3) sds_str_buf(3) [OF q0(2)] by simp
  obtain qb1 qb2 where q1: "sds_write qb0 (sdslen qb0) bs = Inr qb1"
    and q2: "sdsIncrLen nd qb1 (int (length bs)) = Inr qb2" "sds_str qb2 (xs @ bs)"
    using sds_write_incr [OF q0(2), of bs nd] bl(1) q0(3) by auto
  show ?thesis
    using q0(1) nr q1 q2 bl sl unfolding conn_read_def rl Let_def by (intro exI [of _ qb2]) simp
qed

lemma conn_read_bytes:
  assumes p: "partial_conn c xs" and mem: "mem_ok al" and ne: "ys \<noteq> []"
    and bs: "bs = take (bytes_expected c) ys"
    and len: "length (xs @ bs) < 65535 + unat (xh_body_len (xhead (xs @ bs)))"
  shows "\<exists>qb. sds_str qb (xs @ bs) \<and> conn_read al nd J send wk (R_bytes ys) t c g =
    (case run_result J send wk (c\<lparr>last_interaction := t, querybuf := qb\<rparr>) (xs @ bs) g of
       (ret, c', g') \<Rightarrow> Some (Inr (ret \<noteq> 0, c', g')))"
proof -
  note e = partial_conn_expected [OF p]
  have s: "sds_str (querybuf c) xs" using p by (simp add: partial_conn_def)
  have "length xs < 65535 + bytes_expected c" using e(3) by (simp add: XHEAD_SIZE_def)
  from conn_read_step [OF s e(1,2) this mem ne bs, of nd J send wk t g] obtain qb where qb: "sds_str qb (xs @ bs)"
    "conn_read al nd J send wk (R_bytes ys) t c g = map_option (\<lambda>m. rbind m (\<lambda>(ret, c3, g3). Inr (ret \<noteq> 0, c3, g3)))
      (process_query_buffer J send wk (c\<lparr>last_interaction := t, querybuf := qb\<rparr>) g)" by blast
  let ?d = "c\<lparr>last_interaction := t, querybuf := qb\<rparr>"
  have "process_query_buffer J send wk ?d g = Some (Inr (run_result J send wk ?d (xs @ bs) g))"
    by (rule partial_run [OF p _ _ _ _ len]) (simp_all add: qb(1))
  then show ?thesis using qb by (intro exI [of _ qb]) (simp split: prod.split)
qed

section \<open>The network may cut the stream anywhere\<close>

text \<open>
  Read events for a socket whose kernel buffer holds \<open>net\<close>: at each event between one and all of
  the bytes have arrived (\<open>k + 1\<close> of them), the connection reads as many as it asks for, and the
  rest stays in the kernel. The result is whether the connection was closed, the connection, the
  global server and the bytes not read.
\<close>

fun conn_stream ::
    "allocator \<Rightarrow> bool \<Rightarrow> 'j json_lib \<Rightarrow> 'g send \<Rightarrow> addr \<Rightarrow> u64 \<Rightarrow> nat list \<Rightarrow> byte list \<Rightarrow> tcp_connection \<Rightarrow> 'g \<Rightarrow>
     (bool \<times> tcp_connection \<times> 'g \<times> byte list) res option" where
  "conn_stream al nd J send wk t [] net c g = Some (Inr (False, c, g, net))"
| "conn_stream al nd J send wk t (k # ks) net c g =
     (if net = [] then conn_stream al nd J send wk t ks net c g
      else (case conn_read al nd J send wk (R_bytes (take (Suc k) net)) t c g of
              None \<Rightarrow> None
            | Some (Inl e) \<Rightarrow> Some (Inl e)
            | Some (Inr (close, c1, g1)) \<Rightarrow>
                let net1 = drop (length (take (bytes_expected c) (take (Suc k) net))) net
                in if close then Some (Inr (True, c1, g1, net1))
                   else conn_stream al nd J send wk t ks net1 c1 g1))"

lemma conn_stream_nil [simp]: "conn_stream al nd J send wk t ks [] c g = Some (Inr (False, c, g, []))"
  by (induction ks) auto

definition wire :: "xhead_t \<Rightarrow> byte list \<Rightarrow> byte list" where
  "wire h body = bytes_of_xhead h @ body"

definition good_request :: "xhead_t \<Rightarrow> byte list \<Rightarrow> bool" where
  "good_request h body \<longleftrightarrow> xhead_wf h \<and> xh_magic_num h = XHEAD_MAGIC_NUM \<and> unat (xh_body_len h) = length body \<and>
     length body < 2 ^ 29"

lemma wire_prefix_head:
  assumes "good_request h body" "xs @ net = wire h body" "XHEAD_SIZE \<le> length xs"
  shows "xhead xs = h"
proof -
  have l: "length (bytes_of_xhead h) = XHEAD_SIZE" using assms(1) by (simp add: good_request_def)
  have "take XHEAD_SIZE (xs @ net) = bytes_of_xhead h" unfolding assms(2) wire_def using l by simp
  then have "take XHEAD_SIZE xs = bytes_of_xhead h" using assms(3) by simp
  then obtain rest where "xs = bytes_of_xhead h @ rest" by (metis append_take_drop_id)
  then show ?thesis
    using xhead_of_bytes_of_xhead [of h rest] assms(1) by (simp add: good_request_def xhead_def)
qed

lemma length_wire: "good_request h body \<Longrightarrow> length (wire h body) = XHEAD_SIZE + length body"
  by (simp add: wire_def good_request_def)

lemma stage_prefix:
  assumes "good_request h body" "xs @ net = wire h body"
  shows "net \<noteq> [] \<Longrightarrow> stage_of xs = (if length xs < XHEAD_SIZE then Need_head else Need_body h)"
    and "net = [] \<Longrightarrow> stage_of xs = Full h body"
    and "length xs < 65535 + unat (xh_body_len (xhead xs))"
proof -
  have l: "length xs + length net = XHEAD_SIZE + length body"
    using length_wire [OF assms(1)] assms(2) by (metis length_append)
  note hd = wire_prefix_head [OF assms]
  show "net \<noteq> [] \<Longrightarrow> stage_of xs = (if length xs < XHEAD_SIZE then Need_head else Need_body h)"
    using hd l assms(1) by (auto simp: stage_of_def Let_def good_request_def) (metis add_less_cancel_left length_greater_0_conv less_add_same_cancel1)
  show "net = [] \<Longrightarrow> stage_of xs = Full h body"
    using hd l assms by (auto simp: stage_of_def Let_def good_request_def wire_def)
  show "length xs < 65535 + unat (xh_body_len (xhead xs))"
  proof (cases "length xs < XHEAD_SIZE")
    case True
    then show ?thesis by (simp add: XHEAD_SIZE_def)
  next
    case False
    then show ?thesis using hd l assms(1) by (simp add: good_request_def XHEAD_SIZE_def)
  qed
qed

lemma run_result_partial:
  assumes g: "good_request h body" and p: "xs @ bs @ net = wire h body" "net \<noteq> []"
    and c: "partial_conn c xs" and q: "sds_str qb (xs @ bs)"
  shows "\<exists>d. run_result J send wk (c\<lparr>last_interaction := t, querybuf := qb\<rparr>) (xs @ bs) g0 = (0, d, g0) \<and>
    partial_conn d (xs @ bs) \<and> c_addr d = c_addr c \<and> cfd d = cfd c"
proof -
  let ?c = "c\<lparr>last_interaction := t, querybuf := qb\<rparr>"
  have st: "stage_of (xs @ bs) = (if length (xs @ bs) < XHEAD_SIZE then Need_head else Need_body h)"
    using stage_prefix(1) [OF g, of "xs @ bs" net] p by simp
  show ?thesis
  proof (cases "length (xs @ bs) < XHEAD_SIZE")
    case True
    then have "stage_of xs = Need_head" by (simp add: stage_of_def)
    then have "fresh_conn ?c" using c by (simp add: partial_conn_def fresh_conn_def)
    then show ?thesis using st True q by (simp add: run_result_def partial_conn_def)
  next
    case False
    have "partial_conn (to_body h ?c) (xs @ bs)"
      using st False q g by (simp add: partial_conn_def to_body_def body_conn_def good_request_def)
    then show ?thesis using st False by (simp add: run_result_def) (simp add: to_body_def)
  qed
qed

lemma conn_stream_request:
  assumes g: "good_request h body" and mem: "mem_ok al"
    and "partial_conn c xs" "xs @ net = wire h body" "net \<noteq> []" "length net \<le> length ks"
  shows "\<exists>d. conn_stream al nd J send wk t ks net c g0 =
    (case request J send wk c h body g0 of (g1, ret) \<Rightarrow> Some (Inr (ret \<noteq> 0, d, g1, []))) \<and>
    c_addr d = c_addr c \<and> cfd d = cfd c"
  using assms(3-)
proof (induction ks arbitrary: c xs net)
  case (Cons k ks)
  let ?e = "bytes_expected c"
  define bs where "bs = take ?e (take (Suc k) net)"
  define net1 where "net1 = drop (length bs) net"
  have ys: "take (Suc k) net \<noteq> []" using Cons.prems(3) by simp
  have "bs \<noteq> []" using ys partial_conn_expected(1) [OF Cons.prems(1)] by (auto simp: bs_def)
  have "net = bs @ net1"
  proof -
    have "bs = take (min ?e (Suc k)) net" by (simp add: bs_def)
    then show ?thesis by (cases "length net \<le> min ?e (Suc k)") (simp_all add: net1_def min_def)
  qed
  then have w: "xs @ bs @ net1 = wire h body" "(xs @ bs) @ net1 = wire h body" using Cons.prems(2) by simp_all
  have len: "length (xs @ bs) < 65535 + unat (xh_body_len (xhead (xs @ bs)))" by (rule stage_prefix(3) [OF g w(2)])
  from conn_read_bytes [OF Cons.prems(1) mem ys bs_def len, of nd J send wk t g0] obtain qb where
    qb: "sds_str qb (xs @ bs)" and rd: "conn_read al nd J send wk (R_bytes (take (Suc k) net)) t c g0 =
      (case run_result J send wk (c\<lparr>last_interaction := t, querybuf := qb\<rparr>) (xs @ bs) g0 of
         (ret, c', g') \<Rightarrow> Some (Inr (ret \<noteq> 0, c', g')))" by blast
  have step: "conn_stream al nd J send wk t (k # ks) net c g0 =
      (case conn_read al nd J send wk (R_bytes (take (Suc k) net)) t c g0 of
         None \<Rightarrow> None
       | Some (Inl e) \<Rightarrow> Some (Inl e)
       | Some (Inr (close, c1, g1)) \<Rightarrow>
           if close then Some (Inr (True, c1, g1, net1)) else conn_stream al nd J send wk t ks net1 c1 g1)"
    unfolding conn_stream.simps net1_def bs_def Let_def using Cons.prems(3) by simp
  show ?case
  proof (cases "net1 = []")
    case True
    have st: "stage_of (xs @ bs) = Full h body" using stage_prefix(2) [OF g w(2) True] .
    have rq: "request J send wk (c\<lparr>last_interaction := t, querybuf := qb\<rparr>) = request J send wk c"
      by (rule request_conn) simp_all
    show ?thesis
      by (auto simp: step rd run_result_def st rq True to_body_def simp del: conn_stream.simps(2) split: prod.split)
  next
    case False
    from run_result_partial [OF g w(1) False Cons.prems(1) qb, of J send wk t g0] obtain d where
      d: "run_result J send wk (c\<lparr>last_interaction := t, querybuf := qb\<rparr>) (xs @ bs) g0 = (0, d, g0)"
        "partial_conn d (xs @ bs)" "c_addr d = c_addr c" "cfd d = cfd c" by blast
    have "length net1 < length net" using \<open>net = bs @ net1\<close> \<open>bs \<noteq> []\<close> by simp
    then have "length net1 \<le> length ks" using Cons.prems(4) by simp
    from Cons.IH [OF d(2) w(2) False this] obtain d' where
      d': "conn_stream al nd J send wk t ks net1 d g0 =
        (case request J send wk d h body g0 of (g1, ret) \<Rightarrow> Some (Inr (ret \<noteq> 0, d', g1, [])))"
        "c_addr d' = c_addr d" "cfd d' = cfd d" by blast
    have "request J send wk d = request J send wk c" by (rule request_conn) (simp_all add: d)
    then show ?thesis
      using d d' by (auto simp: step rd simp del: conn_stream.simps(2))
  qed
qed simp

section \<open>A client that keeps sending\<close>

text \<open>
  After a request has been handled the connection stays in \<open>STATE_BODY\<close> with \<open>bytes_processed\<close> set to
  65535, a value that is meant to be out of reach. A client that goes on sending reaches it: then
  every turn of the loop handles the same request again, and the loop does not end.
\<close>

lemma process_query_buffer_diverges:
  assumes "sds_str (querybuf c) xs" "current_state c = STATE_BODY" "bytes_processed c = 65535"
    and "XHEAD_SIZE \<le> length xs" "bytes_expected c = unat (xh_body_len (xhead xs))"
    and "65535 + bytes_expected c \<le> length xs"
    and zero: "\<And>g. snd (request J send wk c (xhead xs) (take (bytes_expected c) (drop XHEAD_SIZE xs)) g) = 0"
  shows "process_query_buffer J send wk c g = None"
proof (rule ccontr)
  let ?n = "bytes_expected c"
  have "?n < 2 ^ 32" unfolding assms(5) using unsigned_less [of "xh_body_len (xhead xs)", where 'a = nat] by simp
  then have m: "(65535 + ?n) mod 2 ^ 64 = 65535 + ?n" by simp
  have rq: "process_request J send wk c (slice_of (sh_buf (querybuf c)) XHEAD_SIZE)
      \<lparr>sl_buffer = sh_buf (querybuf c), sl_off = XHEAD_SIZE, sl_size = ?n\<rparr> h =
    Inr (fst (request J send wk c (xhead xs) (take ?n (drop XHEAD_SIZE xs)) h), 0)" for h
    using process_request_eq [OF assms(1), of ?n J send wk c h] assms(6) zero [of h]
    by (simp add: XHEAD_SIZE_def prod_eq_iff)
  have c: "c\<lparr>bytes_processed := 65535\<rparr> = c" using assms(3) by simp
  have x: "xhead_of_bytes (sh_buf (querybuf c)) = Inr (xhead xs)" by (rule xhead_of_buf [OF assms(1,4)])
  have l: "sdslen (querybuf c) = length xs" by (rule sds_str_buf(3) [OF assms(1)])
  have never: "\<not> (J' = J \<and> send' = send \<and> wk' = wk \<and> d = c)"
    if "process_query_buffer J' send' wk' d h = Some y" for J' send' wk' d h y
    using that
  proof (induction rule: process_query_buffer.raw_induct [rotated 1, consumes 1])
    case (1 pqb J' send' wk' d h y)
    show ?case
    proof
      assume e: "J' = J \<and> send' = send \<and> wk' = wk \<and> d = c"
      let ?h = "fst (request J send wk c (xhead xs) (take ?n (drop XHEAD_SIZE xs)) h)"
      have "pqb J send wk (c\<lparr>bytes_processed := 65535\<rparr>) ?h = Some y"
        using 1(2) e x l m rq [of h] assms(2,3,6) by (simp add: Let_def flip: assms(5))
      then have "pqb J send wk c ?h = Some y" unfolding c .
      then show False using 1(1) by blast
    qed
  qed
  assume "process_query_buffer J send wk c g \<noteq> None"
  then show False using never by blast
qed

section \<open>Writing\<close>

definition reply_ok :: "slice \<Rightarrow> bool" where
  "reply_ok r \<longleftrightarrow> slice_wf r \<and> 0 < sl_size r \<and> sl_size r < 2 ^ 64"

text \<open>The replies are readable, and of the first one less than all has been sent.\<close>

definition replies_ok :: "tcp_connection \<Rightarrow> bool" where
  "replies_ok c \<longleftrightarrow> (\<forall>r \<in> set (reply_list c). reply_ok r) \<and>
     (case reply_list c of [] \<Rightarrow> cur_resp_pos c = 0 | r # _ \<Rightarrow> cur_resp_pos c < sl_size r)"

text \<open>What is still to be sent.\<close>

definition unsent :: "tcp_connection \<Rightarrow> byte list" where
  "unsent c = drop (cur_resp_pos c) (concat (map slice_bytes (reply_list c)))"

text \<open>
  One successful \<open>write\<close>: the bytes handed to the socket are the first of the unsent ones, and what
  remains unsent are the others.
\<close>

definition sent :: "nat \<Rightarrow> tcp_connection \<Rightarrow> tcp_connection" where
  "sent n c = (case reply_list c of
     [] \<Rightarrow> c
   | r # rest \<Rightarrow> if n + cur_resp_pos c \<ge> sl_size r then c\<lparr>reply_list := rest, cur_resp_pos := 0\<rparr>
                 else c\<lparr>cur_resp_pos := cur_resp_pos c + n\<rparr>)"

lemma replies_ok_head:
  assumes "replies_ok c" "reply_list c = r # rest"
  shows "reply_ok r" "cur_resp_pos c < sl_size r" "slice_wf r"
    "nat (to_size_t (int (sl_size r) - int (cur_resp_pos c))) = sl_size r - cur_resp_pos c"
  using assms by (auto simp: replies_ok_def reply_ok_def)

lemma sent_step:
  assumes ok: "replies_ok c" and r: "reply_list c = r # rest" and n: "n \<le> sl_size r - cur_resp_pos c"
  shows "slice_read (r\<lparr>sl_off := sl_off r + cur_resp_pos c\<rparr>) n = Inr (take n (unsent c))"
    "unsent (sent n c) = drop n (unsent c)" "replies_ok (sent n c)" "length (unsent c) \<ge> n"
proof -
  note h = replies_ok_head [OF ok r]
  let ?p = "cur_resp_pos c"
  have lb: "length (slice_bytes r) = sl_size r" by (rule length_slice_bytes [OF h(3)])
  have u: "unsent c = drop ?p (slice_bytes r) @ concat (map slice_bytes rest)"
    using r h(2) lb by (simp add: unsent_def)
  have tk: "take n (unsent c) = take n (drop ?p (slice_bytes r))" using u n lb by simp
  show "slice_read (r\<lparr>sl_off := sl_off r + ?p\<rparr>) n = Inr (take n (unsent c))"
    unfolding tk using h(2,3) n
    by (simp add: slice_read_def slice_bytes_def slice_wf_def drop_take min_def add.commute)
  show "length (unsent c) \<ge> n" using u n lb by simp
  show "unsent (sent n c) = drop n (unsent c)"
  proof (cases "n + ?p \<ge> sl_size r")
    case True
    then have "n = sl_size r - ?p" using n h(2) by simp
    then show ?thesis using True r u lb by (simp add: sent_def unsent_def)
  next
    case False
    then show ?thesis using r u lb n by (simp add: sent_def unsent_def add.commute)
  qed
  show "replies_ok (sent n c)"
    using ok r n by (auto simp: sent_def replies_ok_def reply_ok_def split: list.splits)
qed

text \<open>One turn of the loop.\<close>

lemma write_loop_step:
  assumes ok: "replies_ok c" and ne: "reply_list c \<noteq> []"
  shows "wr n = W_err \<Longrightarrow> write_loop wr n c out = Some (Inr (True, c, out))"
    and "wr n = W_eagain \<or> wr n = W_bytes 0 \<Longrightarrow> write_loop wr n c out = write_loop wr (Suc n) c out"
    and "wr n = W_bytes k \<Longrightarrow> 0 < k \<Longrightarrow> \<exists>m. 0 < m \<and> m \<le> length (unsent c) \<and>
      write_loop wr n c out = write_loop wr (Suc n) (sent m c) (out @ take m (unsent c)) \<and>
      unsent (sent m c) = drop m (unsent c) \<and> replies_ok (sent m c)"
proof -
  obtain r rest where r: "reply_list c = r # rest" using ne by (cases "reply_list c") auto
  note h = replies_ok_head [OF ok r]
  show "wr n = W_err \<Longrightarrow> write_loop wr n c out = Some (Inr (True, c, out))"
    by (subst write_loop.simps) (simp add: r Let_def sock_write_data_def)
  show "wr n = W_eagain \<or> wr n = W_bytes 0 \<Longrightarrow> write_loop wr n c out = write_loop wr (Suc n) c out"
    by (subst write_loop.simps) (auto simp: r Let_def sock_write_data_def)
  assume k: "wr n = W_bytes k" "0 < k"
  let ?m = "min k (sl_size r - cur_resp_pos c)"
  have m: "0 < ?m" "?m \<le> sl_size r - cur_resp_pos c" using k h(2) by auto
  note s = sent_step [OF ok r m(2)]
  have w: "sock_write_data (W_bytes k) (sl_size r - cur_resp_pos c) = int ?m" by (simp add: sock_write_data_def)
  have "write_loop wr n c out = write_loop wr (Suc n) (sent ?m c) (out @ take ?m (unsent c))"
    using m(1) s(1) unfolding write_loop.simps [of wr n c out] r list.case Let_def h(4) k(1) w
    by (simp add: sent_def r)
  then show "\<exists>m. 0 < m \<and> m \<le> length (unsent c) \<and>
      write_loop wr n c out = write_loop wr (Suc n) (sent m c) (out @ take m (unsent c)) \<and>
      unsent (sent m c) = drop m (unsent c) \<and> replies_ok (sent m c)"
    using m(1) s by blast
qed

lemma unsent_nil: "replies_ok c \<Longrightarrow> unsent c = [] \<longleftrightarrow> reply_list c = []"
proof -
  assume ok: "replies_ok c"
  show ?thesis
  proof (cases "reply_list c")
    case (Cons r rest)
    note h = replies_ok_head [OF ok Cons]
    have "length (unsent c) \<ge> sl_size r - cur_resp_pos c" using sent_step(4) [OF ok Cons order.refl] .
    then show ?thesis using Cons h(2) by auto
  qed (simp add: unsent_def)
qed

text \<open>The connection apart from its replies.\<close>

definition same_conn :: "tcp_connection \<Rightarrow> tcp_connection \<Rightarrow> bool" where
  "same_conn c d \<longleftrightarrow> d = c\<lparr>reply_list := reply_list d, cur_resp_pos := cur_resp_pos d\<rparr>"

lemma same_conn_refl [simp]: "same_conn c c" by (simp add: same_conn_def)

lemma same_conn_trans: "same_conn a b \<Longrightarrow> same_conn b c \<Longrightarrow> same_conn a c"
  by (cases a; cases b; cases c) (simp add: same_conn_def)

lemma same_conn_sent [simp]: "same_conn c (sent n c)"
  by (simp add: same_conn_def sent_def split: list.split)

text \<open>While the socket keeps accepting bytes now and then, all replies are sent.\<close>

definition live_socket :: "(nat \<Rightarrow> wres) \<Rightarrow> bool" where
  "live_socket wr \<longleftrightarrow> (\<forall>n. wr n \<noteq> W_err) \<and> (\<forall>n. \<exists>m \<ge> n. \<exists>k > 0. wr m = W_bytes k)"

lemma write_loop_waits:
  assumes "replies_ok c" "reply_list c \<noteq> []" "n \<le> m" "\<And>i. n \<le> i \<Longrightarrow> i < m \<Longrightarrow> wr i = W_eagain \<or> wr i = W_bytes 0"
  shows "write_loop wr n c out = write_loop wr m c out"
  using assms(3,4)
proof (induction m rule: dec_induct)
  case (step m)
  then show ?case using write_loop_step(2) [OF assms(1,2), of wr m out] by simp
qed simp

lemma write_loop_progress:
  assumes "replies_ok c" "reply_list c \<noteq> []" "live_socket wr"
  shows "\<exists>m k. 0 < k \<and> k \<le> length (unsent c) \<and>
    write_loop wr n c out = write_loop wr m (sent k c) (out @ take k (unsent c)) \<and>
    unsent (sent k c) = drop k (unsent c) \<and> replies_ok (sent k c)"
proof -
  let ?P = "\<lambda>m. n \<le> m \<and> (\<exists>k > 0. wr m = W_bytes k)"
  define m where "m = (LEAST m. ?P m)"
  have ex: "\<exists>m. ?P m" using assms(3) by (auto simp: live_socket_def)
  have m: "?P m" unfolding m_def by (rule LeastI_ex [OF ex])
  have "wr i = W_eagain \<or> wr i = W_bytes 0" if "n \<le> i" "i < m" for i
  proof -
    have "\<not> ?P i" using not_less_Least [of i ?P] that(2) unfolding m_def by blast
    moreover have "wr i \<noteq> W_err" using assms(3) by (simp add: live_socket_def)
    ultimately show ?thesis using that(1) by (cases "wr i") auto
  qed
  then have "write_loop wr n c out = write_loop wr m c out" using write_loop_waits [OF assms(1,2)] m by blast
  with m write_loop_step(3) [OF assms(1,2)] show ?thesis by metis
qed

lemma write_loop_sends_all:
  assumes "replies_ok c" "live_socket wr"
  shows "\<exists>d. write_loop wr n c out = Some (Inr (False, d, out @ unsent c)) \<and> reply_list d = [] \<and>
    cur_resp_pos d = 0 \<and> same_conn c d"
  using assms(1)
proof (induction "length (unsent c)" arbitrary: c n out rule: less_induct)
  case less
  show ?case
  proof (cases "reply_list c = []")
    case True
    then show ?thesis using less.prems by (subst write_loop.simps) (simp add: unsent_def replies_ok_def)
  next
    case False
    from write_loop_progress [OF less.prems False assms(2), of n out] obtain m k where
      k: "0 < k" "k \<le> length (unsent c)" "unsent (sent k c) = drop k (unsent c)" "replies_ok (sent k c)"
        "write_loop wr n c out = write_loop wr m (sent k c) (out @ take k (unsent c))" by blast
    then have "length (unsent (sent k c)) < length (unsent c)" by auto
    from less.hyps [OF this k(4), of m "out @ take k (unsent c)"] k(3,5) obtain d where
      "write_loop wr n c out = Some (Inr (False, d, (out @ take k (unsent c)) @ drop k (unsent c)))"
      "reply_list d = []" "cur_resp_pos d = 0" "same_conn (sent k c) d" by auto
    then show ?thesis using same_conn_trans [OF same_conn_sent] by auto
  qed
qed

text \<open>
  Whatever the socket does, a loop that ends has sent a first part of the replies, in order and
  each byte once, and keeps the rest; it asks to close the connection unless nothing is left.
\<close>

lemma write_loop_prefix:
  assumes "write_loop wr n c out = Some r" "replies_ok c"
  shows "\<exists>cl d bs. r = Inr (cl, d, out @ bs) \<and> bs @ unsent d = unsent c \<and> replies_ok d \<and> same_conn c d \<and>
    (\<not> cl \<longrightarrow> reply_list d = [])"
  using assms
proof (induction rule: write_loop.raw_induct [rotated 1, consumes 1])
  case (1 loop wr n c out r)
  show ?case
  proof (cases "reply_list c")
    case Nil
    then show ?thesis using 1(2,3) by auto
  next
    case (Cons s rest)
    let ?l = "sl_size s - cur_resp_pos c" and ?w = "sock_write_data (wr n) (sl_size s - cur_resp_pos c)"
    note h = replies_ok_head [OF 1(3) Cons]
    consider "?w < 0" | "?w = 0" | "0 < ?w" by linarith
    then show ?thesis
    proof cases
      case 1
      then show ?thesis using \<open>_ = Some r\<close> \<open>replies_ok c\<close> Cons h(4) by (auto simp: Let_def)
    next
      case 2
      then have "loop wr (Suc n) c out = Some r" using \<open>_ = Some r\<close> Cons h(4) by (simp add: Let_def)
      then show ?thesis using "1.IH" 1(3) by blast
    next
      case 3
      have m: "nat ?w \<le> ?l" using sock_write_data_bound(1) [of "wr n" ?l] by simp
      note s = sent_step [OF 1(3) Cons m]
      have "loop wr (Suc n) (sent (nat ?w) c) (out @ take (nat ?w) (unsent c)) = Some r"
        using 3 \<open>_ = Some r\<close> Cons h(4) s(1) by (simp add: Let_def sent_def split: if_splits)
      from "1.IH" [OF this s(3)] obtain cl d bs where
        "r = Inr (cl, d, (out @ take (nat ?w) (unsent c)) @ bs)" "bs @ unsent d = drop (nat ?w) (unsent c)" "replies_ok d"
        "same_conn (sent (nat ?w) c) d" "\<not> cl \<longrightarrow> reply_list d = []" unfolding s(2) by blast
      then show ?thesis
        using same_conn_trans [OF same_conn_sent]
        by (intro exI [of _ cl] exI [of _ d] exI [of _ "take (nat ?w) (unsent c) @ bs"]) auto
    qed
  qed
qed

text \<open>A socket that does not accept anything keeps the worker in the loop.\<close>

lemma write_loop_busy:
  assumes ok: "replies_ok c" and ne: "reply_list c \<noteq> []" and wr: "\<And>i. wr i = W_eagain"
  shows "write_loop wr n c out = None"
proof (rule ccontr)
  assume "write_loop wr n c out \<noteq> None"
  then obtain r where "write_loop wr n c out = Some r" by blast
  then have "\<not> (wr = (\<lambda>_. W_eagain) \<and> reply_list c \<noteq> [])"
  proof (induction rule: write_loop.raw_induct [rotated 1, consumes 1])
    case (1 loop wr n c out r)
    show ?case
    proof
      assume a: "wr = (\<lambda>_. W_eagain) \<and> reply_list c \<noteq> []"
      then have "loop wr (Suc n) c out = Some r"
        using 1(2) by (cases "reply_list c") (simp_all add: Let_def sock_write_data_def)
      then show False using 1(1) a by blast
    qed
  qed
  then show False using wr ne by auto
qed

section \<open>The parser's invariant\<close>

text \<open>
  The connection has received \<open>xs\<close>. Before the header is complete nothing was processed; then the
  connection waits for the body its header announces; once the request was handled
  \<open>bytes_processed\<close> is 65535 and further bytes are only collected.
\<close>

definition parse_inv :: "tcp_connection \<Rightarrow> byte list \<Rightarrow> bool" where
  "parse_inv c xs \<longleftrightarrow> sds_str (querybuf c) xs \<and>
     (if length xs < XHEAD_SIZE then fresh_conn c
      else xh_magic_num (xhead xs) = XHEAD_MAGIC_NUM \<and> current_state c = STATE_BODY \<and>
        bytes_expected c = unat (xh_body_len (xhead xs)) \<and>
        (bytes_processed c = XHEAD_SIZE \<and> length xs < XHEAD_SIZE + bytes_expected c \<or>
         bytes_processed c = 65535 \<and> length xs < 65535 + bytes_expected c))"

text \<open>The parts of a connection that reading leaves alone.\<close>

definition conn_core :: "tcp_connection \<Rightarrow> addr \<times> fd \<times> addr option \<times> addr option \<times> slice list \<times> nat" where
  "conn_core c = (c_addr c, cfd c, io_watcher c, timer_watcher c, reply_list c, cur_resp_pos c)"

lemma run_result_core: "run_result J send wk c xs g = (ret, d, g') \<Longrightarrow> conn_core d = conn_core c \<and> querybuf d = querybuf c"
  by (auto simp: run_result_def to_body_def conn_core_def split: stage.splits prod.splits if_splits)

lemma run_result_inv:
  assumes r: "run_result J send wk c xs g = (0, d, g')" and s: "sds_str (querybuf c) xs"
    and f: "length xs < XHEAD_SIZE \<Longrightarrow> fresh_conn c" and len: "length xs < 65535 + unat (xh_body_len (xhead xs))"
  shows "parse_inv d xs"
proof (cases "length xs < XHEAD_SIZE")
  case True
  then show ?thesis using r s f by (auto simp: parse_inv_def run_result_def stage_of_def)
next
  case False
  then show ?thesis
    using r s len
    by (auto simp: parse_inv_def run_result_def stage_of_def to_body_def Let_def split: if_splits prod.splits)
qed

text \<open>
  A buffer long enough for a second round: the loop handles the request again and again, and can
  only end by asking to close the connection.
\<close>

lemma overflow_run:
  assumes "process_query_buffer J send wk c g = Some y"
    and "sds_str (querybuf c) xs" "XHEAD_SIZE \<le> length xs" "current_state c = STATE_BODY"
      "bytes_expected c = unat (xh_body_len (xhead xs))" "65535 + bytes_expected c \<le> length xs"
      "bytes_processed c = XHEAD_SIZE \<or> bytes_processed c = 65535"
  shows "\<exists>d g'. y = Inr (-1, d, g') \<and> conn_core d = conn_core c"
  using assms
proof (induction rule: process_query_buffer.raw_induct [rotated 1, consumes 1])
  case (1 pqb J send wk c g y)
  let ?n = "bytes_expected c"
  have n: "?n < 2 ^ 32" unfolding 1(6) using unsigned_less [of "xh_body_len (xhead xs)", where 'a = nat] by simp
  have guard: "sdslen (querybuf c) \<ge> (bytes_processed c + ?n) mod 2 ^ 64"
    using 1(7,8) n sds_str_buf(3) [OF 1(3)] by (auto simp: XHEAD_SIZE_def)
  obtain g' ret where rq: "process_request J send wk c (slice_of (sh_buf (querybuf c)) XHEAD_SIZE)
      \<lparr>sl_buffer = sh_buf (querybuf c), sl_off = XHEAD_SIZE, sl_size = ?n\<rparr> g = Inr (g', ret)"
    using process_request_eq [OF 1(3), of ?n J send wk c g] 1(7) by (cases "request J send wk c (xhead xs) (take ?n (drop XHEAD_SIZE xs)) g") (auto simp: XHEAD_SIZE_def)
  note x = xhead_of_buf [OF 1(3,4)]
  show ?case
  proof (cases "ret = 0")
    case False
    then show ?thesis using 1(2) guard x 1(5) rq by (auto simp: Let_def simp flip: 1(6))
  next
    case True
    let ?d = "c\<lparr>bytes_processed := 65535\<rparr>"
    have "pqb J send wk ?d g' = Some y" using 1(2) guard x 1(5) rq True by (simp add: Let_def flip: 1(6))
    from "1.IH" [OF this] 1(3-7) have "\<exists>d g'. y = Inr (-1, d, g') \<and> conn_core d = conn_core ?d" by simp
    then show ?thesis by (simp add: conn_core_def)
  qed
qed

text \<open>
  One run over a buffer that is not long enough for a second round: it ends, and it asks to close
  the connection only for a wrong magic number or a request that fails.
\<close>

lemma process_run:
  assumes p: "parse_inv c xs" and s: "sds_str (querybuf d) (xs @ bs)"
    and d: "current_state d = current_state c" "bytes_processed d = bytes_processed c" "bytes_expected d = bytes_expected c"
    and len: "length (xs @ bs) < 65535 + unat (xh_body_len (xhead (xs @ bs)))"
  shows "\<exists>ret d' g'. process_query_buffer J send wk d g = Some (Inr (ret, d', g')) \<and> conn_core d' = conn_core d \<and>
    (ret = 0 \<longrightarrow> parse_inv d' (xs @ bs)) \<and> (ret \<noteq> 0 \<longrightarrow> stage_of (xs @ bs) = Bad_magic \<or>
      (\<exists>h body. stage_of (xs @ bs) = Full h body \<and> snd (request J send wk d h body g) \<noteq> 0))"
proof -
  have run: ?thesis
    if "process_query_buffer J send wk d g = Some (Inr (run_result J send wk d (xs @ bs) g))"
      "length (xs @ bs) < XHEAD_SIZE \<Longrightarrow> fresh_conn d"
  proof -
    obtain ret d' g' where r: "run_result J send wk d (xs @ bs) g = (ret, d', g')"
      by (cases "run_result J send wk d (xs @ bs) g") auto
    have "parse_inv d' (xs @ bs)" if "ret = 0"
      by (rule run_result_inv [OF _ s \<open>length (xs @ bs) < XHEAD_SIZE \<Longrightarrow> fresh_conn d\<close> len]) (use r that in auto)
    moreover have "stage_of (xs @ bs) = Bad_magic \<or>
        (\<exists>h body. stage_of (xs @ bs) = Full h body \<and> snd (request J send wk d h body g) \<noteq> 0)" if "ret \<noteq> 0"
      using r that by (auto simp: run_result_def split: stage.splits prod.splits if_splits)
    ultimately show ?thesis using that(1) r run_result_core [OF r] by auto
  qed
  show ?thesis
  proof (cases "length xs < XHEAD_SIZE")
    case less: True
    then have f: "fresh_conn d" using p d by (simp add: parse_inv_def fresh_conn_def)
    show ?thesis by (rule run [OF head_run [OF f s len]]) (rule f)
  next
    case False
    then have h: "XHEAD_SIZE \<le> length xs" "XHEAD_SIZE \<le> length (xs @ bs)" by simp_all
    have e: "xhead (xs @ bs) = xhead xs" by (rule xhead_append [OF h(1)])
    have q: "xh_magic_num (xhead (xs @ bs)) = XHEAD_MAGIC_NUM" "current_state d = STATE_BODY"
      "bytes_expected d = unat (xh_body_len (xhead (xs @ bs)))"
      "bytes_processed d = XHEAD_SIZE \<or> bytes_processed d = 65535"
      using p d h e by (auto simp: parse_inv_def)
    show ?thesis
    proof (cases "bytes_processed d = XHEAD_SIZE")
      case True
      then have b: "body_conn (unat (xh_body_len (xhead (xs @ bs)))) d" using q by (simp add: body_conn_def)
      show ?thesis
        by (rule run [OF body_run [OF b s h(2) q(1) len]]) (use h(2) in simp)
    next
      case False
      then have bp: "bytes_processed d = 65535" using q(4) by blast
      have "unat (xh_body_len (xhead (xs @ bs))) < 2 ^ 32" using unsigned_less [of "xh_body_len (xhead (xs @ bs))", where 'a = nat] by simp
      then have "process_query_buffer J send wk d g = Some (Inr (0, d, g))"
        using bp q(3) len sds_str_buf(3) [OF s] by (subst process_query_buffer.simps) simp
      moreover have "parse_inv d (xs @ bs)" using s h(2) q bp len unfolding parse_inv_def by simp
      ultimately show ?thesis by auto
    qed
  qed
qed

text \<open>The header is complete before the buffer is long enough for a second round.\<close>

lemma overflow_head:
  assumes p: "parse_inv c xs" and b: "length bs \<le> bytes_expected c"
    and len: "\<not> length (xs @ bs) < 65535 + unat (xh_body_len (xhead (xs @ bs)))"
  shows "XHEAD_SIZE \<le> length xs" "xhead (xs @ bs) = xhead xs"
proof -
  show h: "XHEAD_SIZE \<le> length xs"
  proof (rule ccontr)
    assume "\<not> XHEAD_SIZE \<le> length xs"
    then have "length (xs @ bs) < XHEAD_SIZE + XHEAD_SIZE" using p b by (simp add: parse_inv_def fresh_conn_def)
    with len show False by (simp add: XHEAD_SIZE_def)
  qed
  show "xhead (xs @ bs) = xhead xs" by (rule xhead_append [OF h])
qed

lemma process_inv:
  assumes p: "parse_inv c xs" and s: "sds_str (querybuf d) (xs @ bs)" and b: "length bs \<le> bytes_expected c"
    and d: "current_state d = current_state c" "bytes_processed d = bytes_processed c" "bytes_expected d = bytes_expected c"
    and y: "process_query_buffer J send wk d g = Some y"
  shows "\<exists>ret d' g'. y = Inr (ret, d', g') \<and> conn_core d' = conn_core d \<and> (ret = 0 \<longrightarrow> (\<exists>ys. parse_inv d' ys))"
proof (cases "length (xs @ bs) < 65535 + unat (xh_body_len (xhead (xs @ bs)))")
  case True
  then show ?thesis using process_run [OF p s d True, of J send wk g] y by fastforce
next
  case False
  note h = overflow_head [OF p b False]
  have "\<exists>d' g'. y = Inr (-1, d', g') \<and> conn_core d' = conn_core d"
    by (rule overflow_run [OF y s]) (use p h False d in \<open>auto simp: parse_inv_def\<close>)
  then show ?thesis by auto
qed

lemma parse_inv_bounds:
  assumes "parse_inv c xs"
  shows "sds_str (querybuf c) xs" "length xs < 65535 + bytes_expected c"
  using assms by (auto simp: parse_inv_def fresh_conn_def XHEAD_SIZE_def split: if_splits)

lemma sds_write_nil: "sds_str s xs \<Longrightarrow> sds_write s (length xs) [] = Inr s"
  using sds_str_buf(2) [of s xs] by (simp add: sds_write_def write_at_def)

text \<open>A read event: the connection is closed, or some bytes are appended and the buffer is processed.\<close>

lemma conn_read_shape:
  assumes p: "parse_inv c xs" and be: "bytes_expected c < 2 ^ 29" and mem: "mem_ok al"
  shows "(\<exists>qb. conn_read al nd J send wk r t c g = Some (Inr (True, c\<lparr>querybuf := qb, last_interaction := t\<rparr>, g))) \<or>
    (\<exists>qb bs. sds_str qb (xs @ bs) \<and> length bs \<le> bytes_expected c \<and>
       conn_read al nd J send wk r t c g = map_option (\<lambda>m. rbind m (\<lambda>(ret, c3, g3). Inr (ret \<noteq> 0, c3, g3)))
         (process_query_buffer J send wk (c\<lparr>last_interaction := t, querybuf := qb\<rparr>) g))"
proof -
  note pb = parse_inv_bounds [OF p]
  note b = sds_str_buf [OF pb(1)]
  have rl: "to_int32 (int (bytes_expected c)) = int (bytes_expected c)"
    "nat (to_size_t (int (bytes_expected c))) = bytes_expected c"
    "to_int32 (int (sdslen (querybuf c))) = int (length xs)"
    using be b by simp_all
  have room: "sds_grown (length xs + bytes_expected c) < 2 ^ 31"
    using pb(2) be by (simp add: sds_grown_def SDS_MAX_PREALLOC_def)
  then have "zalloc_ok al (8 + sds_grown (length xs + bytes_expected c) + 1)" using mem by (simp add: mem_ok_def)
  then obtain qb0 where q0: "sdsMakeRoomFor al (querybuf c) (bytes_expected c) = Inr qb0" "sds_str qb0 xs"
    "bytes_expected c \<le> sdsavail qb0" using sdsMakeRoomFor_str [OF pb(1) room] by blast
  have sl: "sdslen qb0 = length xs" by (rule sds_str_buf(3) [OF q0(2)])
  show ?thesis
  proof (cases rule: sock_read_data_cases [of r "bytes_expected c"])
    case 1
    then have "sock_read_data r (bytes_expected c) = (-1, [])" by (simp add: prod_eq_iff)
    then show ?thesis using q0 sds_write_nil [OF q0(2)] unfolding conn_read_def rl Let_def
      by (intro disjI1 exI [of _ qb0]) simp
  next
    case 2
    have "conn_read al nd J send wk r t c g = map_option (\<lambda>m. rbind m (\<lambda>(ret, c3, g3). Inr (ret \<noteq> 0, c3, g3)))
        (process_query_buffer J send wk (c\<lparr>last_interaction := t, querybuf := qb0\<rparr>) g)"
      using 2 q0 sds_write_nil [OF q0(2)] unfolding conn_read_def rl Let_def by simp
    then show ?thesis using q0(2) by (intro disjI2 exI [of _ qb0] exI [of _ "[]"]) simp
  next
    case (3 bs)
    obtain qb1 qb2 where q1: "sds_write qb0 (sdslen qb0) bs = Inr qb1"
      and q2: "sdsIncrLen nd qb1 (int (length bs)) = Inr qb2" "sds_str qb2 (xs @ bs)"
      using sds_write_incr [OF q0(2), of bs nd] 3(3) q0(3) by auto
    have "conn_read al nd J send wk r t c g = map_option (\<lambda>m. rbind m (\<lambda>(ret, c3, g3). Inr (ret \<noteq> 0, c3, g3)))
        (process_query_buffer J send wk (c\<lparr>last_interaction := t, querybuf := qb2\<rparr>) g)"
      using 3(1,2) q0(1) q1 q2(1) sl unfolding conn_read_def rl Let_def by simp
    then show ?thesis using q2(2) 3(3) by blast
  qed
qed

text \<open>
  Reading never faults while the announced body stays below half a gigabyte, changes nothing but the
  receive side, and keeps the parser's invariant unless it asks to close the connection.
\<close>

lemma conn_read_inv:
  assumes p: "parse_inv c xs" and be: "bytes_expected c < 2 ^ 29" and mem: "mem_ok al"
    and m: "conn_read al nd J send wk r t c g = Some m"
  shows "\<exists>cl d g'. m = Inr (cl, d, g') \<and> conn_core d = conn_core c \<and> (\<not> cl \<longrightarrow> (\<exists>ys. parse_inv d ys))"
  using conn_read_shape [OF p be mem, of nd J send wk r t g]
proof (elim disjE exE conjE)
  fix qb assume "conn_read al nd J send wk r t c g = Some (Inr (True, c\<lparr>querybuf := qb, last_interaction := t\<rparr>, g))"
  then show ?thesis using m by (auto simp: conn_core_def)
next
  fix qb bs assume qb: "sds_str qb (xs @ bs)" "length bs \<le> bytes_expected c"
    and e: "conn_read al nd J send wk r t c g = map_option (\<lambda>m. rbind m (\<lambda>(ret, c3, g3). Inr (ret \<noteq> 0, c3, g3)))
         (process_query_buffer J send wk (c\<lparr>last_interaction := t, querybuf := qb\<rparr>) g)"
  from e m have "map_option (\<lambda>m. rbind m (\<lambda>(ret, c3, g3). Inr (ret \<noteq> 0, c3, g3)))
      (process_query_buffer J send wk (c\<lparr>last_interaction := t, querybuf := qb\<rparr>) g) = Some m" by metis
  then obtain y where y: "process_query_buffer J send wk (c\<lparr>last_interaction := t, querybuf := qb\<rparr>) g = Some y"
    "m = rbind y (\<lambda>(ret, c3, g3). Inr (ret \<noteq> 0, c3, g3))" by auto
  have "\<exists>ret d' g'. y = Inr (ret, d', g') \<and> conn_core d' = conn_core (c\<lparr>last_interaction := t, querybuf := qb\<rparr>) \<and>
      (ret = 0 \<longrightarrow> (\<exists>ys. parse_inv d' ys))"
    by (rule process_inv [OF p _ qb(2) _ _ _ y(1)]) (use qb(1) in simp_all)
  then show ?thesis using y(2) by (auto simp: conn_core_def)
qed

text \<open>Reading returns while fewer than 65535 bytes have been buffered.\<close>

lemma conn_read_returns:
  assumes p: "parse_inv c xs" and be: "bytes_expected c < 2 ^ 29" and mem: "mem_ok al" and len: "length xs < 65535"
  shows "conn_read al nd J send wk r t c g \<noteq> None"
  using conn_read_shape [OF p be mem, of nd J send wk r t g]
proof (elim disjE exE conjE)
  fix qb bs assume qb: "sds_str qb (xs @ bs)" "length bs \<le> bytes_expected c"
    and e: "conn_read al nd J send wk r t c g = map_option (\<lambda>m. rbind m (\<lambda>(ret, c3, g3). Inr (ret \<noteq> 0, c3, g3)))
         (process_query_buffer J send wk (c\<lparr>last_interaction := t, querybuf := qb\<rparr>) g)"
  have "length (xs @ bs) < 65535 + unat (xh_body_len (xhead (xs @ bs)))"
    using p qb(2) len xhead_append [of xs bs] by (auto simp: parse_inv_def fresh_conn_def XHEAD_SIZE_def split: if_splits)
  from process_run [OF p _ _ _ _ this, of "c\<lparr>last_interaction := t, querybuf := qb\<rparr>" J send wk g] qb(1) e show ?thesis by auto
qed simp

lemma TcpConnection_ok:
  assumes "zalloc_ok al 9"
  shows "\<exists>c. TcpConnection al a fd = Inr c \<and> parse_inv c [] \<and> replies_ok c \<and>
    c_addr c = a \<and> cfd c = fd \<and> reply_list c = []"
  using sdsempty_str [OF assms]
  by (auto simp: TcpConnection_def parse_inv_def fresh_conn_def replies_ok_def XHEAD_SIZE_def)

section \<open>Replies\<close>

lemma unat_head_plus: "n < 2 ^ 31 \<Longrightarrow> unat (of_nat XHEAD_SIZE + of_nat n :: u32) = XHEAD_SIZE + n"
proof -
  assume n: "n < 2 ^ 31"
  have "of_nat XHEAD_SIZE + of_nat n = (of_nat (XHEAD_SIZE + n) :: u32)" by (simp only: of_nat_add)
  then show ?thesis using n by (simp only: unat_of_nat) (simp add: XHEAD_SIZE_def)
qed

text \<open>A JSON text that fits is sent whole, behind the request's header with the new length.\<close>

lemma make_reply_ok:
  assumes h: "xhead_of_bytes header = Inr xh" and j: "length json < MAX_RES_BUF" "0 \<notin> set json"
    and mem: "zalloc_ok al (XHEAD_SIZE + MAX_RES_BUF)"
  shows "\<exists>s. make_reply al header json = Inr s \<and> reply_ok s \<and>
    slice_bytes s = wire (xh\<lparr>xh_body_len := of_nat (length json)\<rparr>) json"
proof -
  have hl: "XHEAD_SIZE \<le> length header" using h by (simp add: xhead_of_bytes_def split: if_splits)
  let ?m = "map (junk al) [0..<XHEAD_SIZE + MAX_RES_BUF]" and ?n = "of_nat (length json) :: u32"
  let ?b = "write_at ?m 0 (take XHEAD_SIZE header)"
  have b: "length ?b = XHEAD_SIZE + MAX_RES_BUF" "take XHEAD_SIZE ?b = take XHEAD_SIZE header"
    using hl by (simp_all add: write_at_def)
  have xb: "xhead_of_bytes ?b = Inr xh"
  proof -
    have "xhead_of_bytes ?b = xhead_of_bytes (take XHEAD_SIZE ?b)" using b(1) by (intro xhead_of_bytes_take [symmetric]) simp_all
    also have "\<dots> = xhead_of_bytes header" unfolding b(2) using hl by (intro xhead_of_bytes_take) simp_all
    finally show ?thesis using h by simp
  qed
  let ?c = "set_body_len ?b ?n" and ?xh = "xh\<lparr>xh_body_len := ?n\<rparr>"
  have c: "length ?c = XHEAD_SIZE + MAX_RES_BUF" "take XHEAD_SIZE ?c = bytes_of_xhead ?xh"
    using b(1) bytes_of_xhead_of_bytes [OF xhead_of_set_body_len [OF xb, of ?n]] by simp_all
  have tw: "takeWhile (\<lambda>b. b \<noteq> 0) json = json" using j(2) by (intro takeWhile_eq_all_conv [THEN iffD2]) auto
  let ?d = "snprintf_s ?c XHEAD_SIZE MAX_RES_BUF json"
  have d: "?d = take XHEAD_SIZE ?c @ json @ [0] @ drop (XHEAD_SIZE + length json + 1) ?c"
    using j(1) by (simp add: snprintf_s_def tw write_at_def)
  have un: "unat ?n = length json" using j(1) by (simp add: unat_of_nat MAX_RES_BUF_def)
  have sz: "unat (of_nat XHEAD_SIZE + ?n) = XHEAD_SIZE + length json"
    using j(1) by (intro unat_head_plus) (simp add: MAX_RES_BUF_def)
  let ?s = "slice_of ?d (XHEAD_SIZE + length json)"
  have l: "length (take XHEAD_SIZE ?c) = XHEAD_SIZE" using c(1) by simp
  have "slice_bytes ?s = wire ?xh json"
    unfolding slice_bytes_def slice_of_def wire_def d using l c(2) by simp
  moreover have "XHEAD_SIZE + length json \<le> length ?d" unfolding d using l by simp
  then have "reply_ok ?s"
    using j(1) by (simp add: reply_ok_def slice_wf_def slice_of_def) (simp add: XHEAD_SIZE_def MAX_RES_BUF_def)
  ultimately show ?thesis using hl mem sz by (simp add: make_reply_def Let_def)
qed

text \<open>A longer text does not fit, but the reply has the full length: its end lies outside the block.\<close>

lemma make_reply_overrun:
  assumes "XHEAD_SIZE \<le> length header" "MAX_RES_BUF < length json" "length json < 2 ^ 31"
    and "zalloc_ok al (XHEAD_SIZE + MAX_RES_BUF)"
  shows "\<exists>s. make_reply al header json = Inr s \<and> \<not> slice_wf s"
proof -
  let ?n = "of_nat (length json) :: u32"
  have sz: "unat (of_nat XHEAD_SIZE + ?n) = XHEAD_SIZE + length json"
    using assms(3) by (intro unat_head_plus) simp
  have "length (snprintf_s (set_body_len (write_at (map (junk al) [0..<XHEAD_SIZE + MAX_RES_BUF]) 0 (take XHEAD_SIZE header)) ?n)
      XHEAD_SIZE MAX_RES_BUF json) = XHEAD_SIZE + MAX_RES_BUF"
    using assms(1) by (auto simp: snprintf_s_def write_at_def set_body_len_def XHEAD_SIZE_def MAX_RES_BUF_def min_def)
  with assms sz show ?thesis by (simp add: make_reply_def Let_def slice_wf_def slice_of_def)
qed

end
