(* ===== verification/Conn_Memory.thy ===== *)
theory Conn_Memory
  imports Sds_Heap Tcp_Connection
begin

text \<open>
  The memory of a connection over its life: the constructor of \<open>TcpConnection\<close> allocates the receive buffer,
  \<open>read_query\<close> grows it and stores what was read, \<open>response_server_offer\<close> allocates a block for every reply,
  \<open>write_reply\<close> frees the block of a reply that is sent, and the destructor frees the buffer. The operations
  here are the calls of the allocator and of the dynamic strings that these functions make, on the memory of
  \<open>Zmalloc\<close>; what is sent and which events are awaited is the matter of \<open>Tcp_Connection\<close>.
\<close>

section \<open>Operations\<close>







section \<open>The life of a connection\<close>









section \<open>What a connection owns\<close>












section \<open>What is left\<close>



section \<open>Properties\<close>



end
