(* ===== verification/Conn_Props.thy ===== *)
theory Conn_Props
  imports Conn_Proofs
begin

text \<open>
  The properties of one connection: requests, whatever the network does to the stream; a client
  that keeps sending after its request; and the replies.
\<close>

section \<open>A client that keeps sending\<close>

lemma overflow_diverges:
  assumes p: "parse_inv c xs" and s: "sds_str (querybuf d) (xs @ bs)" and b: "length bs \<le> bytes_expected c"
    and d: "current_state d = current_state c" "bytes_processed d = bytes_processed c" "bytes_expected d = bytes_expected c"
    and len: "\<not> length (xs @ bs) < 65535 + unat (xh_body_len (xhead (xs @ bs)))"
    and zero: "\<And>h. snd (request J send wk d (xhead (xs @ bs)) (take (bytes_expected d) (drop XHEAD_SIZE (xs @ bs))) h) = 0"
  shows "process_query_buffer J send wk d g = None"
proof -
  note h = overflow_head [OF p b len]
  let ?e = "d\<lparr>bytes_processed := 65535\<rparr>" and ?n = "bytes_expected d"
  have q: "current_state d = STATE_BODY" "?n = unat (xh_body_len (xhead (xs @ bs)))" "65535 + ?n \<le> length (xs @ bs)"
    "XHEAD_SIZE \<le> length (xs @ bs)" "bytes_processed d = XHEAD_SIZE \<or> bytes_processed d = 65535"
    using p h d len by (auto simp: parse_inv_def)
  have n: "?n < 2 ^ 32" unfolding q(2) using unsigned_less [of "xh_body_len (xhead (xs @ bs))", where 'a = nat] by simp
  have rq: "request J send wk ?e = request J send wk d" by (rule request_conn) simp_all
  have none: "process_query_buffer J send wk ?e k = None" for k
    by (rule process_query_buffer_diverges [of ?e "xs @ bs"]) (use s q zero rq in simp_all)
  have g1: "sdslen (querybuf d) \<ge> (bytes_processed d + ?n) mod 2 ^ 64"
    using q(3,5) n sds_str_buf(3) [OF s] by (auto simp: XHEAD_SIZE_def)
  have pr: "process_request J send wk d (slice_of (sh_buf (querybuf d)) XHEAD_SIZE)
      \<lparr>sl_buffer = sh_buf (querybuf d), sl_off = XHEAD_SIZE, sl_size = ?n\<rparr> g =
    Inr (fst (request J send wk d (xhead (xs @ bs)) (take ?n (drop XHEAD_SIZE (xs @ bs))) g), 0)"
    using process_request_eq [OF s, of ?n J send wk d g] q(3) zero [of g] by (simp add: XHEAD_SIZE_def prod_eq_iff)
  show ?thesis
    using g1 q(1) xhead_of_buf [OF s q(4)] pr none by (subst process_query_buffer.simps) (simp add: Let_def flip: q(2))
qed

lemma wire_stage:
  assumes g: "good_request h body" and e: "xs @ net = wire h body @ extra"
  shows "XHEAD_SIZE \<le> length xs \<Longrightarrow> xhead xs = h" "stage_of xs \<noteq> Bad_magic" "stage_of xs = Full h' b' \<Longrightarrow> h' = h \<and> b' = body"
    "XHEAD_SIZE + length body \<le> length xs \<Longrightarrow> take (length body) (drop XHEAD_SIZE xs) = body"
proof -
  have wf: "xhead_wf h" and n: "unat (xh_body_len h) = length body" and m: "xh_magic_num h = XHEAD_MAGIC_NUM"
    using g by (simp_all add: good_request_def)
  have hd: "xhead xs = h" if "XHEAD_SIZE \<le> length xs"
  proof -
    have "xhead xs = xhead (xs @ net)" by (rule xhead_append [OF that, symmetric])
    also have "\<dots> = h" using xhead_of_bytes_of_xhead [OF wf] by (simp add: e wire_def xhead_def)
    finally show ?thesis .
  qed
  then show "XHEAD_SIZE \<le> length xs \<Longrightarrow> xhead xs = h" .
  show "stage_of xs \<noteq> Bad_magic" using hd m by (auto simp: stage_of_def Let_def)
  have body: "take (length body) (drop XHEAD_SIZE xs) = body" if "XHEAD_SIZE + length body \<le> length xs"
  proof -
    have "take (length body) (drop XHEAD_SIZE xs) = take (length body) (drop XHEAD_SIZE (xs @ net))" using that by simp
    also have "\<dots> = body" using wf by (simp add: e wire_def)
    finally show ?thesis .
  qed
  then show "XHEAD_SIZE + length body \<le> length xs \<Longrightarrow> take (length body) (drop XHEAD_SIZE xs) = body" .
  show "stage_of xs = Full h' b' \<Longrightarrow> h' = h \<and> b' = body"
    using hd n body by (auto simp: stage_of_def Let_def split: if_splits)
qed

lemma parse_inv_unfinished:
  assumes g: "good_request h body" and p: "parse_inv c xs" and e: "xs @ net = wire h body @ extra" and ne: "body \<noteq> []"
  shows "0 < bytes_expected c" "bytes_expected c < 2 ^ 29" "length xs < 65535 + bytes_expected c"
    "length xs < 65535 + length body"
proof -
  have n: "unat (xh_body_len h) = length body" "length body < 2 ^ 29" "0 < length body"
    using g ne by (simp_all add: good_request_def)
  then show "0 < bytes_expected c" "bytes_expected c < 2 ^ 29" "length xs < 65535 + length body"
    using p wire_stage(1) [OF g e] by (auto simp: parse_inv_def fresh_conn_def XHEAD_SIZE_def split: if_splits)
  show "length xs < 65535 + bytes_expected c" by (rule parse_inv_bounds(2) [OF p])
qed

lemma stream_diverges:
  assumes g: "good_request h body" and mem: "mem_ok al" and ne: "body \<noteq> []"
    and zero: "\<And>k. snd (request J send wk c0 h body k) = 0"
    and long: "65535 + length body \<le> length (wire h body @ extra)"
    and "parse_inv c xs" "xs @ net = wire h body @ extra" "length net \<le> length ks"
      "c_addr c = c_addr c0" "cfd c = cfd c0"
  shows "conn_stream al nd J send wk t ks net c g0 = None"
  using assms(6-)
proof (induction ks arbitrary: c xs net g0)
  case Nil
  then show ?case using parse_inv_unfinished(4) [OF g Nil.prems(1,2) ne] long by (simp flip: Nil.prems(2))
next
  case (Cons k ks)
  note u = parse_inv_unfinished [OF g Cons.prems(1,2) ne]
  have net: "net \<noteq> []" using u(4) long by (auto simp flip: Cons.prems(2))
  define bs where "bs = take (bytes_expected c) (take (Suc k) net)"
  define net1 where "net1 = drop (length bs) net"
  have bs: "bs \<noteq> []" "net = bs @ net1" "length bs \<le> bytes_expected c"
    using net u(1) by (auto simp: bs_def net1_def min_def take_Suc_conv_app_nth)
  have e1: "(xs @ bs) @ net1 = wire h body @ extra" using Cons.prems(2) bs(2) by simp
  have ne1: "take (Suc k) net \<noteq> []" using net by simp
  from conn_read_step [OF parse_inv_bounds(1) [OF Cons.prems(1)] u(1-3) mem ne1 bs_def, of nd J send wk t g0]
  obtain qb where qb: "sds_str qb (xs @ bs)"
    and rd: "conn_read al nd J send wk (R_bytes (take (Suc k) net)) t c g0 =
      map_option (\<lambda>m. rbind m (\<lambda>(ret, c3, g3). Inr (ret \<noteq> 0, c3, g3)))
      (process_query_buffer J send wk (c\<lparr>last_interaction := t, querybuf := qb\<rparr>) g0)" by blast
  let ?d = "c\<lparr>last_interaction := t, querybuf := qb\<rparr>"
  have rq: "request J send wk ?d = request J send wk c0" by (rule request_conn) (simp_all add: Cons.prems)
  have q: "sds_str (querybuf ?d) (xs @ bs)" using qb by simp
  have n: "unat (xh_body_len h) = length body" using g by (simp add: good_request_def)
  show ?case
  proof (cases "length (xs @ bs) < 65535 + unat (xh_body_len (xhead (xs @ bs)))")
    case False
    note oh = overflow_head [OF Cons.prems(1) bs(3) False]
    have hd: "xhead (xs @ bs) = h" using wire_stage(1) [OF g e1] oh(1) by simp
    have be: "bytes_expected ?d = length body" using Cons.prems(1) oh hd n by (simp add: parse_inv_def)
    have "take (length body) (drop XHEAD_SIZE (xs @ bs)) = body"
      by (rule wire_stage(4) [OF g e1]) (use False hd n in \<open>simp add: XHEAD_SIZE_def\<close>)
    then have "process_query_buffer J send wk ?d g0 = None"
      by (intro overflow_diverges [OF Cons.prems(1) q bs(3) _ _ _ False])
         (use zero rq hd be in \<open>simp_all del: drop_append take_append\<close>)
    then show ?thesis using net rd by simp
  next
    case True
    from process_run [OF Cons.prems(1) q _ _ _ True, of J send wk g0] obtain ret d' g' where
      r: "process_query_buffer J send wk ?d g0 = Some (Inr (ret, d', g'))" "conn_core d' = conn_core ?d"
        "ret = 0 \<Longrightarrow> parse_inv d' (xs @ bs)"
        "ret \<noteq> 0 \<Longrightarrow> stage_of (xs @ bs) = Bad_magic \<or>
          (\<exists>h body. stage_of (xs @ bs) = Full h body \<and> snd (request J send wk ?d h body g0) \<noteq> 0)" by auto
    have r0: "ret = 0" using r(4) wire_stage(2,3) [OF g e1] zero rq by metis
    have "conn_stream al nd J send wk t ks net1 d' g' = None"
    proof (rule Cons.IH [OF r(3) [OF r0] e1])
      show "length net1 \<le> length ks" using Cons.prems(3) bs by (cases bs) auto
    qed (use r(2) Cons.prems in \<open>simp_all add: conn_core_def\<close>)
    then show ?thesis using net rd r(1) r0 by (simp add: bs_def net1_def)
  qed
qed

section \<open>Properties\<close>

text \<open>
  A concrete environment: memory that is always there, a JSON library that finds the command
  number \<open>k\<close> and the members of a push request in every text, and a media server that records the
  messages it is sent.
\<close>

definition demo_json :: "int \<Rightarrow> unit json_lib" where
  "demo_json k = \<lparr>j_parse = \<lambda>s. Some (), j_int = \<lambda>j m. Some k, j_uint64 = \<lambda>j m. Some 7,
     j_string = \<lambda>j m. Some (cstr ''xrtc''), j_reply = \<lambda>e m s. cstr ''ok''\<rparr>"

definition demo_send :: "rtc_msg list send" where
  "demo_send msg ms = (ms @ [msg], 0)"

lemma demo_mem [simp]: "mem_ok demo_al"
  by (simp add: mem_ok_def)

lemma demo_good: "good_request demo_xhead [1, 2, 3, 4, 5]"
  by (simp add: good_request_def xhead_wf_def demo_xhead_def)

text \<open>
  C7: a well-formed request (header and body) on a new connection is handled exactly once, and
  only when its last byte is there, however the network cuts the stream into read events: the
  request is passed on with the header and the body that were sent, nothing is left unread, and the
  connection is closed exactly when handling the request fails.
\<close>

theorem request_any_segmentation:
  assumes "good_request h body" "mem_ok al" "TcpConnection al a fd = Inr c" "length (wire h body) \<le> length ks"
  shows "\<exists>d. conn_stream al nd J send wk t ks (wire h body) c g =
    (case request J send wk c h body g of (g', ret) \<Rightarrow> Some (Inr (ret \<noteq> 0, d, g', []))) \<and>
    c_addr d = a \<and> cfd d = fd"
proof -
  have "zalloc_ok al 9" using assms(2) by (simp add: mem_ok_def)
  from TcpConnection_ok [OF this, of a fd] assms(3) have c: "parse_inv c []" "c_addr c = a" "cfd c = fd" by auto
  have w: "wire h body \<noteq> []" using length_wire [OF assms(1)] by (auto simp: XHEAD_SIZE_def)
  have "partial_conn c []" using c(1) by (simp add: partial_conn_def parse_inv_def stage_of_def XHEAD_SIZE_def)
  from conn_stream_request [OF assms(1,2) this _ w assms(4)] show ?thesis using c by simp
qed

theorem request_any_segmentation_witness:
  "\<exists>c d ms. TcpConnection demo_al 100 7 = Inr c \<and>
     conn_stream demo_al False (demo_json CMDNO_PUSH) demo_send 1 0 (replicate 41 0) (wire demo_xhead [1, 2, 3, 4, 5]) c [] =
       Some (Inr (False, d, ms, [])) \<and> length ms = 1 \<and> m_conn (hd ms) = Some 100 \<and> log_id (hd ms) = 3"
proof -
  obtain c where c: "TcpConnection demo_al 100 7 = Inr c" "c_addr c = 100" "cfd c = 7"
    using TcpConnection_ok [of demo_al 100 7] by auto
  have "length (wire demo_xhead [1, 2, 3, 4, 5]) \<le> length (replicate 41 (0 :: nat))"
    using length_wire [OF demo_good] by (simp add: XHEAD_SIZE_def)
  from request_any_segmentation [OF demo_good demo_mem c(1) this, of False "demo_json CMDNO_PUSH" demo_send 1 0 "[]"] c
  show ?thesis by (auto simp: request_def demo_json_def process_push_def demo_send_def demo_xhead_def)
qed

text \<open>
  C8: a client that goes on sending after a request that was handled well makes the worker loop
  for ever: once the buffer holds 65535 bytes more than the body, \<open>process_query_buffer\<close> handles the
  same request again and again and does not return, whatever the cuts of the stream are.
\<close>

theorem endless_request:
  assumes "good_request h body" "body \<noteq> []" "mem_ok al" "TcpConnection al a fd = Inr c"
    "\<And>k. snd (request J send wk c h body k) = 0" "65535 + length body \<le> length (wire h body @ extra)"
    "length (wire h body @ extra) \<le> length ks"
  shows "conn_stream al nd J send wk t ks (wire h body @ extra) c g = None"
proof -
  have "zalloc_ok al 9" using assms(3) by (simp add: mem_ok_def)
  from TcpConnection_ok [OF this, of a fd] assms(4) have "parse_inv c []" by auto
  from stream_diverges [OF assms(1,3,2,5,6) this _ assms(7)] show ?thesis by simp
qed

theorem endless_request_witness:
  "\<exists>c. TcpConnection demo_al 100 7 = Inr c \<and>
     conn_stream demo_al False (demo_json CMDNO_PULL) demo_send 1 0 (replicate 70000 0)
       (wire demo_xhead [1, 2, 3, 4, 5] @ replicate 69000 0) c [] = None"
proof -
  obtain c where c: "TcpConnection demo_al 100 7 = Inr c" using TcpConnection_ok [of demo_al 100 7] by auto
  have "conn_stream demo_al False (demo_json CMDNO_PULL) demo_send 1 0 (replicate 70000 0)
      (wire demo_xhead [1, 2, 3, 4, 5] @ replicate 69000 0) c [] = None"
    by (rule endless_request [OF demo_good _ demo_mem c])
       (use length_wire [OF demo_good] in \<open>simp_all add: XHEAD_SIZE_def request_def demo_json_def CMDNO_PULL_def CMDNO_PUSH_def\<close>)
  with c show ?thesis by blast
qed

text \<open>
  A reply whose JSON text is shorter than \<open>MAX_RES_BUF\<close> is, byte for byte, the header of the
  request with the new length followed by the text.
\<close>

theorem reply_on_the_wire:
  assumes "xhead_of_bytes header = Inr xh" "length json < MAX_RES_BUF" "0 \<notin> set json"
    "zalloc_ok al (XHEAD_SIZE + MAX_RES_BUF)"
  shows "\<exists>s. make_reply al header json = Inr s \<and> slice_wf s \<and>
    slice_bytes s = bytes_of_xhead (xh\<lparr>xh_body_len := of_nat (length json)\<rparr>) @ json"
  using make_reply_ok [OF assms] by (auto simp: reply_ok_def wire_def)

theorem reply_on_the_wire_witness:
  "\<exists>s. make_reply demo_al (bytes_of_xhead demo_xhead) [65, 66] = Inr s \<and>
     slice_bytes s = bytes_of_xhead (demo_xhead\<lparr>xh_body_len := 2\<rparr>) @ [65, 66]"
proof -
  have "xhead_of_bytes (bytes_of_xhead demo_xhead) = Inr demo_xhead"
    using xhead_of_bytes_of_xhead [of demo_xhead "[]"] by (simp add: xhead_wf_def demo_xhead_def)
  from reply_on_the_wire [OF this, of "[65, 66]" demo_al] show ?thesis by (auto simp: MAX_RES_BUF_def)
qed

text \<open>
  C27: a longer text is cut off when it is stored, but the reply keeps its full length: the slice
  that is queued reaches past the end of the allocated block.
\<close>

theorem long_reply_overruns:
  assumes "XHEAD_SIZE \<le> length header" "MAX_RES_BUF < length json" "length json < 2 ^ 31"
    "zalloc_ok al (XHEAD_SIZE + MAX_RES_BUF)"
  shows "\<exists>s. make_reply al header json = Inr s \<and> slice_read s (sl_size s) = Inl OutOfBounds"
  using make_reply_overrun [OF assms] by (auto simp: slice_wf_def slice_read_def)

theorem long_reply_overruns_witness:
  "\<exists>s. make_reply demo_al (replicate 36 0) (replicate 5000 65) = Inr s \<and> slice_read s (sl_size s) = Inl OutOfBounds"
  by (rule long_reply_overruns) (simp_all add: XHEAD_SIZE_def MAX_RES_BUF_def)

end
