(* ===== verification/Signaling_Worker.thy ===== *)
theory Signaling_Worker
  imports Event_Loop Conn_Proofs Lock_Free_Queue Msg_Queue
begin

unbundle bit_operations_syntax

text \<open>
  A worker thread of the signalling server (\<open>server/signaling_worker.h\<close>, \<open>.cpp\<close>): its event loop
  with the watchers of the notification pipe and of the connections, the table of connections
  indexed by descriptor, and the two queues through which other threads reach it. The record
  extends the event loop, so that the loop's operations apply to the worker.

  What \<open>new\<close> returns and what a system call gives are arguments. \<open>sys_closed\<close> and \<open>sys_out\<close> record
  the descriptors closed and the bytes handed to sockets; \<open>notify_pipe\<close> is the content of the
  notification pipe.
\<close>

section \<open>The worker\<close>

text \<open>The callbacks the worker registers; \<open>conn_time_cb\<close> gets a pointer into its connection.\<close>

datatype sig_cb = Signaling_worker_recv_notify | Conn_io_cb | Conn_time_cb addr

definition QUIT :: int where "QUIT = 0"

definition NEW_CONN :: int where "NEW_CONN = 1"

definition RTC_MSG :: int where "RTC_MSG = 2"

record sig_worker = "sig_cb event_loop" +
  sw_addr :: addr
  worker_id :: int
  is_start :: bool
  notify_recv_fd :: fd
  notify_send_fd :: fd
  pipe_watcher :: "addr option"
  q_conn :: "fd lfq"
  conns :: "tcp_connection option list"
  connection_timeout :: int
  rtc_msg_queue :: "rtc_msg list"
  notify_pipe :: "int list"
  sys_closed :: "fd list"
  sys_out :: "(fd \<times> byte list) list"

text \<open>The connection in slot \<open>fd\<close>, if the descriptor is in range and the slot is used.\<close>

definition conn_at :: "sig_worker \<Rightarrow> fd \<Rightarrow> tcp_connection option" where
  "conn_at w fd = (if 0 \<le> fd \<and> nat fd < length (conns w) then conns w ! nat fd else None)"

definition set_conn :: "fd \<Rightarrow> tcp_connection option \<Rightarrow> sig_worker \<Rightarrow> sig_worker" where
  "set_conn fd co w = w\<lparr>conns := (conns w)[nat fd := co]\<rparr>"

section \<open>Closing\<close>

definition remove_conn :: "tcp_connection \<Rightarrow> sig_worker \<Rightarrow> sig_worker res" where
  "remove_conn c w =
     (case timer_watcher c of
        None \<Rightarrow> Inl NullDeref
      | Some tw \<Rightarrow> rbind (delete_timer tw w) (\<lambda>w.
          case io_watcher c of
            None \<Rightarrow> Inl NullDeref
          | Some iw \<Rightarrow> rbind (delete_io_event iw w) (\<lambda>w.
              if 0 \<le> cfd c \<and> nat (cfd c) < length (conns w) then Inr (set_conn (cfd c) None w)
              else Inl OutOfBounds)))"

definition close_conn :: "tcp_connection \<Rightarrow> sig_worker \<Rightarrow> sig_worker res" where
  "close_conn c w = remove_conn c (w\<lparr>sys_closed := sys_closed w @ [cfd c]\<rparr>)"

section \<open>Connections\<close>

text \<open>\<open>conns.resize(n)\<close> to a larger size.\<close>

definition grow_conns :: "nat \<Rightarrow> sig_worker \<Rightarrow> sig_worker" where
  "grow_conns n w = w\<lparr>conns := conns w @ replicate (n - length (conns w)) None\<rparr>"

text \<open>
  \<open>new_conn\<close>: \<open>a\<close>, \<open>iw\<close> and \<open>tw\<close> are the addresses of the new connection and its watchers, \<open>peer\<close> is what
  \<open>getpeername\<close> gives. A negative descriptor is logged and then used: libev's assertion stops
  the process.
\<close>

definition new_conn ::
    "allocator \<Rightarrow> addr \<Rightarrow> addr \<Rightarrow> addr \<Rightarrow> (byte list \<times> u16) option \<Rightarrow> fd \<Rightarrow> sig_worker \<Rightarrow> sig_worker res" where
  "new_conn al a iw tw peer fd w =
     rbind (TcpConnection al a fd) (\<lambda>c.
       let c = (case snd (sock_peer_to_str peer) of None \<Rightarrow> c | Some (i, p) \<Rightarrow> c\<lparr>ip := i, port := p\<rparr>);
           c = c\<lparr>io_watcher := Some iw\<rparr>
       in rbind (start_io_event iw fd READ (create_io_event iw Conn_io_cb w)) (\<lambda>w.
          let w = (if nat fd \<ge> length (conns w) then grow_conns (nat fd + 1) w else w);
              c = c\<lparr>timer_watcher := Some tw\<rparr>
          in rbind (start_timer tw 100000 (create_timer tw (Conn_time_cb a) True w)) (\<lambda>w.
             let c = c\<lparr>last_interaction := of_nat (now w)\<rparr>
             in if 0 \<le> fd then Inr (set_conn fd (Some c) w) else Inl OutOfBounds)))"

definition read_query ::
    "allocator \<Rightarrow> bool \<Rightarrow> 'j json_lib \<Rightarrow> 'g send \<Rightarrow> rres \<Rightarrow> fd \<Rightarrow> sig_worker \<Rightarrow> 'g \<Rightarrow> (sig_worker \<times> 'g) res option" where
  "read_query al ndebug J send r fd w g =
     (case conn_at w fd of
        None \<Rightarrow> Some (Inr (w, g))
      | Some c \<Rightarrow>
          (case conn_read al ndebug J send (sw_addr w) r (of_nat (now w)) c g of
             None \<Rightarrow> None
           | Some (Inl e) \<Rightarrow> Some (Inl e)
           | Some (Inr (close, c', g')) \<Rightarrow>
               let w1 = set_conn fd (Some c') w
               in if close then Some (rbind (close_conn c' w1) (\<lambda>w2. Inr (w2, g')))
                  else Some (Inr (w1, g'))))"

definition write_reply :: "(nat \<Rightarrow> wres) \<Rightarrow> fd \<Rightarrow> sig_worker \<Rightarrow> sig_worker res option" where
  "write_reply wr fd w =
     (if fd \<le> 0 then Some (Inr w)
      else case conn_at w fd of
        None \<Rightarrow> Some (Inr w)
      | Some c \<Rightarrow>
          (case write_loop wr 0 c [] of
             None \<Rightarrow> None
           | Some (Inl e) \<Rightarrow> Some (Inl e)
           | Some (Inr (close, c', out)) \<Rightarrow>
               let w1 = (set_conn fd (Some c') w)\<lparr>sys_out := sys_out w @ [(cfd c, out)]\<rparr>
               in if close then Some (close_conn c' w1)
                  else
                    let c2 = c'\<lparr>last_interaction := of_nat (now w1)\<rparr>;
                        w2 = set_conn fd (Some c2) w1
                    in if reply_list c2 = []
                       then (case io_watcher c2 of
                               None \<Rightarrow> Some (Inl NullDeref)
                             | Some iw \<Rightarrow> Some (stop_io_event iw (cfd c2) WRITE w2))
                       else Some (Inr w2)))"

definition add_reply :: "fd \<Rightarrow> tcp_connection \<Rightarrow> slice \<Rightarrow> sig_worker \<Rightarrow> sig_worker res" where
  "add_reply fd c reply w =
     (let c1 = c\<lparr>reply_list := reply_list c @ [reply]\<rparr>
      in case io_watcher c1 of
           None \<Rightarrow> Inl NullDeref
         | Some iw \<Rightarrow> start_io_event iw (cfd c1) WRITE (set_conn fd (Some c1) w))"

definition reply_json :: "'j json_lib \<Rightarrow> rtc_msg \<Rightarrow> byte list" where
  "reply_json J msg =
     (if err_no msg \<noteq> 0 then j_reply J (err_no msg) (cstr ''process error'') []
      else j_reply J (err_no msg) (cstr ''process success'') (sdp msg))"

text \<open>
  \<open>response_server_offer\<close>: the connection is found by descriptor, and must still be the one the
  request came from.
\<close>

definition response_server_offer :: "allocator \<Rightarrow> 'j json_lib \<Rightarrow> rtc_msg \<Rightarrow> sig_worker \<Rightarrow> sig_worker res" where
  "response_server_offer al J msg w =
     (case m_conn msg of
        None \<Rightarrow> Inr w
      | Some c_ptr \<Rightarrow>
          let fd = m_fd msg
          in if fd \<le> 0 then Inr w
             else case conn_at w fd of
               None \<Rightarrow> Inr w
             | Some c \<Rightarrow>
                 if c_addr c \<noteq> c_ptr then Inr w
                 else rbind (make_reply al (sh_buf (querybuf c)) (reply_json J msg)) (\<lambda>reply.
                      add_reply fd c reply w))"

definition process_rtc_msg :: "allocator \<Rightarrow> 'j json_lib \<Rightarrow> sig_worker \<Rightarrow> sig_worker res" where
  "process_rtc_msg al J w =
     (case pop_msg (rtc_msg_queue w) of
        (None, _) \<Rightarrow> Inr w
      | (Some msg, q) \<Rightarrow>
          let w1 = w\<lparr>rtc_msg_queue := q\<rparr>
          in if cmdno msg = CMDNO_PUSH then response_server_offer al J msg w1 else Inr w1)"

definition process_timeout :: "fd \<Rightarrow> sig_worker \<Rightarrow> sig_worker res" where
  "process_timeout fd w =
     (if \<not> (0 \<le> fd \<and> nat fd < length (conns w)) then Inl OutOfBounds
      else case conns w ! nat fd of
        None \<Rightarrow> Inl NullDeref
      | Some c \<Rightarrow>
          if (of_nat (now w) :: u64) - last_interaction c > of_int (connection_timeout w)
          then close_conn c w else Inr w)"

section \<open>Notifications\<close>

text \<open>Whether \<open>write\<close> to the pipe succeeds is an argument.\<close>

definition notify :: "bool \<Rightarrow> int \<Rightarrow> sig_worker \<Rightarrow> sig_worker \<times> int" where
  "notify ok msg w = (if ok then (w\<lparr>notify_pipe := notify_pipe w @ [msg]\<rparr>, 0) else (w, -1))"

definition notify_new_conn :: "bool \<Rightarrow> addr \<Rightarrow> fd \<Rightarrow> sig_worker \<Rightarrow> (sig_worker \<times> int) res" where
  "notify_new_conn ok p fd w = rbind (lfq_enq p fd (q_conn w)) (\<lambda>q. Inr (notify ok NEW_CONN (w\<lparr>q_conn := q\<rparr>)))"

definition send_rtc_msg :: "bool \<Rightarrow> rtc_msg option \<Rightarrow> sig_worker \<Rightarrow> sig_worker \<times> int" where
  "send_rtc_msg ok msg w =
     (case msg of
        None \<Rightarrow> (w, -1)
      | Some m \<Rightarrow> notify ok RTC_MSG (w\<lparr>rtc_msg_queue := push_msg m (rtc_msg_queue w)\<rparr>))"

definition sw_stop :: "bool \<Rightarrow> sig_worker \<Rightarrow> sig_worker" where
  "sw_stop ok w = fst (notify ok QUIT w)"

definition do_stop :: "sig_worker \<Rightarrow> sig_worker res" where
  "do_stop w =
     (if \<not> is_start w then Inr w
      else case pipe_watcher w of
        None \<Rightarrow> Inl NullDeref
      | Some pw \<Rightarrow> rbind (delete_io_event pw w) (\<lambda>w.
          let w = stop w
          in Inr (w\<lparr>sys_closed := sys_closed w @ [notify_recv_fd w, notify_send_fd w]\<rparr>)))"

text \<open>The addresses and the peer are used when the message is \<open>NEW_CONN\<close>.\<close>

definition process_notify ::
    "allocator \<Rightarrow> 'j json_lib \<Rightarrow> addr \<times> addr \<times> addr \<Rightarrow> (byte list \<times> u16) option \<Rightarrow> int \<Rightarrow> sig_worker \<Rightarrow> sig_worker res" where
  "process_notify al J addrs peer msg w =
     (if msg = QUIT then do_stop w
      else if msg = NEW_CONN
      then rbind (lfq_consume (q_conn w)) (\<lambda>(r, q).
             let w1 = w\<lparr>q_conn := q\<rparr>
             in case r of
                  None \<Rightarrow> Inr w1
                | Some fd \<Rightarrow> (case addrs of (a, iw, tw) \<Rightarrow> new_conn al a iw tw peer fd w1))
      else if msg = RTC_MSG then process_rtc_msg al J w
      else Inr w)"

text \<open>\<open>signaling_worker_recv_notify\<close>: one \<open>int\<close> is read from the pipe; an incomplete read is dropped.\<close>

definition signaling_worker_recv_notify ::
    "allocator \<Rightarrow> 'j json_lib \<Rightarrow> addr \<times> addr \<times> addr \<Rightarrow> (byte list \<times> u16) option \<Rightarrow> sig_worker \<Rightarrow> sig_worker res" where
  "signaling_worker_recv_notify al J addrs peer w =
     (case notify_pipe w of
        [] \<Rightarrow> Inr w
      | msg # rest \<Rightarrow> process_notify al J addrs peer msg (w\<lparr>notify_pipe := rest\<rparr>))"

section \<open>Callbacks\<close>

definition conn_io_cb ::
    "allocator \<Rightarrow> bool \<Rightarrow> 'j json_lib \<Rightarrow> 'g send \<Rightarrow> rres \<Rightarrow> (nat \<Rightarrow> wres) \<Rightarrow> fd \<Rightarrow> u32 \<Rightarrow> sig_worker \<Rightarrow> 'g \<Rightarrow>
     (sig_worker \<times> 'g) res option" where
  "conn_io_cb al ndebug J send r wr fd events w g =
     (case (if events AND READ \<noteq> 0 then read_query al ndebug J send r fd w g else Some (Inr (w, g))) of
        None \<Rightarrow> None
      | Some (Inl e) \<Rightarrow> Some (Inl e)
      | Some (Inr (w1, g1)) \<Rightarrow>
          if events AND WRITE \<noteq> 0
          then map_option (\<lambda>m. rbind m (\<lambda>w2. Inr (w2, g1))) (write_reply wr fd w1)
          else Some (Inr (w1, g1)))"

text \<open>\<open>*static_cast<int*>(data)\<close> reads \<open>cfd\<close> of the connection at address \<open>a\<close>.\<close>

definition conn_by_addr :: "sig_worker \<Rightarrow> addr \<Rightarrow> tcp_connection option" where
  "conn_by_addr w a = List.find (\<lambda>c. c_addr c = a) (List.map_filter (\<lambda>x. x) (conns w))"

definition conn_time_cb :: "addr \<Rightarrow> sig_worker \<Rightarrow> sig_worker res" where
  "conn_time_cb a w =
     (case conn_by_addr w a of None \<Rightarrow> Inl UseAfterFree | Some c \<Rightarrow> process_timeout (cfd c) w)"

section \<open>Lifecycle\<close>

definition SignalingWorker :: "addr \<Rightarrow> real \<Rightarrow> real \<Rightarrow> addr \<Rightarrow> int \<Rightarrow> int \<Rightarrow> sig_worker" where
  "SignalingWorker a rt mn p wid tmo =
     event_loop.extend (event_loop_new rt mn Conn_io_cb)
       \<lparr>sw_addr = a, worker_id = wid, is_start = False, notify_recv_fd = -1, notify_send_fd = -1,
        pipe_watcher = None, q_conn = lfq_init p 0, conns = [], connection_timeout = tmo,
        rtc_msg_queue = [], notify_pipe = [], sys_closed = [], sys_out = []\<rparr>"

text \<open>\<open>init\<close>: \<open>pipe\<close> gives two descriptors or fails; \<open>pw\<close> is the address of the new watcher.\<close>

definition sw_init :: "(fd \<times> fd) option \<Rightarrow> addr \<Rightarrow> sig_worker \<Rightarrow> (sig_worker \<times> int) res" where
  "sw_init fds pw w =
     (case fds of
        None \<Rightarrow> Inr (w, -1)
      | Some (r, s) \<Rightarrow>
          let w1 = (create_io_event pw Signaling_worker_recv_notify w)\<lparr>notify_recv_fd := r, notify_send_fd := s, pipe_watcher := Some pw\<rparr>
          in rbind (start_io_event pw r READ w1) (\<lambda>w2. Inr (w2, 0)))"

text \<open>\<open>start\<close> without the new thread, whose body is the event loop.\<close>

definition sw_start :: "sig_worker \<Rightarrow> sig_worker \<times> bool" where
  "sw_start w = (if is_start w then (w, False) else (w\<lparr>is_start := True\<rparr>, True))"

text \<open>The destructor closes the connections that are left.\<close>

definition sw_destroy :: "sig_worker \<Rightarrow> sig_worker res" where
  "sw_destroy w =
     rbind (fold (\<lambda>co m. rbind m (\<lambda>w. case co of None \<Rightarrow> Inr w | Some c \<Rightarrow> close_conn c w)) (conns w) (Inr w))
       (\<lambda>w. Inr (w\<lparr>conns := []\<rparr>))"

end
