(* ===== verification/Worker_Inv.thy ===== *)
theory Worker_Inv
  imports Signaling_Worker
begin

unbundle bit_operations_syntax

text \<open>
  The invariant of a signalling worker, and that its handlers keep it. It ties the table of
  connections to the event loop: every connection owns one io watcher and one timer, which are
  allocated, registered for its descriptor and carry its callbacks; no two connections share one;
  and every allocated watcher belongs to a connection or is the one of the pipe, so that closing
  connections neither leaks a watcher nor leaves one behind that refers to a freed connection. The
  watcher of the pipe is there while the loop runs and is gone once it was told to stop.
\<close>

section \<open>The invariant\<close>

definition want :: "tcp_connection \<Rightarrow> u32" where
  "want c = (if reply_list c = [] then READ else READ OR WRITE)"

definition watch_ok :: "sig_worker \<Rightarrow> nat \<Rightarrow> tcp_connection \<Rightarrow> addr \<Rightarrow> addr \<Rightarrow> bool" where
  "watch_ok w i c iw tw \<longleftrightarrow> io_watcher c = Some iw \<and> timer_watcher c = Some tw \<and>
     wkind w iw = Some Ev_io \<and> wkind w tw = Some Ev_timer \<and> w_cb w iw = Conn_io_cb \<and>
     w_cb w tw = Conn_time_cb (c_addr c) \<and> need_repeat w tw \<and>
     interest w iw = Some (int i, want c) \<and> (\<exists>t r. expiry w tw = Some (t, r) \<and> 0 < r)"

definition conn_ok :: "sig_worker \<Rightarrow> nat \<Rightarrow> tcp_connection \<Rightarrow> bool" where
  "conn_ok w i c \<longleftrightarrow> cfd c = int i \<and> (\<exists>iw tw. watch_ok w i c iw tw) \<and> (\<exists>xs. parse_inv c xs) \<and> replies_ok c"

definition used :: "sig_worker \<Rightarrow> nat \<Rightarrow> tcp_connection \<Rightarrow> bool" where
  "used w i c \<longleftrightarrow> i < length (conns w) \<and> conns w ! i = Some c"

definition owns :: "tcp_connection \<Rightarrow> addr \<Rightarrow> bool" where
  "owns c a \<longleftrightarrow> io_watcher c = Some a \<or> timer_watcher c = Some a"

definition pipe_ok :: "sig_worker \<Rightarrow> bool" where
  "pipe_ok w \<longleftrightarrow> (if loop_done w = EVBREAK_CANCEL then
     (\<exists>pw. pipe_watcher w = Some pw \<and> wkind w pw = Some Ev_io \<and> w_cb w pw = Signaling_worker_recv_notify \<and>
        0 \<le> notify_recv_fd w \<and> interest w pw = Some (notify_recv_fd w, READ))
     else \<forall>pw. pipe_watcher w = Some pw \<longrightarrow> wkind w pw = None)"

definition worker_ok :: "sig_worker \<Rightarrow> bool" where
  "worker_ok w \<longleftrightarrow> el_ok w \<and> pipe_ok w \<and>
     (\<forall>i c. used w i c \<longrightarrow> conn_ok w i c) \<and>
     (\<forall>i j c d. used w i c \<and> used w j d \<and> i \<noteq> j \<longrightarrow>
        c_addr c \<noteq> c_addr d \<and> io_watcher c \<noteq> io_watcher d \<and> timer_watcher c \<noteq> timer_watcher d) \<and>
     (\<forall>a. wkind w a \<noteq> None \<longrightarrow> pipe_watcher w = Some a \<or> (\<exists>i c. used w i c \<and> owns c a))"

lemma worker_okI:
  assumes "el_ok w" "pipe_ok w" "\<And>i c. used w i c \<Longrightarrow> conn_ok w i c"
    and "\<And>i j c d. used w i c \<Longrightarrow> used w j d \<Longrightarrow> i \<noteq> j \<Longrightarrow>
      c_addr c \<noteq> c_addr d \<and> io_watcher c \<noteq> io_watcher d \<and> timer_watcher c \<noteq> timer_watcher d"
    and "\<And>a. wkind w a \<noteq> None \<Longrightarrow> pipe_watcher w = Some a \<or> (\<exists>i c. used w i c \<and> owns c a)"
  shows "worker_ok w"
  using assms unfolding worker_ok_def by blast

lemma worker_okD:
  assumes "worker_ok w"
  shows "el_ok w" "pipe_ok w" "used w i c \<Longrightarrow> conn_ok w i c"
    "used w i c \<Longrightarrow> used w j d \<Longrightarrow> i \<noteq> j \<Longrightarrow> c_addr c \<noteq> c_addr d"
    "used w i c \<Longrightarrow> used w j d \<Longrightarrow> i \<noteq> j \<Longrightarrow> io_watcher c \<noteq> io_watcher d"
    "used w i c \<Longrightarrow> used w j d \<Longrightarrow> i \<noteq> j \<Longrightarrow> timer_watcher c \<noteq> timer_watcher d"
    "wkind w a \<noteq> None \<Longrightarrow> pipe_watcher w = Some a \<or> (\<exists>i c. used w i c \<and> owns c a)"
  using assms unfolding worker_ok_def by blast+

lemma conn_at_used: "conn_at w fd = Some c \<longleftrightarrow> 0 \<le> fd \<and> used w (nat fd) c"
  by (auto simp: conn_at_def used_def)

lemma used_unique: "used w i c \<Longrightarrow> used w i d \<Longrightarrow> c = d"
  by (simp add: used_def)

lemma used_set_conn:
  assumes "nat fd < length (conns w)"
  shows "used (set_conn fd co w) i c \<longleftrightarrow> (if i = nat fd then co = Some c else used w i c)"
  using assms by (auto simp: used_def set_conn_def)

lemma set_conn_fields [simp]:
  "wkind (set_conn fd co w) = wkind w" "w_cb (set_conn fd co w) = w_cb w" "need_repeat (set_conn fd co w) = need_repeat w"
  "interest (set_conn fd co w) = interest w" "expiry (set_conn fd co w) = expiry w"
  "pipe_watcher (set_conn fd co w) = pipe_watcher w" "notify_recv_fd (set_conn fd co w) = notify_recv_fd w"
  "loop_done (set_conn fd co w) = loop_done w" "length (conns (set_conn fd co w)) = length (conns w)"
  "sys_out (set_conn fd co w) = sys_out w" "sys_closed (set_conn fd co w) = sys_closed w"
  by (simp_all add: set_conn_def interest_def expiry_def fun_eq_iff)

lemma el_ok_more: "ev_loop.truncate l = ev_loop.truncate l' \<Longrightarrow> el_ok l = el_ok l'"
  by (cases l; cases l') (simp add: ev_loop.truncate_def el_ok_def loop_ok_def reps_ok_def ok_defs queued_def wanted_def ABSPRI_def)

lemma el_ok_set_conn [simp]: "el_ok (set_conn fd co w) = el_ok w"
  by (rule el_ok_more) (simp add: ev_loop.truncate_def set_conn_def)

text \<open>The watchers of a connection are its own.\<close>

lemma watchers_distinct:
  assumes ok: "worker_ok w" and u: "used w i c" and wo: "watch_ok w i c iw tw"
  shows "iw \<noteq> tw"
    and "used w j d \<Longrightarrow> watch_ok w j d iw' tw' \<Longrightarrow> j \<noteq> i \<Longrightarrow> iw' \<noteq> iw \<and> tw' \<noteq> tw \<and> iw' \<noteq> tw \<and> tw' \<noteq> iw"
    and "pipe_watcher w \<noteq> Some iw \<and> pipe_watcher w \<noteq> Some tw"
proof -
  show "iw \<noteq> tw" using wo by (auto simp: watch_ok_def)
  show "used w j d \<Longrightarrow> watch_ok w j d iw' tw' \<Longrightarrow> j \<noteq> i \<Longrightarrow> iw' \<noteq> iw \<and> tw' \<noteq> tw \<and> iw' \<noteq> tw \<and> tw' \<noteq> iw"
    using worker_okD(5,6) [OF ok _ u, of j d] wo by (auto simp: watch_ok_def)
  show "pipe_watcher w \<noteq> Some iw \<and> pipe_watcher w \<noteq> Some tw"
    using worker_okD(2) [OF ok] wo by (auto simp: pipe_ok_def watch_ok_def split: if_splits)
qed

section \<open>Replacing a connection\<close>

text \<open>
  The slot of a connection gets a new value that has the same identity and watchers; the watcher's
  interest follows the replies.
\<close>

lemma update_conn_ok:
  assumes ok: "worker_ok w" and u: "used w i c" and wo: "watch_ok w i c iw tw"
    and v: "el_ok v" "wkind v = wkind w" "w_cb v = w_cb w" "need_repeat v = need_repeat w" "expiry v = expiry w"
      "pipe_watcher v = pipe_watcher w" "notify_recv_fd v = notify_recv_fd w" "loop_done v = loop_done w"
      "conns v = (conns w)[i := Some d]" "interest v = (interest w)(iw := Some (int i, want d))"
    and d: "c_addr d = c_addr c" "cfd d = cfd c" "io_watcher d = io_watcher c" "timer_watcher d = timer_watcher c"
      "parse_inv d xs" "replies_ok d"
  shows "worker_ok v"
proof (rule worker_okI)
  have i: "i < length (conns w)" using u by (simp add: used_def)
  have us: "used v j e \<longleftrightarrow> (if j = i then e = d else used w j e)" for j e
    using i by (auto simp: used_def v(9))
  show "el_ok v" by (rule v(1))
  note dist = watchers_distinct [OF ok u wo]
  show "pipe_ok v"
    using worker_okD(2) [OF ok] dist(3) by (auto simp: pipe_ok_def v split: if_splits)
  show "conn_ok v j e" if "used v j e" for j e
  proof (cases "j = i")
    case True
    then have "e = d" using that us by simp
    moreover have "watch_ok v i d iw tw" using wo dist(1) by (simp add: watch_ok_def v d)
    moreover have "cfd d = int i" using worker_okD(3) [OF ok u] d by (simp add: conn_ok_def)
    ultimately show ?thesis using True d by (auto simp: conn_ok_def)
  next
    case False
    then have uj: "used w j e" using that us by simp
    then have "conn_ok w j e" by (rule worker_okD(3) [OF ok])
    then obtain iw' tw' where w': "watch_ok w j e iw' tw'" by (auto simp: conn_ok_def)
    have "iw' \<noteq> iw" using dist(2) [OF uj w' False] by blast
    then have "watch_ok v j e iw' tw'" using w' by (simp add: watch_ok_def v)
    then show ?thesis using \<open>conn_ok w j e\<close> by (auto simp: conn_ok_def)
  qed
  show "c_addr x \<noteq> c_addr y \<and> io_watcher x \<noteq> io_watcher y \<and> timer_watcher x \<noteq> timer_watcher y"
    if "used v j x" "used v k y" "j \<noteq> k" for j k x y
    using that us worker_okD(4,5,6) [OF ok] u d by (metis (full_types))
  show "pipe_watcher v = Some a \<or> (\<exists>j x. used v j x \<and> owns x a)" if "wkind v a \<noteq> None" for a
  proof -
    from that have "pipe_watcher w = Some a \<or> (\<exists>j x. used w j x \<and> owns x a)" using worker_okD(7) [OF ok] by (simp add: v)
    then show ?thesis
    proof
      assume "\<exists>j x. used w j x \<and> owns x a"
      then obtain j x where x: "used w j x" "owns x a" by blast
      show ?thesis
      proof (cases "j = i")
        case True
        then have "owns d a" using x used_unique [OF u] d by (auto simp: owns_def)
        then show ?thesis using us by auto
      qed (use x us in auto)
    qed (simp add: v)
  qed
qed

section \<open>Closing a connection\<close>

lemma more_eq:
  fixes v w :: sig_worker
  assumes "ev_loop.more v = ev_loop.more w"
  shows "w_cb v = w_cb w" "need_repeat v = need_repeat w" "conns v = conns w" "pipe_watcher v = pipe_watcher w"
    "notify_recv_fd v = notify_recv_fd w" "sys_closed v = sys_closed w" "sys_out v = sys_out w" "sw_addr v = sw_addr w"
    "rtc_msg_queue v = rtc_msg_queue w" "q_conn v = q_conn w" "notify_pipe v = notify_pipe w" "is_start v = is_start w"
    "connection_timeout v = connection_timeout w" "notify_send_fd v = notify_send_fd w" "worker_id v = worker_id w"
  using assms by (cases v; cases w; simp)+

text \<open>What closing leaves of the worker, beside the event loop and the slot.\<close>

definition rest_eq :: "sig_worker \<Rightarrow> sig_worker \<Rightarrow> bool" where
  "rest_eq v w \<longleftrightarrow> sys_out v = sys_out w \<and> sw_addr v = sw_addr w \<and> rtc_msg_queue v = rtc_msg_queue w \<and>
     q_conn v = q_conn w \<and> notify_pipe v = notify_pipe w \<and> is_start v = is_start w \<and>
     connection_timeout v = connection_timeout w \<and> pipe_watcher v = pipe_watcher w \<and>
     notify_recv_fd v = notify_recv_fd w \<and> notify_send_fd v = notify_send_fd w"

lemma remove_conn_spec:
  assumes el: "el_ok v" and tw: "timer_watcher d = Some tw" "wkind v tw = Some Ev_timer"
    and iw: "io_watcher d = Some iw" "wkind v iw = Some Ev_io" and i: "cfd d = int i" "i < length (conns v)"
  shows "\<exists>v'. remove_conn d v = Inr v' \<and> el_ok v' \<and> wkind v' = (wkind v)(tw := None, iw := None) \<and>
    interest v' = (interest v)(iw := None) \<and> expiry v' = (expiry v)(tw := None) \<and> w_cb v' = w_cb v \<and>
    need_repeat v' = need_repeat v \<and> conns v' = (conns v)[i := None] \<and> loop_done v' = loop_done v \<and>
    sys_closed v' = sys_closed v \<and> rest_eq v' v"
proof -
  from delete_timer_spec [OF el tw(2)] obtain a m where
    a: "delete_timer tw v = Inr a" "el_ok a" "wkind a = (wkind v)(tw := None)" "interest a = interest v"
      "expiry a tw = None" "\<forall>x. x \<noteq> tw \<longrightarrow> expiry a x = expiry v x" "tm_frame v m" "a = free_watcher tw m" by blast
  have ma: "ev_loop.more a = ev_loop.more v" "loop_done a = loop_done v"
    using a(7) by (simp_all add: a(8) free_watcher_def tm_frame_def)
  have "iw \<noteq> tw" using tw(2) iw(2) by auto
  then have k: "wkind a iw = Some Ev_io" using a(3) iw(2) by simp
  from delete_io_event_spec [OF a(2) k] obtain b n where
    b: "delete_io_event iw a = Inr b" "el_ok b" "wkind b = (wkind a)(iw := None)" "interest b iw = None"
      "\<forall>x. x \<noteq> iw \<longrightarrow> interest b x = interest a x" "io_frame a n" "b = free_watcher iw n" by blast
  have mb: "ev_loop.more b = ev_loop.more a" "loop_done b = loop_done a" "expiry b = expiry a"
    using b(6) by (simp_all add: b(7) free_watcher_def io_frame_def expiry_def fun_eq_iff)
  have mv: "ev_loop.more b = ev_loop.more v" using ma mb by simp
  note e = more_eq [OF mv]
  have "remove_conn d v = Inr (set_conn (cfd d) None b)"
    using tw(1) iw(1) a(1) b(1) i e(3) by (simp add: remove_conn_def)
  moreover have "expiry b = (expiry v)(tw := None)" using a(5,6) mb(3) by auto
  moreover have "interest b = (interest v)(iw := None)" using b(4,5) a(4) by auto
  moreover have "conns (set_conn (cfd d) None b) = (conns v)[i := None]" using i e(3) by (simp add: set_conn_def)
  moreover have "rest_eq (set_conn (cfd d) None b) v" using e by (simp add: rest_eq_def set_conn_def)
  ultimately show ?thesis using b(2,3) a(3) e ma mb by (intro exI [of _ "set_conn (cfd d) None b"]) simp
qed

lemma removed_ok:
  assumes ok: "worker_ok w" and u: "used w i c" and wo: "watch_ok w i c iw tw"
    and v: "el_ok v" "wkind v = (wkind w)(tw := None, iw := None)" "interest v = (interest w)(iw := None)"
      "expiry v = (expiry w)(tw := None)" "w_cb v = w_cb w" "need_repeat v = need_repeat w"
      "pipe_watcher v = pipe_watcher w" "notify_recv_fd v = notify_recv_fd w" "loop_done v = loop_done w"
      "conns v = (conns w)[i := None]"
  shows "worker_ok v"
proof (rule worker_okI)
  have i: "i < length (conns w)" using u by (simp add: used_def)
  have us: "used v j e \<longleftrightarrow> j \<noteq> i \<and> used w j e" for j e using i by (auto simp: used_def v(10) nth_list_update)
  note dist = watchers_distinct [OF ok u wo]
  show "el_ok v" by (rule v(1))
  show "pipe_ok v" using worker_okD(2) [OF ok] dist(3) by (auto simp: pipe_ok_def v split: if_splits)
  show "conn_ok v j e" if "used v j e" for j e
  proof -
    have uj: "used w j e" "j \<noteq> i" using that us by simp_all
    then have "conn_ok w j e" by (intro worker_okD(3) [OF ok])
    then obtain iw' tw' where w': "watch_ok w j e iw' tw'" by (auto simp: conn_ok_def)
    have "watch_ok v j e iw' tw'" using w' dist(2) [OF uj(1) w' uj(2)] by (simp add: watch_ok_def v)
    then show ?thesis using \<open>conn_ok w j e\<close> by (auto simp: conn_ok_def)
  qed
  show "c_addr x \<noteq> c_addr y \<and> io_watcher x \<noteq> io_watcher y \<and> timer_watcher x \<noteq> timer_watcher y"
    if "used v j x" "used v k y" "j \<noteq> k" for j k x y
  proof -
    have "used w j x" "used w k y" using that us by simp_all
    then show ?thesis using worker_okD(4-6) [OF ok _ _ that(3)] by simp
  qed
  show "pipe_watcher v = Some a \<or> (\<exists>j x. used v j x \<and> owns x a)" if "wkind v a \<noteq> None" for a
  proof -
    have a: "a \<noteq> tw" "a \<noteq> iw" "wkind w a \<noteq> None" using that by (auto simp: v split: if_splits)
    from worker_okD(7) [OF ok a(3)] show ?thesis
    proof
      assume "\<exists>j x. used w j x \<and> owns x a"
      then obtain j x where x: "used w j x" "owns x a" by blast
      have "j \<noteq> i" using x used_unique [OF u] wo a by (auto simp: owns_def watch_ok_def)
      then show ?thesis using x us by blast
    qed (simp add: v)
  qed
qed

lemma close_conn_ok:
  assumes ok: "worker_ok w" and u: "used w i c"
    and d: "cfd d = cfd c" "io_watcher d = io_watcher c" "timer_watcher d = timer_watcher c"
    and v: "ev_loop.truncate v = ev_loop.truncate w" "w_cb v = w_cb w" "need_repeat v = need_repeat w"
      "pipe_watcher v = pipe_watcher w" "notify_recv_fd v = notify_recv_fd w" "conns v = (conns w)[i := x]"
  shows "\<exists>v'. close_conn d v = Inr v' \<and> worker_ok v' \<and> conns v' = (conns w)[i := None] \<and>
    sys_closed v' = sys_closed v @ [int i] \<and> rest_eq v' v \<and> loop_done v' = loop_done w \<and>
    (\<forall>a. owns c a \<longrightarrow> wkind v' a = None)"
proof -
  from worker_okD(3) [OF ok u] obtain iw tw where wo: "watch_ok w i c iw tw" and fd: "cfd c = int i"
    by (auto simp: conn_ok_def)
  let ?v = "v\<lparr>sys_closed := sys_closed v @ [cfd d]\<rparr>"
  have tr: "ev_loop.truncate ?v = ev_loop.truncate w" using v(1) by (simp add: ev_loop.truncate_def)
  have f: "wkind ?v = wkind w" "interest ?v = interest w" "expiry ?v = expiry w" "loop_done ?v = loop_done w"
    using v(1) by (simp_all add: ev_loop.truncate_def interest_def expiry_def fun_eq_iff)
  have el: "el_ok ?v" using el_ok_more [OF tr] worker_okD(1) [OF ok] by simp
  have il: "i < length (conns ?v)" using u v(6) by (simp add: used_def)
  from remove_conn_spec [OF el _ _ _ _ _ il, of d tw iw] wo d fd f obtain v' where
    v': "remove_conn d ?v = Inr v'" "el_ok v'" "wkind v' = (wkind w)(tw := None, iw := None)"
      "interest v' = (interest w)(iw := None)" "expiry v' = (expiry w)(tw := None)" "w_cb v' = w_cb w"
      "need_repeat v' = need_repeat w" "conns v' = (conns w)[i := None]" "loop_done v' = loop_done w"
      "sys_closed v' = sys_closed v @ [int i]" "rest_eq v' ?v"
    using v by (auto simp: watch_ok_def)
  have "worker_ok v'"
    by (rule removed_ok [OF ok u wo v'(2-7)]) (use v' v in \<open>simp_all add: rest_eq_def\<close>)
  moreover have "rest_eq v' v" using v'(11) by (simp add: rest_eq_def)
  moreover have "\<forall>a. owns c a \<longrightarrow> wkind v' a = None" using wo v'(3) by (auto simp: owns_def watch_ok_def)
  ultimately show ?thesis using v' by (auto simp: close_conn_def)
qed

section \<open>Reading and writing\<close>

text \<open>The announced bodies are below half a gigabyte.\<close>

definition bodies_small :: "sig_worker \<Rightarrow> bool" where
  "bodies_small w \<longleftrightarrow> (\<forall>i c. used w i c \<longrightarrow> bytes_expected c < 2 ^ 29)"

lemma want_core: "conn_core d = conn_core c \<Longrightarrow> want d = want c"
  by (simp add: want_def conn_core_def)

lemma replies_ok_core: "conn_core d = conn_core c \<Longrightarrow> replies_ok d = replies_ok c"
  by (auto simp: replies_ok_def conn_core_def split: list.split)

lemma truncate_set_conn [simp]: "ev_loop.truncate (set_conn fd co w) = ev_loop.truncate w"
  by (simp add: ev_loop.truncate_def set_conn_def)

lemma set_conn_ok:
  assumes ok: "worker_ok w" and u: "used w (nat fd) c" and p: "parse_inv d xs" and r: "replies_ok d"
    and d: "c_addr d = c_addr c" "cfd d = cfd c" "io_watcher d = io_watcher c" "timer_watcher d = timer_watcher c"
      "want d = want c"
  shows "worker_ok (set_conn fd (Some d) w)"
proof -
  from worker_okD(3) [OF ok u] obtain iw tw where wo: "watch_ok w (nat fd) c iw tw" by (auto simp: conn_ok_def)
  have "interest w = (interest w)(iw := Some (int (nat fd), want d))" using wo d(5) by (auto simp: watch_ok_def)
  then have i: "interest (set_conn fd (Some d) w) = (interest w)(iw := Some (int (nat fd), want d))" by simp
  have cs: "conns (set_conn fd (Some d) w) = (conns w)[nat fd := Some d]" by (simp add: set_conn_def)
  show ?thesis
    by (rule update_conn_ok [OF ok u wo _ _ _ _ _ _ _ _ cs i d(1-4) p r]) (use worker_okD(1) [OF ok] in simp_all)
qed

lemma read_query_ok:
  assumes ok: "worker_ok w" and mem: "mem_ok al" and small: "bodies_small w"
    and m: "read_query al nd J send r fd w g = Some m"
  shows "\<exists>w' g'. m = Inr (w', g') \<and> worker_ok w' \<and> loop_done w' = loop_done w"
proof (cases "conn_at w fd")
  case None
  then show ?thesis using m ok by (auto simp: read_query_def)
next
  case (Some c)
  then have u: "used w (nat fd) c" and fd: "0 \<le> fd" by (simp_all add: conn_at_used)
  from worker_okD(3) [OF ok u] obtain xs where p: "parse_inv c xs" and rep: "replies_ok c" by (auto simp: conn_ok_def)
  have be: "bytes_expected c < 2 ^ 29" using small u by (auto simp: bodies_small_def)
  from m Some obtain x where x: "conn_read al nd J send (sw_addr w) r (of_nat (now w)) c g = Some x"
    by (auto simp: read_query_def split: option.splits)
  from conn_read_inv [OF p be mem x] obtain cl d g' where
    d: "x = Inr (cl, d, g')" "conn_core d = conn_core c" "\<not> cl \<longrightarrow> (\<exists>ys. parse_inv d ys)" by blast
  have e: "c_addr d = c_addr c" "cfd d = cfd c" "io_watcher d = io_watcher c" "timer_watcher d = timer_watcher c"
    using d(2) by (simp_all add: conn_core_def)
  let ?w = "set_conn fd (Some d) w"
  show ?thesis
  proof (cases cl)
    case True
    have "\<exists>v'. close_conn d ?w = Inr v' \<and> worker_ok v' \<and> conns v' = (conns w)[nat fd := None] \<and>
        sys_closed v' = sys_closed ?w @ [int (nat fd)] \<and> rest_eq v' ?w \<and> loop_done v' = loop_done w \<and>
        (\<forall>a. owns c a \<longrightarrow> wkind v' a = None)"
      by (rule close_conn_ok [OF ok u e(2-4), where x = "Some d"]) (simp_all add: set_conn_def ev_loop.truncate_def)
    then show ?thesis using m Some x d(1) True by (auto simp: read_query_def Let_def)
  next
    case False
    then obtain ys where ys: "parse_inv d ys" using d(3) by blast
    have "replies_ok d" "want d = want c" using rep d(2) replies_ok_core want_core by blast+
    then have "worker_ok ?w" by (intro set_conn_ok [OF ok u ys _ e])
    then show ?thesis using m Some x d(1) False by (auto simp: read_query_def Let_def)
  qed
qed

lemma parse_inv_recv: "querybuf d = querybuf c \<Longrightarrow> current_state d = current_state c \<Longrightarrow>
    bytes_processed d = bytes_processed c \<Longrightarrow> bytes_expected d = bytes_expected c \<Longrightarrow> parse_inv d xs = parse_inv c xs"
  by (simp add: parse_inv_def fresh_conn_def)

text \<open>The worker after \<open>write_reply\<close> or \<open>add_reply\<close> has changed the replies of one connection.\<close>

lemma rewatched_ok:
  assumes ok: "worker_ok w" and u: "used w i c" and wo: "watch_ok w i c iw tw"
    and v: "conns v = (conns w)[i := Some d]" "ev_loop.truncate v = ev_loop.truncate w" "w_cb v = w_cb w"
      "need_repeat v = need_repeat w" "pipe_watcher v = pipe_watcher w" "notify_recv_fd v = notify_recv_fd w"
    and t: "el_ok t" "(\<lambda>x. wkind t x = Some Ev_io) = (\<lambda>x. wkind v x = Some Ev_io)" "io_others t = io_others v"
      "interest t = (interest v)(iw \<mapsto> (int i, want d))"
    and d: "c_addr d = c_addr c" "cfd d = cfd c" "io_watcher d = io_watcher c" "timer_watcher d = timer_watcher c"
      "parse_inv d xs" "replies_ok d"
  shows "worker_ok t \<and> conns t = conns v \<and> loop_done t = loop_done w \<and> ev_rt_now t = ev_rt_now w \<and> event_loop.more t = event_loop.more v"
proof -
  have o: "expiry t = expiry v" "w_cb t = w_cb v" "need_repeat t = need_repeat v" "event_loop.more t = event_loop.more v"
    "loop_done t = loop_done v" "ev_rt_now t = ev_rt_now v" "{x. wkind t x = Some Ev_timer} = {x. wkind v x = Some Ev_timer}"
    using t(3) by (simp_all add: io_others_def)
  have k: "wkind t = wkind v" by (rule wkind_eqI [OF _ o(7)]) (rule fun_cong [OF t(2)])
  have m: "conns t = conns v" "pipe_watcher t = pipe_watcher v" "notify_recv_fd t = notify_recv_fd v"
    using o(4) by (cases t; cases v; simp)+
  have f: "wkind v = wkind w" "interest v = interest w" "expiry v = expiry w" "loop_done v = loop_done w" "ev_rt_now v = ev_rt_now w"
    using v(2) by (simp_all add: ev_loop.truncate_def interest_def expiry_def fun_eq_iff)
  have "worker_ok t"
    by (rule update_conn_ok [OF ok u wo t(1) _ _ _ _ _ _ _ _ _ d]) (use t k o m f v in simp_all)
  then show ?thesis using m o f by simp
qed

lemma same_conn_fields:
  assumes "same_conn c d"
  shows "c_addr d = c_addr c" "cfd d = cfd c" "io_watcher d = io_watcher c" "timer_watcher d = timer_watcher c"
    "querybuf d = querybuf c" "current_state d = current_state c" "bytes_processed d = bytes_processed c"
    "bytes_expected d = bytes_expected c"
  using assms by (cases c; cases d; simp add: same_conn_def)+

lemma want_stop_write: "want c AND NOT WRITE = READ" "READ \<noteq> 0"
  by (simp_all add: want_def READ_def WRITE_def)

text \<open>
  \<open>write_reply\<close>: what it hands to the socket is the start of what the connection still had to
  send, in order. Afterwards the connection has sent everything and waits for reads only, or it
  is closed.
\<close>

lemma write_reply_ok:
  assumes ok: "worker_ok w" and m: "write_reply wr fd w = Some m"
  shows "\<exists>w'. m = Inr w' \<and> worker_ok w' \<and> loop_done w' = loop_done w \<and>
    (\<forall>c. 0 < fd \<longrightarrow> conn_at w fd = Some c \<longrightarrow>
       (\<exists>bs rest. sys_out w' = sys_out w @ [(fd, bs)] \<and> unsent c = bs @ rest \<and>
          (case conn_at w' fd of None \<Rightarrow> sys_closed w' = sys_closed w @ [fd] | Some d \<Rightarrow> rest = [] \<and> reply_list d = [])))"
proof (cases "0 < fd \<and> conn_at w fd \<noteq> None")
  case False
  then have "m = Inr w" using m by (auto simp: write_reply_def split: if_splits)
  then show ?thesis using ok False by auto
next
  case True
  then obtain c where c: "conn_at w fd = Some c" and fd: "0 < fd" by blast
  then have u: "used w (nat fd) c" by (simp add: conn_at_used)
  from worker_okD(3) [OF ok u] obtain xs iw tw where p: "parse_inv c xs" and rep: "replies_ok c"
    and wo: "watch_ok w (nat fd) c iw tw" and cfd: "cfd c = fd" using fd by (auto simp: conn_ok_def)
  from m c fd obtain x where x: "write_loop wr 0 c [] = Some x" by (auto simp: write_reply_def split: option.splits)
  from write_loop_prefix [OF x rep] obtain cl d bs where
    d: "x = Inr (cl, d, bs)" "bs @ unsent d = unsent c" "replies_ok d" "same_conn c d" "\<not> cl \<longrightarrow> reply_list d = []" by auto
  note e = same_conn_fields [OF d(4)]
  let ?w1 = "(set_conn fd (Some d) w)\<lparr>sys_out := sys_out w @ [(cfd c, bs)]\<rparr>"
  show ?thesis
  proof (cases cl)
    case True
    have "\<exists>v'. close_conn d ?w1 = Inr v' \<and> worker_ok v' \<and> conns v' = (conns w)[nat fd := None] \<and>
        sys_closed v' = sys_closed ?w1 @ [int (nat fd)] \<and> rest_eq v' ?w1 \<and> loop_done v' = loop_done w \<and>
        (\<forall>a. owns c a \<longrightarrow> wkind v' a = None)"
      by (rule close_conn_ok [OF ok u e(2-4), where x = "Some d"]) (simp_all add: set_conn_def ev_loop.truncate_def)
    then obtain v' where v': "close_conn d ?w1 = Inr v'" "worker_ok v'" "conns v' = (conns w)[nat fd := None]"
      "sys_closed v' = sys_closed w @ [fd]" "sys_out v' = sys_out w @ [(fd, bs)]" "loop_done v' = loop_done w"
      using fd cfd by (auto simp: rest_eq_def)
    have "m = Inr v'" using m c fd x d(1) True v'(1) by (simp add: write_reply_def Let_def)
    moreover have "conn_at v' fd = None" using v'(3) by (simp add: conn_at_def)
    ultimately show ?thesis using v' c d(2) [symmetric] by (intro exI [of _ v']) auto
  next
    case False
    let ?c2 = "d\<lparr>last_interaction := of_nat (now ?w1)\<rparr>"
    let ?w2 = "set_conn fd (Some ?c2) ?w1"
    have nil: "reply_list d = []" using d(5) False by simp
    have f: "interest ?w2 = interest w" "wkind ?w2 = wkind w" "ev_loop.truncate ?w2 = ev_loop.truncate w"
      by (simp_all add: ev_loop.truncate_def set_conn_def interest_def fun_eq_iff)
    have el: "el_ok ?w2" using el_ok_more [OF f(3)] worker_okD(1) [OF ok] by simp
    have kd: "wkind ?w2 iw = Some Ev_io" and it: "interest ?w2 iw = Some (fd, want c)"
      using wo fd unfolding f by (simp_all add: watch_ok_def)
    have "want ?c2 = READ" using nil by (simp add: want_def)
    with el.stop_law [OF el kd _ it, of WRITE] fd obtain t where
      t: "stop_io_event iw fd WRITE ?w2 = Inr t" "el_ok t" "(\<lambda>x. wkind t x = Some Ev_io) = (\<lambda>x. wkind ?w2 x = Some Ev_io)"
        "io_others t = io_others ?w2" "interest t = (interest ?w2)(iw \<mapsto> (int (nat fd), want ?c2))"
      by (auto simp: want_stop_write)
    have pd: "parse_inv ?c2 xs" using p parse_inv_recv [of ?c2 c xs] e by simp
    have cs: "conns ?w2 = (conns w)[nat fd := Some ?c2]" by (simp add: set_conn_def)
    have rd: "replies_ok ?c2" using d(3) nil by (simp add: replies_ok_def)
    have tk: "worker_ok t \<and> conns t = conns ?w2 \<and> loop_done t = loop_done w \<and> ev_rt_now t = ev_rt_now w \<and> event_loop.more t = event_loop.more ?w2"
      by (rule rewatched_ok [OF ok u wo cs f(3) _ _ _ _ t(2-5) _ _ _ _ pd rd]) (use e in \<open>simp_all add: set_conn_def\<close>)
    then have "sys_out t = sys_out ?w2" by (cases t; cases ?w2) simp
    then have so: "sys_out t = sys_out w @ [(fd, bs)]" using cfd by (simp add: set_conn_def)
    have "m = Inr t" using m c fd x d(1) False nil e wo cfd t(1) by (simp add: write_reply_def Let_def watch_ok_def)
    moreover have "conn_at t fd = Some ?c2" using tk cs u fd by (simp add: conn_at_def used_def)
    moreover have "unsent c = bs" using d(2) nil by (simp add: unsent_def)
    ultimately show ?thesis using so tk c nil by (intro exI [of _ t]) auto
  qed
qed

section \<open>Queueing a reply\<close>

lemma want_start_write: "(want c OR WRITE) AND 3 = READ OR WRITE"
  by (simp add: want_def READ_def WRITE_def)

lemma replies_ok_add: "replies_ok c \<Longrightarrow> reply_ok r \<Longrightarrow> replies_ok (c\<lparr>reply_list := reply_list c @ [r]\<rparr>)"
  by (cases "reply_list c") (auto simp: replies_ok_def reply_ok_def)

lemma unsent_add:
  assumes "replies_ok c"
  shows "unsent (c\<lparr>reply_list := reply_list c @ [r]\<rparr>) = unsent c @ slice_bytes r"
proof (cases "reply_list c")
  case Nil
  then show ?thesis using assms by (simp add: unsent_def replies_ok_def)
next
  case (Cons q qs)
  then have "slice_wf q" "cur_resp_pos c < sl_size q" using assms by (simp_all add: replies_ok_def reply_ok_def)
  then have "cur_resp_pos c \<le> length (slice_bytes q)" by (simp add: slice_bytes_def slice_wf_def)
  then show ?thesis using Cons by (simp add: unsent_def)
qed

lemma add_reply_ok:
  assumes ok: "worker_ok w" and u: "used w (nat fd) c" and fd: "0 \<le> fd" and r: "reply_ok r"
  shows "\<exists>w' d. add_reply fd c r w = Inr w' \<and> worker_ok w' \<and> loop_done w' = loop_done w \<and> conns w' = (conns w)[nat fd := Some d] \<and>
    event_loop.more w' = event_loop.more (set_conn fd (Some d) w) \<and>
    c_addr d = c_addr c \<and> unsent d = unsent c @ slice_bytes r"
proof -
  from worker_okD(3) [OF ok u] obtain xs iw tw where p: "parse_inv c xs" and rep: "replies_ok c"
    and wo: "watch_ok w (nat fd) c iw tw" and cfd: "cfd c = fd" using fd by (auto simp: conn_ok_def)
  let ?d = "c\<lparr>reply_list := reply_list c @ [r]\<rparr>"
  let ?v = "set_conn fd (Some ?d) w"
  have el: "el_ok ?v" using worker_okD(1) [OF ok] by simp
  have kd: "wkind ?v iw = Some Ev_io" and it: "interest ?v iw = Some (fd, want c)"
    using wo fd by (simp_all add: watch_ok_def)
  have cs: "conns ?v = (conns w)[nat fd := Some ?d]" by (simp add: set_conn_def)
  have wd: "want ?d = READ OR WRITE" by (simp add: want_def)
  from el.start_law [OF el kd fd, of WRITE] it wd fd obtain t where
    t: "start_io_event iw fd WRITE ?v = Inr t" "el_ok t" "(\<lambda>x. wkind t x = Some Ev_io) = (\<lambda>x. wkind ?v x = Some Ev_io)"
      "io_others t = io_others ?v" "interest t = (interest ?v)(iw \<mapsto> (int (nat fd), want ?d))"
    by (auto simp: old_mask_def want_start_write)
  have pd: "parse_inv ?d xs" using p parse_inv_recv [of ?d c xs] by simp
  have rd: "replies_ok ?d" by (rule replies_ok_add [OF rep r])
  have "worker_ok t \<and> conns t = conns ?v \<and> loop_done t = loop_done w \<and> ev_rt_now t = ev_rt_now w \<and> event_loop.more t = event_loop.more ?v"
    by (rule rewatched_ok [OF ok u wo cs _ _ _ _ _ t(2-5) _ _ _ _ pd rd]) (simp_all add: set_conn_def ev_loop.truncate_def)
  moreover have "add_reply fd c r w = Inr t" using wo cfd t(1) by (simp add: add_reply_def watch_ok_def)
  ultimately show ?thesis using unsent_add [OF rep, of r] cs by (intro exI [of _ t] exI [of _ ?d]) simp
qed

text \<open>The request header is in the buffer of a connection that has received one.\<close>

lemma parse_inv_head:
  assumes "parse_inv c xs" "XHEAD_SIZE \<le> length xs"
  shows "xhead_of_bytes (sh_buf (querybuf c)) = Inr (xhead xs)"
  using xhead_of_buf [of "querybuf c" xs] assms by (simp add: parse_inv_def)

text \<open>
  A reply is queued on the connection the request came from, if it is still there, with the
  header of the request and the length of the text; otherwise it is dropped.
\<close>

definition json_fits :: "'j json_lib \<Rightarrow> rtc_msg \<Rightarrow> bool" where
  "json_fits J msg \<longleftrightarrow> length (reply_json J msg) < MAX_RES_BUF \<and> 0 \<notin> set (reply_json J msg)"

lemma response_server_offer_ok:
  assumes ok: "worker_ok w" and mem: "mem_ok al" and J: "json_fits J msg"
    and head: "\<And>c. conn_at w (m_fd msg) = Some c \<Longrightarrow> m_conn msg = Some (c_addr c) \<Longrightarrow> current_state c = STATE_BODY"
  shows "\<exists>w'. response_server_offer al J msg w = Inr w' \<and> worker_ok w' \<and> loop_done w' = loop_done w \<and> sys_out w' = sys_out w \<and>
    (case conn_at w (m_fd msg) of
       Some c \<Rightarrow> if 0 < m_fd msg \<and> m_conn msg = Some (c_addr c)
         then \<exists>d xs. conns w' = (conns w)[nat (m_fd msg) := Some d] \<and> c_addr d = c_addr c \<and> parse_inv c xs \<and>
           unsent d = unsent c @ wire ((xhead xs)\<lparr>xh_body_len := of_nat (length (reply_json J msg))\<rparr>) (reply_json J msg)
         else w' = w
     | None \<Rightarrow> w' = w)"
proof (cases "\<exists>c. conn_at w (m_fd msg) = Some c \<and> 0 < m_fd msg \<and> m_conn msg = Some (c_addr c)")
  case False
  then have "response_server_offer al J msg w = Inr w"
    by (auto simp: response_server_offer_def Let_def split: option.splits)
  then show ?thesis using ok False by (auto split: option.splits)
next
  case True
  then obtain c where c: "conn_at w (m_fd msg) = Some c" "0 < m_fd msg" "m_conn msg = Some (c_addr c)" by blast
  then have u: "used w (nat (m_fd msg)) c" by (simp add: conn_at_used)
  from worker_okD(3) [OF ok u] obtain xs where p: "parse_inv c xs" by (auto simp: conn_ok_def)
  have "XHEAD_SIZE \<le> length xs" using p head [OF c(1,3)] by (auto simp: parse_inv_def fresh_conn_def split: if_splits)
  note h = parse_inv_head [OF p this]
  have z: "zalloc_ok al (XHEAD_SIZE + MAX_RES_BUF)" using mem by (simp add: mem_ok_def XHEAD_SIZE_def MAX_RES_BUF_def)
  from make_reply_ok [OF h _ _ z, of "reply_json J msg"] J obtain r where
    r: "make_reply al (sh_buf (querybuf c)) (reply_json J msg) = Inr r" "reply_ok r"
      "slice_bytes r = wire ((xhead xs)\<lparr>xh_body_len := of_nat (length (reply_json J msg))\<rparr>) (reply_json J msg)"
    by (auto simp: json_fits_def)
  from add_reply_ok [OF ok u _ r(2)] c(2) obtain w' d where
    w': "add_reply (m_fd msg) c r w = Inr w'" "worker_ok w'" "loop_done w' = loop_done w" "conns w' = (conns w)[nat (m_fd msg) := Some d]"
      "event_loop.more w' = event_loop.more (set_conn (m_fd msg) (Some d) w)" "c_addr d = c_addr c" "unsent d = unsent c @ slice_bytes r" by auto
  have "response_server_offer al J msg w = Inr w'"
    using c r(1) w'(1) by (simp add: response_server_offer_def Let_def)
  moreover have "sys_out w' = sys_out w" using w'(5) by (cases w'; cases w) (simp add: set_conn_def)
  ultimately show ?thesis using c w' r(3) p by auto
qed

end
