(* ===== verification/Worker_Safe.thy ===== *)
theory Worker_Safe
  imports Worker_Inv
begin

unbundle bit_operations_syntax

text \<open>
  The remaining handlers of a signalling worker keep its invariant: timeouts, accepting a
  connection, stopping, and the dispatch of events to the callbacks, where no callback ever gets
  a freed watcher or connection.
\<close>

section \<open>Timeouts\<close>

definition timed_out :: "sig_worker \<Rightarrow> tcp_connection \<Rightarrow> bool" where
  "timed_out w c \<longleftrightarrow> (of_nat (now w) :: u64) - last_interaction c > of_int (connection_timeout w)"

lemma process_timeout_ok:
  assumes ok: "worker_ok w" and u: "used w i c"
  shows "\<exists>w'. process_timeout (int i) w = Inr w' \<and> worker_ok w' \<and> loop_done w' = loop_done w \<and>
    (if timed_out w c then conns w' = (conns w)[i := None] \<and> sys_closed w' = sys_closed w @ [int i] else w' = w)"
proof -
  have i: "i < length (conns w)" "conns w ! i = Some c" using u by (simp_all add: used_def)
  have cs: "conns w = (conns w)[i := Some c]" using list_update_id [of "conns w" i] i(2) by simp
  have "\<exists>v'. close_conn c w = Inr v' \<and> worker_ok v' \<and> conns v' = (conns w)[i := None] \<and>
      sys_closed v' = sys_closed w @ [int i] \<and> rest_eq v' w \<and> loop_done v' = loop_done w \<and>
      (\<forall>a. owns c a \<longrightarrow> wkind v' a = None)"
    by (rule close_conn_ok [OF ok u _ _ _ _ _ _ _ _ cs]) simp_all
  then show ?thesis using i ok by (auto simp: process_timeout_def timed_out_def)
qed

lemma conn_by_addr_used:
  assumes ok: "worker_ok w" and u: "used w i c"
  shows "conn_by_addr w (c_addr c) = Some c"
proof -
  have "Some c \<in> set (conns w)" using u nth_mem [of i "conns w"] by (simp add: used_def)
  then have "c \<in> set (List.map_filter (\<lambda>x. x) (conns w))" by (force simp: map_filter_def)
  then obtain d where d: "conn_by_addr w (c_addr c) = Some d"
    unfolding conn_by_addr_def by (cases "List.find (\<lambda>x. c_addr x = c_addr c) (List.map_filter (\<lambda>x. x) (conns w))")
      (auto simp: find_None_iff)
  then have "d \<in> set (List.map_filter (\<lambda>x. x) (conns w))" "c_addr d = c_addr c"
    unfolding conn_by_addr_def by (auto simp: find_Some_iff)
  then obtain j where "used w j d" by (auto simp: used_def map_filter_def in_set_conv_nth)
  then have "j = i" using worker_okD(4) [OF ok _ u, of j d] \<open>c_addr d = c_addr c\<close> by blast
  then show ?thesis using d \<open>used w j d\<close> used_unique [OF u] by simp
qed

lemma owner:
  assumes ok: "worker_ok w" and a: "wkind w a \<noteq> None"
  shows "pipe_watcher w = Some a \<and> loop_done w = EVBREAK_CANCEL \<and> wkind w a = Some Ev_io \<and>
      w_cb w a = Signaling_worker_recv_notify \<or>
    (\<exists>i c tw. used w i c \<and> watch_ok w i c a tw) \<or> (\<exists>i c iw. used w i c \<and> watch_ok w i c iw a)"
  using worker_okD(7) [OF ok a]
proof
  assume "pipe_watcher w = Some a"
  then show ?thesis using worker_okD(2) [OF ok] a by (auto simp: pipe_ok_def split: if_splits)
next
  assume "\<exists>i c. used w i c \<and> owns c a"
  then obtain i c where c: "used w i c" "owns c a" by blast
  from worker_okD(3) [OF ok c(1)] obtain iw tw where wo: "watch_ok w i c iw tw" by (auto simp: conn_ok_def)
  then have "a = iw \<or> a = tw" using c(2) by (auto simp: owns_def watch_ok_def)
  then show ?thesis using c(1) wo by blast
qed

text \<open>The timer's pointer into its connection is valid whenever the timer is allocated.\<close>

lemma conn_time_cb_ok:
  assumes ok: "worker_ok w" and k: "wkind w a = Some Ev_timer"
  shows "\<exists>i c w'. used w i c \<and> timer_watcher c = Some a \<and> w_cb w a = Conn_time_cb (c_addr c) \<and>
    conn_time_cb (c_addr c) w = Inr w' \<and> worker_ok w' \<and> loop_done w' = loop_done w \<and>
    (if timed_out w c then conns w' = (conns w)[i := None] \<and> sys_closed w' = sys_closed w @ [int i] else w' = w)"
proof -
  have "\<not> (\<exists>i c tw. used w i c \<and> watch_ok w i c a tw)" using k by (auto simp: watch_ok_def)
  with owner [OF ok, of a] k obtain i c iw where c: "used w i c" "watch_ok w i c iw a" by auto
  have fd: "cfd c = int i" using worker_okD(3) [OF ok c(1)] by (simp add: conn_ok_def)
  have "conn_time_cb (c_addr c) w = process_timeout (int i) w"
    using conn_by_addr_used [OF ok c(1)] fd by (simp add: conn_time_cb_def)
  moreover have "timer_watcher c = Some a" "w_cb w a = Conn_time_cb (c_addr c)" using c(2) by (simp_all add: watch_ok_def)
  ultimately show ?thesis using process_timeout_ok [OF ok c(1)] c(1) by (intro exI [of _ i] exI [of _ c]) simp
qed

section \<open>New connections\<close>

lemma added_ok:
  assumes ok: "worker_ok w" and run: "loop_done w = EVBREAK_CANCEL" and new: "wkind w iw = None" "wkind w tw = None" "iw \<noteq> tw"
    "\<And>j d. used w j d \<Longrightarrow> c_addr d \<noteq> c_addr c"
    and us: "\<And>j d. used v j d \<longleftrightarrow> (if j = i then d = c else used w j d)" and empty: "\<And>d. \<not> used w i d"
    and v: "el_ok v" "wkind v = (wkind w)(iw \<mapsto> Ev_io, tw \<mapsto> Ev_timer)"
      "w_cb v = (w_cb w)(iw := Conn_io_cb, tw := Conn_time_cb (c_addr c))" "need_repeat v = (need_repeat w)(tw := True)"
      "interest v = (interest w)(iw \<mapsto> (int i, READ))" "\<exists>t r. expiry v tw = Some (t, r) \<and> 0 < r" "\<And>x. x \<noteq> tw \<Longrightarrow> expiry v x = expiry w x"
      "pipe_watcher v = pipe_watcher w" "notify_recv_fd v = notify_recv_fd w" "loop_done v = loop_done w"
    and c: "cfd c = int i" "io_watcher c = Some iw" "timer_watcher c = Some tw" "parse_inv c xs" "replies_ok c" "reply_list c = []"
  shows "worker_ok v"
proof (rule worker_okI)
  have old: "x \<noteq> iw \<and> x \<noteq> tw" if "wkind w x = Some k" for x k using that new(1,2) by auto
  show "el_ok v" by (rule v(1))
  from worker_okD(2) [OF ok] run obtain pw where pw: "pipe_watcher w = Some pw" "wkind w pw = Some Ev_io"
    "w_cb w pw = Signaling_worker_recv_notify" "0 \<le> notify_recv_fd w" "interest w pw = Some (notify_recv_fd w, READ)"
    by (auto simp: pipe_ok_def)
  then show "pipe_ok v" using old [OF pw(2)] by (simp add: pipe_ok_def v run)
  show "conn_ok v j d" if "used v j d" for j d
  proof (cases "j = i")
    case True
    have "watch_ok v i c iw tw" using c v(6) new(3) by (simp add: watch_ok_def v(2-5) want_def)
    then show ?thesis using that us True c by (auto simp: conn_ok_def)
  next
    case False
    then have u: "used w j d" using that us by simp
    then have "conn_ok w j d" by (rule worker_okD(3) [OF ok])
    then obtain iw' tw' where wo: "watch_ok w j d iw' tw'" by (auto simp: conn_ok_def)
    have "iw' \<noteq> iw \<and> iw' \<noteq> tw" "tw' \<noteq> iw \<and> tw' \<noteq> tw" using wo old by (auto simp: watch_ok_def)
    then have "watch_ok v j d iw' tw'" using wo by (simp add: watch_ok_def v(2-5,7))
    then show ?thesis using \<open>conn_ok w j d\<close> by (auto simp: conn_ok_def)
  qed
  have diff: "c_addr d \<noteq> c_addr c \<and> io_watcher d \<noteq> io_watcher c \<and> timer_watcher d \<noteq> timer_watcher c" if u: "used w j d" for j d
  proof -
    from worker_okD(3) [OF ok u] obtain iw' tw' where "watch_ok w j d iw' tw'" by (auto simp: conn_ok_def)
    then show ?thesis using new u c(2,3) by (auto simp: watch_ok_def)
  qed
  show "c_addr x \<noteq> c_addr y \<and> io_watcher x \<noteq> io_watcher y \<and> timer_watcher x \<noteq> timer_watcher y"
    if "used v j x" "used v k y" "j \<noteq> k" for j k x y
  proof (cases "j = i"; cases "k = i")
    assume "j = i" "k \<noteq> i"
    then show ?thesis using that us diff [of k y] by (simp add: eq_commute)
  next
    assume "j \<noteq> i" "k = i"
    then show ?thesis using that us diff [of j x] by simp
  next
    assume "j \<noteq> i" "k \<noteq> i"
    then show ?thesis using that us worker_okD(4-6) [OF ok, of j x k y] by simp
  qed (use that in simp)
  show "pipe_watcher v = Some a \<or> (\<exists>j x. used v j x \<and> owns x a)" if "wkind v a \<noteq> None" for a
  proof (cases "a = iw \<or> a = tw")
    case True
    then have "owns c a" using c by (auto simp: owns_def)
    then show ?thesis using us by auto
  next
    case False
    then have "wkind w a \<noteq> None" using that by (simp add: v(2))
    from worker_okD(7) [OF ok this] show ?thesis
    proof
      assume "\<exists>j x. used w j x \<and> owns x a"
      then obtain j x where x: "used w j x" "owns x a" by blast
      then have "used v j x" using us [of j x] empty [of x] by (cases "j = i") auto
      then show ?thesis using x by blast
    qed (simp add: v)
  qed
qed

lemma create_frames:
  assumes "el_ok l" "wkind l a = None"
  shows "expiry (create_io_event a cb l) = expiry l" "need_repeat (create_io_event a cb l) = need_repeat l"
    "event_loop.more (create_io_event a cb l) = event_loop.more l" "loop_done (create_io_event a cb l) = loop_done l"
    "expiry (create_timer a cb rpt l) = expiry l" "event_loop.more (create_timer a cb rpt l) = event_loop.more l"
    "loop_done (create_timer a cb rpt l) = loop_done l"
  using unallocated_idle(1) [OF assms]
  by (auto simp: create_io_event_def create_timer_def ev_init_def expiry_def fun_eq_iff HEAP0_def)

lemma ev_more_eq: "event_loop.more v = event_loop.more w \<Longrightarrow> conns v = conns w \<and> pipe_watcher v = pipe_watcher w \<and>
    notify_recv_fd v = notify_recv_fd w \<and> rtc_msg_queue v = rtc_msg_queue w \<and> q_conn v = q_conn w \<and> notify_pipe v = notify_pipe w \<and>
    sys_out v = sys_out w \<and> sys_closed v = sys_closed w \<and> sw_addr v = sw_addr w"
  for v w :: sig_worker
  by (cases v; cases w) simp

text \<open>The event loop after both watchers of a new connection were created and started.\<close>

lemma watchers_added:
  fixes w :: sig_worker
  assumes el: "el_ok w" and new: "wkind w iw = None" "wkind w tw = None" "iw \<noteq> tw" and fd: "0 \<le> fd"
  shows "\<exists>w1. start_io_event iw fd READ (create_io_event iw Conn_io_cb w) = Inr w1 \<and> event_loop.more w1 = event_loop.more w \<and>
    (\<forall>u :: sig_worker. ev_loop.truncate u = ev_loop.truncate w1 \<and> w_cb u = w_cb w1 \<and> need_repeat u = need_repeat w1 \<longrightarrow>
      (\<exists>w2. start_timer tw 100000 (create_timer tw (Conn_time_cb a) True u) = Inr w2 \<and> el_ok w2 \<and>
        wkind w2 = (wkind w)(iw \<mapsto> Ev_io, tw \<mapsto> Ev_timer) \<and> event_loop.more w2 = event_loop.more u \<and>
        w_cb w2 = (w_cb w)(iw := Conn_io_cb, tw := Conn_time_cb a) \<and> need_repeat w2 = (need_repeat w)(tw := True) \<and>
        interest w2 = (interest w)(iw \<mapsto> (fd, READ)) \<and> (\<exists>t r. expiry w2 tw = Some (t, r) \<and> 0 < r) \<and> (\<forall>x. x \<noteq> tw \<longrightarrow> expiry w2 x = expiry w x) \<and>
        loop_done w2 = loop_done w))"
proof -
  let ?c = "create_io_event iw Conn_io_cb w"
  note C = create_io_event_spec [OF el new(1), of Conn_io_cb] and F = create_frames [OF el new(1)]
  have "interest ?c iw = None" using C(3) unallocated_idle(1) [OF el new(1)] by (simp add: interest_def)
  with start_io_event_spec [OF C(1) _ fd, of iw READ] C(2) obtain w1 where
    w1: "start_io_event iw fd READ ?c = Inr w1" "el_ok w1" "io_frame ?c w1" "interest w1 iw = Some (fd, READ)"
      "\<forall>x. x \<noteq> iw \<longrightarrow> interest w1 x = interest ?c x" by (auto simp: old_mask_def READ_def)
  have f1: "wkind w1 = (wkind w)(iw \<mapsto> Ev_io)" "loop_done w1 = loop_done w" "expiry w1 = expiry w"
    "event_loop.more w1 = event_loop.more w" "w_cb w1 = (w_cb w)(iw := Conn_io_cb)" "need_repeat w1 = need_repeat w"
    using w1(3) C F io_frame_others [OF w1(3)] by (simp_all add: io_frame_def io_others_def)
  have i1: "interest w1 = (interest w)(iw \<mapsto> (fd, READ))" using w1(4,5) C(3) by auto
  have "\<exists>w2. start_timer tw 100000 (create_timer tw (Conn_time_cb a) True u) = Inr w2 \<and> el_ok w2 \<and>
        wkind w2 = (wkind w)(iw \<mapsto> Ev_io, tw \<mapsto> Ev_timer) \<and> event_loop.more w2 = event_loop.more u \<and>
        w_cb w2 = (w_cb w)(iw := Conn_io_cb, tw := Conn_time_cb a) \<and> need_repeat w2 = (need_repeat w)(tw := True) \<and>
        interest w2 = (interest w)(iw \<mapsto> (fd, READ)) \<and> (\<exists>t r. expiry w2 tw = Some (t, r) \<and> 0 < r) \<and> (\<forall>x. x \<noteq> tw \<longrightarrow> expiry w2 x = expiry w x) \<and>
        loop_done w2 = loop_done w"
    if u: "ev_loop.truncate u = ev_loop.truncate w1" "w_cb u = w_cb w1" "need_repeat u = need_repeat w1" for u :: sig_worker
  proof -
    have uf: "wkind u = wkind w1" "interest u = interest w1" "expiry u = expiry w1" "loop_done u = loop_done w1"
      using u(1) by (simp_all add: ev_loop.truncate_def interest_def expiry_def fun_eq_iff)
    have uel: "el_ok u" using el_ok_more [OF u(1)] w1(2) by simp
    have ut: "wkind u tw = None" using uf f1 new by simp
    let ?t = "create_timer tw (Conn_time_cb a) True u"
    note T = create_timer_spec [OF uel ut, of "Conn_time_cb a" True] and G = create_frames [OF uel ut]
    from start_timer_spec [OF T(1), of tw 100000] T(2) obtain w2 where
      w2: "start_timer tw 100000 ?t = Inr w2" "armed tw 100000 ?t w2" by auto
    have fr: "el_ok w2" "tm_frame ?t w2" "interest w2 = interest ?t" "\<exists>t r. expiry w2 tw = Some (t, r) \<and> 0 < r" "\<forall>x. x \<noteq> tw \<longrightarrow> expiry w2 x = expiry ?t x"
      using w2(2) T(5) float_sec_pos [of 100000] by (simp_all add: armed_def)
    have m: "event_loop.more w2 = event_loop.more ?t" "w_cb w2 = w_cb ?t" "need_repeat w2 = need_repeat ?t"
      "wkind w2 = wkind ?t" "loop_done w2 = loop_done ?t"
      using fr(2) by (cases w2; cases ?t; simp add: tm_frame_def)+
    show ?thesis
      using w2(1) fr m T G uf u f1 i1 new(3) by (intro exI [of _ w2]) (simp add: fun_upd_twist)
  qed
  then show ?thesis using w1(1) f1(4) by blast
qed

text \<open>What the environment promises about a new connection: addresses that are not in use and a descriptor that is not open.\<close>

definition fresh_for :: "sig_worker \<Rightarrow> addr \<times> addr \<times> addr \<Rightarrow> fd \<Rightarrow> bool" where
  "fresh_for w addrs fd \<longleftrightarrow> (case addrs of (a, iw, tw) \<Rightarrow> wkind w iw = None \<and> wkind w tw = None \<and> iw \<noteq> tw \<and>
     (\<forall>c. Some c \<in> set (conns w) \<longrightarrow> c_addr c \<noteq> a) \<and> 0 \<le> fd \<and> conn_at w fd = None)"

lemma grow_nth:
  assumes "k = (if n \<ge> length xs then xs @ replicate (Suc n - length xs) None else xs)"
  shows "n < length k" "i < length k \<and> k ! i = Some c \<longleftrightarrow> i < length xs \<and> xs ! i = Some c"
  using assms by (auto simp: nth_append split: if_splits)

lemma new_conn_ok:
  assumes ok: "worker_ok w" and run: "loop_done w = EVBREAK_CANCEL" and fr: "fresh_for w (a, iw, tw) fd" and mem: "mem_ok al"
  shows "\<exists>w' c. new_conn al a iw tw peer fd w = Inr w' \<and> worker_ok w' \<and> loop_done w' = loop_done w \<and>
    conn_at w' fd = Some c \<and> c_addr c = a \<and> parse_inv c [] \<and> reply_list c = [] \<and>
    (\<forall>i. i \<noteq> nat fd \<longrightarrow> used w' i = used w i) \<and> rtc_msg_queue w' = rtc_msg_queue w"
proof -
  have new: "wkind w iw = None" "wkind w tw = None" "iw \<noteq> tw" "0 \<le> fd" "conn_at w fd = None"
    "\<And>j d. used w j d \<Longrightarrow> c_addr d \<noteq> a"
    using fr nth_mem [of _ "conns w"] by (auto simp: fresh_for_def used_def) (metis nth_mem)
  have "zalloc_ok al 9" using mem by (simp add: mem_ok_def)
  from TcpConnection_ok [OF this, of a fd] obtain c0 where c0: "TcpConnection al a fd = Inr c0" "parse_inv c0 []" "replies_ok c0"
    "c_addr c0 = a" "cfd c0 = fd" "reply_list c0 = []" by blast
  define c1 where "c1 = (case snd (sock_peer_to_str peer) of None \<Rightarrow> c0 | Some (i, p) \<Rightarrow> c0\<lparr>ip := i, port := p\<rparr>)"
  have c1: "parse_inv c1 []" "replies_ok c1" "c_addr c1 = a" "cfd c1 = fd" "reply_list c1 = []"
    using c0 by (auto simp: c1_def parse_inv_def fresh_conn_def replies_ok_def split: option.split)
  from watchers_added [OF worker_okD(1) [OF ok] new(1-4), of a] obtain w1 where
    w1: "start_io_event iw fd READ (create_io_event iw Conn_io_cb w) = Inr w1" "event_loop.more w1 = event_loop.more w" by blast
  define u where "u = (if nat fd \<ge> length (conns w1) then grow_conns (nat fd + 1) w1 else w1)"
  have u: "ev_loop.truncate u = ev_loop.truncate w1" "w_cb u = w_cb w1" "need_repeat u = need_repeat w1"
    by (simp_all add: u_def grow_conns_def ev_loop.truncate_def)
  from watchers_added [OF worker_okD(1) [OF ok] new(1-4), of a] w1(1) u obtain w2 where
    w2: "start_timer tw 100000 (create_timer tw (Conn_time_cb a) True u) = Inr w2" "el_ok w2"
        "wkind w2 = (wkind w)(iw \<mapsto> Ev_io, tw \<mapsto> Ev_timer)" "event_loop.more w2 = event_loop.more u"
        "w_cb w2 = (w_cb w)(iw := Conn_io_cb, tw := Conn_time_cb a)" "need_repeat w2 = (need_repeat w)(tw := True)"
        "interest w2 = (interest w)(iw \<mapsto> (fd, READ))" "\<exists>t r. expiry w2 tw = Some (t, r) \<and> 0 < r" "\<forall>x. x \<noteq> tw \<longrightarrow> expiry w2 x = expiry w x"
        "loop_done w2 = loop_done w" by auto
  have cs: "conns w2 = (if nat fd \<ge> length (conns w) then conns w @ replicate (Suc (nat fd) - length (conns w)) None else conns w)"
    using ev_more_eq [OF w2(4)] ev_more_eq [OF w1(2)] by (simp add: u_def grow_conns_def)
  have pw: "pipe_watcher w2 = pipe_watcher w" "notify_recv_fd w2 = notify_recv_fd w" "rtc_msg_queue w2 = rtc_msg_queue w"
    using ev_more_eq [OF w2(4)] ev_more_eq [OF w1(2)] by (simp_all add: u_def grow_conns_def)
  define c where "c = c1\<lparr>io_watcher := Some iw, timer_watcher := Some tw, last_interaction := of_nat (now w2)\<rparr>"
  let ?v = "set_conn fd (Some c) w2"
  have c: "parse_inv c []" "replies_ok c" "c_addr c = a" "cfd c = int (nat fd)" "reply_list c = []" "io_watcher c = Some iw" "timer_watcher c = Some tw"
    using c1 new(4) by (simp_all add: c_def parse_inv_def fresh_conn_def replies_ok_def XHEAD_SIZE_def)
  have us: "used ?v j d \<longleftrightarrow> (if j = nat fd then d = c else used w j d)" for j d
    using used_set_conn [of fd w2 "Some c" j d] grow_nth(1) [OF cs] grow_nth(2) [OF cs, of j d] by (auto simp: used_def)
  have free: "\<not> used w (nat fd) d" for d using new(4,5) conn_at_used [of w fd d] by simp
  have "worker_ok ?v"
    by (rule added_ok [OF ok run new(1-3) _ us free, where xs = "[]"]) (use new c w2 pw in simp_all)
  moreover have "new_conn al a iw tw peer fd w = Inr ?v"
    using c0(1) w1(1) w2(1) new(4) by (simp add: new_conn_def Let_def c_def c1_def u_def)
  moreover have "conn_at ?v fd = Some c" using us [of "nat fd" c] new(4) by (simp add: conn_at_used)
  moreover have "used ?v i = used w i" if "i \<noteq> nat fd" for i using us [of i] that by (auto simp: fun_eq_iff)
  ultimately show ?thesis using c pw w2(10) by (intro exI [of _ ?v] exI [of _ c]) (simp add: set_conn_def)
qed

section \<open>Start and stop\<close>

lemma do_stop_ok:
  assumes ok: "worker_ok w" and run: "loop_done w = EVBREAK_CANCEL"
  shows "\<exists>w'. do_stop w = Inr w' \<and> worker_ok w' \<and> conns w' = conns w \<and>
    (is_start w \<longrightarrow> loop_done w' = EVBREAK_ALL \<and> sys_closed w' = sys_closed w @ [notify_recv_fd w, notify_send_fd w])"
proof (cases "is_start w")
  case False
  then show ?thesis using ok by (simp add: do_stop_def)
next
  case True
  from worker_okD(2) [OF ok] run obtain pw where pw: "pipe_watcher w = Some pw" "wkind w pw = Some Ev_io"
    by (auto simp: pipe_ok_def)
  from delete_io_event_spec [OF worker_okD(1) [OF ok] pw(2)] obtain v m where
    v: "delete_io_event pw w = Inr v" "el_ok v" "wkind v = (wkind w)(pw := None)"
      "\<forall>x. x \<noteq> pw \<longrightarrow> interest v x = interest w x" "io_frame w m" "v = free_watcher pw m" by blast
  have mo: "ev_loop.more v = ev_loop.more w" "expiry v = expiry w"
    using v(5) by (simp_all add: v(6) free_watcher_def io_frame_def expiry_def fun_eq_iff)
  note e = more_eq [OF mo(1)]
  define w' where "w' = (stop v)\<lparr>sys_closed := sys_closed v @ [notify_recv_fd v, notify_send_fd v]\<rparr>"
  have f: "wkind w' = wkind v" "interest w' = interest v" "expiry w' = expiry v" "w_cb w' = w_cb v" "need_repeat w' = need_repeat v"
    "conns w' = conns v" "pipe_watcher w' = pipe_watcher v" "loop_done w' = EVBREAK_ALL"
    by (simp_all add: w'_def stop_def ev_break_def interest_def expiry_def fun_eq_iff)
  have us: "used w' i c = used w i c" for i c using f(6) e(3) by (simp add: used_def)
  have own: "\<not> (used w i c \<and> watch_ok w i c iw tw \<and> (iw = pw \<or> tw = pw))" for i c iw tw
    using watchers_distinct(3) [OF ok, of i c iw tw] pw(1) by auto
  have "worker_ok w'"
  proof (rule worker_okI)
    show "el_ok w'"
      using v(2) by (simp add: w'_def stop_def ev_break_def el_ok_def loop_ok_def reps_ok_def ok_defs queued_def wanted_def ABSPRI_def)
    show "pipe_ok w'" using f pw e v(3) by (simp add: pipe_ok_def)
    show "conn_ok w' i c" if "used w' i c" for i c
    proof -
      have u: "used w i c" using that us by simp
      then have "conn_ok w i c" by (rule worker_okD(3) [OF ok])
      then obtain iw tw where wo: "watch_ok w i c iw tw" by (auto simp: conn_ok_def)
      have ne: "iw \<noteq> pw" "tw \<noteq> pw" using own [of i c iw tw] u wo by blast+
      then have "watch_ok w' i c iw tw" using wo v(3,4) f e mo(2) by (simp add: watch_ok_def)
      then show ?thesis using \<open>conn_ok w i c\<close> by (auto simp: conn_ok_def)
    qed
    show "c_addr c \<noteq> c_addr d \<and> io_watcher c \<noteq> io_watcher d \<and> timer_watcher c \<noteq> timer_watcher d"
      if "used w' i c" "used w' j d" "i \<noteq> j" for i j c d
      using worker_okD(4-6) [OF ok, of i c j d] that us by simp
    show "pipe_watcher w' = Some a \<or> (\<exists>i c. used w' i c \<and> owns c a)" if "wkind w' a \<noteq> None" for a
      using worker_okD(7) [OF ok, of a] that f v(3) e us by (auto split: if_splits)
  qed
  moreover have "do_stop w = Inr w'" using True pw v(1) by (simp add: do_stop_def w'_def Let_def stop_def ev_break_def)
  moreover have "sys_closed w' = sys_closed w @ [notify_recv_fd w, notify_send_fd w]" using e by (simp add: w'_def)
  ultimately show ?thesis using f e by (intro exI [of _ w']) simp
qed

lemma event_loop_new_ok: "el_ok (SignalingWorker a rt mn p wid tmo)"
  by (simp add: SignalingWorker_def event_loop_new_def event_loop.extend_def el_ok_def loop_ok_def reps_ok_def ok_defs queued_def
      ABSPRI_def heap_ord_def heap_act_def HEAP0_def pri_ok_def EV_MINPRI_def EV_MAXPRI_def)

lemma sw_init_ok:
  assumes fds: "fds = Some (r, s)" and r: "0 \<le> r"
  shows "\<exists>w. sw_init fds pw (SignalingWorker a rt mn p wid tmo) = Inr (w, 0) \<and> worker_ok w \<and>
    loop_done w = EVBREAK_CANCEL \<and> conns w = [] \<and> lfq_holds (q_conn w) [] \<and> rtc_msg_queue w = [] \<and>
    wkind w = [pw \<mapsto> Ev_io] \<and> q_conn w = lfq_init p 0 \<and> pipe_watcher w = Some pw \<and> notify_recv_fd w = r \<and>
    notify_pipe w = [] \<and> sys_out w = [] \<and> connection_timeout w = tmo \<and> \<not> is_start w"
proof -
  let ?n = "SignalingWorker a rt mn p wid tmo"
  have k: "wkind ?n = Map.empty" "interest ?n = (\<lambda>_. None)"
    by (auto simp: SignalingWorker_def event_loop_new_def event_loop.extend_def interest_def fun_eq_iff)
  let ?c = "create_io_event pw Signaling_worker_recv_notify ?n"
  have C: "el_ok ?c" "wkind ?c = (wkind ?n)(pw \<mapsto> Ev_io)" "interest ?c = interest ?n"
    "w_cb ?c = (w_cb ?n)(pw := Signaling_worker_recv_notify)"
    by (rule create_io_event_spec [OF event_loop_new_ok], simp add: k)+
  let ?w = "?c\<lparr>notify_recv_fd := r, notify_send_fd := s, pipe_watcher := Some pw\<rparr>"
  have tr: "ev_loop.truncate ?w = ev_loop.truncate ?c" by (simp add: ev_loop.truncate_def)
  have "interest ?w = interest ?c" by (simp add: interest_def fun_eq_iff)
  then have wf: "el_ok ?w" "wkind ?w pw = Some Ev_io" "interest ?w = (\<lambda>_. None)" "wkind ?w = [pw \<mapsto> Ev_io]"
    using el_ok_more [OF tr] C k by simp_all
  from start_io_event_spec [OF wf(1,2) r, of READ] wf(3) obtain v where
    v: "start_io_event pw r READ ?w = Inr v" "el_ok v" "io_frame ?w v" "interest v pw = Some (r, READ)"
    by (auto simp: old_mask_def READ_def)
  have f: "wkind v = [pw \<mapsto> Ev_io]" "ev_loop.more v = ev_loop.more ?w" "loop_done v = loop_done ?w"
    using v(3) wf(4) by (simp_all add: io_frame_def)
  note e = more_eq [OF f(2)]
  have g: "conns v = []" "pipe_watcher v = Some pw" "notify_recv_fd v = r" "w_cb v pw = Signaling_worker_recv_notify"
    "loop_done v = EVBREAK_CANCEL" "q_conn v = lfq_init p 0" "rtc_msg_queue v = []"
    "notify_pipe v = []" "sys_out v = []" "connection_timeout v = tmo" "\<not> is_start v"
    using e f(3) C(4) by (simp_all add: SignalingWorker_def event_loop.extend_def create_io_event_def ev_init_def event_loop_new_def)
  have "worker_ok v"
    by (rule worker_okI) (use g f v(2,4) r in \<open>auto simp: used_def pipe_ok_def split: if_splits\<close>)
  with v(1) g f(1) fds lfq_init_holds show ?thesis by (intro exI [of _ v]) (simp add: sw_init_def Let_def)
qed

section \<open>Notifications\<close>

text \<open>
  What the next notification needs from its environment: a queued descriptor is open and new to
  the worker, and a queued reply fits its buffer and answers a connection whose header was received.
\<close>

definition notify_ok :: "'j json_lib \<Rightarrow> addr \<times> addr \<times> addr \<Rightarrow> sig_worker \<Rightarrow> bool" where
  "notify_ok J addrs w \<longleftrightarrow>
     (\<exists>fds. lfq_holds (q_conn w) fds \<and> (fds \<noteq> [] \<longrightarrow> fresh_for w addrs (hd fds))) \<and>
     (\<forall>msg ms c. rtc_msg_queue w = msg # ms \<longrightarrow> json_fits J msg \<and>
        (conn_at w (m_fd msg) = Some c \<and> m_conn msg = Some (c_addr c) \<longrightarrow> current_state c = STATE_BODY))"

text \<open>The worker apart from its queues and its log of system calls.\<close>

lemma worker_ok_queue:
  assumes "worker_ok w"
  shows "worker_ok (w\<lparr>q_conn := q\<rparr>)" "worker_ok (w\<lparr>rtc_msg_queue := ms\<rparr>)" "worker_ok (w\<lparr>notify_pipe := ns\<rparr>)"
proof -
  have cong: "worker_ok v" if "ev_loop.truncate v = ev_loop.truncate w" "w_cb v = w_cb w" "need_repeat v = need_repeat w"
    "pipe_watcher v = pipe_watcher w" "notify_recv_fd v = notify_recv_fd w" "conns v = conns w" for v :: sig_worker
  proof -
    have f: "wkind v = wkind w" "interest v = interest w" "expiry v = expiry w" "loop_done v = loop_done w"
      using that(1) by (simp_all add: ev_loop.truncate_def interest_def expiry_def fun_eq_iff)
    have u: "used v = used w" "conn_ok v = conn_ok w" "pipe_ok v = pipe_ok w"
      using that(2-) f by (simp_all add: used_def conn_ok_def watch_ok_def pipe_ok_def fun_eq_iff)
    show ?thesis
      using assms unfolding worker_ok_def u f(1) that(4) el_ok_more [OF that(1)] .
  qed
  show "worker_ok (w\<lparr>q_conn := q\<rparr>)" "worker_ok (w\<lparr>rtc_msg_queue := ms\<rparr>)" "worker_ok (w\<lparr>notify_pipe := ns\<rparr>)"
    by (rule cong; simp add: ev_loop.truncate_def)+
qed

lemma conn_rtc: "conn_at (w\<lparr>rtc_msg_queue := ms\<rparr>) = conn_at w"
  by (simp add: conn_at_def fun_eq_iff)

lemma fresh_for_queue [simp]: "fresh_for (w\<lparr>q_conn := q\<rparr>) addrs fd = fresh_for w addrs fd"
  by (simp add: fresh_for_def conn_at_def)

lemma process_notify_ok:
  assumes ok: "worker_ok w" and run: "loop_done w = EVBREAK_CANCEL" and mem: "mem_ok al" and n: "notify_ok J addrs w"
  shows "\<exists>w'. process_notify al J addrs peer msg w = Inr w' \<and> worker_ok w'"
proof -
  obtain a iw tw where ad: "addrs = (a, iw, tw)" by (cases addrs)
  consider "msg = QUIT" | "msg = NEW_CONN" | "msg = RTC_MSG" | "msg \<noteq> QUIT" "msg \<noteq> NEW_CONN" "msg \<noteq> RTC_MSG" by blast
  then show ?thesis
  proof cases
    case 1
    then show ?thesis using do_stop_ok [OF ok run] by (auto simp: process_notify_def)
  next
    case 2
    from n obtain fds where fds: "lfq_holds (q_conn w) fds" "fds \<noteq> [] \<longrightarrow> fresh_for w addrs (hd fds)"
      by (auto simp: notify_ok_def)
    show ?thesis
    proof (cases fds)
      case Nil
      then have "lfq_consume (q_conn w) = Inr (None, q_conn w)" using lfq.deq_empty fds(1) by simp
      then show ?thesis using 2 ok worker_ok_queue(1) [OF ok] by (simp add: process_notify_def QUIT_def NEW_CONN_def)
    next
      case (Cons fd fds')
      with fds(1) have "lfq_holds (q_conn w) (fd # fds')" by simp
      from lfq.deq_holds [OF this] obtain q where q: "lfq_consume (q_conn w) = Inr (Some fd, q)" by (elim exE conjE)
      let ?w = "w\<lparr>q_conn := q\<rparr>"
      have fr: "fresh_for ?w (a, iw, tw) fd" using fds(2) Cons ad by simp
      have "loop_done ?w = EVBREAK_CANCEL" using run by simp
      from new_conn_ok [OF worker_ok_queue(1) [OF ok] this fr mem, of peer] obtain w' where
        "new_conn al a iw tw peer fd ?w = Inr w'" "worker_ok w'" by (elim exE conjE) (rule that)
      then show ?thesis using q 2 ad by (simp add: process_notify_def QUIT_def NEW_CONN_def)
    qed
  next
    case 3
    then have pn: "process_notify al J addrs peer msg w = process_rtc_msg al J w"
      by (simp add: process_notify_def QUIT_def NEW_CONN_def RTC_MSG_def)
    show ?thesis
    proof (cases "rtc_msg_queue w")
      case Nil
      then show ?thesis using ok pn by (simp add: process_rtc_msg_def)
    next
      case (Cons m ms)
      let ?w = "w\<lparr>rtc_msg_queue := ms\<rparr>"
      have wok: "worker_ok ?w" by (rule worker_ok_queue(2) [OF ok])
      have J: "json_fits J m" using n Cons by (simp add: notify_ok_def)
      have head: "current_state c = STATE_BODY" if "conn_at ?w (m_fd m) = Some c" "m_conn m = Some (c_addr c)" for c
        using n Cons that conn_rtc [of ms w] unfolding notify_ok_def by simp
      from response_server_offer_ok [OF wok mem J head] obtain w' where
        "response_server_offer al J m ?w = Inr w'" "worker_ok w'" by blast
      then show ?thesis using wok Cons pn by (cases "cmdno m = CMDNO_PUSH") (simp_all add: process_rtc_msg_def)
    qed
  next
    case 4
    then show ?thesis using ok by (simp add: process_notify_def)
  qed
qed

section \<open>Dispatch\<close>

text \<open>
  libev hands an event of the watcher at \<open>a\<close> to \<open>generic_io_cb\<close> or \<open>generic_timer_cb\<close>, which call
  the function the watcher carries. A call of an io callback through a timer, or the other way
  round, would not be well typed.
\<close>

definition worker_event ::
    "allocator \<Rightarrow> bool \<Rightarrow> 'j json_lib \<Rightarrow> 'g send \<Rightarrow> rres \<Rightarrow> (nat \<Rightarrow> wres) \<Rightarrow> addr \<times> addr \<times> addr \<Rightarrow> (byte list \<times> u16) option \<Rightarrow>
     addr \<Rightarrow> u32 \<Rightarrow> sig_worker \<Rightarrow> 'g \<Rightarrow> (sig_worker \<times> 'g) res option" where
  "worker_event al ndebug J send r wr addrs peer a revents w g =
     (case wkind w a of
        None \<Rightarrow> Some (Inl UseAfterFree)
      | Some Ev_io \<Rightarrow>
          (case generic_io_cb a revents w of (cb, fd, events) \<Rightarrow>
            (case cb of
               Signaling_worker_recv_notify \<Rightarrow>
                 Some (rbind (signaling_worker_recv_notify al J addrs peer w) (\<lambda>w'. Inr (w', g)))
             | Conn_io_cb \<Rightarrow> conn_io_cb al ndebug J send r wr fd events w g
             | Conn_time_cb _ \<Rightarrow> Some (Inl Terminate)))
      | Some Ev_timer \<Rightarrow>
          (case generic_timer_cb a w of
             Conn_time_cb c \<Rightarrow> Some (rbind (conn_time_cb c w) (\<lambda>w'. Inr (w', g)))
           | _ \<Rightarrow> Some (Inl Terminate)))"

lemma conn_io_cb_ok:
  assumes ok: "worker_ok w" and mem: "mem_ok al" and small: "bodies_small w"
    and m: "conn_io_cb al nd J send r wr fd events w g = Some m"
  shows "\<exists>w' g'. m = Inr (w', g') \<and> worker_ok w' \<and> loop_done w' = loop_done w"
proof -
  let ?rd = "if events AND READ \<noteq> 0 then read_query al nd J send r fd w g else Some (Inr (w, g))"
  from m obtain x where x: "?rd = Some x" unfolding conn_io_cb_def by (cases ?rd) simp_all
  have "\<exists>w1 g1. x = Inr (w1, g1) \<and> worker_ok w1 \<and> loop_done w1 = loop_done w"
  proof (cases "events AND READ \<noteq> 0")
    case True
    with x have "read_query al nd J send r fd w g = Some x" by simp
    then show ?thesis by (rule read_query_ok [OF ok mem small])
  qed (use x ok in auto)
  then obtain w1 g1 where w1: "x = Inr (w1, g1)" "worker_ok w1" "loop_done w1 = loop_done w" by blast
  show ?thesis
  proof (cases "events AND WRITE \<noteq> 0")
    case True
    with m x w1(1) have "map_option (\<lambda>m. rbind m (\<lambda>w2. Inr (w2, g1))) (write_reply wr fd w1) = Some m"
      by (simp add: conn_io_cb_def)
    then obtain y where y: "write_reply wr fd w1 = Some y" "m = rbind y (\<lambda>w2. Inr (w2, g1))" by auto
    from write_reply_ok [OF w1(2) y(1)] obtain w2 where "y = Inr w2" "worker_ok w2" "loop_done w2 = loop_done w1" by blast
    then show ?thesis using y(2) w1(3) by simp
  next
    case False
    with m x w1(1) have "m = Inr (w1, g1)" by (simp add: conn_io_cb_def)
    then show ?thesis using w1(2,3) by simp
  qed
qed

lemma notify_ok_pipe: "notify_ok J addrs (w\<lparr>notify_pipe := ns\<rparr>) = notify_ok J addrs w"
  by (simp add: notify_ok_def fresh_for_def conn_at_def)

lemma worker_event_ok:
  assumes ok: "worker_ok w" and a: "wkind w a \<noteq> None" and mem: "mem_ok al" and small: "bodies_small w"
    and n: "notify_ok J addrs w" and m: "worker_event al nd J send r wr addrs peer a revents w g = Some m"
  shows "\<exists>w' g'. m = Inr (w', g') \<and> worker_ok w'"
  using owner [OF ok a]
proof (elim disjE exE conjE)
  assume p: "loop_done w = EVBREAK_CANCEL" "wkind w a = Some Ev_io" "w_cb w a = Signaling_worker_recv_notify"
  have "\<exists>w'. signaling_worker_recv_notify al J addrs peer w = Inr w' \<and> worker_ok w'"
  proof (cases "notify_pipe w")
    case (Cons msg rest)
    have "loop_done (w\<lparr>notify_pipe := rest\<rparr>) = EVBREAK_CANCEL" using p(1) by simp
    from process_notify_ok [OF worker_ok_queue(3) [OF ok] this mem] n Cons show ?thesis
      by (simp add: signaling_worker_recv_notify_def notify_ok_pipe)
  qed (use ok in \<open>simp add: signaling_worker_recv_notify_def\<close>)
  then show ?thesis using m p by (auto simp: worker_event_def generic_io_cb_def)
next
  fix i c tw
  assume "used w i c" "watch_ok w i c a tw"
  then have "wkind w a = Some Ev_io" "w_cb w a = Conn_io_cb" by (simp_all add: watch_ok_def)
  with m have "conn_io_cb al nd J send r wr (w_fd w a) (TRANS_FROM_EV_MASK revents) w g = Some m"
    by (simp add: worker_event_def generic_io_cb_def)
  from conn_io_cb_ok [OF ok mem small this] show ?thesis by blast
next
  fix i c iw
  assume "used w i c" "watch_ok w i c iw a"
  then have k: "wkind w a = Some Ev_timer" by (simp add: watch_ok_def)
  from conn_time_cb_ok [OF ok k] obtain c :: tcp_connection and w' where "w_cb w a = Conn_time_cb (c_addr c)" "conn_time_cb (c_addr c) w = Inr w'" "worker_ok w'"
    by (elim exE conjE) (rule that)
  then show ?thesis using m k by (auto simp: worker_event_def generic_timer_cb_def)
qed

end
