(* ===== verification/Worker_Props.thy ===== *)
theory Worker_Props
  imports Worker_Safe Conn_Props
begin

unbundle bit_operations_syntax

text \<open>
  The properties of a signalling worker: its handlers and the dispatch of events, in terms of the
  worker's invariant.
\<close>

section \<open>A concrete worker\<close>

text \<open>A worker after \<open>init\<close> and \<open>start\<close>; one that has accepted a connection; one that owes it a reply.\<close>

lemma worker_ok_start: "worker_ok (w\<lparr>is_start := b\<rparr>) = worker_ok w"
proof -
  have "el_ok (w\<lparr>is_start := b\<rparr>) = el_ok w" by (rule el_ok_more) (simp add: ev_loop.truncate_def)
  then show ?thesis
    by (simp add: worker_ok_def pipe_ok_def used_def conn_ok_def watch_ok_def interest_def expiry_def)
qed

lemma demo_worker:
  "\<exists>w. worker_ok w \<and> loop_done w = EVBREAK_CANCEL \<and> is_start w \<and> conns w = [] \<and> fresh_for w (100, 101, 102) 7 \<and>
    lfq_holds (q_conn w) [] \<and> rtc_msg_queue w = [] \<and> wkind w = [50 \<mapsto> Ev_io] \<and> notify_pipe w = [] \<and> pipe_watcher w = Some 50"
proof -
  obtain w0 where w: "worker_ok w0" "loop_done w0 = EVBREAK_CANCEL" "conns w0 = []" "lfq_holds (q_conn w0) []"
    "rtc_msg_queue w0 = []" "wkind w0 = [50 \<mapsto> Ev_io]" "notify_pipe w0 = []" "pipe_watcher w0 = Some 50"
    using sw_init_ok [OF refl, of 3 4 50 1 0 0 20 0 1000] by auto
  then show ?thesis
    by (intro exI [of _ "w0\<lparr>is_start := True\<rparr>"]) (simp add: worker_ok_start fresh_for_def conn_at_def)
qed

lemma demo_conn_worker:
  "\<exists>w c. worker_ok w \<and> loop_done w = EVBREAK_CANCEL \<and> conn_at w 7 = Some c \<and> c_addr c = 100 \<and> parse_inv c [] \<and>
    reply_list c = [] \<and> rtc_msg_queue w = []"
proof -
  obtain w where "worker_ok w" "loop_done w = EVBREAK_CANCEL" "fresh_for w (100, 101, 102) 7" "rtc_msg_queue w = []"
    using demo_worker by blast
  from new_conn_ok [OF this(1-3) demo_mem] this(2,4) show ?thesis by metis
qed

lemma demo_reply_worker:
  "\<exists>w c. worker_ok w \<and> conn_at w 7 = Some c \<and> unsent c = [1, 2, 3]"
proof -
  obtain w c where w: "worker_ok w" "conn_at w 7 = Some c" "reply_list c = []"
    using demo_conn_worker by blast
  have u: "used w (nat 7) c" using w(2) conn_at_used by blast
  have r: "reply_ok (slice_of [1, 2, 3] 3)" by (simp add: reply_ok_def slice_of_def slice_wf_def)
  obtain w' d where "worker_ok w'" "conns w' = (conns w)[nat 7 := Some d]" "unsent d = unsent c @ slice_bytes (slice_of [1, 2, 3] 3)"
    using add_reply_ok [OF w(1) u _ r] by auto
  moreover have "unsent c = []" using w(3) by (simp add: unsent_def)
  moreover have "nat 7 < length (conns w)" using u by (simp add: used_def)
  ultimately show ?thesis by (intro exI [of _ w'] exI [of _ d]) (simp add: conn_at_def slice_bytes_def slice_of_def)
qed

lemma demo_head_worker:
  "\<exists>w d. worker_ok w \<and> conn_at w 7 = Some d \<and> c_addr d = 100 \<and> reply_list d = [] \<and> current_state d = STATE_BODY \<and>
    parse_inv d (bytes_of_xhead demo_xhead)"
proof -
  obtain w c where w: "worker_ok w" "conn_at w 7 = Some c" "c_addr c = 100" "reply_list c = []"
    using demo_conn_worker by blast
  have u: "used w (nat 7) c" using w(2) conn_at_used by blast
  let ?bs = "bytes_of_xhead demo_xhead"
  let ?d = "c\<lparr>querybuf := \<lparr>sh_len = 36, sh_free = 0, sh_buf = ?bs @ [0]\<rparr>, current_state := STATE_BODY,
      bytes_processed := XHEAD_SIZE, bytes_expected := 5\<rparr>"
  have wf: "xhead_wf demo_xhead" by (simp add: xhead_wf_def demo_xhead_def)
  have len: "length ?bs = 36" using length_bytes_of_xhead [OF wf] by (simp add: XHEAD_SIZE_def)
  have hd: "xhead ?bs = demo_xhead" using xhead_of_bytes_of_xhead [OF wf, of "[]"] by (simp add: xhead_def)
  have p: "parse_inv ?d ?bs"
    using len hd by (simp add: parse_inv_def sds_str_def sds_wf_def sds_content_def XHEAD_SIZE_def nth_append demo_xhead_def)
  have "replies_ok ?d"
    using worker_okD(3) [OF w(1) u] w(4) by (simp add: conn_ok_def replies_ok_def)
  from set_conn_ok [OF w(1) u p this] have "worker_ok (set_conn 7 (Some ?d) w)" by (simp add: want_def)
  moreover have "nat 7 < length (conns w)" using u by (simp add: used_def)
  ultimately show ?thesis
    using p w(3,4) by (intro exI [of _ "set_conn 7 (Some ?d) w"] exI [of _ ?d]) (simp add: conn_at_def set_conn_def)
qed

section \<open>Writing to a live socket\<close>

lemma write_reply_live:
  assumes ok: "worker_ok w" and fd: "0 < fd" and c: "conn_at w fd = Some c" and live: "live_socket wr"
  shows "\<exists>m. write_reply wr fd w = Some m \<and> \<not> (\<exists>w'. m = Inr w' \<and> conn_at w' fd = None)"
proof -
  have u: "used w (nat fd) c" using c conn_at_used by blast
  have ck: "conn_ok w (nat fd) c" by (rule worker_okD(3) [OF ok u])
  then obtain iw tw where wo: "watch_ok w (nat fd) c iw tw" by (auto simp: conn_ok_def)
  have rk: "replies_ok c" using ck by (simp add: conn_ok_def)
  from write_loop_sends_all [OF rk live, of 0 "[]"] obtain d where
    d: "write_loop wr 0 c [] = Some (Inr (False, d, unsent c))" "reply_list d = []" "same_conn c d" by auto
  note sf = same_conn_fields [OF d(3)]
  let ?w1 = "(set_conn fd (Some d) w)\<lparr>sys_out := sys_out w @ [(cfd c, unsent c)]\<rparr>"
  let ?w2 = "set_conn fd (Some (d\<lparr>last_interaction := of_nat (now ?w1)\<rparr>)) ?w1"
  have tr: "ev_loop.truncate ?w2 = ev_loop.truncate w" by (simp add: ev_loop.truncate_def set_conn_def)
  have e: "el_ok ?w2" using el_ok_more [OF tr] worker_okD(1) [OF ok] by simp
  have k: "wkind ?w2 iw = Some Ev_io" "interest ?w2 iw = Some (fd, want c)" "io_watcher d = Some iw"
    using wo sf(3) fd by (auto simp: watch_ok_def set_conn_def interest_def split: if_splits)
  from stop_io_event_spec [OF e k(1) _ k(2), of WRITE] fd obtain v where
    v: "stop_io_event iw fd WRITE ?w2 = Inr v" "io_frame ?w2 v" by auto
  have "conns v = conns ?w2" by (rule more_eq(3)) (use v(2) in \<open>simp add: io_frame_def\<close>)
  moreover have "nat fd < length (conns w)" using u by (simp add: used_def)
  ultimately have "conn_at v fd \<noteq> None" using fd by (simp add: conn_at_def set_conn_def)
  moreover have "cfd d = fd" using sf(2) ck fd by (simp add: conn_ok_def)
  ultimately show ?thesis
    using d(1,2) c fd k(3) v(1) by (simp add: write_reply_def Let_def)
qed

lemma write_reply_all:
  assumes "worker_ok w" "0 < fd" "conn_at w fd = Some c" "live_socket wr"
  shows "\<exists>w' d. write_reply wr fd w = Some (Inr w') \<and> worker_ok w' \<and> sys_out w' = sys_out w @ [(fd, unsent c)] \<and>
    conn_at w' fd = Some d \<and> reply_list d = [] \<and> (\<exists>iw. io_watcher d = Some iw \<and> interest w' iw = Some (fd, READ))"
proof -
  have u: "used w (nat fd) c" using assms(3) conn_at_used by blast
  obtain m where m: "write_reply wr fd w = Some m" "\<not> (\<exists>w'. m = Inr w' \<and> conn_at w' fd = None)"
    using write_reply_live [OF assms] by blast
  from write_reply_ok [OF assms(1) m(1)] obtain w' where w': "m = Inr w'" "worker_ok w'"
    "\<exists>bs rest. sys_out w' = sys_out w @ [(fd, bs)] \<and> unsent c = bs @ rest \<and>
      (case conn_at w' fd of None \<Rightarrow> sys_closed w' = sys_closed w @ [fd] | Some d \<Rightarrow> rest = [] \<and> reply_list d = [])"
    using assms(2,3) by auto
  have "conn_at w' fd \<noteq> None" using m(2) unfolding w'(1) by simp
  then obtain d where d: "conn_at w' fd = Some d" by blast
  then have ok: "conn_ok w' (nat fd) d" using worker_okD(3) [OF w'(2)] conn_at_used by blast
  then obtain iw tw where "watch_ok w' (nat fd) d iw tw" by (auto simp: conn_ok_def)
  then have "io_watcher d = Some iw" "interest w' iw = Some (fd, want d)" using assms(2) by (simp_all add: watch_ok_def)
  then show ?thesis using w' d m(1) by (auto simp: want_def)
qed

section \<open>Properties\<close>



text \<open>
  C9: as long as the peer goes on accepting bytes now and then, \<open>write_reply\<close> returns, has handed
  the socket exactly the bytes the connection still owed, in order, and leaves the connection open
  with no reply queued and its watcher waiting for reads only.
\<close>

theorem write_reply_sends_all:
  assumes "worker_ok w" "0 < fd" "conn_at w fd = Some c" "live_socket wr"
  shows "\<exists>w' d. write_reply wr fd w = Some (Inr w') \<and> worker_ok w' \<and> sys_out w' = sys_out w @ [(fd, unsent c)] \<and>
    conn_at w' fd = Some d \<and> reply_list d = [] \<and> (\<exists>iw. io_watcher d = Some iw \<and> interest w' iw = Some (fd, READ))"
  by (rule write_reply_all [OF assms])

theorem write_reply_sends_all_witness:
  "\<exists>w w' d. worker_ok w \<and> write_reply (\<lambda>n. if even n then W_eagain else W_bytes 2) 7 w = Some (Inr w') \<and>
     (7, [1, 2, 3]) \<in> set (sys_out w') \<and> conn_at w' 7 = Some d \<and> reply_list d = []"
proof -
  obtain w c where w: "worker_ok w" "conn_at w 7 = Some c" "unsent c = [1, 2, 3]" using demo_reply_worker by blast
  have "live_socket (\<lambda>n. if even n then W_eagain else W_bytes 2)"
    unfolding live_socket_def
  proof (intro conjI allI)
    fix n :: nat
    show "\<exists>m \<ge> n. \<exists>k > 0. (if even m then W_eagain else W_bytes 2) = W_bytes k"
      by (rule exI [of _ "2 * n + 1"]) simp
  qed simp
  from write_reply_sends_all [OF w(1) _ w(2) this] w show ?thesis by fastforce
qed

text \<open>
  C10: whatever the socket does, what \<open>write_reply\<close> hands to it is a first part of what the
  connection owed, in order and each byte once; but a peer that accepts nothing at all, without an
  error, keeps the worker in the loop for ever.
\<close>

theorem write_reply_busy:
  assumes "worker_ok w" "0 < fd" "conn_at w fd = Some c" "reply_list c \<noteq> []"
  shows "write_reply (\<lambda>n. W_eagain) fd w = None \<and>
    (\<forall>m. write_reply wr fd w = Some m \<longrightarrow>
       (\<exists>w' bs rest. m = Inr w' \<and> worker_ok w' \<and> sys_out w' = sys_out w @ [(fd, bs)] \<and> unsent c = bs @ rest))"
proof -
  have "conn_ok w (nat fd) c" using worker_okD(3) [OF assms(1)] conn_at_used assms(3) by blast
  then have ok: "replies_ok c" by (simp add: conn_ok_def)
  have "write_reply (\<lambda>n. W_eagain) fd w = None"
    using write_loop_busy [OF ok assms(4), of "\<lambda>n. W_eagain" 0 "[]"] assms(2,3) by (simp add: write_reply_def)
  moreover have "\<exists>w' bs rest. m = Inr w' \<and> worker_ok w' \<and> sys_out w' = sys_out w @ [(fd, bs)] \<and> unsent c = bs @ rest"
    if "write_reply wr fd w = Some m" for m
    using write_reply_ok [OF assms(1) that] assms(2,3) by blast
  ultimately show ?thesis by blast
qed

theorem write_reply_busy_witness: "\<exists>w. worker_ok w \<and> write_reply (\<lambda>n. W_eagain) 7 w = None"
proof -
  obtain w c where w: "worker_ok w" "conn_at w 7 = Some c" "unsent c = [1, 2, 3]" using demo_reply_worker by blast
  have "reply_list c \<noteq> []" using w(3) by (auto simp: unsent_def)
  from write_reply_busy [OF w(1) _ w(2) this, of "\<lambda>n. W_err"] w(1) show ?thesis by auto
qed

text \<open>
  C11: the answer of the media server is queued on the connection the request came from, behind
  what that connection still has to send, as the header of the request with the length of the text
  and the text; when the connection is gone, or its slot is used by another one, the answer is
  dropped and nothing changes.
\<close>

theorem offer_queued:
  assumes "worker_ok w" "mem_ok al" "json_fits J msg"
    "\<And>c. conn_at w (m_fd msg) = Some c \<Longrightarrow> m_conn msg = Some (c_addr c) \<Longrightarrow> current_state c = STATE_BODY"
  shows "\<exists>w'. response_server_offer al J msg w = Inr w' \<and> worker_ok w' \<and> loop_done w' = loop_done w \<and> sys_out w' = sys_out w \<and>
    (case conn_at w (m_fd msg) of
       Some c \<Rightarrow> if 0 < m_fd msg \<and> m_conn msg = Some (c_addr c)
         then \<exists>d xs. conns w' = (conns w)[nat (m_fd msg) := Some d] \<and> c_addr d = c_addr c \<and> parse_inv c xs \<and>
           unsent d = unsent c @ wire ((xhead xs)\<lparr>xh_body_len := of_nat (length (reply_json J msg))\<rparr>) (reply_json J msg)
         else w' = w
     | None \<Rightarrow> w' = w)"
  by (rule response_server_offer_ok [OF assms(1-3)]) (rule assms(4))

theorem offer_queued_witness:
  "\<exists>w w' d. worker_ok w \<and> response_server_offer demo_al (demo_json 1) (rtc_msg0\<lparr>m_conn := Some 100, m_fd := 7\<rparr>) w = Inr w' \<and>
     worker_ok w' \<and> conns w' = (conns w)[7 := Some d] \<and> length (unsent d) = 38"
proof -
  obtain w c where w: "worker_ok w" "conn_at w 7 = Some c" "c_addr c = 100" "reply_list c = []" "current_state c = STATE_BODY"
    using demo_head_worker by blast
  let ?m = "rtc_msg0\<lparr>m_conn := Some 100, m_fd := 7\<rparr>"
  have j: "reply_json (demo_json 1) ?m = cstr ''ok''" by (simp add: reply_json_def rtc_msg0_def demo_json_def)
  have f: "json_fits (demo_json 1) ?m" by (simp add: json_fits_def j MAX_RES_BUF_def cstr_def)
  have "length (unsent c) = 0" using w(4) by (simp add: unsent_def)
  then have nil: "unsent c = []" by simp
  have "current_state d = STATE_BODY" if "conn_at w (m_fd ?m) = Some d" for d using that w(2,5) by (simp add: rtc_msg0_def)
  from offer_queued [OF w(1) demo_mem f this] w(2,3) nil obtain w' d xs where
    w': "response_server_offer demo_al (demo_json 1) ?m w = Inr w'" "worker_ok w'" "conns w' = (conns w)[7 := Some d]"
      "parse_inv c xs" "unsent d = wire ((xhead xs)\<lparr>xh_body_len := of_nat (length (reply_json (demo_json 1) ?m))\<rparr>) (reply_json (demo_json 1) ?m)"
    by (auto simp: rtc_msg0_def)
  have "XHEAD_SIZE \<le> length xs" using w'(4) w(5) by (auto simp: parse_inv_def fresh_conn_def split: if_splits)
  then have "xhead_wf ((xhead xs)\<lparr>xh_body_len := n\<rparr>)" for n using xhead_ok [of xs] by (simp add: xhead_wf_def)
  then have "length (unsent d) = 38" using w'(5) by (simp add: wire_def j XHEAD_SIZE_def)
  with w' w(1) show ?thesis by blast
qed

text \<open>
  C12: a new connection on an unused descriptor gets its slot, a registered io watcher that waits
  for reads and a running timer, and disturbs no other connection.
\<close>

theorem connection_accepted:
  assumes "worker_ok w" "loop_done w = EVBREAK_CANCEL" "fresh_for w (a, iw, tw) fd" "mem_ok al"
  shows "\<exists>w' c. new_conn al a iw tw peer fd w = Inr w' \<and> worker_ok w' \<and> conn_at w' fd = Some c \<and> c_addr c = a \<and>
    parse_inv c [] \<and> reply_list c = [] \<and> (\<exists>iw' tw'. watch_ok w' (nat fd) c iw' tw') \<and>
    (\<forall>i. i \<noteq> nat fd \<longrightarrow> used w' i = used w i)"
proof -
  from new_conn_ok [OF assms, of peer] obtain w' c where
    w': "new_conn al a iw tw peer fd w = Inr w'" "worker_ok w'" "conn_at w' fd = Some c" "c_addr c = a" "parse_inv c []"
      "reply_list c = []" "\<forall>i. i \<noteq> nat fd \<longrightarrow> used w' i = used w i" by blast
  have "conn_ok w' (nat fd) c" using worker_okD(3) [OF w'(2)] conn_at_used w'(3) by blast
  then show ?thesis using w' by (intro exI [of _ w'] exI [of _ c]) (simp add: conn_ok_def)
qed

theorem connection_accepted_witness:
  "\<exists>w w' c. worker_ok w \<and> new_conn demo_al 100 101 102 None 7 w = Inr w' \<and> worker_ok w' \<and> conn_at w' 7 = Some c"
proof -
  obtain w where "worker_ok w" "loop_done w = EVBREAK_CANCEL" "fresh_for w (100, 101, 102) 7" using demo_worker by blast
  with connection_accepted [OF this demo_mem, of None] show ?thesis by blast
qed

text \<open>
  C13: when the timer of a connection fires, the connection its callback data points into still
  exists; it is closed, with its descriptor and both watchers, exactly when it has been idle for
  longer than the timeout.
\<close>

theorem idle_connection_closed:
  assumes "worker_ok w" "wkind w a = Some Ev_timer"
  shows "\<exists>i c w'. used w i c \<and> timer_watcher c = Some a \<and> w_cb w a = Conn_time_cb (c_addr c) \<and>
    conn_time_cb (c_addr c) w = Inr w' \<and> worker_ok w' \<and> loop_done w' = loop_done w \<and>
    (if timed_out w c then conns w' = (conns w)[i := None] \<and> sys_closed w' = sys_closed w @ [int i] else w' = w)"
  by (rule conn_time_cb_ok [OF assms])

theorem idle_connection_closed_witness:
  "\<exists>w a i c w'. worker_ok w \<and> used w i c \<and> timer_watcher c = Some a \<and> conn_time_cb (c_addr c) w = Inr w' \<and> worker_ok w'"
proof -
  obtain w c where w: "worker_ok w" "conn_at w 7 = Some c" using demo_conn_worker by blast
  then obtain iw tw where "watch_ok w (nat 7) c iw tw" using worker_okD(3) [OF w(1)] conn_at_used conn_ok_def by blast
  then have "wkind w tw = Some Ev_timer" by (simp add: watch_ok_def)
  from idle_connection_closed [OF w(1) this] w(1) show ?thesis by (elim exE conjE) (intro exI conjI)
qed

text \<open>
  C14: a started worker that is told to stop deletes the watcher of its pipe, ends its loop, closes
  both ends of the pipe and keeps its invariant; its connections stay until it is destroyed.
\<close>

theorem worker_stops:
  assumes "worker_ok w" "loop_done w = EVBREAK_CANCEL" "is_start w"
  shows "\<exists>w'. process_notify al J addrs peer QUIT w = Inr w' \<and> worker_ok w' \<and> loop_done w' = EVBREAK_ALL \<and>
    conns w' = conns w \<and> sys_closed w' = sys_closed w @ [notify_recv_fd w, notify_send_fd w]"
  using do_stop_ok [OF assms(1,2)] assms(3) by (auto simp: process_notify_def)

theorem worker_stops_witness:
  "\<exists>w w'. worker_ok w \<and> process_notify demo_al (demo_json 1) (0, 1, 2) None QUIT w = Inr w' \<and> loop_done w' = EVBREAK_ALL"
proof -
  obtain w where w: "worker_ok w" "loop_done w = EVBREAK_CANCEL" "is_start w" using demo_worker by blast
  from worker_stops [OF this, of demo_al "demo_json 1" "(0, 1, 2)" None] w(1) show ?thesis by blast
qed

end
