(* ===== verification/Signaling_Server.thy ===== *)
theory Signaling_Server
  imports Signaling_Worker
begin

text \<open>
  The signalling server (\<open>server/signaling_server.h\<close>, \<open>.cpp\<close>): it accepts TCP connections and
  hands them to its workers in turn. The configuration file is an argument, \<open>None\<close> when the YAML
  library throws; so are the outcomes of the system calls and the addresses \<open>new\<close> returns.
\<close>

section \<open>The server\<close>

datatype ss_cb = Signaling_server_recv_notify | Accept_new_conn

definition SS_QUIT :: int where "SS_QUIT = 0"

record sig_options =
  so_host :: "byte list"
  so_port :: int
  so_worker_num :: int
  so_connection_timeout :: int

record sig_server = "ss_cb event_loop" +
  ss_options :: sig_options
  ss_io_watcher :: "addr option"
  ss_pipe_watcher :: "addr option"
  ss_recv_fd :: fd
  ss_send_fd :: fd
  ss_listen_fd :: fd
  ss_workers :: "sig_worker list"
  ss_next_worker_index :: int
  ss_thread :: bool
  ss_is_start :: bool
  ss_pipe :: "int list"
  ss_closed :: "fd list"

text \<open>The members the constructor does not set have some value: \<open>opts\<close>, and null for the watchers.\<close>

definition SignalingServer :: "real \<Rightarrow> real \<Rightarrow> sig_options \<Rightarrow> sig_server" where
  "SignalingServer rt mn opts =
     event_loop.extend (event_loop_new rt mn Signaling_server_recv_notify)
       \<lparr>ss_options = opts, ss_io_watcher = None, ss_pipe_watcher = None, ss_recv_fd = -1, ss_send_fd = -1,
        ss_listen_fd = -1, ss_workers = [], ss_next_worker_index = 0, ss_thread = False, ss_is_start = False,
        ss_pipe = [], ss_closed = []\<rparr>"

record sig_worker_env =
  se_addr :: addr
  se_rt :: real
  se_mn :: real
  se_node :: addr
  se_pipe :: "(fd \<times> fd) option"
  se_watcher :: addr

definition ss_create_worker :: "sig_worker_env \<Rightarrow> int \<Rightarrow> sig_server \<Rightarrow> (sig_server \<times> int) res" where
  "ss_create_worker e wid s =
     rbind (sw_init (se_pipe e) (se_watcher e)
         (SignalingWorker (se_addr e) (se_rt e) (se_mn e) (se_node e) wid (so_connection_timeout (ss_options s)))) (\<lambda>(w, r).
       if r \<noteq> 0 then Inr (s, -1)
       else let (w1, b) = sw_start w
            in if \<not> b then Inr (s, -1) else Inr (s\<lparr>ss_workers := ss_workers s @ [w1]\<rparr>, 0))"

fun ss_create_workers :: "(int \<Rightarrow> sig_worker_env) \<Rightarrow> int list \<Rightarrow> sig_server \<Rightarrow> (sig_server \<times> int) res" where
  "ss_create_workers env [] s = Inr (s, 0)"
| "ss_create_workers env (i # is) s =
     rbind (ss_create_worker (env i) i s) (\<lambda>(s1, r). if r \<noteq> 0 then Inr (s1, -1) else ss_create_workers env is s1)"

definition ss_init ::
    "bool \<Rightarrow> sig_options option \<Rightarrow> (fd \<times> fd) option \<Rightarrow> addr \<Rightarrow> listen_calls \<Rightarrow> addr \<Rightarrow> (int \<Rightarrow> sig_worker_env) \<Rightarrow>
     sig_server \<Rightarrow> (sig_server \<times> int) res" where
  "ss_init conf_file config fds pw calls iw env s =
     (if \<not> conf_file then Inr (s, -1)
      else case config of
        None \<Rightarrow> Inr (s, -1)
      | Some opts \<Rightarrow>
          let s1 = s\<lparr>ss_options := opts\<rparr>
          in case fds of
               None \<Rightarrow> Inr (s1, -1)
             | Some (r, sd) \<Rightarrow>
                 let s2 = (create_io_event pw Signaling_server_recv_notify s1)\<lparr>ss_recv_fd := r, ss_send_fd := sd, ss_pipe_watcher := Some pw\<rparr>
                 in rbind (start_io_event pw r READ s2) (\<lambda>s3.
                    let (lfd, cl) = create_tcp_server calls (Some (so_host opts)) (so_port opts);
                        s4 = s3\<lparr>ss_listen_fd := lfd, ss_closed := ss_closed s3 @ cl\<rparr>
                    in if lfd < 0 then Inr (s4, -1)
                       else let s5 = (create_io_event iw Accept_new_conn s4)\<lparr>ss_io_watcher := Some iw\<rparr>
                            in rbind (start_io_event iw lfd READ s5) (\<lambda>s6.
                               ss_create_workers env [0..so_worker_num opts - 1] s6)))"

section \<open>Accepting\<close>

definition dispatch_new_conn :: "bool \<Rightarrow> addr \<Rightarrow> fd \<Rightarrow> sig_server \<Rightarrow> sig_server res" where
  "dispatch_new_conn ok p fd s =
     (let index = ss_next_worker_index s;
          nxt = index + 1;
          nxt = (if nxt \<ge> int (length (ss_workers s)) then 0 else nxt);
          s1 = s\<lparr>ss_next_worker_index := nxt\<rparr>
      in if 0 \<le> index \<and> nat index < length (ss_workers s1)
         then rbind (notify_new_conn ok p fd (ss_workers s1 ! nat index)) (\<lambda>(w, r).
                Inr (s1\<lparr>ss_workers := (ss_workers s1)[nat index := w]\<rparr>))
         else Inl OutOfBounds)"

text \<open>\<open>accept_new_conn\<close>: the outcomes of \<open>accept\<close> are an argument; \<open>None\<close> when they are used up.\<close>

definition accept_new_conn :: "ares list \<Rightarrow> byte list \<times> u16 \<Rightarrow> bool \<Rightarrow> addr \<Rightarrow> sig_server \<Rightarrow> sig_server res option" where
  "accept_new_conn rs peer ok p s =
     (case tcp_accept rs peer of
        None \<Rightarrow> None
      | Some (new_fd, _) \<Rightarrow> if new_fd = -1 then Some (Inr s) else Some (dispatch_new_conn ok p new_fd s))"

section \<open>Start and stop\<close>

definition ss_notify :: "bool \<Rightarrow> int \<Rightarrow> sig_server \<Rightarrow> sig_server \<times> int" where
  "ss_notify ok msg s = (if ok then (s\<lparr>ss_pipe := ss_pipe s @ [msg]\<rparr>, 0) else (s, -1))"

definition ss_stop :: "bool \<Rightarrow> sig_server \<Rightarrow> sig_server" where
  "ss_stop ok s = fst (ss_notify ok SS_QUIT s)"

definition ss_start :: "sig_server \<Rightarrow> (sig_server \<times> bool) res" where
  "ss_start s =
     (if ss_is_start s then Inr (s, False)
      else if ss_thread s then Inl Terminate
      else Inr (s\<lparr>ss_is_start := True, ss_thread := True\<rparr>, True))"

text \<open>\<open>join\<close> of the workers returns once their threads have ended, and changes nothing modelled here.\<close>

definition ss_do_stop :: "bool \<Rightarrow> sig_server \<Rightarrow> sig_server res" where
  "ss_do_stop ok s =
     (if \<not> ss_is_start s then Inr s
      else case (ss_pipe_watcher s, ss_io_watcher s) of
        (Some pw, Some iw) \<Rightarrow>
          rbind (delete_io_event pw s) (\<lambda>s. rbind (delete_io_event iw s) (\<lambda>s.
            let s = stop s;
                s = s\<lparr>ss_closed := ss_closed s @ [ss_recv_fd s, ss_send_fd s, ss_listen_fd s]\<rparr>
            in Inr (s\<lparr>ss_workers := map (sw_stop ok) (ss_workers s)\<rparr>)))
      | _ \<Rightarrow> Inl NullDeref)"

definition ss_process_notify :: "bool \<Rightarrow> int \<Rightarrow> sig_server \<Rightarrow> sig_server res" where
  "ss_process_notify ok msg s = (if msg = SS_QUIT then ss_do_stop ok s else Inr s)"

definition signaling_server_recv_notify :: "bool \<Rightarrow> sig_server \<Rightarrow> sig_server res" where
  "signaling_server_recv_notify ok s =
     (case ss_pipe s of [] \<Rightarrow> Inr s | msg # rest \<Rightarrow> ss_process_notify ok msg (s\<lparr>ss_pipe := rest\<rparr>))"

definition ss_join :: "sig_server \<Rightarrow> sig_server" where
  "ss_join s = (if ss_thread s then s\<lparr>ss_thread := False\<rparr> else s)"

text \<open>The end of the thread's function, after the event loop has returned.\<close>

definition ss_thread_end :: "sig_server \<Rightarrow> sig_server" where
  "ss_thread_end s = s\<lparr>ss_is_start := False\<rparr>"

text \<open>Once its thread has ended and was joined, a server can be started again; not before.\<close>

lemma ss_restart:
  assumes "ss_start s = Inr (s1, True)"
  shows "ss_start s1 = Inr (s1, False)" "ss_start (ss_thread_end s1) = Inl Terminate"
    "ss_start (ss_join (ss_thread_end s1)) = Inr (s1, True)"
proof -
  have e: "s1 = s\<lparr>ss_is_start := True, ss_thread := True\<rparr>" using assms by (simp add: ss_start_def split: if_splits)
  show "ss_start s1 = Inr (s1, False)" "ss_start (ss_thread_end s1) = Inl Terminate" "ss_start (ss_join (ss_thread_end s1)) = Inr (s1, True)"
    unfolding e by (simp_all add: ss_start_def ss_thread_end_def ss_join_def)
qed

section \<open>Distribution of the connections\<close>

definition ss_ready :: "sig_server \<Rightarrow> bool" where
  "ss_ready s \<longleftrightarrow> 0 \<le> ss_next_worker_index s \<and> ss_next_worker_index s < int (length (ss_workers s))"

text \<open>Accepting one connection after the other; \<open>None\<close> when an address is not available.\<close>

fun dispatch_all :: "(addr \<times> fd) list \<Rightarrow> sig_server \<Rightarrow> sig_server res option" where
  "dispatch_all [] s = Some (Inr s)"
| "dispatch_all ((p, fd) # ps) s =
     (if lfq_avail p (q_conn (ss_workers s ! nat (ss_next_worker_index s)))
      then (case dispatch_new_conn True p fd s of Inl e \<Rightarrow> Some (Inl e) | Inr s' \<Rightarrow> dispatch_all ps s')
      else None)"

text \<open>The connections worker \<open>j\<close> of \<open>n\<close> gets when \<open>start\<close> is the first one's turn: every \<open>n\<close>-th.\<close>

definition share :: "nat \<Rightarrow> nat \<Rightarrow> nat \<Rightarrow> fd list \<Rightarrow> fd list" where
  "share j n start fds = map snd (filter (\<lambda>(k, fd). (start + k) mod n = j) (enumerate 0 fds))"

lemma share_shift: "map snd (filter (\<lambda>(k, x). (start + k) mod n = j) (enumerate (Suc m) xs)) =
    map snd (filter (\<lambda>(k, x). (Suc start + k) mod n = j) (enumerate m xs))"
  by (induction xs arbitrary: m) auto

lemma share_Cons: "share j n start (fd # fds) = (if start mod n = j then [fd] else []) @ share j n (Suc start) fds"
  using share_shift [of start n j 0 fds] by (simp add: share_def)

lemma share_Nil [simp]: "share j n start [] = []"
  by (simp add: share_def)

lemma share_mod:
  assumes "start mod n = start' mod n"
  shows "share j n start fds = share j n start' fds"
proof -
  have "(start + k) mod n = (start' + k) mod n" for k using assms by (metis mod_add_left_eq)
  then show ?thesis by (simp add: share_def)
qed

lemma dispatch_step:
  assumes r: "ss_ready s" and h: "\<And>j. j < length (ss_workers s) \<Longrightarrow> lfq_holds (q_conn (ss_workers s ! j)) (old j)"
    and i: "i = nat (ss_next_worker_index s)" and av: "lfq_avail p (q_conn (ss_workers s ! i))"
  shows "\<exists>s'. dispatch_new_conn True p fd s = Inr s' \<and> ss_ready s' \<and> length (ss_workers s') = length (ss_workers s) \<and>
    nat (ss_next_worker_index s') mod length (ss_workers s) = Suc i mod length (ss_workers s) \<and>
    (\<forall>j < length (ss_workers s). lfq_holds (q_conn (ss_workers s' ! j)) (old j @ (if j = i then [fd] else [])) \<and>
       notify_pipe (ss_workers s' ! j) = notify_pipe (ss_workers s ! j) @ (if j = i then [NEW_CONN] else []))"
proof -
  have il: "i < length (ss_workers s)" "int i = ss_next_worker_index s" using r i by (auto simp: ss_ready_def)
  from lfq.enq_holds [OF h [OF il(1)] av, of fd] obtain q where
    q: "lfq_enq p fd (q_conn (ss_workers s ! i)) = Inr q" "lfq_holds q (old i @ [fd])" by blast
  let ?w = "(ss_workers s ! i)\<lparr>q_conn := q, notify_pipe := notify_pipe (ss_workers s ! i) @ [NEW_CONN]\<rparr>"
  let ?n = "int i + 1" and ?l = "length (ss_workers s)"
  let ?s = "s\<lparr>ss_next_worker_index := if ?n \<ge> int ?l then 0 else ?n, ss_workers := (ss_workers s)[i := ?w]\<rparr>"
  have "dispatch_new_conn True p fd s = Inr ?s"
    using il q(1) by (simp add: dispatch_new_conn_def notify_new_conn_def notify_def flip: il(2))
  moreover have "ss_ready ?s" using il(1) by (auto simp: ss_ready_def)
  moreover have "nat (ss_next_worker_index ?s) mod ?l = Suc i mod ?l"
  proof (cases "Suc i = ?l")
    case True
    then have "int i + 1 \<ge> int ?l" by linarith
    then show ?thesis using True by simp
  next
    case False
    then have "\<not> int i + 1 \<ge> int ?l" using il(1) by linarith
    then show ?thesis by (simp add: nat_add_distrib)
  qed
  moreover have "lfq_holds (q_conn (ss_workers ?s ! j)) (old j @ (if j = i then [fd] else [])) \<and>
      notify_pipe (ss_workers ?s ! j) = notify_pipe (ss_workers s ! j) @ (if j = i then [NEW_CONN] else [])" if "j < ?l" for j
    using that il(1) q(2) h [OF that] by (cases "j = i") simp_all
  ultimately show ?thesis by (intro exI [of _ ?s]) simp
qed

lemma dispatch_round_robin:
  assumes "dispatch_all ps s = Some m" "ss_ready s"
    and "\<And>j. j < length (ss_workers s) \<Longrightarrow> lfq_holds (q_conn (ss_workers s ! j)) (old j)"
  shows "\<exists>s'. m = Inr s' \<and> ss_ready s' \<and> length (ss_workers s') = length (ss_workers s) \<and>
    (\<forall>j < length (ss_workers s). lfq_holds (q_conn (ss_workers s' ! j))
       (old j @ share j (length (ss_workers s)) (nat (ss_next_worker_index s)) (map snd ps)) \<and>
       length (notify_pipe (ss_workers s' ! j)) = length (notify_pipe (ss_workers s ! j)) +
         length (share j (length (ss_workers s)) (nat (ss_next_worker_index s)) (map snd ps)))"
  using assms
proof (induction ps arbitrary: s old)
  case Nil
  then show ?case by auto
next
  case (Cons a ps)
  obtain p fd where a: "a = (p, fd)" by (cases a)
  let ?n = "length (ss_workers s)" and ?i = "nat (ss_next_worker_index s)"
  have av: "lfq_avail p (q_conn (ss_workers s ! ?i))" using Cons.prems(1) a by (simp split: if_splits)
  have i: "?i < ?n" using Cons.prems(2) by (auto simp: ss_ready_def)
  from dispatch_step [OF Cons.prems(2,3) refl av, of fd] obtain s1 where
    s1: "dispatch_new_conn True p fd s = Inr s1" "ss_ready s1" "length (ss_workers s1) = ?n"
      "nat (ss_next_worker_index s1) mod ?n = Suc ?i mod ?n"
      "\<And>j. j < ?n \<Longrightarrow> lfq_holds (q_conn (ss_workers s1 ! j)) (old j @ (if j = ?i then [fd] else []))"
      "\<And>j. j < ?n \<Longrightarrow> notify_pipe (ss_workers s1 ! j) = notify_pipe (ss_workers s ! j) @ (if j = ?i then [NEW_CONN] else [])"
    by blast
  have "dispatch_all ps s1 = Some m" using Cons.prems(1) a av s1(1) by simp
  from Cons.IH [OF this s1(2), of "\<lambda>j. old j @ (if j = ?i then [fd] else [])"] s1(3,5) obtain s' where
    s': "m = Inr s'" "ss_ready s'" "length (ss_workers s') = ?n"
      "\<And>j. j < ?n \<Longrightarrow> lfq_holds (q_conn (ss_workers s' ! j))
         ((old j @ (if j = ?i then [fd] else [])) @ share j ?n (nat (ss_next_worker_index s1)) (map snd ps))"
      "\<And>j. j < ?n \<Longrightarrow> length (notify_pipe (ss_workers s' ! j)) = length (notify_pipe (ss_workers s1 ! j)) +
         length (share j ?n (nat (ss_next_worker_index s1)) (map snd ps))" by auto
  have sh: "share j ?n ?i (map snd (a # ps)) =
      (if j = ?i then [fd] else []) @ share j ?n (nat (ss_next_worker_index s1)) (map snd ps)" for j
    using i a share_mod [OF s1(4), of j "map snd ps"] by (simp add: share_Cons)
  have "length (notify_pipe (ss_workers s' ! j)) = length (notify_pipe (ss_workers s ! j)) + length (share j ?n ?i (map snd (a # ps)))"
    if "j < ?n" for j
    using s'(5) [OF that] s1(6) [OF that] unfolding sh by simp
  moreover have "lfq_holds (q_conn (ss_workers s' ! j)) (old j @ share j ?n ?i (map snd (a # ps)))" if "j < ?n" for j
    using s'(4) [OF that] unfolding sh by simp
  ultimately show ?case using s'(1-3) by blast
qed

text \<open>A server without workers indexes its empty vector.\<close>

lemma dispatch_no_workers: "ss_workers s = [] \<Longrightarrow> dispatch_new_conn ok p fd s = Inl OutOfBounds"
  by (simp add: dispatch_new_conn_def Let_def)

lemma length_share_le: "0 < n \<Longrightarrow> j < n \<Longrightarrow> length (share j n start fds) \<le> length fds"
  by (simp add: share_def) (metis length_enumerate length_filter_le)

section \<open>Properties\<close>

definition demo_server :: sig_server where
  "demo_server = (SignalingServer 0 0 \<lparr>so_host = [], so_port = 1, so_worker_num = 2, so_connection_timeout = 1\<rparr>)
     \<lparr>ss_workers := [SignalingWorker 10 0 0 20 0 1, SignalingWorker 11 0 0 21 1 1]\<rparr>"

lemma demo_server_fields [simp]:
  "ss_workers demo_server = [SignalingWorker 10 0 0 20 0 1, SignalingWorker 11 0 0 21 1 1]" "ss_next_worker_index demo_server = 0"
  by (simp_all add: demo_server_def SignalingServer_def event_loop.defs)

lemma SignalingWorker_queue [simp]:
  "q_conn (SignalingWorker a rt mn p wid tmo) = lfq_init p 0" "notify_pipe (SignalingWorker a rt mn p wid tmo) = []"
  by (simp_all add: SignalingWorker_def event_loop.defs)

text \<open>
  C22: accepted connections are handed to the workers in turn, beginning with the one whose turn it
  is: worker \<open>j\<close> of \<open>n\<close> gets every \<open>n\<close>-th connection, in order, behind what its queue holds, and one
  notification for each, and no index leaves the vector of workers.
\<close>

theorem dispatch_in_turn:
  assumes "dispatch_all ps s = Some m" "ss_ready s"
    "\<And>j. j < length (ss_workers s) \<Longrightarrow> lfq_holds (q_conn (ss_workers s ! j)) (old j)"
  shows "\<exists>s'. m = Inr s' \<and> ss_ready s' \<and> length (ss_workers s') = length (ss_workers s) \<and>
    (\<forall>j < length (ss_workers s). lfq_holds (q_conn (ss_workers s' ! j))
       (old j @ share j (length (ss_workers s)) (nat (ss_next_worker_index s)) (map snd ps)) \<and>
       length (notify_pipe (ss_workers s' ! j)) = length (notify_pipe (ss_workers s ! j)) +
         length (share j (length (ss_workers s)) (nat (ss_next_worker_index s)) (map snd ps)))"
  using dispatch_round_robin [OF assms] .

theorem dispatch_in_turn_witness:
  "\<exists>s'. dispatch_all [(30, 5), (31, 6), (32, 7)] demo_server = Some (Inr s') \<and>
     lfq_holds (q_conn (ss_workers s' ! 0)) [5, 7] \<and> lfq_holds (q_conn (ss_workers s' ! 1)) [6]"
proof -
  have "\<exists>m. dispatch_all [(30, 5), (31, 6), (32, 7)] demo_server = Some m"
    by (simp add: dispatch_new_conn_def notify_new_conn_def lfq_enq_def lfq_produce_def lfq_init_def lfq_avail_def
        lfq_reclaim.simps notify_def)
  then obtain m where m: "dispatch_all [(30, 5), (31, 6), (32, 7)] demo_server = Some m" by blast
  have "lfq_holds (q_conn (ss_workers demo_server ! j)) []" if "j < length (ss_workers demo_server)" for j
    using that by (auto simp: less_Suc_eq lfq_init_holds)
  from dispatch_in_turn [OF m _ this] obtain s' where s': "m = Inr s'" and
    h: "\<And>j. j < 2 \<Longrightarrow> lfq_holds (q_conn (ss_workers s' ! j)) (share j 2 0 [5, 6, 7])"
    by (auto simp: ss_ready_def numeral_2_eq_2)
  show ?thesis using m s' h [of 0] h [of 1] by (simp add: share_def)
qed

text \<open>
  A server whose configuration asks for no workers accepts connections all the same, and
  indexes its empty vector of workers with the first one.
\<close>

theorem dispatch_without_workers:
  assumes "ss_workers s = []" "\<forall>x \<in> set rs. x = A_eintr"
  shows "accept_new_conn (rs @ A_fd k # ss) peer ok p s = Some (Inl OutOfBounds)"
  using generic_accept_eintr [OF assms(2), of k ss] dispatch_no_workers [OF assms(1)]
  by (simp add: accept_new_conn_def tcp_accept_def)

theorem dispatch_without_workers_witness:
  "accept_new_conn [A_fd 5] ([], 80) True 1 (demo_server\<lparr>ss_workers := []\<rparr>) = Some (Inl OutOfBounds)"
  using dispatch_without_workers [of "demo_server\<lparr>ss_workers := []\<rparr>" "[]" 5 "[]"] by simp

end
