(* ===== verification/Rtc_Worker.thy ===== *)
theory Rtc_Worker
  imports Event_Loop Lock_Free_Queue Rtc_Msg
begin

text \<open>
  A worker thread of the media server (\<open>server/rtc_worker.h\<close>, \<open>.cpp\<close>): an event loop with the
  watcher of the notification pipe and a lock-free queue of messages, filled by the thread of
  \<open>RtcServer\<close>. A handler that answers a message hands it to a signalling worker; here it returns
  the address of that worker and the message, and the composition in \<open>Push_Path\<close> delivers it.

  A message is an object behind a \<open>shared_ptr\<close> that one thread after the other works on, so a
  queue holds the value of the object, and \<open>None\<close> for a null pointer. \<open>rw_thread\<close> says whether
  \<open>t_\<close> is joinable, \<open>rw_pipe\<close> is the content of the pipe and \<open>rw_closed\<close> the closed descriptors.
\<close>

section \<open>The worker\<close>

datatype rw_cb = Rtc_worker_recv_notify

definition RW_QUIT :: int where "RW_QUIT = 0"

definition RW_RTC_MSG :: int where "RW_RTC_MSG = 1"

record rtc_worker = "rw_cb event_loop" +
  rw_id :: int
  rw_recv_fd :: fd
  rw_send_fd :: fd
  rw_pipe_watcher :: "addr option"
  rw_thread :: bool
  rw_is_start :: bool
  rw_queue :: "rtc_msg option lfq"
  rw_pipe :: "int list"
  rw_closed :: "fd list"

definition RtcWorker :: "real \<Rightarrow> real \<Rightarrow> addr \<Rightarrow> int \<Rightarrow> rtc_worker" where
  "RtcWorker rt mn p wid =
     event_loop.extend (event_loop_new rt mn Rtc_worker_recv_notify)
       \<lparr>rw_id = wid, rw_recv_fd = -1, rw_send_fd = -1, rw_pipe_watcher = None, rw_thread = False,
        rw_is_start = False, rw_queue = lfq_init p None, rw_pipe = [], rw_closed = []\<rparr>"

text \<open>\<open>init\<close>: \<open>pipe\<close> gives two descriptors or fails; \<open>pw\<close> is the address of the new watcher.\<close>

definition rw_init :: "(fd \<times> fd) option \<Rightarrow> addr \<Rightarrow> rtc_worker \<Rightarrow> (rtc_worker \<times> int) res" where
  "rw_init fds pw w =
     (case fds of
        None \<Rightarrow> Inr (w, -1)
      | Some (r, s) \<Rightarrow>
          let w1 = (create_io_event pw Rtc_worker_recv_notify w)\<lparr>rw_recv_fd := r, rw_send_fd := s, rw_pipe_watcher := Some pw\<rparr>
          in rbind (start_io_event pw r READ w1) (\<lambda>w2. Inr (w2, 0)))"

text \<open>
  \<open>start\<close>: an already started worker is logged and then started again; assigning to a thread that
  is joinable calls \<open>std::terminate\<close>.
\<close>

definition rw_start :: "rtc_worker \<Rightarrow> (rtc_worker \<times> bool) res" where
  "rw_start w =
     (let w1 = w\<lparr>rw_is_start := True\<rparr>
      in if rw_thread w1 then Inl Terminate else Inr (w1\<lparr>rw_thread := True\<rparr>, True))"

section \<open>Messages\<close>

definition rw_notify :: "bool \<Rightarrow> int \<Rightarrow> rtc_worker \<Rightarrow> rtc_worker \<times> int" where
  "rw_notify ok msg w = (if ok then (w\<lparr>rw_pipe := rw_pipe w @ [msg]\<rparr>, 0) else (w, -1))"

definition rw_push_msg :: "addr \<Rightarrow> rtc_msg option \<Rightarrow> rtc_worker \<Rightarrow> rtc_worker res" where
  "rw_push_msg p msg w = rbind (lfq_enq p msg (rw_queue w)) (\<lambda>q. Inr (w\<lparr>rw_queue := q\<rparr>))"

definition rw_pop_msg :: "rtc_worker \<Rightarrow> (rtc_msg option option \<times> rtc_worker) res" where
  "rw_pop_msg w = rbind (lfq_consume (rw_queue w)) (\<lambda>(r, q). Inr (r, w\<lparr>rw_queue := q\<rparr>))"

definition rw_send_rtc_msg :: "bool \<Rightarrow> addr \<Rightarrow> rtc_msg option \<Rightarrow> rtc_worker \<Rightarrow> (rtc_worker \<times> int) res" where
  "rw_send_rtc_msg ok p msg w = rbind (rw_push_msg p msg w) (\<lambda>w1. Inr (rw_notify ok RW_RTC_MSG w1))"

definition rw_process_push :: "rtc_msg \<Rightarrow> (addr \<times> rtc_msg) option" where
  "rw_process_push msg =
     (let msg1 = msg\<lparr>sdp := cstr ''offer''\<rparr>
      in case m_worker msg1 of None \<Rightarrow> None | Some worker \<Rightarrow> Some (worker, msg1))"

definition rw_process_rtc_msg :: "rtc_worker \<Rightarrow> (rtc_worker \<times> (addr \<times> rtc_msg) option) res" where
  "rw_process_rtc_msg w =
     rbind (rw_pop_msg w) (\<lambda>(r, w1).
       case r of
         None \<Rightarrow> Inr (w1, None)
       | Some None \<Rightarrow> Inl NullDeref
       | Some (Some msg) \<Rightarrow> if cmdno msg = CMDNO_PUSH then Inr (w1, rw_process_push msg) else Inr (w1, None))"

section \<open>Stopping\<close>

definition rw_stop :: "bool \<Rightarrow> rtc_worker \<Rightarrow> rtc_worker" where
  "rw_stop ok w = fst (rw_notify ok RW_QUIT w)"

text \<open>\<open>join\<close> returns once the thread has ended.\<close>

definition rw_join :: "rtc_worker \<Rightarrow> rtc_worker" where
  "rw_join w = (if rw_thread w then w\<lparr>rw_thread := False\<rparr> else w)"

definition rw_do_stop :: "rtc_worker \<Rightarrow> rtc_worker res" where
  "rw_do_stop w =
     (if \<not> rw_is_start w then Inr w
      else case rw_pipe_watcher w of
        None \<Rightarrow> Inl NullDeref
      | Some pw \<Rightarrow> rbind (delete_io_event pw w) (\<lambda>w.
          let w = stop w
          in Inr (w\<lparr>rw_closed := rw_closed w @ [rw_recv_fd w, rw_send_fd w]\<rparr>)))"

definition rw_process_notify :: "int \<Rightarrow> rtc_worker \<Rightarrow> (rtc_worker \<times> (addr \<times> rtc_msg) option) res" where
  "rw_process_notify msg w =
     (if msg = RW_QUIT then rbind (rw_do_stop w) (\<lambda>w1. Inr (w1, None))
      else if msg = RW_RTC_MSG then rw_process_rtc_msg w
      else Inr (w, None))"

definition rtc_worker_recv_notify :: "rtc_worker \<Rightarrow> (rtc_worker \<times> (addr \<times> rtc_msg) option) res" where
  "rtc_worker_recv_notify w =
     (case rw_pipe w of
        [] \<Rightarrow> Inr (w, None)
      | msg # rest \<Rightarrow> rw_process_notify msg (w\<lparr>rw_pipe := rest\<rparr>))"

section \<open>What the worker promises\<close>

text \<open>The worker holds the messages \<open>ms\<close>.\<close>

definition rw_holds :: "rtc_worker \<Rightarrow> rtc_msg list \<Rightarrow> bool" where
  "rw_holds w ms \<longleftrightarrow> lfq_holds (rw_queue w) (map Some ms)"

lemma rw_send_holds:
  assumes "rw_holds w ms" "lfq_avail p (rw_queue w)"
  shows "\<exists>w'. rw_send_rtc_msg True p (Some msg) w = Inr (w', 0) \<and> rw_holds w' (ms @ [msg]) \<and>
    rw_pipe w' = rw_pipe w @ [RW_RTC_MSG]"
proof -
  from lfq.enq_holds [OF assms [unfolded rw_holds_def], of "Some msg"] obtain q where
    "lfq_enq p (Some msg) (rw_queue w) = Inr q" "lfq_holds q (map Some ms @ [Some msg])" by blast
  then show ?thesis by (simp add: rw_send_rtc_msg_def rw_push_msg_def rw_notify_def rw_holds_def)
qed

text \<open>A push message is answered, with the offer, to the worker it names; nothing is lost or reordered.\<close>

lemma rw_process_holds:
  assumes "rw_holds w (msg # ms)"
  shows "\<exists>w'. rw_process_rtc_msg w = Inr (w', if cmdno msg = CMDNO_PUSH
      then map_option (\<lambda>a. (a, msg\<lparr>sdp := cstr ''offer''\<rparr>)) (m_worker msg) else None) \<and> rw_holds w' ms"
proof -
  have "lfq_holds (rw_queue w) (Some msg # map Some ms)" using assms by (simp add: rw_holds_def)
  from lfq.deq_holds [OF this] obtain q where
    "lfq_consume (rw_queue w) = Inr (Some (Some msg), q)" "lfq_holds q (map Some ms)" by blast
  then show ?thesis
    by (auto simp: rw_process_rtc_msg_def rw_pop_msg_def rw_process_push_def rw_holds_def split: option.split)
qed

lemma rw_process_empty: "rw_holds w [] \<Longrightarrow> rw_process_rtc_msg w = Inr (w, None)"
  using lfq.deq_empty [of "rw_queue w"] by (simp add: rw_process_rtc_msg_def rw_pop_msg_def rw_holds_def)

lemma RtcWorker_holds: "rw_holds (RtcWorker rt mn p wid) []"
  using lfq_init_holds by (simp add: rw_holds_def RtcWorker_def event_loop.extend_def)

section \<open>Properties\<close>

text \<open>
  Starting twice: \<open>start\<close> does not return when the worker is already started: it only logs, and then assigns a
  new thread to a joinable one, which terminates the process.
\<close>

theorem rtc_worker_start_twice:
  assumes "rw_start w = Inr (w1, b)"
  shows "b \<and> rw_is_start w1 \<and> rw_start w1 = Inl Terminate"
  using assms by (auto simp: rw_start_def Let_def split: if_splits)

theorem rtc_worker_start_twice_witness:
  "\<exists>w1. rw_start (RtcWorker 0 0 0 1) = Inr (w1, True) \<and> rw_start w1 = Inl Terminate"
  using rtc_worker_start_twice [of "RtcWorker 0 0 0 1"] by (simp add: rw_start_def RtcWorker_def event_loop.defs Let_def)

end
