(* ===== verification/Rtc_Server.thy ===== *)
theory Rtc_Server
  imports Rtc_Worker Msg_Queue Crc32
begin

text \<open>
  The media server (\<open>server/rtc_server.h\<close>, \<open>.cpp\<close>): its own event loop, a queue of messages that
  the signalling workers fill under a mutex, and the workers among which it distributes the
  streams by the CRC-32 of their name. The configuration file is an argument: \<open>None\<close> when the YAML
  library throws, else the value of \<open>worker_num\<close>.
\<close>

section \<open>The server\<close>

datatype rs_cb = Rtc_server_recv_notify

definition RS_QUIT :: int where "RS_QUIT = 0"

definition RS_RTC_MSG :: int where "RS_RTC_MSG = 1"

record rtc_server = "rs_cb event_loop" +
  rs_worker_num :: int
  rs_recv_fd :: fd
  rs_send_fd :: fd
  rs_pipe_watcher :: "addr option"
  rs_thread :: bool
  rs_is_start :: bool
  rs_msg_queue :: "rtc_msg list"
  rs_workers :: "rtc_worker list"
  rs_pipe :: "int list"
  rs_closed :: "fd list"

definition RtcServer :: "real \<Rightarrow> real \<Rightarrow> int \<Rightarrow> rtc_server" where
  "RtcServer rt mn junk_num =
     event_loop.extend (event_loop_new rt mn Rtc_server_recv_notify)
       \<lparr>rs_worker_num = junk_num, rs_recv_fd = -1, rs_send_fd = -1, rs_pipe_watcher = None, rs_thread = False,
        rs_is_start = False, rs_msg_queue = [], rs_workers = [], rs_pipe = [], rs_closed = []\<rparr>"

text \<open>
  What the environment gives when a worker is created: the clocks of its loop, the address of the
  first node of its queue, the outcome of \<open>pipe\<close> and the address of its watcher.
\<close>

record worker_env =
  we_rt :: real
  we_mn :: real
  we_node :: addr
  we_pipe :: "(fd \<times> fd) option"
  we_watcher :: addr

text \<open>
  \<open>create_worker\<close>: \<open>worker->start()\<close> returns a \<open>bool\<close>, which is never negative. A worker that is not
  kept is destroyed, which is not modelled.
\<close>

definition rs_create_worker :: "worker_env \<Rightarrow> int \<Rightarrow> rtc_server \<Rightarrow> (rtc_server \<times> int) res" where
  "rs_create_worker e worker_id s =
     rbind (rw_init (we_pipe e) (we_watcher e) (RtcWorker (we_rt e) (we_mn e) (we_node e) worker_id)) (\<lambda>(w, r).
       if r < 0 then Inr (s, -1)
       else rbind (rw_start w) (\<lambda>(w1, b).
         if (if b then 1 else 0 :: int) < 0 then Inr (s, -1)
         else Inr (s\<lparr>rs_workers := rs_workers s @ [w1]\<rparr>, 0)))"

text \<open>The loop over the worker numbers from \<open>i\<close> on; \<open>env\<close> gives the environment of each.\<close>

fun rs_create_workers :: "(int \<Rightarrow> worker_env) \<Rightarrow> int list \<Rightarrow> rtc_server \<Rightarrow> (rtc_server \<times> int) res" where
  "rs_create_workers env [] s = Inr (s, 0)"
| "rs_create_workers env (i # is) s =
     rbind (rs_create_worker (env i) i s) (\<lambda>(s1, r). if r \<noteq> 0 then Inr (s1, -1) else rs_create_workers env is s1)"

definition rs_init :: "bool \<Rightarrow> int option \<Rightarrow> (fd \<times> fd) option \<Rightarrow> addr \<Rightarrow> (int \<Rightarrow> worker_env) \<Rightarrow> rtc_server \<Rightarrow> (rtc_server \<times> int) res" where
  "rs_init conf_file config fds pw env s =
     (if \<not> conf_file then Inr (s, -1)
      else case config of
        None \<Rightarrow> Inr (s, -1)
      | Some n \<Rightarrow>
          let s1 = s\<lparr>rs_worker_num := n\<rparr>
          in case fds of
               None \<Rightarrow> Inr (s1, -1)
             | Some (r, sd) \<Rightarrow>
                 let s2 = (create_io_event pw Rtc_server_recv_notify s1)\<lparr>rs_recv_fd := r, rs_send_fd := sd, rs_pipe_watcher := Some pw\<rparr>
                 in rbind (start_io_event pw r READ s2) (\<lambda>s3. rs_create_workers env [0..n - 1] s3))"

section \<open>Messages\<close>

text \<open>\<open>num % options_.worker_num\<close> is a remainder of unsigned 32-bit numbers.\<close>

definition get_worker :: "byte list \<Rightarrow> rtc_server \<Rightarrow> nat option res" where
  "get_worker name s =
     (if length (rs_workers s) = 0 \<or> int (length (rs_workers s)) \<noteq> to_size_t (rs_worker_num s) then Inr None
      else let num = ComputeCrc32 name; d = of_int (rs_worker_num s) :: u32
           in if d = 0 then Inl DivByZero
              else let index = unat (num mod d)
                   in if index < length (rs_workers s) then Inr (Some index) else Inl OutOfBounds)"

definition rs_notify :: "bool \<Rightarrow> int \<Rightarrow> rtc_server \<Rightarrow> rtc_server \<times> int" where
  "rs_notify ok msg s = (if ok then (s\<lparr>rs_pipe := rs_pipe s @ [msg]\<rparr>, 0) else (s, -1))"

definition rs_send_rtc_msg :: "bool \<Rightarrow> rtc_msg option \<Rightarrow> rtc_server \<Rightarrow> rtc_server \<times> int" where
  "rs_send_rtc_msg ok msg s =
     (case msg of
        None \<Rightarrow> (s, -1)
      | Some m \<Rightarrow> rs_notify ok RS_RTC_MSG (s\<lparr>rs_msg_queue := push_msg m (rs_msg_queue s)\<rparr>))"

text \<open>\<open>p\<close> is the address of the new queue node, \<open>ok\<close> whether the write to the worker's pipe succeeds.\<close>

definition rs_process_rtc_msg :: "bool \<Rightarrow> addr \<Rightarrow> rtc_server \<Rightarrow> rtc_server res" where
  "rs_process_rtc_msg ok p s =
     (case pop_msg (rs_msg_queue s) of
        (None, _) \<Rightarrow> Inr s
      | (Some msg, q) \<Rightarrow>
          let s1 = s\<lparr>rs_msg_queue := q\<rparr>
          in rbind (get_worker (stream_name msg) s1) (\<lambda>i.
             case i of
               None \<Rightarrow> Inr s1
             | Some k \<Rightarrow> rbind (rw_send_rtc_msg ok p (Some msg) (rs_workers s1 ! k)) (\<lambda>(w, r).
                 Inr (s1\<lparr>rs_workers := (rs_workers s1)[k := w]\<rparr>))))"

section \<open>Stopping\<close>

definition rs_do_stop :: "bool \<Rightarrow> rtc_server \<Rightarrow> rtc_server res" where
  "rs_do_stop ok s =
     (if \<not> rs_is_start s then Inr s
      else case rs_pipe_watcher s of
        None \<Rightarrow> Inl NullDeref
      | Some pw \<Rightarrow> rbind (delete_io_event pw s) (\<lambda>s.
          let s = stop s; s = s\<lparr>rs_closed := rs_closed s @ [rs_recv_fd s, rs_send_fd s]\<rparr>
          in Inr (s\<lparr>rs_workers := map (\<lambda>w. rw_join (rw_stop ok w)) (rs_workers s)\<rparr>)))"

definition rs_process_notify :: "bool \<Rightarrow> addr \<Rightarrow> int \<Rightarrow> rtc_server \<Rightarrow> rtc_server res" where
  "rs_process_notify ok p msg s =
     (if msg = RS_QUIT then rs_do_stop ok s else if msg = RS_RTC_MSG then rs_process_rtc_msg ok p s else Inr s)"

definition rtc_server_recv_notify :: "bool \<Rightarrow> addr \<Rightarrow> rtc_server \<Rightarrow> rtc_server res" where
  "rtc_server_recv_notify ok p s =
     (case rs_pipe s of [] \<Rightarrow> Inr s | msg # rest \<Rightarrow> rs_process_notify ok p msg (s\<lparr>rs_pipe := rest\<rparr>))"

definition rs_start :: "rtc_server \<Rightarrow> (rtc_server \<times> bool) res" where
  "rs_start s =
     (if rs_is_start s then Inr (s, False)
      else if rs_thread s then Inl Terminate
      else Inr (s\<lparr>rs_is_start := True, rs_thread := True\<rparr>, True))"

definition rs_stop :: "bool \<Rightarrow> rtc_server \<Rightarrow> rtc_server" where
  "rs_stop ok s = fst (rs_notify ok RS_QUIT s)"

definition rs_join :: "rtc_server \<Rightarrow> rtc_server" where
  "rs_join s = (if rs_thread s then s\<lparr>rs_thread := False\<rparr> else s)"

text \<open>The end of the thread's function, after the event loop has returned.\<close>

definition rs_thread_end :: "rtc_server \<Rightarrow> rtc_server" where
  "rs_thread_end s = s\<lparr>rs_is_start := False\<rparr>"

lemma rs_restart:
  assumes "rs_start s = Inr (s1, True)"
  shows "rs_start s1 = Inr (s1, False)" "rs_start (rs_thread_end s1) = Inl Terminate"
    "rs_start (rs_join (rs_thread_end s1)) = Inr (s1, True)"
proof -
  have e: "s1 = s\<lparr>rs_is_start := True, rs_thread := True\<rparr>" using assms by (simp add: rs_start_def split: if_splits)
  show "rs_start s1 = Inr (s1, False)" "rs_start (rs_thread_end s1) = Inl Terminate" "rs_start (rs_join (rs_thread_end s1)) = Inr (s1, True)"
    unfolding e by (simp_all add: rs_start_def rs_thread_end_def rs_join_def)
qed

section \<open>Distribution of the streams\<close>

text \<open>All workers were created.\<close>

definition rs_ready :: "rtc_server \<Rightarrow> bool" where
  "rs_ready s \<longleftrightarrow> 0 < rs_worker_num s \<and> rs_worker_num s < 2 ^ 31 \<and> int (length (rs_workers s)) = rs_worker_num s"

definition stream_slot :: "byte list \<Rightarrow> nat \<Rightarrow> nat" where
  "stream_slot name n = unat (ComputeCrc32 name) mod n"

lemma get_worker_ready:
  assumes "rs_ready s"
  shows "get_worker name s = Inr (Some (stream_slot name (length (rs_workers s))))"
    and "stream_slot name (length (rs_workers s)) < length (rs_workers s)"
proof -
  let ?n = "length (rs_workers s)"
  have n: "0 < ?n" "?n < 2 ^ 31" "rs_worker_num s = int ?n" using assms by (auto simp: rs_ready_def)
  show lt: "stream_slot name ?n < ?n" using n(1) by (simp add: stream_slot_def)
  have sz: "to_size_t (int ?n) = int ?n" using n(2) by (simp add: to_size_t_def)
  have un: "unat (of_int (int ?n) :: u32) = ?n" using n(2) by (simp add: unat_of_nat)
  then have nz: "(of_int (int ?n) :: u32) \<noteq> 0" using n(1) by (metis unsigned_0 less_numeral_extra(3))
  have "unat (ComputeCrc32 name mod of_int (int ?n)) = stream_slot name ?n"
    by (simp only: unat_mod un stream_slot_def)
  with n lt sz nz show "get_worker name s = Inr (Some (stream_slot name ?n))"
    unfolding get_worker_def n(3) Let_def by simp
qed

lemma get_worker_total:
  assumes "rs_worker_num s < 2 ^ 31" "- (2 ^ 31) \<le> rs_worker_num s" "length (rs_workers s) < 2 ^ 31"
  shows "\<exists>r. get_worker name s = Inr r"
proof (cases "rs_ready s")
  case True
  then show ?thesis using get_worker_ready by blast
next
  case False
  have "length (rs_workers s) = 0 \<or> int (length (rs_workers s)) \<noteq> to_size_t (rs_worker_num s)"
  proof (rule ccontr)
    assume a: "\<not> ?thesis"
    then have "to_size_t (rs_worker_num s) < 2 ^ 31" using assms(3) by simp
    moreover have "to_size_t (rs_worker_num s) = rs_worker_num s + 2 ^ 64" if "rs_worker_num s < 0"
      using mod_pos_pos_trivial [of "rs_worker_num s + 2 ^ 64" "2 ^ 64"] that assms(2) by (simp add: to_size_t_def)
    ultimately have "0 \<le> rs_worker_num s" using assms(2) by (cases "rs_worker_num s < 0") simp_all
    then show False using a False assms(1) by (auto simp: rs_ready_def to_size_t_def)
  qed
  then show ?thesis by (simp add: get_worker_def)
qed

text \<open>The oldest message goes to the worker of its stream, behind what that worker already holds.\<close>

lemma rs_process_delivers:
  assumes r: "rs_ready s" and q: "rs_msg_queue s = msg # ms"
    and k: "k = stream_slot (stream_name msg) (length (rs_workers s))"
    and h: "rw_holds (rs_workers s ! k) xs" "lfq_avail p (rw_queue (rs_workers s ! k))"
  shows "\<exists>s' w'. rs_process_rtc_msg True p s = Inr s' \<and> rs_ready s' \<and> rs_msg_queue s' = ms \<and>
    rs_workers s' = (rs_workers s)[k := w'] \<and> rw_holds w' (xs @ [msg]) \<and>
    rw_pipe w' = rw_pipe (rs_workers s ! k) @ [RW_RTC_MSG] \<and> rs_pipe s' = rs_pipe s"
proof -
  let ?s = "s\<lparr>rs_msg_queue := ms\<rparr>"
  have r': "rs_ready ?s" using r by (simp add: rs_ready_def)
  from rw_send_holds [OF h, of msg] obtain w' where
    w': "rw_send_rtc_msg True p (Some msg) (rs_workers s ! k) = Inr (w', 0)" "rw_holds w' (xs @ [msg])"
      "rw_pipe w' = rw_pipe (rs_workers s ! k) @ [RW_RTC_MSG]" by blast
  have "get_worker (stream_name msg) ?s = Inr (Some k)" using get_worker_ready(1) [OF r'] k by simp
  then have "rs_process_rtc_msg True p s = Inr (?s\<lparr>rs_workers := (rs_workers s)[k := w']\<rparr>)"
    using q w'(1) by (simp add: rs_process_rtc_msg_def)
  then show ?thesis using w'(2,3) r by (intro exI conjI) (assumption | simp add: rs_ready_def)+
qed

section \<open>Properties\<close>

definition demo_rtc_server :: rtc_server where
  "demo_rtc_server = (RtcServer 0 0 2)\<lparr>rs_workers := [RtcWorker 0 0 20 0, RtcWorker 0 0 21 1],
     rs_msg_queue := [rtc_msg0\<lparr>cmdno := CMDNO_PUSH\<rparr>]\<rparr>"

lemma demo_rtc_server_fields [simp]:
  "rs_workers demo_rtc_server = [RtcWorker 0 0 20 0, RtcWorker 0 0 21 1]" "rs_worker_num demo_rtc_server = 2"
  "rs_msg_queue demo_rtc_server = [rtc_msg0\<lparr>cmdno := CMDNO_PUSH\<rparr>]"
  by (simp_all add: demo_rtc_server_def RtcServer_def event_loop.defs)

lemma RtcWorker_queue: "rw_queue (RtcWorker rt mn p wid) = lfq_init p None"
  by (simp add: RtcWorker_def event_loop.defs)

lemma demo_rtc_server_ready: "rs_ready demo_rtc_server"
  by (simp add: rs_ready_def)

text \<open>
  C26: the worker of a stream is found without a division by zero or an index out of range, whatever
  the configuration says; once all workers are there, every stream has a worker, and always the same
  one.
\<close>

theorem stream_worker:
  assumes "rs_worker_num s < 2 ^ 31" "- (2 ^ 31) \<le> rs_worker_num s" "length (rs_workers s) < 2 ^ 31"
  shows "(\<exists>r. get_worker name s = Inr r) \<and>
    (rs_ready s \<longrightarrow> get_worker name s = Inr (Some (stream_slot name (length (rs_workers s)))) \<and>
       stream_slot name (length (rs_workers s)) < length (rs_workers s))"
  using get_worker_total [OF assms] get_worker_ready [of s] by blast

theorem stream_worker_witness:
  "rs_ready demo_rtc_server \<and> get_worker (cstr ''a'') demo_rtc_server = Inr (Some (stream_slot (cstr ''a'') 2))"
  using stream_worker [of demo_rtc_server "cstr ''a''"] demo_rtc_server_ready by (simp flip: numeral_2_eq_2)

text \<open>
  C23: the oldest message of the server's queue goes to the worker of its stream, behind the ones
  that worker already holds, and that worker gets exactly one notification; the other workers and
  the other messages are not touched.
\<close>

theorem rtc_msg_delivered:
  assumes "rs_ready s" "rs_msg_queue s = msg # ms" "k = stream_slot (stream_name msg) (length (rs_workers s))"
    "rw_holds (rs_workers s ! k) xs" "lfq_avail p (rw_queue (rs_workers s ! k))"
  shows "\<exists>s' w'. rs_process_rtc_msg True p s = Inr s' \<and> rs_ready s' \<and> rs_msg_queue s' = ms \<and>
    rs_workers s' = (rs_workers s)[k := w'] \<and> rw_holds w' (xs @ [msg]) \<and>
    rw_pipe w' = rw_pipe (rs_workers s ! k) @ [RW_RTC_MSG]"
  using rs_process_delivers [OF assms] by blast

theorem rtc_msg_delivered_witness:
  "\<exists>s'. rs_process_rtc_msg True 50 demo_rtc_server = Inr s' \<and> rs_msg_queue s' = [] \<and> rs_ready s'"
proof -
  let ?k = "stream_slot (stream_name (rtc_msg0\<lparr>cmdno := CMDNO_PUSH\<rparr>)) (length (rs_workers demo_rtc_server))"
  have "?k < 2" using get_worker_ready(2) [OF demo_rtc_server_ready, of "stream_name (rtc_msg0\<lparr>cmdno := CMDNO_PUSH\<rparr>)"] by simp
  then have "rw_holds (rs_workers demo_rtc_server ! ?k) []" "lfq_avail 50 (rw_queue (rs_workers demo_rtc_server ! ?k))"
    by (auto simp: less_2_cases_iff RtcWorker_holds lfq_avail_def RtcWorker_queue lfq_init_def)
  from rtc_msg_delivered [OF demo_rtc_server_ready _ refl this] show ?thesis by auto
qed

end
