(* ===== verification/Worker_Frames.thy ===== *)
theory Worker_Frames
  imports Worker_Props Rtc_Server
begin

unbundle bit_operations_syntax

text \<open>
  What the handlers of a signalling worker leave alone: an operation of the event loop does not
  touch the state of the class that extends it, and a handler changes at most one slot of the table
  of connections. A connection that has received its header never goes back to waiting for one.
\<close>

section \<open>The event loop and the classes above it\<close>

lemma clear_pending_more [simp]: "event_loop.more (clear_pending w l) = event_loop.more l"
  by (simp add: clear_pending_def Let_def)

lemma on_heap_more [simp]: "event_loop.more (on_heap f l) = event_loop.more l"
  by (simp add: on_heap_def split: prod.split)

lemma ev_io_stop_more: "ev_io_stop w l = Inr l' \<Longrightarrow> event_loop.more l' = event_loop.more l"
  by (auto simp: ev_io_stop_def ev_stop_def fd_change_def Let_def split: if_splits)

lemma ev_io_start_more: "ev_io_start w l = Inr l' \<Longrightarrow> event_loop.more l' = event_loop.more l"
  by (auto simp: ev_io_start_def ev_start_def pri_adjust_def fd_change_def Let_def split: if_splits)

lemma ev_timer_stop_more: "ev_timer_stop w l = Inr l' \<Longrightarrow> event_loop.more l' = event_loop.more l"
  by (auto simp: ev_timer_stop_def ev_stop_def Let_def split: if_splits)

lemma ev_timer_start_more: "ev_timer_start w l = Inr l' \<Longrightarrow> event_loop.more l' = event_loop.more l"
  by (auto simp: ev_timer_start_def ev_start_def pri_adjust_def Let_def split: if_splits)

lemma start_io_event_more: "start_io_event w fd msk l = Inr l' \<Longrightarrow> event_loop.more l' = event_loop.more l"
  by (auto simp: start_io_event_def ev_io_set_def Let_def split: if_splits dest!: ev_io_stop_more ev_io_start_more)

lemma stop_io_event_more: "stop_io_event w fd msk l = Inr l' \<Longrightarrow> event_loop.more l' = event_loop.more l"
  by (auto simp: stop_io_event_def ev_io_set_def Let_def split: if_splits dest!: ev_io_stop_more ev_io_start_more)

lemma delete_io_event_more: "delete_io_event w l = Inr l' \<Longrightarrow> event_loop.more l' = event_loop.more l"
  by (auto simp: delete_io_event_def free_watcher_def split: if_splits dest!: ev_io_stop_more)

lemma delete_timer_more: "delete_timer w l = Inr l' \<Longrightarrow> event_loop.more l' = event_loop.more l"
  by (auto simp: delete_timer_def stop_timer_def free_watcher_def split: if_splits dest!: ev_timer_stop_more)

lemma ev_timer_again_more: "ev_timer_again w l = Inr l' \<Longrightarrow> event_loop.more l' = event_loop.more l"
  by (auto simp: ev_timer_again_def Let_def split: if_splits dest!: ev_timer_stop_more ev_timer_start_more)

lemma start_timer_more: "start_timer w usec l = Inr l' \<Longrightarrow> event_loop.more l' = event_loop.more l"
  by (auto simp: start_timer_def ev_timer_set_def Let_def split: if_splits
      dest!: ev_timer_stop_more ev_timer_start_more ev_timer_again_more)

lemmas loop_more = start_io_event_more stop_io_event_more delete_io_event_more delete_timer_more start_timer_more

lemma create_more [simp]: "event_loop.more (create_io_event a cb l) = event_loop.more l" "event_loop.more (create_timer a cb r l) = event_loop.more l"
  by (simp_all add: create_io_event_def create_timer_def ev_init_def)

section \<open>The worker's handlers\<close>

text \<open>A handler that touches the table in the slot \<open>fd\<close> only, and neither queue.\<close>

definition slot_only :: "fd \<Rightarrow> sig_worker \<Rightarrow> sig_worker \<Rightarrow> bool" where
  "slot_only fd w w' \<longleftrightarrow> (conns w' = conns w \<or> (\<exists>co. conns w' = (conns w)[nat fd := co] \<and>
       (\<forall>c'. co = Some c' \<longrightarrow> (\<exists>c. conn_at w fd = Some c \<and> c_addr c' = c_addr c \<and>
          (current_state c = STATE_BODY \<longrightarrow> current_state c' = STATE_BODY))))) \<and>
     q_conn w' = q_conn w \<and> rtc_msg_queue w' = rtc_msg_queue w \<and> sw_addr w' = sw_addr w"

text \<open>
  Every connection of the table was there before, with the same address, and has not lost its header,
  apart from new ones with a descriptor and an address in \<open>N\<close>.
\<close>

definition evolves :: "(fd \<times> addr) set \<Rightarrow> sig_worker \<Rightarrow> sig_worker \<Rightarrow> bool" where
  "evolves N w w' \<longleftrightarrow> (\<forall>fd c'. conn_at w' fd = Some c' \<longrightarrow> (fd, c_addr c') \<in> N \<or> (\<exists>c. conn_at w fd = Some c \<and> c_addr c' = c_addr c \<and>
     (current_state c = STATE_BODY \<longrightarrow> current_state c' = STATE_BODY)))"

lemma evolves_trans:
  assumes "evolves {} a b" "evolves {} b c"
  shows "evolves {} a c"
  using assms unfolding evolves_def by (metis empty_iff)

lemma evolves_conns: "conns w' = conns w \<Longrightarrow> evolves {} w w'"
  by (auto simp: evolves_def conn_at_def)

lemma slot_only_evolves:
  assumes "slot_only fd w w'"
  shows "evolves {} w w'"
proof (cases "conns w' = conns w")
  case True
  then show ?thesis by (rule evolves_conns)
next
  case False
  then obtain co where co: "conns w' = (conns w)[nat fd := co]"
    "\<forall>c'. co = Some c' \<longrightarrow> (\<exists>c. conn_at w fd = Some c \<and> c_addr c' = c_addr c \<and> (current_state c = STATE_BODY \<longrightarrow> current_state c' = STATE_BODY))"
    using assms by (auto simp: slot_only_def)
  show ?thesis unfolding evolves_def
  proof (intro allI impI)
    fix f c' assume f: "conn_at w' f = Some c'"
    show "(f, c_addr c') \<in> {} \<or> (\<exists>c. conn_at w f = Some c \<and> c_addr c' = c_addr c \<and> (current_state c = STATE_BODY \<longrightarrow> current_state c' = STATE_BODY))"
    proof (cases "nat f = nat fd")
      case True
      then have "co = Some c'" using f co(1) by (auto simp: conn_at_def split: if_splits)
      with co(2) obtain c where c: "conn_at w fd = Some c" "c_addr c' = c_addr c" "current_state c = STATE_BODY \<longrightarrow> current_state c' = STATE_BODY" by blast
      moreover have "conn_at w f = conn_at w fd" using True f c(1) by (auto simp: conn_at_def split: if_splits)
      ultimately show ?thesis by auto
    next
      case False
      then have "conn_at w f = Some c'" using f co(1) by (auto simp: conn_at_def split: if_splits)
      then show ?thesis by auto
    qed
  qed
qed

lemma close_conn_slot:
  assumes c: "close_conn d v = Inr v'"
  shows "conns v' = (conns v)[nat (cfd d) := None]" "q_conn v' = q_conn v" "rtc_msg_queue v' = rtc_msg_queue v" "sw_addr v' = sw_addr v"
proof -
  let ?v = "v\<lparr>sys_closed := sys_closed v @ [cfd d]\<rparr>"
  obtain tw v1 iw v2 where "delete_timer tw ?v = Inr v1" "delete_io_event iw v1 = Inr v2" "v' = set_conn (cfd d) None v2"
    using c by (auto simp: close_conn_def remove_conn_def split: option.splits if_splits)
  then have m: "event_loop.more v2 = event_loop.more ?v" "v' = set_conn (cfd d) None v2" using loop_more(3,4) by metis+
  from ev_more_eq [OF m(1)] m(2) show "conns v' = (conns v)[nat (cfd d) := None]" "q_conn v' = q_conn v" "rtc_msg_queue v' = rtc_msg_queue v" "sw_addr v' = sw_addr v"
    by (simp_all add: set_conn_def)
qed

section \<open>Messages to the media server\<close>

text \<open>
  \<open>G\<close> says how the state behind \<open>send\<close> may change; every message sent is a push that names the worker and the connection.
\<close>

definition sends_only :: "('g \<Rightarrow> 'g \<Rightarrow> bool) \<Rightarrow> 'g send \<Rightarrow> addr \<Rightarrow> addr \<Rightarrow> fd \<Rightarrow> bool" where
  "sends_only G send wk a fd \<longleftrightarrow> (\<forall>g. G g g) \<and> (\<forall>x y z. G x y \<and> G y z \<longrightarrow> G x z) \<and>
     (\<forall>m g. m_worker m = Some wk \<and> m_conn m = Some a \<and> m_fd m = fd \<and> cmdno m = CMDNO_PUSH \<and> err_no m = 0 \<longrightarrow> G g (fst (send m g)))"

lemma process_request_frame:
  assumes "sends_only G send wk (c_addr c) (cfd c)" "process_request J send wk c header body g = Inr (g', ret)"
  shows "G g g'"
proof -
  have r: "G h h" for h using assms(1) unfolding sends_only_def by blast
  have s: "send m g = (g', ret) \<Longrightarrow> m_worker m = Some wk \<Longrightarrow> m_conn m = Some (c_addr c) \<Longrightarrow> m_fd m = cfd c \<Longrightarrow>
      cmdno m = CMDNO_PUSH \<Longrightarrow> err_no m = 0 \<Longrightarrow> G g g'" for m
    using assms(1) unfolding sends_only_def by (metis fst_conv)
  have p: "process_push J send wk CMDNO_PUSH c root lid g = (g', ret) \<Longrightarrow> G g g'" for root lid
    by (auto simp: process_push_def r rtc_msg0_def split: option.splits dest!: s)
  show ?thesis
    using assms(2) unfolding process_request_def rbind_eq_Inr
    by (elim exE conjE) (auto simp: r split: option.split_asm if_split_asm dest!: p)
qed

lemma process_query_buffer_frame:
  assumes "process_query_buffer J send wk c g = Some y" "sends_only G send wk (c_addr c) (cfd c)" "y = Inr (ret, d, g')"
  shows "G g g' \<and> (g' \<noteq> g \<or> current_state c = STATE_BODY \<longrightarrow> current_state d = STATE_BODY) \<and> c_addr d = c_addr c \<and> cfd d = cfd c"
  using assms
proof (induction rule: process_query_buffer.raw_induct [rotated 1, consumes 1])
  case (1 pqb J send wk c g y)
  have r: "G g g" and tr: "\<And>x y z. G x y \<Longrightarrow> G y z \<Longrightarrow> G x z" using 1(3) unfolding sends_only_def by blast+
  show ?case
  proof (cases "sdslen (querybuf c) \<ge> (bytes_processed c + bytes_expected c) mod 2 ^ 64")
    case False
    then show ?thesis using 1(2,4) r by auto
  next
    case True
    then obtain xh where xh: "xhead_of_bytes (sh_buf (querybuf c)) = Inr xh" using 1(2,4) by (auto split: sum.splits)
    show ?thesis
    proof (cases "current_state c")
      case STATE_HEAD
      let ?c = "c\<lparr>current_state := STATE_BODY, bytes_processed := (bytes_processed c + XHEAD_SIZE) mod 2 ^ 64, bytes_expected := unat (xh_body_len xh)\<rparr>"
      show ?thesis
      proof (cases "XHEAD_MAGIC_NUM \<noteq> xh_magic_num xh")
        case m: True
        then show ?thesis using 1(2,4) True xh STATE_HEAD r by simp
      next
        case False
        then have "pqb J send wk ?c g = Some y" using 1(2) True xh STATE_HEAD by simp
        from 1(1) [OF this] 1(3,4) show ?thesis by simp
      qed
    next
      case STATE_BODY
      define hd bd where "hd = slice_of (sh_buf (querybuf c)) XHEAD_SIZE"
        and "bd = \<lparr>sl_buffer = sh_buf (querybuf c), sl_off = XHEAD_SIZE, sl_size = unat (xh_body_len xh)\<rparr>"
      have e: "(case process_request J send wk c hd bd g of Inl e \<Rightarrow> Some (Inl e)
          | Inr (g', ret) \<Rightarrow> if ret \<noteq> 0 then Some (Inr (-1, c, g')) else pqb J send wk (c\<lparr>bytes_processed := 65535\<rparr>) g') = Some y"
        using 1(2) True xh STATE_BODY by (simp add: Let_def hd_def bd_def)
      then obtain g1 r1 where q: "process_request J send wk c hd bd g = Inr (g1, r1)" using 1(4) by (auto split: sum.splits)
      have G1: "G g g1" by (rule process_request_frame [OF 1(3) q])
      show ?thesis
      proof (cases "r1 = 0")
        case False
        then show ?thesis using e q 1(4) G1 STATE_BODY by simp
      next
        case True
        then have "pqb J send wk (c\<lparr>bytes_processed := 65535\<rparr>) g1 = Some y" using e q by simp
        from 1(1) [OF this] 1(3,4) G1 tr STATE_BODY show ?thesis by auto
      qed
    qed
  qed
qed

lemma conn_read_frame:
  assumes "conn_read al nd J send wk r t c g = Some (Inr (cl, d, g'))" "sends_only G send wk (c_addr c) (cfd c)"
  shows "G g g' \<and> (g' \<noteq> g \<or> current_state c = STATE_BODY \<longrightarrow> current_state d = STATE_BODY) \<and> c_addr d = c_addr c \<and> cfd d = cfd c"
proof -
  have r: "G g g" using assms(2) by (simp add: sends_only_def)
  consider qb where "d = c\<lparr>querybuf := qb, last_interaction := t\<rparr>" "g' = g"
    | qb ret where "process_query_buffer J send wk (c\<lparr>last_interaction := t, querybuf := qb\<rparr>) g = Some (Inr (ret, d, g'))"
    using assms(1) by (fastforce simp: conn_read_def Let_def split: sum.splits prod.splits if_splits option.splits)
  then show ?thesis
  proof cases
    case 1
    then show ?thesis using r by simp
  next
    case 2
    from process_query_buffer_frame [OF this _ refl, of G] assms(2) show ?thesis by simp
  qed
qed

section \<open>One slot at a time\<close>

lemma slot_only_refl [simp]: "slot_only fd w w"
  by (simp add: slot_only_def)

lemma slotI:
  assumes "conn_at w fd = Some c" "conns w' = (conns w)[nat fd := co]"
    "\<And>c'. co = Some c' \<Longrightarrow> c_addr c' = c_addr c \<and> (current_state c = STATE_BODY \<longrightarrow> current_state c' = STATE_BODY)"
    "q_conn w' = q_conn w" "rtc_msg_queue w' = rtc_msg_queue w" "sw_addr w' = sw_addr w"
  shows "slot_only fd w w'"
  using assms by (auto simp: slot_only_def)

lemma conn_at_slot: "conns w' = (conns w)[nat fd := co] \<Longrightarrow> conn_at w fd = Some c \<Longrightarrow> conn_at w' fd = co"
  by (auto simp: conn_at_def split: if_splits)

lemma conn_at_cfd:
  assumes "worker_ok w" "conn_at w fd = Some c"
  shows "cfd c = fd" "replies_ok c"
  using worker_okD(3) [OF assms(1)] assms(2) by (auto simp: conn_at_used conn_ok_def)

lemma read_query_frame:
  assumes ok: "worker_ok w" and m: "read_query al nd J send r fd w g = Some (Inr (w', g'))"
    and G: "\<And>c. conn_at w fd = Some c \<Longrightarrow> sends_only G send (sw_addr w) (c_addr c) fd" and refl: "G g g"
  shows "slot_only fd w w' \<and> G g g' \<and> (\<forall>c'. conn_at w' fd = Some c' \<and> g' \<noteq> g \<longrightarrow> current_state c' = STATE_BODY)"
proof (cases "conn_at w fd")
  case None
  then have "w' = w" "g' = g" using m by (simp_all add: read_query_def)
  then show ?thesis using None refl by simp
next
  case (Some c)
  have f: "cfd c = fd" using conn_at_cfd [OF ok Some] by simp
  obtain cl d where r: "conn_read al nd J send (sw_addr w) r (of_nat (now w)) c g = Some (Inr (cl, d, g'))"
    and w': "if cl then close_conn d (set_conn fd (Some d) w) = Inr w' else w' = set_conn fd (Some d) w"
    using m Some by (auto simp: read_query_def Let_def split: option.splits sum.splits if_splits)
  from conn_read_frame [OF r, of G] G [OF Some] f have
    *: "G g g'" "g' \<noteq> g \<or> current_state c = STATE_BODY \<longrightarrow> current_state d = STATE_BODY" "c_addr d = c_addr c" "cfd d = fd" by auto
  have s: "conns w' = (conns w)[nat fd := if cl then None else Some d]" "q_conn w' = q_conn w" "rtc_msg_queue w' = rtc_msg_queue w" "sw_addr w' = sw_addr w"
    using w' close_conn_slot [of d "set_conn fd (Some d) w" w'] *(4) by (auto simp: set_conn_def split: if_splits)
  have "slot_only fd w w'" by (rule slotI [OF Some s(1) _ s(2-4)]) (use * in \<open>auto split: if_splits\<close>)
  then show ?thesis using * conn_at_slot [OF s(1) Some] by (auto split: if_splits)
qed

lemma write_reply_frame:
  assumes ok: "worker_ok w" and m: "write_reply wr fd w = Some (Inr w')"
  shows "slot_only fd w w'"
proof (cases "fd \<le> 0 \<or> conn_at w fd = None")
  case True
  then have "w' = w" using m by (auto simp: write_reply_def split: if_splits)
  then show ?thesis by simp
next
  case False
  then obtain c where c: "conn_at w fd = Some c" by auto
  note k = conn_at_cfd [OF ok c]
  obtain cl d out where l: "write_loop wr 0 c [] = Some (Inr (cl, d, out))"
    using m False c by (auto simp: write_reply_def split: option.splits sum.splits)
  from write_loop_prefix [OF l k(2)] have sc: "same_conn c d" by auto
  note e = same_conn_fields [OF sc]
  define w1 where "w1 = (set_conn fd (Some d) w)\<lparr>sys_out := sys_out w @ [(cfd c, out)]\<rparr>"
  define d2 where "d2 = d\<lparr>last_interaction := of_nat (now w1)\<rparr>"
  consider "cl" "close_conn d w1 = Inr w'" | iw where "stop_io_event iw (cfd d2) WRITE (set_conn fd (Some d2) w1) = Inr w'"
    | "w' = set_conn fd (Some d2) w1"
    using m False c l unfolding write_reply_def by (auto simp: Let_def w1_def d2_def split: option.splits if_splits)
  then show ?thesis
  proof cases
    case 1
    from close_conn_slot [OF 1(2)] e k show ?thesis by (intro slotI [OF c, of _ None]) (auto simp: w1_def set_conn_def)
  next
    case 2
    from ev_more_eq [OF stop_io_event_more [OF 2]] e show ?thesis
      by (intro slotI [OF c, of _ "Some d2"]) (auto simp: w1_def set_conn_def d2_def)
  next
    case 3
    then show ?thesis using e by (intro slotI [OF c, of _ "Some d2"]) (auto simp: w1_def set_conn_def d2_def)
  qed
qed

lemma response_slot:
  assumes "response_server_offer al J msg w = Inr w'" "w' \<noteq> w"
  shows "\<exists>c reply. conn_at w (m_fd msg) = Some c \<and> conns w' = (conns w)[nat (m_fd msg) := Some (c\<lparr>reply_list := reply_list c @ [reply]\<rparr>)] \<and>
    q_conn w' = q_conn w \<and> rtc_msg_queue w' = rtc_msg_queue w \<and> sw_addr w' = sw_addr w"
proof -
  from assms obtain c reply where c: "conn_at w (m_fd msg) = Some c" "add_reply (m_fd msg) c reply w = Inr w'"
    by (auto simp: response_server_offer_def Let_def split: option.splits if_splits)
  let ?c = "c\<lparr>reply_list := reply_list c @ [reply]\<rparr>"
  obtain iw where "start_io_event iw (cfd ?c) WRITE (set_conn (m_fd msg) (Some ?c) w) = Inr w'"
    using c(2) by (auto simp: add_reply_def Let_def split: option.splits)
  from ev_more_eq [OF start_io_event_more [OF this]] c(1) show ?thesis by (auto simp: set_conn_def)
qed

lemma response_frame:
  assumes "response_server_offer al J msg w = Inr w'"
  shows "slot_only (m_fd msg) w w'"
proof (cases "w' = w")
  case False
  from response_slot [OF assms this] obtain c reply where
    "conn_at w (m_fd msg) = Some c" "conns w' = (conns w)[nat (m_fd msg) := Some (c\<lparr>reply_list := reply_list c @ [reply]\<rparr>)]"
    "q_conn w' = q_conn w" "rtc_msg_queue w' = rtc_msg_queue w" "sw_addr w' = sw_addr w" by blast
  then show ?thesis by (intro slotI) auto
qed simp

lemma timeout_frame:
  assumes ok: "worker_ok w" and k: "wkind w a = Some Ev_timer" and m: "conn_time_cb x w = Inr w'"
  shows "\<exists>fd. slot_only fd w w'"
proof -
  obtain c :: tcp_connection where "process_timeout (cfd c) w = Inr w'" using m unfolding conn_time_cb_def by (auto split: option.splits)
  then obtain d where d: "conn_at w (cfd c) = Some d" "w' = w \<or> close_conn d w = Inr w'"
    by (auto simp: process_timeout_def conn_at_def split: option.splits if_splits)
  from d(2) show ?thesis
  proof
    assume "close_conn d w = Inr w'"
    from close_conn_slot [OF this] conn_at_cfd(1) [OF ok d(1)] show ?thesis by (intro exI [of _ "cfd c"] slotI [OF d(1), of _ None]) auto
  qed auto
qed

section \<open>Notifications\<close>

lemma new_conn_frame:
  assumes "new_conn al a iw tw peer fd w = Inr w'"
  shows "evolves {(fd, a)} w w'" "q_conn w' = q_conn w" "rtc_msg_queue w' = rtc_msg_queue w" "sw_addr w' = sw_addr w"
    "notify_pipe w' = notify_pipe w" "pipe_watcher w' = pipe_watcher w"
    "\<exists>c qb. conn_at w' fd = Some c \<and> c_addr c = a \<and> sdsempty al = Inr qb \<and> querybuf c = qb"
proof -
  obtain c0 w1 where c0: "TcpConnection al a fd = Inr c0" and c1: "start_io_event iw fd READ (create_io_event iw Conn_io_cb w) = Inr w1"
    using assms unfolding new_conn_def Let_def by (elim rbind_InrE) blast
  define u where "u = (if nat fd \<ge> length (conns w1) then grow_conns (nat fd + 1) w1 else w1)"
  define c' where "c' = (case snd (sock_peer_to_str peer) of None \<Rightarrow> c0 | Some (i, p) \<Rightarrow> c0\<lparr>ip := i, port := p\<rparr>)\<lparr>io_watcher := Some iw, timer_watcher := Some tw\<rparr>"
  obtain w2 where c2: "start_timer tw 100000 (create_timer tw (Conn_time_cb a) True u) = Inr w2"
    and fd: "0 \<le> fd" and w': "w' = set_conn fd (Some (c'\<lparr>last_interaction := of_nat (now w2)\<rparr>)) w2"
    using assms unfolding new_conn_def Let_def c0 c1 rbind.simps u_def [symmetric]
    by (elim rbind_InrE) (simp add: c'_def split: if_split_asm)
  define c2' where "c2' = c'\<lparr>last_interaction := of_nat (now w2)\<rparr>"
  have ca: "c_addr c2' = a" using c0 unfolding c2'_def c'_def TcpConnection_def
    by (auto simp: Let_def split: option.splits elim!: rbind_InrE)
  have m1: "event_loop.more w1 = event_loop.more w" using start_io_event_more [OF c1] by simp
  have m2: "event_loop.more w2 = event_loop.more u"
    using start_timer_more [OF c2] by simp
  note e1 = ev_more_eq [OF m1] and e2 = ev_more_eq [OF m2]
  show "q_conn w' = q_conn w" "rtc_msg_queue w' = rtc_msg_queue w" "sw_addr w' = sw_addr w"
    "notify_pipe w' = notify_pipe w" "pipe_watcher w' = pipe_watcher w"
    using w' e1 e2 by (simp_all add: set_conn_def grow_conns_def u_def split: if_splits)
  have cs: "conns w' = (if nat fd \<ge> length (conns w) then conns w @ replicate (Suc (nat fd) - length (conns w)) None else conns w)[nat fd := Some c2']"
    using w' e1 e2 by (simp add: set_conn_def grow_conns_def u_def c2'_def)
  have "sdsempty al = Inr (querybuf c2')" using c0 unfolding c2'_def c'_def TcpConnection_def
    by (auto simp: Let_def split: option.splits elim!: rbind_InrE)
  then show "\<exists>c qb. conn_at w' fd = Some c \<and> c_addr c = a \<and> sdsempty al = Inr qb \<and> querybuf c = qb"
    using ca fd cs by (auto simp: conn_at_def)
  show "evolves {(fd, a)} w w'" unfolding evolves_def
  proof (intro allI impI)
    fix f d assume f: "conn_at w' f = Some d"
    show "(f, c_addr d) \<in> {(fd, a)} \<or> (\<exists>c. conn_at w f = Some c \<and> c_addr d = c_addr c \<and> (current_state c = STATE_BODY \<longrightarrow> current_state d = STATE_BODY))"
    proof (cases "nat f = nat fd")
      case True
      then have "d = c2'" "0 \<le> f" using f unfolding conn_at_def cs by (auto split: if_splits)
      then show ?thesis using ca fd True by auto
    next
      case False
      then have "conn_at w f = Some d" using f unfolding conn_at_def cs by (auto simp: nth_append split: if_splits)
      then show ?thesis by blast
    qed
  qed
qed

text \<open>
  What a handler leaves of the queues: at most the oldest descriptor was taken out, and became a
  connection at the new address; no message was added.
\<close>

definition taken :: "addr \<Rightarrow> sig_worker \<Rightarrow> sig_worker \<Rightarrow> bool" where
  "taken a w w' \<longleftrightarrow> sw_addr w' = sw_addr w \<and> set (rtc_msg_queue w') \<subseteq> set (rtc_msg_queue w) \<and>
     (\<forall>fds. lfq_holds (q_conn w) fds \<longrightarrow>
        lfq_holds (q_conn w') fds \<and> evolves {} w w' \<or>
        fds \<noteq> [] \<and> lfq_holds (q_conn w') (tl fds) \<and> evolves {(hd fds, a)} w w')"

lemma slot_taken: "slot_only fd w w' \<Longrightarrow> taken a w w'"
  using slot_only_evolves [of fd w w'] by (auto simp: taken_def slot_only_def)

lemma evolves_rtc: "evolves N (w\<lparr>rtc_msg_queue := q\<rparr>) w' = evolves N w w'" "evolves N (w\<lparr>q_conn := q'\<rparr>) w' = evolves N w w'"
  "evolves N (w\<lparr>notify_pipe := ns\<rparr>) w' = evolves N w w'"
  by (simp_all add: evolves_def conn_at_def)

lemma process_rtc_msg_frame:
  assumes "process_rtc_msg al J w = Inr w'"
  shows "taken a w w'"
proof (cases "rtc_msg_queue w")
  case Nil
  then have "w' = w" using assms by (simp add: process_rtc_msg_def)
  then show ?thesis using slot_taken [OF slot_only_refl] by simp
next
  case (Cons msg ms)
  let ?w = "w\<lparr>rtc_msg_queue := ms\<rparr>"
  have "slot_only (m_fd msg) ?w w'" using assms Cons response_frame [of al J msg ?w w'] by (auto simp: process_rtc_msg_def Let_def split: if_splits)
  then show ?thesis using slot_only_evolves [of "m_fd msg" ?w w'] Cons by (auto simp: taken_def slot_only_def evolves_rtc)
qed

lemma do_stop_frame:
  assumes "do_stop w = Inr w'"
  shows "taken a w w'"
proof (cases "w' = w")
  case True
  then show ?thesis using slot_taken [OF slot_only_refl] by simp
next
  case False
  then obtain pw w1 where "delete_io_event pw w = Inr w1" "w' = (stop w1)\<lparr>sys_closed := sys_closed (stop w1) @ [notify_recv_fd (stop w1), notify_send_fd (stop w1)]\<rparr>"
    using assms by (auto simp: do_stop_def Let_def split: if_splits option.splits)
  then have "conns w' = conns w \<and> q_conn w' = q_conn w \<and> rtc_msg_queue w' = rtc_msg_queue w \<and> sw_addr w' = sw_addr w"
    using ev_more_eq [OF delete_io_event_more [of pw w w1]] by (simp add: stop_def ev_break_def)
  then show ?thesis by (intro slot_taken [of 0]) (simp add: slot_only_def)
qed

lemma process_notify_frame:
  assumes "process_notify al J (a, iw, tw) peer msg w = Inr w'"
  shows "taken a w w'"
proof -
  consider "msg = QUIT" | "msg = NEW_CONN" | "msg = RTC_MSG" | "w' = w"
    using assms by (auto simp: process_notify_def split: if_splits)
  then show ?thesis
  proof cases
    case 1
    then show ?thesis using assms do_stop_frame by (auto simp: process_notify_def)
  next
    case 2
    then obtain r q where q: "lfq_consume (q_conn w) = Inr (r, q)"
      and w': "case r of None \<Rightarrow> w' = w\<lparr>q_conn := q\<rparr> | Some fd \<Rightarrow> new_conn al a iw tw peer fd (w\<lparr>q_conn := q\<rparr>) = Inr w'"
      using assms by (auto simp: process_notify_def Let_def NEW_CONN_def QUIT_def split: option.splits)
    show ?thesis
    proof (cases r)
      case None
      have "lfq_holds q fds" if "lfq_holds (q_conn w) fds" for fds
        using lfq.deq_empty [of "q_conn w"] lfq.deq_holds [of "q_conn w"] that q None by (cases fds) fastforce+
      then show ?thesis using w' None evolves_conns [of "w\<lparr>q_conn := q\<rparr>" w] by (auto simp: taken_def)
    next
      case (Some fd)
      have n: "new_conn al a iw tw peer fd (w\<lparr>q_conn := q\<rparr>) = Inr w'" using w' Some by simp
      have "fds \<noteq> [] \<and> hd fds = fd \<and> lfq_holds q (tl fds)" if "lfq_holds (q_conn w) fds" for fds
        using lfq.deq_empty [of "q_conn w"] lfq.deq_holds [of "q_conn w"] that q Some by (cases fds) fastforce+
      then show ?thesis using new_conn_frame [OF n] by (auto simp: taken_def evolves_rtc)
    qed
  next
    case 3
    then show ?thesis using assms process_rtc_msg_frame by (auto simp: process_notify_def RTC_MSG_def QUIT_def NEW_CONN_def)
  next
    case 4
    then show ?thesis using slot_taken [OF slot_only_refl] by simp
  qed
qed

section \<open>Dispatch\<close>

text \<open>
  What an event of a worker may do to the outside, \<open>G a fd\<close> saying how a message of the connection
  \<open>a\<close> on \<open>fd\<close> changes the state behind \<open>send\<close>: nothing, or a connection of the worker sent messages, and
  if it is still there it has its header.
\<close>

definition sent_by :: "(addr \<Rightarrow> fd \<Rightarrow> 'g \<Rightarrow> 'g \<Rightarrow> bool) \<Rightarrow> sig_worker \<Rightarrow> sig_worker \<Rightarrow> 'g \<Rightarrow> 'g \<Rightarrow> bool" where
  "sent_by G w w' g g' \<longleftrightarrow> g' = g \<or> (\<exists>fd c. conn_at w fd = Some c \<and> G (c_addr c) fd g g' \<and>
     (\<forall>c'. conn_at w' fd = Some c' \<longrightarrow> current_state c' = STATE_BODY))"

lemma slot_only_trans:
  assumes "slot_only fd u v" "slot_only fd v w"
  shows "evolves {} u w" "q_conn w = q_conn u" "rtc_msg_queue w = rtc_msg_queue u" "sw_addr w = sw_addr u"
  using evolves_trans [OF slot_only_evolves [OF assms(1)] slot_only_evolves [OF assms(2)]] assms by (auto simp: slot_only_def)

lemma evolves_body:
  assumes "evolves {} v w" "\<And>c. conn_at v fd = Some c \<Longrightarrow> current_state c = STATE_BODY" "conn_at w fd = Some d"
  shows "current_state d = STATE_BODY"
  using assms unfolding evolves_def by blast

lemma conn_io_cb_frame:
  assumes ok: "worker_ok w" and mem: "mem_ok al" and small: "bodies_small w"
    and m: "conn_io_cb al nd J send r wr fd events w g = Some (Inr (w', g'))"
    and G: "\<And>fd c. conn_at w fd = Some c \<Longrightarrow> sends_only (G (c_addr c) fd) send (sw_addr w) (c_addr c) fd"
  shows "taken a w w' \<and> sent_by G w w' g g'"
proof -
  obtain w1 where r: "events AND READ \<noteq> 0 \<and> read_query al nd J send r fd w g = Some (Inr (w1, g')) \<or> w1 = w \<and> g' = g"
    and wr: "write_reply wr fd w1 = Some (Inr w') \<or> w' = w1"
    using m unfolding conn_io_cb_def by (auto split: if_splits option.splits sum.splits) blast+
  have 1: "worker_ok w1 \<and> slot_only fd w w1 \<and> sent_by G w w1 g g' \<and>
      (g' = g \<or> (\<exists>c. conn_at w fd = Some c \<and> G (c_addr c) fd g g' \<and> (\<forall>c'. conn_at w1 fd = Some c' \<longrightarrow> current_state c' = STATE_BODY)))"
  proof (cases "w1 = w \<and> g' = g")
    case True
    then show ?thesis using ok by (simp add: sent_by_def)
  next
    case False
    then have q: "read_query al nd J send r fd w g = Some (Inr (w1, g'))" using r by blast
    have k: "worker_ok w1" using read_query_ok [OF ok mem small q] by blast
    define H where "H = (\<lambda>x y. x = y \<or> (\<exists>c. conn_at w fd = Some c \<and> G (c_addr c) fd x y))"
    have "sends_only H send (sw_addr w) (c_addr c) fd" if c: "conn_at w fd = Some c" for c
    proof -
      have "\<And>z. G (c_addr c) fd z z" using G [OF c] unfolding sends_only_def by blast
      then have "H = G (c_addr c) fd" using c by (auto simp: H_def fun_eq_iff)
      then show ?thesis using G [OF c] by simp
    qed
    from read_query_frame [OF ok q this] have
      *: "slot_only fd w w1" "H g g'" "\<And>c'. conn_at w1 fd = Some c' \<Longrightarrow> g' \<noteq> g \<Longrightarrow> current_state c' = STATE_BODY" by (auto simp: H_def)
    then show ?thesis using k unfolding H_def sent_by_def by blast
  qed
  have 2: "slot_only fd w1 w'" using wr write_reply_frame 1 by auto
  note t = slot_only_trans [OF conjunct1 [OF conjunct2 [OF 1]] 2]
  have "taken a w w'" using t by (simp add: taken_def)
  moreover have "sent_by G w w' g g'" using 1 evolves_body [OF slot_only_evolves [OF 2], of fd] unfolding sent_by_def by blast
  ultimately show ?thesis ..
qed

lemma worker_event_frame:
  assumes ok: "worker_ok w" and mem: "mem_ok al" and small: "bodies_small w"
    and m: "worker_event al nd J send r wr (a, iw, tw) peer x revents w g = Some (Inr (w', g'))"
    and G: "\<And>fd c. conn_at w fd = Some c \<Longrightarrow> sends_only (G (c_addr c) fd) send (sw_addr w) (c_addr c) fd"
  shows "taken a w w' \<and> sent_by G w w' g g'"
proof -
  consider fd events where "conn_io_cb al nd J send r wr fd events w g = Some (Inr (w', g'))"
    | "signaling_worker_recv_notify al J (a, iw, tw) peer w = Inr w'" "g' = g"
    | y where "wkind w x = Some Ev_timer" "conn_time_cb y w = Inr w'" "g' = g"
    using m unfolding worker_event_def by (auto split: option.splits wkind.splits prod.splits sig_cb.splits)
  then show ?thesis
  proof cases
    case 1
    show ?thesis by (rule conn_io_cb_frame [OF ok mem small 1 G])
  next
    case 2
    have "taken a w w'"
    proof (cases "notify_pipe w")
      case Nil
      then show ?thesis using 2(1) slot_taken [OF slot_only_refl] by (simp add: signaling_worker_recv_notify_def)
    next
      case (Cons n ns)
      then have "process_notify al J (a, iw, tw) peer n (w\<lparr>notify_pipe := ns\<rparr>) = Inr w'" using 2(1) by (simp add: signaling_worker_recv_notify_def)
      from process_notify_frame [OF this] show ?thesis by (simp add: taken_def evolves_rtc)
    qed
    then show ?thesis using 2(2) by (simp add: sent_by_def)
  next
    case 3
    from timeout_frame [OF ok 3(1,2)] slot_taken show ?thesis using 3(3) by (auto simp: sent_by_def)
  qed
qed

end
