(* ===== verification/Push_Path.thy ===== *)
theory Push_Path
  imports Worker_Frames Ev_Run_Proofs
begin

unbundle bit_operations_syntax

text \<open>
  The running server: the signalling workers, the media server and its workers, each a thread of
  its own, connected by queues and notification pipes. One action is one callback of one thread;
  actions of different threads interleave in any order, and any write to a pipe may fail. Shutting
  the media server down is not part of it.

  A request of a client goes from its connection to the queue of the media server, from there to
  the media worker of its stream, and its answer back to the signalling worker that the message
  names, which finds the connection by descriptor and address. The theory shows that no action
  faults, whatever happened before, as long as the memory of a connection that a message still
  names is not used for a new one; and what happens when it is.
\<close>

section \<open>The system\<close>

record push_sys =
  ps_ws :: "sig_worker list"
  ps_rs :: rtc_server

text \<open>\<open>g_rtc_server->send_rtc_msg(msg)\<close>; \<open>ok\<close> says whether the pipe can be written.\<close>

definition ask :: "bool \<Rightarrow> rtc_server send" where
  "ask ok m g = rs_send_rtc_msg ok (Some m) g"

text \<open>
  \<open>worker->send_rtc_msg(msg)\<close> in \<open>RtcWorker::process_push\<close>: the worker is the one at the address in
  the message; an address with no worker is a fault.
\<close>

definition find_worker :: "addr \<Rightarrow> sig_worker list \<Rightarrow> nat option" where
  "find_worker a ws = List.find (\<lambda>k. sw_addr (ws ! k) = a) [0..<length ws]"

definition answer_to :: "bool \<Rightarrow> (addr \<times> rtc_msg) option \<Rightarrow> sig_worker list \<Rightarrow> sig_worker list res" where
  "answer_to ok r ws =
     (case r of
        None \<Rightarrow> Inr ws
      | Some (a, m) \<Rightarrow>
          (case find_worker a ws of
             None \<Rightarrow> Inl UseAfterFree
           | Some k \<Rightarrow> Inr (ws[k := fst (send_rtc_msg ok (Some m) (ws ! k))])))"

text \<open>
  The actions: an event of a watcher of a signalling worker, with what the system calls and the
  allocator give; a connection handed over by the accepting thread; a notification of the media
  server, or of a media worker; the time of a worker's loop; a worker told to stop.
\<close>

datatype action =
    Sig_event nat bool rres "nat \<Rightarrow> wres" "addr \<times> addr \<times> addr" "(byte list \<times> u16) option" addr u32
  | Accept nat bool addr fd
  | Server_turn bool addr
  | Media_turn nat bool
  | Tick nat clock
  | Sig_stop nat bool

definition act :: "allocator \<Rightarrow> bool \<Rightarrow> 'j json_lib \<Rightarrow> action \<Rightarrow> push_sys \<Rightarrow> push_sys res option" where
  "act al nd J op s =
     (case op of
        Sig_event k ok r wr addrs peer x revents \<Rightarrow>
          map_option (\<lambda>m. rbind m (\<lambda>(w, g). Inr (s\<lparr>ps_ws := (ps_ws s)[k := w], ps_rs := g\<rparr>)))
            (worker_event al nd J (ask ok) r wr addrs peer x revents (ps_ws s ! k) (ps_rs s))
      | Accept k ok p fd \<Rightarrow>
          Some (rbind (notify_new_conn ok p fd (ps_ws s ! k)) (\<lambda>(w, r). Inr (s\<lparr>ps_ws := (ps_ws s)[k := w]\<rparr>)))
      | Server_turn ok p \<Rightarrow> Some (rbind (rtc_server_recv_notify ok p (ps_rs s)) (\<lambda>g. Inr (s\<lparr>ps_rs := g\<rparr>)))
      | Media_turn j ok \<Rightarrow>
          Some (rbind (rtc_worker_recv_notify (rs_workers (ps_rs s) ! j)) (\<lambda>(v, r).
            rbind (answer_to ok r (ps_ws s)) (\<lambda>ws.
              Inr (s\<lparr>ps_ws := ws, ps_rs := (ps_rs s)\<lparr>rs_workers := (rs_workers (ps_rs s))[j := v]\<rparr>\<rparr>))))
      | Tick k clk \<Rightarrow> Some (Inr (s\<lparr>ps_ws := (ps_ws s)[k := time_update True clk unbounded_block (ps_ws s ! k)]\<rparr>))
      | Sig_stop k ok \<Rightarrow> Some (Inr (s\<lparr>ps_ws := (ps_ws s)[k := sw_stop ok (ps_ws s ! k)]\<rparr>)))"

text \<open>The messages on their way: in the queue of the media server, of its workers, and of the signalling workers.\<close>

definition in_flight :: "push_sys \<Rightarrow> rtc_msg \<Rightarrow> bool" where
  "in_flight s m \<longleftrightarrow> m \<in> set (rs_msg_queue (ps_rs s)) \<or>
     (\<exists>v \<in> set (rs_workers (ps_rs s)). \<exists>ms. rw_holds v ms \<and> m \<in> set ms) \<or>
     (\<exists>w \<in> set (ps_ws s). m \<in> set (rtc_msg_queue w))"

text \<open>
  What the environment promises for an action. The allocator gives addresses that are not in use,
  and the address of a new connection is not one that a message on its way still names; a
  descriptor that is accepted is not one the worker has or waits for; bodies are below half a
  gigabyte.
\<close>

definition env_ok :: "action \<Rightarrow> push_sys \<Rightarrow> bool" where
  "env_ok op s \<longleftrightarrow>
     (case op of
        Sig_event k ok r wr addrs peer x revents \<Rightarrow>
          k < length (ps_ws s) \<and> wkind (ps_ws s ! k) x \<noteq> None \<and> bodies_small (ps_ws s ! k) \<and>
          (case addrs of (a, iw, tw) \<Rightarrow> wkind (ps_ws s ! k) iw = None \<and> wkind (ps_ws s ! k) tw = None \<and> iw \<noteq> tw \<and>
             (\<forall>c. Some c \<in> set (conns (ps_ws s ! k)) \<longrightarrow> c_addr c \<noteq> a) \<and> (\<forall>m. in_flight s m \<longrightarrow> m_conn m \<noteq> Some a))
      | Accept k ok p fd \<Rightarrow>
          k < length (ps_ws s) \<and> lfq_avail p (q_conn (ps_ws s ! k)) \<and> 0 \<le> fd \<and> conn_at (ps_ws s ! k) fd = None \<and>
          (\<forall>fds. lfq_holds (q_conn (ps_ws s ! k)) fds \<longrightarrow> fd \<notin> set fds)
      | Server_turn ok p \<Rightarrow> \<forall>v \<in> set (rs_workers (ps_rs s)). lfq_avail p (rw_queue v)
      | Media_turn j ok \<Rightarrow> j < length (rs_workers (ps_rs s))
      | Tick k clk \<Rightarrow> k < length (ps_ws s)
      | Sig_stop k ok \<Rightarrow> k < length (ps_ws s))"

text \<open>A reply to a push request fits its buffer.\<close>

definition offer_fits :: "'j json_lib \<Rightarrow> bool" where
  "offer_fits J \<longleftrightarrow> (let json = j_reply J 0 (cstr ''process success'') (cstr ''offer'')
     in length json < MAX_RES_BUF \<and> 0 \<notin> set json)"

text \<open>
  The server after start: workers that have gone through \<open>init\<close> and \<open>start\<close>, at different addresses,
  and a media server with all its workers, none of which has a message.
\<close>

definition sys_init :: "push_sys \<Rightarrow> bool" where
  "sys_init s \<longleftrightarrow>
     (\<forall>w \<in> set (ps_ws s). \<exists>a rt mn p wid tmo r sd pw w0. 0 \<le> r \<and>
        sw_init (Some (r, sd)) pw (SignalingWorker a rt mn p wid tmo) = Inr (w0, 0) \<and> w = fst (sw_start w0)) \<and>
     distinct (map sw_addr (ps_ws s)) \<and> rs_ready (ps_rs s) \<and> rs_msg_queue (ps_rs s) = [] \<and> rs_pipe (ps_rs s) = [] \<and>
     (\<forall>v \<in> set (rs_workers (ps_rs s)). rw_holds v [] \<and> rw_pipe v = [])"

inductive reachable :: "allocator \<Rightarrow> bool \<Rightarrow> 'j json_lib \<Rightarrow> push_sys \<Rightarrow> bool" for al nd J where
  start: "sys_init s \<Longrightarrow> reachable al nd J s"
| step: "reachable al nd J s \<Longrightarrow> env_ok op s \<Longrightarrow> act al nd J op s = Some (Inr s') \<Longrightarrow> reachable al nd J s'"

section \<open>The invariant\<close>

text \<open>The connection a message answers, if it is still there, has received its header.\<close>

definition answers :: "sig_worker \<Rightarrow> rtc_msg \<Rightarrow> bool" where
  "answers w m \<longleftrightarrow> (\<forall>c. conn_at w (m_fd m) = Some c \<and> m_conn m = Some (c_addr c) \<longrightarrow> current_state c = STATE_BODY)"

definition flight_ok :: "sig_worker list \<Rightarrow> rtc_msg \<Rightarrow> bool" where
  "flight_ok ws m \<longleftrightarrow> cmdno m = CMDNO_PUSH \<and> err_no m = 0 \<and>
     (\<exists>k < length ws. m_worker m = Some (sw_addr (ws ! k)) \<and> answers (ws ! k) m)"

text \<open>The descriptors a worker waits for are new to it.\<close>

definition waiting_ok :: "sig_worker \<Rightarrow> bool" where
  "waiting_ok w \<longleftrightarrow> (\<exists>fds. lfq_holds (q_conn w) fds \<and> distinct fds \<and> (\<forall>fd \<in> set fds. 0 \<le> fd \<and> conn_at w fd = None))"

definition ws_ok :: "sig_worker list \<Rightarrow> bool" where
  "ws_ok ws \<longleftrightarrow> distinct (map sw_addr ws) \<and>
     (\<forall>w \<in> set ws. worker_ok w \<and> waiting_ok w \<and>
        (\<forall>m \<in> set (rtc_msg_queue w). m_worker m = Some (sw_addr w) \<and> sdp m = cstr ''offer''))"

definition rs_ok :: "rtc_server \<Rightarrow> bool" where
  "rs_ok g \<longleftrightarrow> rs_ready g \<and> set (rs_pipe g) \<subseteq> {RS_RTC_MSG} \<and>
     (\<forall>v \<in> set (rs_workers g). set (rw_pipe v) \<subseteq> {RW_RTC_MSG} \<and> (\<exists>ms. rw_holds v ms))"

definition sys_inv :: "push_sys \<Rightarrow> bool" where
  "sys_inv s \<longleftrightarrow> ws_ok (ps_ws s) \<and> rs_ok (ps_rs s) \<and> (\<forall>m. in_flight s m \<longrightarrow> flight_ok (ps_ws s) m)"

section \<open>One worker of the list\<close>

lemma lfq_holds_unique: "lfq_holds q xs \<Longrightarrow> lfq_holds q ys \<Longrightarrow> ys = xs"
  unfolding lfq_holds_def using lfq_shape_unique by blast

lemma rw_holds_unique: "rw_holds v ms \<Longrightarrow> rw_holds v ns \<Longrightarrow> ns = ms"
  unfolding rw_holds_def using lfq_holds_unique [of "rw_queue v" "map Some ms" "map Some ns"] by (simp add: inj_map_eq_map)

lemma find_worker_at:
  assumes "distinct (map sw_addr ws)" "k < length ws"
  shows "find_worker (sw_addr (ws ! k)) ws = Some k"
proof -
  have "sw_addr (ws ! j) = sw_addr (ws ! k) \<longleftrightarrow> j = k" if "j < length ws" for j
    using assms that nth_eq_iff_index_eq [of "map sw_addr ws" j k] by simp
  then show ?thesis using assms(2) by (auto simp: find_worker_def find_Some_iff)
qed

lemma map_sw_addr_upd: "sw_addr w' = sw_addr (ws ! k) \<Longrightarrow> map sw_addr (ws[k := w']) = map sw_addr ws"
  by (cases "k < length ws") (auto simp: list_eq_iff_nth_eq nth_list_update)

lemma ws_ok_upd:
  assumes "ws_ok ws" "k < length ws" "sw_addr w' = sw_addr (ws ! k)" "worker_ok w'" "waiting_ok w'"
    "\<And>m. m \<in> set (rtc_msg_queue w') \<Longrightarrow> m_worker m = Some (sw_addr w') \<and> sdp m = cstr ''offer''"
  shows "ws_ok (ws[k := w'])"
  using assms map_sw_addr_upd [of w' ws k] by (auto simp: ws_ok_def dest!: set_update_subset_insert [THEN subsetD])

lemma flight_ok_upd:
  assumes "flight_ok ws m" "sw_addr w' = sw_addr (ws ! k)" "answers (ws ! k) m \<Longrightarrow> answers w' m"
  shows "flight_ok (ws[k := w']) m"
  using assms unfolding flight_ok_def by (metis length_list_update nth_list_update nth_list_update_neq)

lemma answers_evolves:
  assumes "evolves N w w'" "answers w m" "\<And>fd a. (fd, a) \<in> N \<Longrightarrow> m_conn m \<noteq> Some a"
  shows "answers w' m"
  using assms unfolding evolves_def answers_def by fastforce

lemma waiting_taken:
  assumes "waiting_ok w" "taken a w w'"
  shows "waiting_ok w'"
proof -
  obtain fds where f: "lfq_holds (q_conn w) fds" "distinct fds" "\<forall>fd \<in> set fds. 0 \<le> fd \<and> conn_at w fd = None"
    using assms(1) by (auto simp: waiting_ok_def)
  have none: "conn_at w' fd = None" if "evolves N w w'" "conn_at w fd = None" "\<And>b. (fd, b) \<notin> N" for N fd
    using that unfolding evolves_def by (metis option.exhaust option.simps(3))
  from assms(2) f(1) have "lfq_holds (q_conn w') fds \<and> evolves {} w w' \<or>
      fds \<noteq> [] \<and> lfq_holds (q_conn w') (tl fds) \<and> evolves {(hd fds, a)} w w'" by (simp add: taken_def)
  then show ?thesis
  proof (elim disjE conjE)
    assume "lfq_holds (q_conn w') fds" "evolves {} w w'"
    then show ?thesis using f none [of "{}"] unfolding waiting_ok_def by (intro exI [of _ fds]) auto
  next
    assume "fds \<noteq> []" "lfq_holds (q_conn w') (tl fds)" "evolves {(hd fds, a)} w w'"
    then show ?thesis using f unfolding waiting_ok_def by (intro exI [of _ "tl fds"], cases fds) (auto intro!: none)
  qed
qed

section \<open>The media server\<close>

text \<open>The messages the media server holds.\<close>

definition held :: "rtc_server \<Rightarrow> rtc_msg \<Rightarrow> bool" where
  "held g m \<longleftrightarrow> m \<in> set (rs_msg_queue g) \<or> (\<exists>v \<in> set (rs_workers g). \<exists>ms. rw_holds v ms \<and> m \<in> set ms)"

lemma in_flight_held: "in_flight s m \<longleftrightarrow> held (ps_rs s) m \<or> (\<exists>w \<in> set (ps_ws s). m \<in> set (rtc_msg_queue w))"
  by (simp add: in_flight_def held_def)

text \<open>What a message of the connection \<open>a\<close> on \<open>fd\<close> does to the media server.\<close>

definition asked :: "addr \<Rightarrow> addr \<Rightarrow> fd \<Rightarrow> rtc_server \<Rightarrow> rtc_server \<Rightarrow> bool" where
  "asked wk a fd g g' \<longleftrightarrow> (\<exists>ms ps. g' = g\<lparr>rs_msg_queue := rs_msg_queue g @ ms, rs_pipe := rs_pipe g @ ps\<rparr> \<and> set ps \<subseteq> {RS_RTC_MSG} \<and>
     (\<forall>m \<in> set ms. m_worker m = Some wk \<and> m_conn m = Some a \<and> m_fd m = fd \<and> cmdno m = CMDNO_PUSH \<and> err_no m = 0))"

lemma asked_refl: "asked wk a fd g g"
  unfolding asked_def by (intro exI [of _ "[]"]) simp

lemma asked_trans:
  assumes "asked wk a fd x y" "asked wk a fd y z"
  shows "asked wk a fd x z"
proof -
  from assms(1) obtain ms ps where 1: "y = x\<lparr>rs_msg_queue := rs_msg_queue x @ ms, rs_pipe := rs_pipe x @ ps\<rparr>" "set ps \<subseteq> {RS_RTC_MSG}"
    "\<forall>m \<in> set ms. m_worker m = Some wk \<and> m_conn m = Some a \<and> m_fd m = fd \<and> cmdno m = CMDNO_PUSH \<and> err_no m = 0" unfolding asked_def by blast
  from assms(2) obtain ns qs where 2: "z = y\<lparr>rs_msg_queue := rs_msg_queue y @ ns, rs_pipe := rs_pipe y @ qs\<rparr>" "set qs \<subseteq> {RS_RTC_MSG}"
    "\<forall>m \<in> set ns. m_worker m = Some wk \<and> m_conn m = Some a \<and> m_fd m = fd \<and> cmdno m = CMDNO_PUSH \<and> err_no m = 0" unfolding asked_def by blast
  show ?thesis unfolding asked_def by (intro exI [of _ "ms @ ns"] exI [of _ "ps @ qs"]) (use 1 2 in auto)
qed

lemma ask_sends: "sends_only (asked wk a fd) (ask ok) wk a fd"
proof -
  have "asked wk a fd g (fst (ask ok m g))"
    if "m_worker m = Some wk" "m_conn m = Some a" "m_fd m = fd" "cmdno m = CMDNO_PUSH" "err_no m = 0" for m g
    unfolding asked_def
    by (intro exI [of _ "[m]"] exI [of _ "if ok then [RS_RTC_MSG] else []"])
      (use that in \<open>auto simp: ask_def rs_send_rtc_msg_def rs_notify_def push_msg_def\<close>)
  then show ?thesis unfolding sends_only_def using asked_refl asked_trans by blast
qed

lemma asked_held:
  assumes "asked wk a fd g g'" "rs_ok g"
  shows "rs_ok g'" "held g' m \<Longrightarrow> held g m \<or> m_worker m = Some wk \<and> m_conn m = Some a \<and> m_fd m = fd \<and> cmdno m = CMDNO_PUSH \<and> err_no m = 0"
  using assms by (auto simp: asked_def rs_ok_def rs_ready_def held_def)

lemma rw_send_any:
  assumes "rw_holds v ms" "lfq_avail p (rw_queue v)" "set (rw_pipe v) \<subseteq> {RW_RTC_MSG}"
  shows "\<exists>v' r. rw_send_rtc_msg ok p (Some m) v = Inr (v', r) \<and> rw_holds v' (ms @ [m]) \<and> set (rw_pipe v') \<subseteq> {RW_RTC_MSG}"
proof -
  from lfq.enq_holds [OF assms(1,2) [unfolded rw_holds_def], of "Some m"] obtain q where
    "lfq_enq p (Some m) (rw_queue v) = Inr q" "lfq_holds q (map Some ms @ [Some m])" by blast
  then show ?thesis using assms(3) by (simp add: rw_send_rtc_msg_def rw_push_msg_def rw_notify_def rw_holds_def)
qed

lemma server_turn_ok:
  assumes ok: "rs_ok g" and av: "\<forall>v \<in> set (rs_workers g). lfq_avail p (rw_queue v)"
  shows "\<exists>g'. rtc_server_recv_notify ok p g = Inr g' \<and> rs_ok g' \<and> (\<forall>m. held g' m \<longrightarrow> held g m)"
proof (cases "rs_pipe g")
  case Nil
  then show ?thesis using ok by (simp add: rtc_server_recv_notify_def)
next
  case (Cons n ns)
  let ?g = "g\<lparr>rs_pipe := ns\<rparr>"
  have n: "n = RS_RTC_MSG" "rs_ok ?g" using ok Cons by (auto simp: rs_ok_def rs_ready_def)
  then have e: "rtc_server_recv_notify ok p g = rs_process_rtc_msg ok p ?g"
    using Cons by (simp add: rtc_server_recv_notify_def rs_process_notify_def RS_RTC_MSG_def RS_QUIT_def)
  show ?thesis
  proof (cases "rs_msg_queue g")
    case Nil
    then show ?thesis using e n by (simp add: rs_process_rtc_msg_def held_def)
  next
    case q: (Cons msg q)
    let ?g1 = "g\<lparr>rs_pipe := ns, rs_msg_queue := q\<rparr>" and ?k = "stream_slot (stream_name msg) (length (rs_workers g))"
    have r: "rs_ready ?g1" using n by (simp add: rs_ok_def rs_ready_def)
    from get_worker_ready [OF r, of "stream_name msg"] have gw: "get_worker (stream_name msg) ?g1 = Inr (Some ?k)" "?k < length (rs_workers g)" by simp_all
    define v where "v = rs_workers g ! ?k"
    have vin: "v \<in> set (rs_workers g)" using gw(2) by (simp add: v_def)
    then obtain ms where ms: "rw_holds v ms" "set (rw_pipe v) \<subseteq> {RW_RTC_MSG}" "lfq_avail p (rw_queue v)" using ok av by (auto simp: rs_ok_def)
    from rw_send_any [OF ms(1,3,2), of ok msg] obtain v' ret where
      v': "rw_send_rtc_msg ok p (Some msg) v = Inr (v', ret)" "rw_holds v' (ms @ [msg])" "set (rw_pipe v') \<subseteq> {RW_RTC_MSG}" by blast
    let ?g2 = "?g1\<lparr>rs_workers := (rs_workers g)[?k := v']\<rparr>"
    have "rs_process_rtc_msg ok p ?g = Inr ?g2" using q gw v' by (simp add: rs_process_rtc_msg_def v_def [symmetric])
    moreover have "rs_ok ?g2" using n v' by (auto simp: rs_ok_def rs_ready_def dest!: set_update_subset_insert [THEN subsetD])
    moreover have "held g m" if "held ?g2 m" for m
    proof (cases "m \<in> set (ms @ [msg])")
      case True
      then show ?thesis using ms(1) vin q by (auto simp: held_def)
    next
      case False
      then have "\<not> (rw_holds v' ns \<and> m \<in> set ns)" for ns using rw_holds_unique [OF v'(2), of ns] by blast
      then show ?thesis using that q by (auto simp: held_def dest!: set_update_subset_insert [THEN subsetD])
    qed
    ultimately show ?thesis using e by auto
  qed
qed

lemma media_turn_ok:
  assumes "rw_holds v ms" "set (rw_pipe v) \<subseteq> {RW_RTC_MSG}"
  shows "\<exists>v' r ms'. rtc_worker_recv_notify v = Inr (v', r) \<and> rw_holds v' ms' \<and> set (rw_pipe v') \<subseteq> {RW_RTC_MSG} \<and> set ms' \<subseteq> set ms \<and>
    (\<forall>a m'. r = Some (a, m') \<longrightarrow> (\<exists>m \<in> set ms. m_worker m = Some a \<and> m' = m\<lparr>sdp := cstr ''offer''\<rparr>))"
proof (cases "rw_pipe v")
  case Nil
  then show ?thesis using assms by (auto simp: rtc_worker_recv_notify_def)
next
  case (Cons n ns)
  let ?v = "v\<lparr>rw_pipe := ns\<rparr>"
  have h: "rw_holds ?v ms" using assms(1) by (simp add: rw_holds_def)
  have ns: "set ns \<subseteq> {RW_RTC_MSG}" using assms(2) Cons by auto
  have e: "rtc_worker_recv_notify v = rw_process_rtc_msg ?v"
    using Cons assms(2) by (simp add: rtc_worker_recv_notify_def rw_process_notify_def RW_RTC_MSG_def RW_QUIT_def)
  have pipe: "rw_process_rtc_msg ?v = Inr (v', r) \<Longrightarrow> rw_pipe v' = ns" for v' r
    unfolding rw_process_rtc_msg_def rw_pop_msg_def
    by (elim rbind_InrE) (auto split: option.split_asm if_split_asm)
  show ?thesis
  proof (cases ms)
    case Nil
    then show ?thesis using e rw_process_empty [of ?v] h ns by auto
  next
    case (Cons m ms')
    from rw_process_holds [of ?v m ms'] h Cons obtain v' where
      v': "rw_process_rtc_msg ?v = Inr (v', if cmdno m = CMDNO_PUSH then map_option (\<lambda>a. (a, m\<lparr>sdp := cstr ''offer''\<rparr>)) (m_worker m) else None)"
        "rw_holds v' ms'" by auto
    have "\<exists>m\<in>set ms. m_worker m = Some a \<and> m' = m\<lparr>sdp := cstr ''offer''\<rparr>"
      if "(if cmdno m = CMDNO_PUSH then map_option (\<lambda>a. (a, m\<lparr>sdp := cstr ''offer''\<rparr>)) (m_worker m) else None) = Some (a, m')" for a m'
      using that Cons by (auto split: if_splits)
    then show ?thesis using v' e pipe [OF v'(1)] ns Cons
      by (intro exI [of _ v'] exI [of _ ms'] exI conjI) (assumption | auto)+
  qed
qed

section \<open>Every action keeps the invariant\<close>

lemma sys_invD:
  assumes "sys_inv s"
  shows "ws_ok (ps_ws s)" "rs_ok (ps_rs s)" "in_flight s m \<Longrightarrow> flight_ok (ps_ws s) m"
    "k < length (ps_ws s) \<Longrightarrow> worker_ok (ps_ws s ! k)" "k < length (ps_ws s) \<Longrightarrow> waiting_ok (ps_ws s ! k)"
    "k < length (ps_ws s) \<Longrightarrow> m \<in> set (rtc_msg_queue (ps_ws s ! k)) \<Longrightarrow>
       m_worker m = Some (sw_addr (ps_ws s ! k)) \<and> sdp m = cstr ''offer'' \<and> err_no m = 0 \<and> answers (ps_ws s ! k) m"
proof -
  show ws: "ws_ok (ps_ws s)" and rs: "rs_ok (ps_rs s)" and fl: "in_flight s m \<Longrightarrow> flight_ok (ps_ws s) m" for m
    using assms by (auto simp: sys_inv_def)
  show "k < length (ps_ws s) \<Longrightarrow> worker_ok (ps_ws s ! k)" "k < length (ps_ws s) \<Longrightarrow> waiting_ok (ps_ws s ! k)"
    using ws by (auto simp: ws_ok_def)
  assume k: "k < length (ps_ws s)" and m: "m \<in> set (rtc_msg_queue (ps_ws s ! k))"
  then have w: "m_worker m = Some (sw_addr (ps_ws s ! k))" "sdp m = cstr ''offer''" using ws by (auto simp: ws_ok_def)
  have "flight_ok (ps_ws s) m" by (rule fl) (use k m in \<open>auto simp: in_flight_def\<close>)
  then obtain j where j: "j < length (ps_ws s)" "m_worker m = Some (sw_addr (ps_ws s ! j))" "answers (ps_ws s ! j) m" "err_no m = 0"
    by (auto simp: flight_ok_def)
  moreover have "j = k" using find_worker_at [of "ps_ws s" j] find_worker_at [of "ps_ws s" k] j w(1) k ws by (simp add: ws_ok_def)
  ultimately show "m_worker m = Some (sw_addr (ps_ws s ! k)) \<and> sdp m = cstr ''offer'' \<and> err_no m = 0 \<and> answers (ps_ws s ! k) m"
    using w by simp
qed

text \<open>
  A change of one signalling worker that accepts at most connections at addresses no message names,
  and of the media server.
\<close>

lemma sys_inv_upd:
  assumes inv: "sys_inv s" and k: "k < length (ps_ws s)" and sw: "sw_addr w' = sw_addr (ps_ws s ! k)"
    and ok: "worker_ok w'" "waiting_ok w'" "rs_ok g'"
    and q: "\<And>m. m \<in> set (rtc_msg_queue w') \<Longrightarrow> m \<in> set (rtc_msg_queue (ps_ws s ! k)) \<or>
      m_worker m = Some (sw_addr w') \<and> sdp m = cstr ''offer'' \<and> flight_ok ((ps_ws s)[k := w']) m"
    and h: "\<And>m. held g' m \<Longrightarrow> held (ps_rs s) m \<or> flight_ok ((ps_ws s)[k := w']) m"
    and a: "\<And>m. in_flight s m \<Longrightarrow> answers (ps_ws s ! k) m \<Longrightarrow> answers w' m"
  shows "sys_inv (s\<lparr>ps_ws := (ps_ws s)[k := w'], ps_rs := g'\<rparr>)"
proof -
  let ?s = "s\<lparr>ps_ws := (ps_ws s)[k := w'], ps_rs := g'\<rparr>"
  have "flight_ok ((ps_ws s)[k := w']) m" if "in_flight s m" for m
    by (rule flight_ok_upd [OF sys_invD(3) [OF inv that] sw a [OF that]])
  moreover have "in_flight s m \<or> flight_ok ((ps_ws s)[k := w']) m" if "in_flight ?s m" for m
  proof -
    consider "held g' m" | "m \<in> set (rtc_msg_queue w')" | w where "w \<in> set (ps_ws s)" "m \<in> set (rtc_msg_queue w)"
      using \<open>in_flight ?s m\<close> by (auto simp: in_flight_held dest!: set_update_subset_insert [THEN subsetD])
    then show ?thesis using h [of m] q [of m] nth_mem [OF k] by cases (auto simp: in_flight_held)
  qed
  moreover have "ws_ok ((ps_ws s)[k := w'])"
    by (rule ws_ok_upd [OF sys_invD(1) [OF inv] k sw ok(1,2)]) (use q sys_invD(6) [OF inv k] sw in auto)
  ultimately show ?thesis using ok(3) by (auto simp: sys_inv_def)
qed

lemma json_offer_fits: "offer_fits J \<Longrightarrow> sdp m = cstr ''offer'' \<Longrightarrow> err_no m = 0 \<Longrightarrow> json_fits J m"
  by (simp add: offer_fits_def json_fits_def reply_json_def Let_def)

lemma sig_event_ok:
  assumes inv: "sys_inv s" and e: "env_ok (Sig_event k ok r wr addrs peer x revents) s" and mem: "mem_ok al" and J: "offer_fits J"
    and m: "worker_event al nd J (ask ok) r wr addrs peer x revents (ps_ws s ! k) (ps_rs s) = Some m"
  shows "\<exists>w' g'. m = Inr (w', g') \<and> sys_inv (s\<lparr>ps_ws := (ps_ws s)[k := w'], ps_rs := g'\<rparr>)"
proof -
  obtain a iw tw where ad: "addrs = (a, iw, tw)" by (cases addrs)
  define w where "w = ps_ws s ! k"
  have k: "k < length (ps_ws s)" and x: "wkind w x \<noteq> None" and small: "bodies_small w"
    and fr: "wkind w iw = None" "wkind w tw = None" "iw \<noteq> tw" "\<And>c. Some c \<in> set (conns w) \<Longrightarrow> c_addr c \<noteq> a"
      "\<And>m. in_flight s m \<Longrightarrow> m_conn m \<noteq> Some a"
    using e by (auto simp: env_ok_def ad w_def)
  note D = sys_invD [OF inv]
  have ok: "worker_ok w" "waiting_ok w" and q: "\<And>m. m \<in> set (rtc_msg_queue w) \<Longrightarrow>
      m_worker m = Some (sw_addr w) \<and> sdp m = cstr ''offer'' \<and> err_no m = 0 \<and> answers w m" using D(4-6) k by (auto simp: w_def)
  have "notify_ok J addrs w" unfolding notify_ok_def
  proof (intro conjI allI impI)
    show "\<exists>fds. lfq_holds (q_conn w) fds \<and> (fds \<noteq> [] \<longrightarrow> fresh_for w addrs (hd fds))"
      using ok(2) fr ad by (auto simp: waiting_ok_def fresh_for_def)
  next
    fix msg ms assume "rtc_msg_queue w = msg # ms"
    then show "json_fits J msg" using q [of msg] json_offer_fits [OF J] by simp
  next
    fix msg ms c assume "rtc_msg_queue w = msg # ms" "conn_at w (m_fd msg) = Some c \<and> m_conn msg = Some (c_addr c)"
    then show "current_state c = STATE_BODY" using q [of msg] by (simp add: answers_def)
  qed
  from worker_event_ok [OF ok(1) x mem small this m [folded w_def]] obtain w' g' where
    w': "m = Inr (w', g')" "worker_ok w'" by blast
  from worker_event_frame [where G = "asked (sw_addr w)", OF ok(1) mem small m [folded w_def, unfolded w'(1) ad] ask_sends]
  have t: "taken a w w'" and sb: "sent_by (asked (sw_addr w)) w w' (ps_rs s) g'" by auto
  obtain N where N: "evolves N w w'" "\<And>fd b. (fd, b) \<in> N \<Longrightarrow> b = a"
    using t ok(2) unfolding taken_def waiting_ok_def by fastforce
  have sw: "sw_addr w' = sw_addr (ps_ws s ! k)" using t by (simp add: taken_def w_def)
  have g: "rs_ok g' \<and> (\<forall>m. held g' m \<longrightarrow> held (ps_rs s) m \<or> flight_ok ((ps_ws s)[k := w']) m)"
  proof (cases "g' = ps_rs s")
    case True
    then show ?thesis using D(2) by simp
  next
    case False
    then obtain fd and c :: tcp_connection where c: "asked (sw_addr w) (c_addr c) fd (ps_rs s) g'"
      "\<forall>c'. conn_at w' fd = Some c' \<longrightarrow> current_state c' = STATE_BODY" using sb unfolding sent_by_def by blast
    have "flight_ok ((ps_ws s)[k := w']) m"
      if "m_worker m = Some (sw_addr w) \<and> m_conn m = Some (c_addr c) \<and> m_fd m = fd \<and> cmdno m = CMDNO_PUSH \<and> err_no m = 0" for m
      unfolding flight_ok_def by (intro conjI exI [of _ k]) (use that c(2) k sw in \<open>auto simp: answers_def w_def\<close>)
    then show ?thesis using asked_held [OF c(1) D(2)] by blast
  qed
  have "sys_inv (s\<lparr>ps_ws := (ps_ws s)[k := w'], ps_rs := g'\<rparr>)"
  proof (rule sys_inv_upd [OF inv k sw w'(2) waiting_taken [OF ok(2) t]])
    show "m \<in> set (rtc_msg_queue (ps_ws s ! k)) \<or> m_worker m = Some (sw_addr w') \<and> sdp m = cstr ''offer'' \<and> flight_ok ((ps_ws s)[k := w']) m"
      if "m \<in> set (rtc_msg_queue w')" for m using that t by (auto simp: taken_def w_def)
    show "answers w' m" if "in_flight s m" "answers (ps_ws s ! k) m" for m
      using answers_evolves [OF N(1) that(2) [folded w_def]] N(2) fr(5) [OF that(1)] by blast
  qed (use g in auto)
  then show ?thesis using w'(1) by blast
qed

lemma accept_ok:
  assumes inv: "sys_inv s" and e: "env_ok (Accept k ok p fd) s"
  shows "\<exists>w' r. notify_new_conn ok p fd (ps_ws s ! k) = Inr (w', r) \<and> sys_inv (s\<lparr>ps_ws := (ps_ws s)[k := w']\<rparr>)"
proof -
  define w where "w = ps_ws s ! k"
  have k: "k < length (ps_ws s)" and av: "lfq_avail p (q_conn w)" and fd: "0 \<le> fd" "conn_at w fd = None"
    "\<And>fds. lfq_holds (q_conn w) fds \<Longrightarrow> fd \<notin> set fds" using e by (auto simp: env_ok_def w_def)
  have ok: "worker_ok w" "waiting_ok w" using sys_invD(4,5) [OF inv k] by (simp_all add: w_def)
  then obtain fds where f: "lfq_holds (q_conn w) fds" "distinct fds" "\<forall>fd \<in> set fds. 0 \<le> fd \<and> conn_at w fd = None" by (auto simp: waiting_ok_def)
  from lfq.enq_holds [OF f(1) av, of fd] obtain q where q: "lfq_enq p fd (q_conn w) = Inr q" "lfq_holds q (fds @ [fd])" by blast
  define w' where "w' = fst (notify ok NEW_CONN (w\<lparr>q_conn := q\<rparr>))"
  have same: "conn_at w' = conn_at w" "q_conn w' = q" "rtc_msg_queue w' = rtc_msg_queue w" "sw_addr w' = sw_addr w"
    by (auto simp: w'_def notify_def conn_at_def)
  have wo: "worker_ok w'" using worker_ok_queue [OF ok(1)] worker_ok_queue(3) [OF worker_ok_queue(1) [OF ok(1)]] by (simp add: w'_def notify_def)
  have wt: "waiting_ok w'" using q(2) f fd same unfolding waiting_ok_def by (intro exI [of _ "fds @ [fd]"]) auto
  have "sys_inv (s\<lparr>ps_ws := (ps_ws s)[k := w'], ps_rs := ps_rs s\<rparr>)"
    by (rule sys_inv_upd [OF inv k _ wo wt sys_invD(2) [OF inv]]) (use same in \<open>auto simp: w_def answers_def\<close>)
  moreover have "notify_new_conn ok p fd w = Inr (w', snd (notify ok NEW_CONN (w\<lparr>q_conn := q\<rparr>)))"
    using q(1) by (simp add: notify_new_conn_def w'_def)
  ultimately show ?thesis by (auto simp: w_def)
qed

lemma server_act_ok:
  assumes inv: "sys_inv s" and e: "env_ok (Server_turn ok p) s"
  shows "\<exists>g'. rtc_server_recv_notify ok p (ps_rs s) = Inr g' \<and> sys_inv (s\<lparr>ps_rs := g'\<rparr>)"
proof -
  have "\<forall>v \<in> set (rs_workers (ps_rs s)). lfq_avail p (rw_queue v)" using e by (simp add: env_ok_def)
  from server_turn_ok [OF sys_invD(2) [OF inv] this, of ok] obtain g' where
    g: "rtc_server_recv_notify ok p (ps_rs s) = Inr g'" "rs_ok g'" "\<forall>m. held g' m \<longrightarrow> held (ps_rs s) m" by blast
  have "sys_inv (s\<lparr>ps_rs := g'\<rparr>)" using inv g(2,3) by (auto simp: sys_inv_def in_flight_held)
  then show ?thesis using g(1) by blast
qed

text \<open>The message at the address of its worker: the queue of that worker gets it.\<close>

lemma send_rtc_msg_same:
  assumes w': "w' = fst (send_rtc_msg ok (Some m) w)"
  shows "conn_at w' = conn_at w" "q_conn w' = q_conn w" "rtc_msg_queue w' = rtc_msg_queue w @ [m]" "sw_addr w' = sw_addr w"
    "worker_ok w \<Longrightarrow> worker_ok w'"
  using worker_ok_queue [of w] worker_ok_queue(3) [OF worker_ok_queue(2) [of w]]
  by (auto simp: w' send_rtc_msg_def notify_def conn_at_def push_msg_def)

lemma media_act_ok:
  assumes inv: "sys_inv s" and j: "j < length (rs_workers (ps_rs s))"
  shows "\<exists>v r ws. rtc_worker_recv_notify (rs_workers (ps_rs s) ! j) = Inr (v, r) \<and> answer_to ok r (ps_ws s) = Inr ws \<and>
    sys_inv (s\<lparr>ps_ws := ws, ps_rs := (ps_rs s)\<lparr>rs_workers := (rs_workers (ps_rs s))[j := v]\<rparr>\<rparr>)"
proof -
  note D = sys_invD [OF inv]
  define v0 where "v0 = rs_workers (ps_rs s) ! j"
  have v0: "v0 \<in> set (rs_workers (ps_rs s))" using j by (simp add: v0_def)
  obtain ms where ms: "rw_holds v0 ms" "set (rw_pipe v0) \<subseteq> {RW_RTC_MSG}" using D(2) v0 by (auto simp: rs_ok_def)
  from media_turn_ok [OF this] obtain v r ms' where v: "rtc_worker_recv_notify v0 = Inr (v, r)" "rw_holds v ms'" "set (rw_pipe v) \<subseteq> {RW_RTC_MSG}" "set ms' \<subseteq> set ms"
    and r: "\<And>a m'. r = Some (a, m') \<Longrightarrow> \<exists>m \<in> set ms. m_worker m = Some a \<and> m' = m\<lparr>sdp := cstr ''offer''\<rparr>" by blast
  let ?g = "(ps_rs s)\<lparr>rs_workers := (rs_workers (ps_rs s))[j := v]\<rparr>"
  have g: "rs_ok ?g" using D(2) v(2,3) by (auto simp: rs_ok_def rs_ready_def dest!: set_update_subset_insert [THEN subsetD])
  have hv: "m \<in> set ms" if "rw_holds v ns" "m \<in> set ns" for ns m using rw_holds_unique [OF v(2) that(1)] that(2) v(4) by auto
  have h: "held (ps_rs s) m" if "held ?g m" for m
    using that ms(1) v0 by (auto simp: held_def dest!: set_update_subset_insert [THEN subsetD] dest: hv)
  show ?thesis
  proof (cases r)
    case None
    have "sys_inv (s\<lparr>ps_ws := ps_ws s, ps_rs := ?g\<rparr>)" using inv g h by (auto simp: sys_inv_def in_flight_held)
    then show ?thesis using v(1) None by (simp add: answer_to_def v0_def)
  next
    case (Some am)
    obtain a m' where am: "am = (a, m')" by (cases am)
    from r [unfolded Some am, OF refl] obtain m where m: "m \<in> set ms" "m_worker m = Some a" "m' = m\<lparr>sdp := cstr ''offer''\<rparr>" by blast
    have "in_flight s m" using m(1) ms(1) v0 by (auto simp: in_flight_def)
    from D(3) [OF this] obtain k where k: "k < length (ps_ws s)" "a = sw_addr (ps_ws s ! k)" "answers (ps_ws s ! k) m" "cmdno m = CMDNO_PUSH" "err_no m = 0"
      using m(2) by (auto simp: flight_ok_def)
    have fk: "find_worker a (ps_ws s) = Some k" using find_worker_at k(1,2) D(1) by (simp add: ws_ok_def)
    define w' where "w' = fst (send_rtc_msg ok (Some m') (ps_ws s ! k))"
    note same = send_rtc_msg_same [OF w'_def]
    have fm: "flight_ok ((ps_ws s)[k := w']) m'"
      unfolding flight_ok_def by (intro conjI exI [of _ k]) (use m k same in \<open>auto simp: answers_def\<close>)
    have wt: "waiting_ok w'" using D(5) [OF k(1)] same by (simp add: waiting_ok_def)
    have "sys_inv (s\<lparr>ps_ws := (ps_ws s)[k := w'], ps_rs := ?g\<rparr>)"
      by (rule sys_inv_upd [OF inv k(1) same(4) same(5) [OF D(4) [OF k(1)]] wt g])
        (use same fm m k h in \<open>auto simp: answers_def\<close>)
    then show ?thesis using v(1) fk Some am by (simp add: answer_to_def v0_def w'_def)
  qed
qed

lemma worker_ok_clocks:
  assumes c: "clocks_only w w'" and ok: "worker_ok w"
  shows "worker_ok w'"
proof -
  have w': "w' = w\<lparr>mn_now := mn_now w', ev_rt_now := ev_rt_now w', now_floor := now_floor w', rtmn_diff := rtmn_diff w'\<rparr>" (is "_ = ?u")
    using c by (simp add: clocks_only_def)
  have el: "el_ok w' = el_ok w" using clocks_only_ok(1,2) [OF c] by (simp add: el_ok_def)
  have "used w' = used w" "conn_ok w' = conn_ok w" "pipe_ok w' = pipe_ok w" "wkind w' = wkind w" "pipe_watcher w' = pipe_watcher w"
    by (subst w', simp add: used_def conn_ok_def watch_ok_def pipe_ok_def interest_def expiry_def fun_eq_iff)+
  then show ?thesis using ok el unfolding worker_ok_def by simp
qed

lemma tick_ok:
  assumes inv: "sys_inv s" and k: "k < length (ps_ws s)"
  shows "sys_inv (s\<lparr>ps_ws := (ps_ws s)[k := time_update True clk unbounded_block (ps_ws s ! k)]\<rparr>)"
proof -
  define w where "w = ps_ws s ! k"
  define w' where "w' = time_update True clk unbounded_block w"
  have c: "clocks_only w w'" unfolding w'_def by (rule time_update_monotonic)
  then have u: "w' = w\<lparr>mn_now := mn_now w', ev_rt_now := ev_rt_now w', now_floor := now_floor w', rtmn_diff := rtmn_diff w'\<rparr>" by (simp add: clocks_only_def)
  have same: "conn_at w' = conn_at w" "q_conn w' = q_conn w" "rtc_msg_queue w' = rtc_msg_queue w" "sw_addr w' = sw_addr w"
    by (subst u, simp add: conn_at_def fun_eq_iff)+
  have ok: "worker_ok w'" "waiting_ok w'"
    using worker_ok_clocks [OF c] sys_invD(4,5) [OF inv k] same by (simp_all add: w_def waiting_ok_def)
  have "sys_inv (s\<lparr>ps_ws := (ps_ws s)[k := w'], ps_rs := ps_rs s\<rparr>)"
    by (rule sys_inv_upd [OF inv k _ ok sys_invD(2) [OF inv]]) (use same in \<open>auto simp: w_def answers_def\<close>)
  then show ?thesis by (simp add: w'_def w_def)
qed

lemma sig_stop_ok:
  assumes inv: "sys_inv s" and k: "k < length (ps_ws s)"
  shows "sys_inv (s\<lparr>ps_ws := (ps_ws s)[k := sw_stop ok (ps_ws s ! k)]\<rparr>)"
proof -
  define w where "w = ps_ws s ! k"
  define w' where "w' = sw_stop ok w"
  have same: "conn_at w' = conn_at w" "q_conn w' = q_conn w" "rtc_msg_queue w' = rtc_msg_queue w" "sw_addr w' = sw_addr w"
    by (auto simp: w'_def sw_stop_def notify_def conn_at_def)
  have wo: "worker_ok w'" using worker_ok_queue(3) sys_invD(4) [OF inv k] by (simp add: w'_def w_def sw_stop_def notify_def)
  have wt: "waiting_ok w'" using sys_invD(5) [OF inv k] same by (simp add: w_def waiting_ok_def)
  have "sys_inv (s\<lparr>ps_ws := (ps_ws s)[k := w'], ps_rs := ps_rs s\<rparr>)"
    by (rule sys_inv_upd [OF inv k _ wo wt sys_invD(2) [OF inv]]) (use same in \<open>auto simp: w_def answers_def\<close>)
  then show ?thesis by (simp add: w'_def w_def)
qed

theorem act_ok:
  assumes inv: "sys_inv s" and e: "env_ok op s" and mem: "mem_ok al" and J: "offer_fits J" and m: "act al nd J op s = Some m"
  shows "\<exists>s'. m = Inr s' \<and> sys_inv s'"
proof (cases op)
  case (Sig_event k ok r wr addrs peer x revents)
  then obtain m0 where "worker_event al nd J (ask ok) r wr addrs peer x revents (ps_ws s ! k) (ps_rs s) = Some m0"
    "m = rbind m0 (\<lambda>(w, g). Inr (s\<lparr>ps_ws := (ps_ws s)[k := w], ps_rs := g\<rparr>))" using m by (auto simp: act_def)
  then show ?thesis using sig_event_ok [OF inv e [unfolded Sig_event] mem J] by fastforce
next
  case (Accept k ok p fd)
  from accept_ok [OF inv e [unfolded this]] m show ?thesis by (auto simp: act_def Accept)
next
  case (Server_turn ok p)
  from server_act_ok [OF inv e [unfolded this]] m show ?thesis by (auto simp: act_def Server_turn)
next
  case (Media_turn j ok)
  from media_act_ok [OF inv, of j ok] e m show ?thesis by (auto simp: act_def Media_turn env_ok_def)
next
  case (Tick k clk)
  from tick_ok [OF inv, of k clk] e m show ?thesis by (auto simp: act_def Tick env_ok_def)
next
  case (Sig_stop k ok)
  from sig_stop_ok [OF inv, of k ok] e m show ?thesis by (auto simp: act_def Sig_stop env_ok_def)
qed

lemma sys_init_inv:
  assumes "sys_init s"
  shows "sys_inv s"
proof -
  have w: "worker_ok w \<and> waiting_ok w \<and> rtc_msg_queue w = []" if "w \<in> set (ps_ws s)" for w
  proof -
    obtain a rt mn p wid tmo r sd pw w0 where i: "0 \<le> r" "sw_init (Some (r, sd)) pw (SignalingWorker a rt mn p wid tmo) = Inr (w0, 0)" "w = fst (sw_start w0)"
      using assms \<open>w \<in> set (ps_ws s)\<close> unfolding sys_init_def by blast
    from sw_init_ok [OF refl i(1), of sd pw a rt mn p wid tmo] i(2) have "worker_ok w0" "lfq_holds (q_conn w0) []" "rtc_msg_queue w0 = []" by auto
    moreover have "w = w0 \<or> w = w0\<lparr>is_start := True\<rparr>" using i(3) by (simp add: sw_start_def)
    ultimately show ?thesis by (auto simp: worker_ok_start waiting_ok_def intro!: exI [of _ "[]"])
  qed
  have "ms = []" if "rw_holds v ms" "v \<in> set (rs_workers (ps_rs s))" for v ms
    using rw_holds_unique [of v "[]" ms] that assms by (auto simp: sys_init_def)
  then show ?thesis using assms w unfolding sys_inv_def ws_ok_def rs_ok_def in_flight_held held_def sys_init_def by fastforce
qed

lemma reachable_inv:
  assumes "reachable al nd J s" "mem_ok al" "offer_fits J"
  shows "sys_inv s"
  using assms
proof (induction rule: reachable.induct)
  case (start s)
  then show ?case by (simp add: sys_init_inv)
next
  case (step s op s')
  from act_ok [OF step.IH [OF step.prems] step.hyps(2) step.prems step.hyps(3)] show ?case by auto
qed

section \<open>Every action returns\<close>







section \<open>A request and its answer\<close>

fun acts :: "allocator \<Rightarrow> bool \<Rightarrow> 'j json_lib \<Rightarrow> action list \<Rightarrow> push_sys \<Rightarrow> push_sys res option" where
  "acts al nd J [] s = Some (Inr s)"
| "acts al nd J (op # ops) s =
     (case act al nd J op s of None \<Rightarrow> None | Some (Inl e) \<Rightarrow> Some (Inl e) | Some (Inr s') \<Rightarrow> acts al nd J ops s')"

text \<open>The text of a request that asks to push the stream \<open>sn\<close>.\<close>

definition push_text :: "'j json_lib \<Rightarrow> byte list \<Rightarrow> u64 \<Rightarrow> byte list \<Rightarrow> int \<Rightarrow> int \<Rightarrow> bool" where
  "push_text J body u sn au vi \<longleftrightarrow> (\<exists>j. j_parse J body = Some j \<and> j_int J j ''cmdno'' = Some CMDNO_PUSH \<and>
     j_uint64 J j ''uid'' = Some u \<and> j_string J j ''stream_name'' = Some sn \<and> j_int J j ''audio'' = Some au \<and> j_int J j ''video'' = Some vi)"

definition push_request :: "addr \<Rightarrow> tcp_connection \<Rightarrow> u32 \<Rightarrow> u64 \<Rightarrow> byte list \<Rightarrow> int \<Rightarrow> int \<Rightarrow> rtc_msg" where
  "push_request wk c lid u sn au vi = rtc_msg0\<lparr>cmdno := CMDNO_PUSH, uid := u, stream_name := sn, audio := au, video := vi,
     log_id := lid, m_worker := Some wk, m_conn := Some (c_addr c), m_fd := cfd c\<rparr>"

lemma request_push:
  "push_text J body u sn au vi \<Longrightarrow> request J send wk c h body g = send (push_request wk c (xh_log_id h) u sn au vi) g"
  by (auto simp: push_text_def request_def process_push_def push_request_def)

lemma io_dispatch:
  assumes "watch_ok w i c iw tw"
  shows "worker_event al nd J send r wr addrs peer iw revents w g =
    conn_io_cb al nd J send r wr (int i) (TRANS_FROM_EV_MASK revents) w g"
  using assms by (auto simp: worker_event_def watch_ok_def generic_io_cb_def interest_def split: if_splits)

lemma pipe_dispatch:
  assumes "worker_ok w" "loop_done w = EVBREAK_CANCEL" "pipe_watcher w = Some pw"
  shows "worker_event al nd J send r wr addrs peer pw revents w g =
    Some (rbind (signaling_worker_recv_notify al J addrs peer w) (\<lambda>w'. Inr (w', g)))"
  using worker_okD(2) [OF assms(1)] assms(2,3) by (auto simp: worker_event_def pipe_ok_def generic_io_cb_def)

lemma event_masks: "TRANS_FROM_EV_MASK EV_READ AND READ \<noteq> 0" "TRANS_FROM_EV_MASK EV_READ AND WRITE = 0"
  "TRANS_FROM_EV_MASK EV_WRITE AND READ = 0" "TRANS_FROM_EV_MASK EV_WRITE AND WRITE \<noteq> 0"
  by (simp_all add: TRANS_FROM_EV_MASK_def mask_consts)

lemma stage_wire: "good_request h body \<Longrightarrow> stage_of (wire h body) = Full h body"
  using stage_prefix(2) [of h body "wire h body" "[]"] by simp

text \<open>The first event: the rest of the request is read and handed to the media server.\<close>

lemma push_read:
  assumes ok: "worker_ok w" and c: "conn_at w fd = Some c" and wo: "watch_ok w (nat fd) c iw tw" and mem: "mem_ok al" and small: "bodies_small w"
    and p: "partial_conn c xs" and g: "good_request h body" and e: "xs @ bs = wire h body" "bs \<noteq> []" "length bs \<le> bytes_expected c"
    and J: "push_text J body u sn au vi"
  shows "\<exists>d. worker_event al nd J (ask True) (R_bytes bs) wr addrs peer iw EV_READ w G =
      Some (Inr (set_conn fd (Some d) w, fst (ask True (push_request (sw_addr w) c (xh_log_id h) u sn au vi) G))) \<and>
    worker_ok (set_conn fd (Some d) w) \<and> parse_inv d (wire h body) \<and> current_state d = STATE_BODY \<and> conn_core d = conn_core c"
proof -
  have fd: "0 \<le> fd" using c by (simp add: conn_at_used)
  define m where "m = push_request (sw_addr w) c (xh_log_id h) u sn au vi"
  have bs: "bs = take (bytes_expected c) bs" using e(3) by simp
  have hd: "xhead (wire h body) = h" using wire_prefix_head [of h body "wire h body" "[]"] g by (simp add: wire_def good_request_def)
  have len: "length (xs @ bs) < 65535 + unat (xh_body_len (xhead (xs @ bs)))"
    using g unfolding e(1) hd by (simp add: wire_def good_request_def XHEAD_SIZE_def)
  from conn_read_bytes [OF p mem e(2) bs len, of nd J "ask True" "sw_addr w" "of_nat (now w)" G] obtain qb where
    qb: "sds_str qb (wire h body)" and r: "conn_read al nd J (ask True) (sw_addr w) (R_bytes bs) (of_nat (now w)) c G =
      (case run_result J (ask True) (sw_addr w) (c\<lparr>last_interaction := of_nat (now w), querybuf := qb\<rparr>) (wire h body) G of
         (ret, c', g') \<Rightarrow> Some (Inr (ret \<noteq> 0, c', g')))" unfolding e(1) by blast
  let ?c = "c\<lparr>last_interaction := of_nat (now w), querybuf := qb\<rparr>"
  have rq: "request J (ask True) (sw_addr w) ?c h body G = (fst (ask True m G), 0)"
    using request_push [OF J, of "ask True" "sw_addr w" ?c h G]
    by (simp add: m_def push_request_def ask_def rs_send_rtc_msg_def rs_notify_def)
  define d where "d = (to_body h ?c)\<lparr>bytes_processed := 65535\<rparr>"
  have rr: "run_result J (ask True) (sw_addr w) ?c (wire h body) G = (0, d, fst (ask True m G))"
    using stage_wire [OF g] rq by (simp add: run_result_def d_def)
  have rd: "read_query al nd J (ask True) (R_bytes bs) fd w G = Some (Inr (set_conn fd (Some d) w, fst (ask True m G)))"
    using c r rr by (simp add: read_query_def)
  have "worker_ok (set_conn fd (Some d) w)" using read_query_ok [OF ok mem small rd] by blast
  moreover have "parse_inv d (wire h body)"
    using qb g hd by (auto simp: parse_inv_def d_def to_body_def wire_def good_request_def XHEAD_SIZE_def)
  moreover have "worker_event al nd J (ask True) (R_bytes bs) wr addrs peer iw EV_READ w G = Some (Inr (set_conn fd (Some d) w, fst (ask True m G)))"
    unfolding io_dispatch [OF wo] using rd fd event_masks by (simp add: conn_io_cb_def)
  ultimately show ?thesis unfolding m_def by (intro exI [of _ d]) (simp add: d_def to_body_def conn_core_def)
qed

text \<open>The second and the third turn: the message goes through the media worker of its stream.\<close>

lemma push_served:
  assumes rs: "rs_ready g" "rs_pipe g = []" "rs_msg_queue g = []" and rw: "\<forall>v \<in> set (rs_workers g). rw_holds v [] \<and> rw_pipe v = []"
    and av: "\<forall>v \<in> set (rs_workers g). lfq_avail p (rw_queue v)" and j: "j = stream_slot (stream_name m) (length (rs_workers g))"
    and m: "cmdno m = CMDNO_PUSH" "m_worker m = Some a"
  shows "j < length (rs_workers g) \<and> (\<exists>g2 v2. rtc_server_recv_notify True p (fst (ask True m g)) = Inr g2 \<and> length (rs_workers g2) = length (rs_workers g) \<and>
    rtc_worker_recv_notify (rs_workers g2 ! j) = Inr (v2, Some (a, m\<lparr>sdp := cstr ''offer''\<rparr>)))"
proof -
  let ?g = "g\<lparr>rs_msg_queue := [m], rs_pipe := []\<rparr>"
  have jl: "j < length (rs_workers g)" using get_worker_ready(2) [OF rs(1), of "stream_name m"] j by simp
  have a: "rtc_server_recv_notify True p (fst (ask True m g)) = rs_process_rtc_msg True p ?g"
    using rs(2,3) by (simp add: ask_def rs_send_rtc_msg_def rs_notify_def push_msg_def rtc_server_recv_notify_def rs_process_notify_def RS_QUIT_def RS_RTC_MSG_def)
  have v: "rw_holds (rs_workers g ! j) []" "rw_pipe (rs_workers g ! j) = []" "lfq_avail p (rw_queue (rs_workers g ! j))"
    using rw av nth_mem [OF jl] by auto
  have r': "rs_ready ?g" using rs(1) by (simp add: rs_ready_def)
  from rs_process_delivers [OF r', of m "[]" j "[]" p] j v obtain g2 w' where
    g2: "rs_process_rtc_msg True p ?g = Inr g2" "rs_workers g2 = (rs_workers g)[j := w']" "rw_holds w' [m]" "rw_pipe w' = [RW_RTC_MSG]" by auto
  have "rw_holds (w'\<lparr>rw_pipe := []\<rparr>) [m]" using g2(3) by (simp add: rw_holds_def)
  from rw_process_holds [OF this] m obtain v2 where "rw_process_rtc_msg (w'\<lparr>rw_pipe := []\<rparr>) = Inr (v2, Some (a, m\<lparr>sdp := cstr ''offer''\<rparr>))" by auto
  then have "rtc_worker_recv_notify w' = Inr (v2, Some (a, m\<lparr>sdp := cstr ''offer''\<rparr>))"
    using g2(4) by (simp add: rtc_worker_recv_notify_def rw_process_notify_def RW_QUIT_def RW_RTC_MSG_def)
  then show ?thesis using jl a g2(1,2) by simp
qed

text \<open>The fourth and the fifth event: the answer is queued on its connection and sent.\<close>

lemma parse_inv_unique: "parse_inv c xs \<Longrightarrow> parse_inv c ys \<Longrightarrow> ys = xs"
  using sds_str_buf(1,3) [of "querybuf c" xs] sds_str_buf(1,3) [of "querybuf c" ys] parse_inv_bounds(1) by metis

lemma push_replied:
  assumes ok: "worker_ok w" and run: "loop_done w = EVBREAK_CANCEL" "pipe_watcher w = Some pw" and mem: "mem_ok al" and J: "json_fits J m"
    and q: "notify_pipe w = [RTC_MSG]" "rtc_msg_queue w = [m]" and m: "m_fd m = fd" "m_conn m = Some (c_addr d)" "cmdno m = CMDNO_PUSH"
    and d: "conn_at w fd = Some d" "0 < fd" "parse_inv d (wire h body)" "current_state d = STATE_BODY" "reply_list d = []" "good_request h body"
    and wo: "watch_ok w (nat fd) d iw tw" and live: "live_socket wr"
  shows "\<exists>w1 w2. worker_event al nd J send r wr0 addrs peer pw EV_READ w g = Some (Inr (w1, g)) \<and>
    worker_event al nd J send r wr addrs' peer iw EV_WRITE w1 g = Some (Inr (w2, g)) \<and> worker_ok w2 \<and>
    sys_out w2 = sys_out w @ [(fd, wire (h\<lparr>xh_body_len := of_nat (length (reply_json J m))\<rparr>) (reply_json J m))]"
proof -
  let ?w = "w\<lparr>notify_pipe := [], rtc_msg_queue := []\<rparr>"
  have ok': "worker_ok ?w" using worker_ok_queue(2) [OF worker_ok_queue(3) [OF ok]] by simp
  have ca: "conn_at ?w = conn_at w" by (auto simp: conn_at_def)
  from response_server_offer_ok [OF ok' mem J] ca m d obtain w1 d1 xs where
    w1: "response_server_offer al J m ?w = Inr w1" "worker_ok w1" "sys_out w1 = sys_out w" "conns w1 = (conns w)[nat fd := Some d1]"
      "parse_inv d xs" "unsent d1 = unsent d @ wire ((xhead xs)\<lparr>xh_body_len := of_nat (length (reply_json J m))\<rparr>) (reply_json J m)"
    by (auto simp: conn_at_def split: if_splits)
  have xs: "xhead xs = h" using parse_inv_unique [OF d(3) w1(5)] wire_prefix_head [of h body "wire h body" "[]"] d(6) by (simp add: wire_def good_request_def)
  have un: "unsent d = []" using d(5) by (simp add: unsent_def)
  have e1: "worker_event al nd J send r wr0 addrs peer pw EV_READ w g = Some (Inr (w1, g))"
    unfolding pipe_dispatch [OF ok run] using w1(1) q m(3)
    by (simp add: signaling_worker_recv_notify_def process_notify_def process_rtc_msg_def QUIT_def NEW_CONN_def RTC_MSG_def)
  have d1: "conn_at w1 fd = Some d1" using w1(4) d(1) conn_at_slot by blast
  obtain iw' tw' where wo1: "watch_ok w1 (nat fd) d1 iw' tw'" using worker_okD(3) [OF w1(2), of "nat fd" d1] d1 by (auto simp: conn_at_used conn_ok_def)
  have "io_watcher d1 = io_watcher d"
  proof (cases "w1 = ?w")
    case True
    then show ?thesis using d1 d(1) ca by simp
  next
    case False
    from response_slot [OF w1(1) this] show ?thesis using m(1) ca d(1) d1 by (auto simp: conn_at_def split: if_splits)
  qed
  then have "iw' = iw" using wo wo1 by (simp add: watch_ok_def)
  from write_reply_all [OF w1(2) d(2) d1 live] obtain w2 where w2: "write_reply wr fd w1 = Some (Inr w2)" "worker_ok w2"
    "sys_out w2 = sys_out w1 @ [(fd, unsent d1)]" by blast
  have e2: "worker_event al nd J send r wr addrs' peer iw EV_WRITE w1 g = Some (Inr (w2, g))"
    unfolding io_dispatch [OF wo1 [unfolded \<open>iw' = iw\<close>]] using w2(1) d(2) event_masks by (simp add: conn_io_cb_def)
  show ?thesis using e1 e2 w2(2,3) w1(3,6) un xs by auto
qed

text \<open>Nothing is on its way.\<close>

definition sys_idle :: "push_sys \<Rightarrow> bool" where
  "sys_idle s \<longleftrightarrow> rs_ready (ps_rs s) \<and> rs_pipe (ps_rs s) = [] \<and> rs_msg_queue (ps_rs s) = [] \<and>
     (\<forall>v \<in> set (rs_workers (ps_rs s)). rw_holds v [] \<and> rw_pipe v = []) \<and>
     (\<forall>w \<in> set (ps_ws s). notify_pipe w = [] \<and> rtc_msg_queue w = [])"

text \<open>The five actions of a request: read, dispatch, answer, queue the reply, write it.\<close>

definition push_run :: "nat \<Rightarrow> nat \<Rightarrow> byte list \<Rightarrow> (nat \<Rightarrow> wres) \<Rightarrow> addr \<Rightarrow> addr \<Rightarrow> addr \<Rightarrow> action list" where
  "push_run k j bs wr iw pw p =
     [Sig_event k True (R_bytes bs) wr (0, 0, 0) None iw EV_READ, Server_turn True p, Media_turn j True,
      Sig_event k True R_eagain wr (0, 0, 0) None pw EV_READ, Sig_event k True R_eagain wr (0, 0, 0) None iw EV_WRITE]"

lemma push_request_fields [simp]:
  "cmdno (push_request wk c lid u sn au vi) = CMDNO_PUSH" "m_worker (push_request wk c lid u sn au vi) = Some wk"
  "m_conn (push_request wk c lid u sn au vi) = Some (c_addr c)" "m_fd (push_request wk c lid u sn au vi) = cfd c"
  "stream_name (push_request wk c lid u sn au vi) = sn" "err_no (push_request wk c lid u sn au vi) = 0"
  by (simp_all add: push_request_def rtc_msg0_def)

lemma watch_ok_same:
  assumes "watch_ok w i c iw tw" "io_watcher d = io_watcher c" "timer_watcher d = timer_watcher c" "c_addr d = c_addr c" "reply_list d = reply_list c"
    "ev_loop.truncate w' = ev_loop.truncate w" "w_cb w' = w_cb w" "need_repeat w' = need_repeat w"
  shows "watch_ok w' i d iw tw"
proof -
  have "wkind w' = wkind w" "interest w' = interest w" "expiry w' = expiry w"
    using assms(6) by (simp_all add: ev_loop.truncate_def interest_def expiry_def fun_eq_iff)
  then show ?thesis using assms by (simp add: watch_ok_def want_def)
qed

lemma push_path:
  assumes inv: "sys_inv s" and idle: "sys_idle s" and mem: "mem_ok al" and J: "offer_fits J"
    and k: "k < length (ps_ws s)" and w: "w = ps_ws s ! k" and run: "loop_done w = EVBREAK_CANCEL" "pipe_watcher w = Some pw"
    and c: "conn_at w fd = Some c" "0 < fd" "reply_list c = []" "io_watcher c = Some iw" and small: "bodies_small w"
    and p: "partial_conn c xs" and g: "good_request h body" and e: "xs @ bs = wire h body" "bs \<noteq> []" "length bs \<le> bytes_expected c"
    and t: "push_text J body u sn au vi" and j: "j = stream_slot sn (length (rs_workers (ps_rs s)))"
    and av: "\<forall>v \<in> set (rs_workers (ps_rs s)). lfq_avail q (rw_queue v)" and live: "live_socket wr"
  shows "\<exists>s'. acts al nd J (push_run k j bs wr iw pw q) s = Some (Inr s') \<and>
    (let json = j_reply J 0 (cstr ''process success'') (cstr ''offer'')
     in sys_out (ps_ws s' ! k) = sys_out w @ [(fd, wire (h\<lparr>xh_body_len := of_nat (length json)\<rparr>) json)])"
proof -
  define m where "m = push_request (sw_addr w) c (xh_log_id h) u sn au vi"
  let ?m = "m\<lparr>sdp := cstr ''offer''\<rparr>"
  have ok: "worker_ok w" using sys_invD(4) [OF inv k] w by simp
  have id: "notify_pipe w = []" "rtc_msg_queue w = []" using idle nth_mem [OF k] w by (auto simp: sys_idle_def)
  obtain iw' tw where "watch_ok w (nat fd) c iw' tw" using worker_okD(3) [OF ok, of "nat fd" c] c(1) by (auto simp: conn_at_used conn_ok_def)
  then have wo: "watch_ok w (nat fd) c iw tw" using c(4) by (simp add: watch_ok_def)
  from push_read [OF ok c(1) wo mem small p g e t, of nd wr "(0, 0, 0)" None "ps_rs s", folded m_def] obtain d where
    d: "worker_event al nd J (ask True) (R_bytes bs) wr (0, 0, 0) None iw EV_READ w (ps_rs s) = Some (Inr (set_conn fd (Some d) w, fst (ask True m (ps_rs s))))"
      "worker_ok (set_conn fd (Some d) w)" "parse_inv d (wire h body)" "current_state d = STATE_BODY" "conn_core d = conn_core c" by blast
  have df: "c_addr d = c_addr c" "cfd d = cfd c" "io_watcher d = io_watcher c" "timer_watcher d = timer_watcher c" "reply_list d = reply_list c"
    using d(5) by (simp_all add: conn_core_def)
  define g1 where "g1 = fst (ask True m (ps_rs s))"
  define w1 where "w1 = set_conn fd (Some d) w"
  define s1 where "s1 = s\<lparr>ps_ws := (ps_ws s)[k := w1], ps_rs := g1\<rparr>"
  have a1: "act al nd J (Sig_event k True (R_bytes bs) wr (0, 0, 0) None iw EV_READ) s = Some (Inr s1)"
    using d(1) w by (simp add: act_def s1_def w1_def g1_def)
  have j': "j = stream_slot (stream_name m) (length (rs_workers (ps_rs s)))" using j by (simp add: m_def)
  from push_served [OF _ _ _ _ av j', of "sw_addr w"] idle obtain g2 v2 where
    g2: "j < length (rs_workers (ps_rs s))" "rtc_server_recv_notify True q g1 = Inr g2" "length (rs_workers g2) = length (rs_workers (ps_rs s))"
      "rtc_worker_recv_notify (rs_workers g2 ! j) = Inr (v2, Some (sw_addr w, ?m))" by (auto simp: sys_idle_def m_def g1_def)
  define s2 where "s2 = s1\<lparr>ps_rs := g2\<rparr>"
  have a2: "act al nd J (Server_turn True q) s1 = Some (Inr s2)" using g2(2) by (simp add: act_def s1_def s2_def)
  have sw1: "sw_addr w1 = sw_addr w" by (simp add: w1_def set_conn_def)
  have "distinct (map sw_addr (ps_ws s2))"
    using sys_invD(1) [OF inv] map_sw_addr_upd [of w1 "ps_ws s" k] sw1 w by (simp add: ws_ok_def s2_def s1_def)
  then have fk: "find_worker (sw_addr w) (ps_ws s2) = Some k" using find_worker_at [of "ps_ws s2" k] k sw1 by (simp add: s2_def s1_def)
  define w3 where "w3 = w1\<lparr>rtc_msg_queue := [?m], notify_pipe := [RTC_MSG]\<rparr>"
  have id1: "notify_pipe w1 = []" "rtc_msg_queue w1 = []" using id by (simp_all add: w1_def set_conn_def)
  have w3: "fst (send_rtc_msg True (Some ?m) w1) = w3" using id1 by (simp add: send_rtc_msg_def notify_def push_msg_def w3_def)
  define s3 where "s3 = s2\<lparr>ps_ws := (ps_ws s)[k := w3], ps_rs := g2\<lparr>rs_workers := (rs_workers g2)[j := v2]\<rparr>\<rparr>"
  have a3: "act al nd J (Media_turn j True) s2 = Some (Inr s3)"
    using g2(4) fk w3 k by (simp add: act_def answer_to_def s2_def s1_def s3_def)
  have ok3: "worker_ok w3" using worker_ok_queue(3) [OF worker_ok_queue(2) [OF d(2)]] by (simp add: w3_def w1_def)
  have c3: "conn_at w3 fd = Some d" using c(1) by (auto simp: w3_def w1_def set_conn_def conn_at_def split: if_splits)
  have wo3: "watch_ok w3 (nat fd) d iw tw"
    by (rule watch_ok_same [OF wo df(3,4,1,5)]) (simp_all add: w3_def w1_def set_conn_def ev_loop.truncate_def)
  have fits: "json_fits J ?m" by (rule json_offer_fits [OF J]) (simp_all add: m_def)
  have run3: "loop_done w3 = EVBREAK_CANCEL" "pipe_watcher w3 = Some pw" using run by (simp_all add: w3_def w1_def)
  have m3: "notify_pipe w3 = [RTC_MSG]" "rtc_msg_queue w3 = [?m]" "m_fd ?m = fd" "m_conn ?m = Some (c_addr d)" "cmdno ?m = CMDNO_PUSH"
    using df(1) conn_at_cfd [OF ok c(1)] by (simp_all add: w3_def m_def)
  have rl: "reply_list d = []" using df(5) c(3) by simp
  note reply = push_replied [where nd = nd and send = "ask True" and r = R_eagain and peer = None and g = "ps_rs s3",
    OF ok3 run3 mem fits m3 c3 c(2) d(3,4) rl g wo3 live]
  from reply [of wr "(0, 0, 0)" "(0, 0, 0)"] obtain w4 w5 where
    w45: "worker_event al nd J (ask True) R_eagain wr (0, 0, 0) None pw EV_READ w3 (ps_rs s3) = Some (Inr (w4, ps_rs s3))"
      "worker_event al nd J (ask True) R_eagain wr (0, 0, 0) None iw EV_WRITE w4 (ps_rs s3) = Some (Inr (w5, ps_rs s3))"
      "sys_out w5 = sys_out w3 @ [(fd, wire (h\<lparr>xh_body_len := of_nat (length (reply_json J ?m))\<rparr>) (reply_json J ?m))]" by blast
  define s4 where "s4 = s3\<lparr>ps_ws := (ps_ws s)[k := w4]\<rparr>"
  have a4: "act al nd J (Sig_event k True R_eagain wr (0, 0, 0) None pw EV_READ) s3 = Some (Inr s4)"
    using w45(1) k by (simp add: act_def s4_def s3_def)
  have a5: "act al nd J (Sig_event k True R_eagain wr (0, 0, 0) None iw EV_WRITE) s4 = Some (Inr (s4\<lparr>ps_ws := (ps_ws s)[k := w5]\<rparr>))"
    using w45(2) k by (simp add: act_def s4_def s3_def)
  have rj: "reply_json J ?m = j_reply J 0 (cstr ''process success'') (cstr ''offer'')" by (simp add: reply_json_def m_def)
  have so: "sys_out w3 = sys_out w" by (simp add: w3_def w1_def)
  show ?thesis unfolding Let_def
    by (intro exI [of _ "s4\<lparr>ps_ws := (ps_ws s)[k := w5]\<rparr>"]) (use w45(3) rj so k a1 a2 a3 a4 a5 in \<open>simp add: push_run_def\<close>)
qed

section \<open>Properties\<close>

text \<open>A server with one signalling worker and two media workers that has accepted a connection.\<close>

definition demo_media :: rtc_server where
  "demo_media = demo_rtc_server\<lparr>rs_msg_queue := []\<rparr>"

lemma RtcWorker_pipe: "rw_pipe (RtcWorker rt mn p wid) = []"
  by (simp add: RtcWorker_def event_loop.defs)

lemma demo_media_fields: "rs_ready demo_media" "rs_msg_queue demo_media = []" "rs_pipe demo_media = []"
  "rs_workers demo_media = [RtcWorker 0 0 20 0, RtcWorker 0 0 21 1]"
  "v \<in> set (rs_workers demo_media) \<Longrightarrow> rw_holds v [] \<and> rw_pipe v = [] \<and> lfq_avail 50 (rw_queue v)"
proof -
  show "rs_ready demo_media" using demo_rtc_server_ready by (simp add: demo_media_def rs_ready_def)
  show f: "rs_msg_queue demo_media = []" "rs_pipe demo_media = []" "rs_workers demo_media = [RtcWorker 0 0 20 0, RtcWorker 0 0 21 1]"
    by (simp_all add: demo_media_def demo_rtc_server_def RtcServer_def event_loop.defs)
  show "rw_holds v [] \<and> rw_pipe v = [] \<and> lfq_avail 50 (rw_queue v)" if "v \<in> set (rs_workers demo_media)"
    using that unfolding f by (auto simp: RtcWorker_holds RtcWorker_queue RtcWorker_pipe lfq_avail_def lfq_init_def)
qed

lemma demo_offer_fits: "offer_fits (demo_json 1)"
  by (simp add: offer_fits_def demo_json_def MAX_RES_BUF_def cstr_def)

lemma demo_started:
  "\<exists>w. sys_init \<lparr>ps_ws = [w], ps_rs = demo_media\<rparr> \<and> worker_ok w \<and> loop_done w = EVBREAK_CANCEL \<and> conns w = [] \<and>
    q_conn w = lfq_init 9 0 \<and> wkind w = [50 \<mapsto> Ev_io] \<and> notify_pipe w = [] \<and> rtc_msg_queue w = [] \<and> pipe_watcher w = Some 50"
proof -
  from sw_init_ok [OF refl, of 3 4 50 1 0 0 9 0 30] obtain w0 where
    w0: "sw_init (Some (3, 4)) 50 (SignalingWorker 1 0 0 9 0 30) = Inr (w0, 0)" "worker_ok w0" "loop_done w0 = EVBREAK_CANCEL" "conns w0 = []"
      "rtc_msg_queue w0 = []" "wkind w0 = [50 \<mapsto> Ev_io]" "q_conn w0 = lfq_init 9 0" "pipe_watcher w0 = Some 50" "notify_pipe w0 = []" "\<not> is_start w0" by auto
  let ?w = "fst (sw_start w0)"
  have "?w = w0\<lparr>is_start := True\<rparr>" using w0(10) by (simp add: sw_start_def)
  moreover have "\<exists>a rt mn p wid tmo r sd pw v. 0 \<le> r \<and> sw_init (Some (r, sd)) pw (SignalingWorker a rt mn p wid tmo) = Inr (v, 0) \<and> ?w = fst (sw_start v)"
    by (rule exI [of _ 1], rule exI [of _ 0], rule exI [of _ 0], rule exI [of _ 9], rule exI [of _ 0], rule exI [of _ 30],
      rule exI [of _ 3], rule exI [of _ 4], rule exI [of _ 50], rule exI [of _ w0]) (use w0(1) in simp)
  then have "sys_init \<lparr>ps_ws = [?w], ps_rs = demo_media\<rparr>" unfolding sys_init_def using demo_media_fields by simp
  ultimately show ?thesis using w0 by (intro exI [of _ ?w]) (simp add: worker_ok_start)
qed

lemma demo_system:
  "\<exists>s w c iw. reachable demo_al False (demo_json 1) s \<and> sys_idle s \<and> ps_ws s = [w] \<and> ps_rs s = demo_media \<and> loop_done w = EVBREAK_CANCEL \<and>
    pipe_watcher w = Some 50 \<and> conn_at w 7 = Some c \<and> reply_list c = [] \<and> io_watcher c = Some iw \<and> bodies_small w \<and> partial_conn c []"
proof -
  let ?J = "demo_json 1"
  obtain w0 where w0: "sys_init \<lparr>ps_ws = [w0], ps_rs = demo_media\<rparr>" "worker_ok w0" "loop_done w0 = EVBREAK_CANCEL" "conns w0 = []"
    "q_conn w0 = lfq_init 9 0" "wkind w0 = [50 \<mapsto> Ev_io]" "notify_pipe w0 = []" "rtc_msg_queue w0 = []" "pipe_watcher w0 = Some 50"
    using demo_started by blast
  let ?s0 = "\<lparr>ps_ws = [w0], ps_rs = demo_media\<rparr>"
  have av: "lfq_avail 60 (q_conn w0)" using w0(5) by (simp add: lfq_avail_def lfq_init_def)
  have none: "7 \<notin> set fds" if "lfq_holds (q_conn w0) fds" for fds
    using lfq_holds_unique [OF lfq_init_holds that [unfolded w0(5)]] by simp
  have e0: "env_ok (Accept 0 True 60 7) ?s0" using w0(4) av by (auto simp: env_ok_def conn_at_def dest: none)
  have "lfq_holds (q_conn w0) []" unfolding w0(5) by (rule lfq_init_holds)
  from lfq.enq_holds [OF this av, of 7] obtain q where q: "lfq_enq 60 7 (q_conn w0) = Inr q" "lfq_holds q [7]" by auto
  define w1 where "w1 = w0\<lparr>q_conn := q, notify_pipe := [NEW_CONN]\<rparr>"
  let ?s1 = "\<lparr>ps_ws = [w1], ps_rs = demo_media\<rparr>"
  have a0: "act demo_al False ?J (Accept 0 True 60 7) ?s0 = Some (Inr ?s1)"
    using q(1) w0(7) by (simp add: act_def notify_new_conn_def notify_def w1_def)
  have r1: "reachable demo_al False ?J ?s1" by (rule reachable.step [OF reachable.start [OF w0(1)] e0 a0])
  have ok1: "worker_ok w1" using worker_ok_queue(3) [OF worker_ok_queue(1) [OF w0(2)]] by (simp add: w1_def)
  have rw: "m \<notin> set ms" if "v \<in> set (rs_workers demo_media)" "rw_holds v ms" for v ms m
    using rw_holds_unique [of v "[]" ms] demo_media_fields(5) [OF that(1)] that(2) by simp
  have nf: "\<not> in_flight ?s1 m" for m using demo_media_fields(2) w0(8) by (auto simp: in_flight_def w1_def dest: rw)
  define op where "op = Sig_event 0 True R_eagain (\<lambda>n. W_eagain) (100, 101, 102) None 50 EV_READ"
  have e1: "env_ok op ?s1" using nf w0(4,6) by (auto simp: env_ok_def op_def w1_def bodies_small_def used_def)
  from lfq.deq_holds [OF q(2)] obtain q' where q': "lfq_consume q = Inr (Some 7, q')" by blast
  define w2 where "w2 = w1\<lparr>notify_pipe := [], q_conn := q'\<rparr>"
  have "worker_ok w2" using worker_ok_queue(1) [OF worker_ok_queue(3) [OF ok1]] by (simp add: w2_def)
  moreover have "fresh_for w2 (100, 101, 102) 7" using w0(4,6) by (simp add: w2_def w1_def fresh_for_def conn_at_def)
  moreover have "loop_done w2 = EVBREAK_CANCEL" using w0(3) by (simp add: w2_def w1_def)
  ultimately obtain w3 c where w3: "new_conn demo_al 100 101 102 None 7 w2 = Inr w3" "worker_ok w3" "loop_done w3 = EVBREAK_CANCEL"
    "conn_at w3 7 = Some c" "parse_inv c []" "reply_list c = []" "\<forall>i. i \<noteq> 7 \<longrightarrow> used w3 i = used w2 i"
    using new_conn_ok [of w2 100 101 102 7 demo_al None] by auto
  note fr = new_conn_frame [OF w3(1)]
  have run1: "loop_done w1 = EVBREAK_CANCEL" "pipe_watcher w1 = Some 50" using w0(3,9) by (simp_all add: w1_def)
  have "signaling_worker_recv_notify demo_al ?J (100, 101, 102) None w1 = Inr w3"
    using w3(1) q' by (simp add: w1_def w2_def signaling_worker_recv_notify_def process_notify_def QUIT_def NEW_CONN_def)
  then have a1: "act demo_al False ?J op ?s1 = Some (Inr \<lparr>ps_ws = [w3], ps_rs = demo_media\<rparr>)"
    by (simp add: act_def op_def pipe_dispatch [OF ok1 run1])
  have "reachable demo_al False ?J \<lparr>ps_ws = [w3], ps_rs = demo_media\<rparr>" by (rule reachable.step [OF r1 e1 a1])
  moreover have "sys_idle \<lparr>ps_ws = [w3], ps_rs = demo_media\<rparr>"
    using fr(3,5) w0(8) demo_media_fields by (auto simp: sys_idle_def w2_def w1_def)
  moreover have "pipe_watcher w3 = Some 50" using fr(6) w0(9) by (simp add: w2_def w1_def)
  moreover obtain iw where "io_watcher c = Some iw" using worker_okD(3) [OF w3(2), of 7 c] w3(4) by (auto simp: conn_at_used conn_ok_def watch_ok_def)
  moreover have "partial_conn c []" using w3(5) by (simp add: partial_conn_def parse_inv_def stage_of_def XHEAD_SIZE_def)
  moreover have "bodies_small w3" unfolding bodies_small_def
  proof (intro allI impI)
    fix i d assume u: "used w3 i d"
    have "\<not> used w2 i d" using w0(4) by (simp add: used_def w2_def w1_def)
    then have "i = 7" using w3(7) u by metis
    then have "d = c" using u w3(4) used_unique [of w3 7 c d] by (simp add: conn_at_used)
    then show "bytes_expected d < 2 ^ 29" using w3(5) by (simp add: parse_inv_def fresh_conn_def XHEAD_SIZE_def)
  qed
  ultimately show ?thesis using w3(3,4,6) by (intro exI conjI) (assumption | simp)+
qed

lemma sdsempty_buf: "sdsempty al = Inr s \<Longrightarrow> length (sh_buf s) \<le> 1"
  by (auto simp: sdsempty_def sdsnewlen_def cstr_def Let_def split: if_splits)



text \<open>
  C2: a push request is answered. When nothing else is on its way and the last bytes of a well-formed
  push request arrive on a connection, then reading them, one turn of the media server, one of the
  media worker of the stream, one notification and one write event of the connection hand the socket
  of that connection exactly the header of the request with the new length and the JSON text of the
  offer, and nothing else to any socket of that worker.
\<close>

theorem push_answered:
  assumes "reachable al nd J s" "sys_idle s" "mem_ok al" "offer_fits J" "k < length (ps_ws s)" "w = ps_ws s ! k"
    "loop_done w = EVBREAK_CANCEL" "pipe_watcher w = Some pw" "conn_at w fd = Some c" "0 < fd" "reply_list c = []"
    "io_watcher c = Some iw" "bodies_small w" "partial_conn c xs" "good_request h body" "xs @ bs = wire h body" "bs \<noteq> []"
    "length bs \<le> bytes_expected c" "push_text J body u sn au vi" "j = stream_slot sn (length (rs_workers (ps_rs s)))"
    "\<forall>v \<in> set (rs_workers (ps_rs s)). lfq_avail q (rw_queue v)" "live_socket wr"
  shows "\<exists>s'. acts al nd J (push_run k j bs wr iw pw q) s = Some (Inr s') \<and>
    (let json = j_reply J 0 (cstr ''process success'') (cstr ''offer'')
     in sys_out (ps_ws s' ! k) = sys_out w @ [(fd, wire (h\<lparr>xh_body_len := of_nat (length json)\<rparr>) json)])"
  by (rule push_path [OF reachable_inv [OF assms(1,3,4)] assms(2-)])

theorem push_answered_witness:
  "\<exists>s s' j iw. reachable demo_al False (demo_json 1) s \<and>
     acts demo_al False (demo_json 1) (push_run 0 j (wire (demo_xhead\<lparr>xh_body_len := 0\<rparr>) []) (\<lambda>n. W_bytes 5) iw 50 50) s = Some (Inr s') \<and>
     (7, wire (demo_xhead\<lparr>xh_body_len := 2\<rparr>) (cstr ''ok'')) \<in> set (sys_out (ps_ws s' ! 0))"
proof -
  let ?J = "demo_json 1" and ?h = "demo_xhead\<lparr>xh_body_len := 0\<rparr>"
  obtain s w c iw where s: "reachable demo_al False ?J s" "sys_idle s" "ps_ws s = [w]" "ps_rs s = demo_media" "loop_done w = EVBREAK_CANCEL"
    "pipe_watcher w = Some 50" "conn_at w 7 = Some c" "reply_list c = []" "io_watcher c = Some iw" "bodies_small w" "partial_conn c []"
    using demo_system by blast
  have k: "0 < length (ps_ws s)" "w = ps_ws s ! 0" using s(3) by simp_all
  have g: "good_request ?h []" by (simp add: good_request_def xhead_wf_def demo_xhead_def)
  have ln: "length (wire ?h []) = 36" using length_wire [OF g] by (simp add: XHEAD_SIZE_def)
  have e: "bytes_expected c = 36" using s(11) by (simp add: partial_conn_def stage_of_def fresh_conn_def XHEAD_SIZE_def)
  have ne: "wire ?h [] \<noteq> []" using ln by force
  have le: "length (wire ?h []) \<le> bytes_expected c" using ln e by simp
  have t: "push_text ?J [] 7 (cstr ''xrtc'') 1 1" by (simp add: push_text_def demo_json_def CMDNO_PUSH_def)
  have av: "\<forall>v \<in> set (rs_workers (ps_rs s)). lfq_avail 50 (rw_queue v)" using s(4) demo_media_fields(5) by simp
  have live: "live_socket (\<lambda>n. W_bytes 5)" by (auto simp: live_socket_def)
  have "[] @ wire ?h [] = wire ?h []" by simp
  from push_answered [OF s(1,2) demo_mem demo_offer_fits k s(5,6,7) _ s(8-11) g this ne le t refl av live]
  show ?thesis using s(1) by (fastforce simp: demo_json_def cstr_def Let_def)
qed

text \<open>
  C28: an answer that comes after its connection was closed can hit a new one. When the descriptor and the
  address of a closed connection are used again, the check of \<open>response_server_offer\<close> succeeds, and copying
  the request header reads past the end of the new connection's empty buffer.
\<close>

theorem answer_to_reused_connection:
  assumes "worker_ok w" "loop_done w = EVBREAK_CANCEL" "fresh_for w (a, iw, tw) fd" "mem_ok al" "0 < fd" "m_fd msg = fd" "m_conn msg = Some a"
  shows "\<exists>w'. new_conn al a iw tw peer fd w = Inr w' \<and> worker_ok w' \<and> response_server_offer al J msg w' = Inl OutOfBounds"
proof -
  from new_conn_ok [OF assms(1-4), of peer] obtain w' where w': "new_conn al a iw tw peer fd w = Inr w'" "worker_ok w'" by blast
  from new_conn_frame(7) [OF w'(1)] obtain c qb where c: "conn_at w' fd = Some c" "c_addr c = a" "sdsempty al = Inr qb" "querybuf c = qb" by blast
  have "length (sh_buf qb) < XHEAD_SIZE" using sdsempty_buf [OF c(3)] by (simp add: XHEAD_SIZE_def)
  then have "response_server_offer al J msg w' = Inl OutOfBounds"
    using c(1,2,4) assms(5-7) by (simp add: response_server_offer_def make_reply_def)
  then show ?thesis using w' by blast
qed

theorem answer_to_reused_connection_witness:
  "\<exists>w w'. worker_ok w \<and> new_conn demo_al 100 101 102 None 7 w = Inr w' \<and>
     response_server_offer demo_al (demo_json 1) (rtc_msg0\<lparr>m_conn := Some 100, m_fd := 7\<rparr>) w' = Inl OutOfBounds"
proof -
  obtain w where w: "worker_ok w" "loop_done w = EVBREAK_CANCEL" "fresh_for w (100, 101, 102) 7" using demo_worker by blast
  from answer_to_reused_connection [OF w demo_mem, of "rtc_msg0\<lparr>m_conn := Some 100, m_fd := 7\<rparr>" None "demo_json 1"] show ?thesis
    using w(1) by auto
qed

end
