(* ===== verification/Server_Main.thy ===== *)
theory Server_Main
  imports Push_Path Signaling_Server Conf Logging_Proofs
begin

text \<open>
  The start of the process (\<open>main.cpp\<close>): the configuration, the log, the two servers with their workers.
  The global pointers are a record; what the YAML library, the file system and the system calls
  answer, and the addresses of new objects, are in a record \<open>boot_env\<close>. \<open>boot\<close> is \<open>main\<close> up to the calls of
  \<open>join\<close>: its result is the return value of a \<open>main\<close> that gives up, or \<open>None\<close> when both servers are started.
  The theory shows that a start that succeeds gives the system of \<open>Push_Path\<close>.
\<close>

section \<open>The start\<close>

record program =
  g_general_conf :: "general_conf option"
  g_log :: "xrtc_log option"
  g_signaling_server :: "sig_server option"
  g_rtc_server :: "rtc_server option"
  pr_logging :: log_state

definition program0 :: "log_state \<Rightarrow> program" where
  "program0 st = \<lparr>g_general_conf = None, g_log = None, g_signaling_server = None, g_rtc_server = None, pr_logging = st\<rparr>"

record boot_env =
  bo_yaml :: "yaml_log option"
  bo_sink :: addr
  bo_sink_mem :: log_sink
  bo_dir_ok :: bool
  bo_open_ok :: bool
  bo_open_wf_ok :: bool
  bo_ss_clocks :: "real \<times> real"
  bo_ss_mem :: sig_options
  bo_ss_conf :: "sig_options option"
  bo_ss_fds :: "(fd \<times> fd) option"
  bo_ss_pw :: addr
  bo_ss_calls :: listen_calls
  bo_ss_iw :: addr
  bo_ss_env :: "int \<Rightarrow> sig_worker_env"
  bo_rs_clocks :: "real \<times> real"
  bo_rs_mem :: int
  bo_rs_conf :: "int option"
  bo_rs_fds :: "(fd \<times> fd) option"
  bo_rs_pw :: addr
  bo_rs_env :: "int \<Rightarrow> worker_env"

definition init_general_conf :: "bool \<Rightarrow> yaml_log option \<Rightarrow> program \<Rightarrow> (program \<times> int) res" where
  "init_general_conf filename yaml p =
     (if \<not> filename then Inr (p, -1)
      else rbind (load_general_conf filename yaml (Some GeneralConf)) (\<lambda>(r, c).
        if r \<noteq> 0 then Inr (p\<lparr>g_general_conf := None\<rparr>, -1) else Inr (p\<lparr>g_general_conf := c\<rparr>, 0)))"

text \<open>\<open>new XrtcLog\<close> puts a sink into memory whose \<open>min_severity_\<close> is not set.\<close>

definition init_log :: "boot_env \<Rightarrow> byte list \<Rightarrow> byte list \<Rightarrow> byte list \<Rightarrow> program \<Rightarrow> (program \<times> int) res option" where
  "init_log e log_dir log_name log_level p =
     (let x = XrtcLog log_dir log_name log_level;
          st = (pr_logging p)\<lparr>lg_sinks := (lg_sinks (pr_logging p))(bo_sink e \<mapsto> (bo_sink_mem e)\<lparr>ls_next := None\<rparr>)\<rparr>
      in obind (xl_register (bo_sink e) st) (\<lambda>st1.
         let (x1, ret) = xl_init (bo_dir_ok e) (bo_open_ok e) (bo_open_wf_ok e) x;
             p1 = p\<lparr>pr_logging := st1, g_log := Some x1\<rparr>
         in if ret \<noteq> 0 then Some (Inr (p1, -1))
            else obind (Some (xl_start x1)) (\<lambda>(x2, _). Some (Inr (p1\<lparr>g_log := Some x2\<rparr>, 0)))))"

definition init_signaling_server :: "boot_env \<Rightarrow> program \<Rightarrow> (program \<times> int) res" where
  "init_signaling_server e p =
     rbind (ss_init True (bo_ss_conf e) (bo_ss_fds e) (bo_ss_pw e) (bo_ss_calls e) (bo_ss_iw e) (bo_ss_env e)
         (SignalingServer (fst (bo_ss_clocks e)) (snd (bo_ss_clocks e)) (bo_ss_mem e))) (\<lambda>(s, ret).
       let p1 = p\<lparr>g_signaling_server := Some s\<rparr> in if ret \<noteq> 0 then Inr (p1, -1) else Inr (p1, 0))"

definition init_rtc_server :: "boot_env \<Rightarrow> program \<Rightarrow> (program \<times> int) res" where
  "init_rtc_server e p =
     rbind (rs_init True (bo_rs_conf e) (bo_rs_fds e) (bo_rs_pw e) (bo_rs_env e)
         (RtcServer (fst (bo_rs_clocks e)) (snd (bo_rs_clocks e)) (bo_rs_mem e))) (\<lambda>(s, ret).
       let p1 = p\<lparr>g_rtc_server := Some s\<rparr> in if ret \<noteq> 0 then Inr (p1, -1) else Inr (p1, 0))"

text \<open>The result of \<open>init_log\<close> is overwritten without being looked at.\<close>

definition boot :: "boot_env \<Rightarrow> program \<Rightarrow> (program \<times> int option) res option" where
  "boot e p =
     obind (Some (init_general_conf True (bo_yaml e) p)) (\<lambda>(p, ret).
       if ret \<noteq> 0 then Some (Inr (p, Some (-1)))
       else case g_general_conf p of
         None \<Rightarrow> Some (Inl NullDeref)
       | Some c \<Rightarrow>
           obind (init_log e (gc_log_dir c) (gc_log_name c) (gc_log_level c) p) (\<lambda>(p, ret).
           obind (Some (init_signaling_server e p)) (\<lambda>(p, ret).
             if ret \<noteq> 0 then Some (Inr (p, Some (-1)))
             else obind (Some (init_rtc_server e p)) (\<lambda>(p, ret).
               if ret \<noteq> 0 then Some (Inr (p, Some (-1)))
               else case (g_signaling_server p, g_rtc_server p) of
                 (Some s, Some r) \<Rightarrow>
                   obind (Some (ss_start s)) (\<lambda>(s, b).
                   obind (Some (rs_start r)) (\<lambda>(r, b).
                     Some (Inr (p\<lparr>g_signaling_server := Some s, g_rtc_server := Some r\<rparr>, None))))
               | _ \<Rightarrow> Some (Inl NullDeref)))))"

text \<open>The end of \<open>main\<close>, once the threads of both servers have ended.\<close>

definition main_join :: "program \<Rightarrow> program \<times> int" where
  "main_join p =
     (p\<lparr>g_signaling_server := map_option ss_join (g_signaling_server p), g_rtc_server := map_option rs_join (g_rtc_server p)\<rparr>, 0)"

section \<open>Initialising an event loop\<close>

lemma new_loop_ok: "el_ok (event_loop.extend (event_loop_new rt mn cb) m)"
  by (simp add: event_loop_new_def event_loop.extend_def el_ok_def loop_ok_def reps_ok_def ok_defs queued_def
      ABSPRI_def heap_ord_def heap_act_def HEAP0_def pri_ok_def EV_MINPRI_def EV_MAXPRI_def)

text \<open>A new watcher that is created and started; \<open>l'\<close> is the loop after other members were set in between.\<close>

lemma watch_added:
  assumes ok: "el_ok l" and new: "wkind l a = None" and fd: "0 \<le> fd"
    and l': "ev_loop.truncate l' = ev_loop.truncate (create_io_event a cb l)"
  shows "\<exists>v. start_io_event a fd m l' = Inr v \<and> el_ok v \<and> wkind v = (wkind l)(a \<mapsto> Ev_io) \<and> ev_loop.more v = ev_loop.more l'"
proof -
  note c = create_io_event_spec [OF ok new, of cb]
  have f: "el_ok l'" "wkind l' = (wkind l)(a \<mapsto> Ev_io)" "active l' = active (create_io_event a cb l)"
    using el_ok_more [OF l'] c(1,2) l' by (simp_all add: ev_loop.truncate_def)
  have "interest (create_io_event a cb l) a = None" unfolding c(3) using unallocated_idle(1) [OF ok new] by (simp add: interest_def)
  then have "interest l' a = None" unfolding interest_def f(3) by (simp split: if_splits)
  then show ?thesis using start_io_event_spec [OF f(1) _ fd, of a m] f(2) by (auto simp: io_frame_def)
qed

section \<open>The media server\<close>

lemma rw_more_eq:
  fixes v w :: rtc_worker
  assumes "ev_loop.more v = ev_loop.more w"
  shows "rw_queue v = rw_queue w" "rw_pipe v = rw_pipe w" "rw_thread v = rw_thread w" "rw_is_start v = rw_is_start w"
  using assms by (cases v; cases w; simp)+

lemma rw_init_ok:
  assumes "0 \<le> r"
  shows "\<exists>w. rw_init (Some (r, sd)) pw (RtcWorker rt mn p wid) = Inr (w, 0) \<and> rw_holds w [] \<and> rw_pipe w = [] \<and> \<not> rw_thread w"
proof -
  let ?n = "RtcWorker rt mn p wid"
  let ?l = "(create_io_event pw Rtc_worker_recv_notify ?n)\<lparr>rw_recv_fd := r, rw_send_fd := sd, rw_pipe_watcher := Some pw\<rparr>"
  have n: "el_ok ?n" "wkind ?n pw = None"
    by (simp_all add: RtcWorker_def new_loop_ok) (simp add: event_loop.extend_def event_loop_new_def)
  have "ev_loop.truncate ?l = ev_loop.truncate (create_io_event pw Rtc_worker_recv_notify ?n)" by (simp add: ev_loop.truncate_def)
  from watch_added [OF n assms this, of READ] obtain v where v: "start_io_event pw r READ ?l = Inr v" "ev_loop.more v = ev_loop.more ?l" by blast
  have "rw_queue v = lfq_init p None" "rw_pipe v = []" "\<not> rw_thread v"
    using rw_more_eq [OF v(2)] by (simp_all add: RtcWorker_def event_loop.extend_def create_io_event_def ev_init_def event_loop_new_def)
  then show ?thesis using v(1) lfq_init_holds by (simp add: rw_init_def rw_holds_def)
qed

definition rtc_env_ok :: "worker_env \<Rightarrow> bool" where
  "rtc_env_ok e \<longleftrightarrow> (\<exists>r sd. we_pipe e = Some (r, sd) \<and> 0 \<le> r)"

lemma rs_create_workers_ok:
  assumes "\<forall>i \<in> set ks. rtc_env_ok (env i)"
  shows "\<exists>vs. rs_create_workers env ks s = Inr (s\<lparr>rs_workers := rs_workers s @ vs\<rparr>, 0) \<and> length vs = length ks \<and>
    (\<forall>v \<in> set vs. rw_holds v [] \<and> rw_pipe v = [])"
  using assms
proof (induction ks arbitrary: s)
  case Nil
  then show ?case by (intro exI [of _ "[]"]) simp
next
  case (Cons i ks)
  then obtain r sd where e: "we_pipe (env i) = Some (r, sd)" "0 \<le> r" by (auto simp: rtc_env_ok_def)
  from rw_init_ok [OF e(2), of sd "we_watcher (env i)" "we_rt (env i)" "we_mn (env i)" "we_node (env i)" i] obtain w where
    w: "rw_init (we_pipe (env i)) (we_watcher (env i)) (RtcWorker (we_rt (env i)) (we_mn (env i)) (we_node (env i)) i) = Inr (w, 0)"
      "rw_holds w []" "rw_pipe w = []" "\<not> rw_thread w" using e(1) by auto
  let ?w = "w\<lparr>rw_is_start := True, rw_thread := True\<rparr>" and ?s = "s\<lparr>rs_workers := rs_workers s @ [w\<lparr>rw_is_start := True, rw_thread := True\<rparr>]\<rparr>"
  have c: "rs_create_worker (env i) i s = Inr (?s, 0)" using w(1,4) by (simp add: rs_create_worker_def rw_start_def)
  from Cons.IH [of ?s] Cons.prems obtain vs where
    vs: "rs_create_workers env ks ?s = Inr (?s\<lparr>rs_workers := rs_workers ?s @ vs\<rparr>, 0)" "length vs = length ks"
      "\<forall>v \<in> set vs. rw_holds v [] \<and> rw_pipe v = []" by auto
  have "rw_holds ?w []" "rw_pipe ?w = []" using w(2,3) by (simp_all add: rw_holds_def)
  then show ?case using c vs by (intro exI [of _ "?w # vs"]) simp
qed

lemma rs_more_eq:
  fixes v w :: rtc_server
  assumes "ev_loop.more v = ev_loop.more w"
  shows "rs_workers v = rs_workers w" "rs_worker_num v = rs_worker_num w" "rs_msg_queue v = rs_msg_queue w" "rs_pipe v = rs_pipe w"
    "rs_thread v = rs_thread w" "rs_is_start v = rs_is_start w"
  using assms by (cases v; cases w; simp)+

lemma rs_init_ok:
  assumes "0 \<le> r" "0 < n" "n < 2 ^ 31" "\<forall>i \<in> {0..<n}. rtc_env_ok (env i)"
  shows "\<exists>s. rs_init True (Some n) (Some (r, sd)) pw env (RtcServer rt mn num0) = Inr (s, 0) \<and> rs_ready s \<and> rs_msg_queue s = [] \<and> rs_pipe s = [] \<and>
    \<not> rs_thread s \<and> \<not> rs_is_start s \<and> length (rs_workers s) = nat n \<and> (\<forall>v \<in> set (rs_workers s). rw_holds v [] \<and> rw_pipe v = [])"
proof -
  let ?n = "(RtcServer rt mn num0)\<lparr>rs_worker_num := n\<rparr>"
  let ?l = "(create_io_event pw Rtc_server_recv_notify ?n)\<lparr>rs_recv_fd := r, rs_send_fd := sd, rs_pipe_watcher := Some pw\<rparr>"
  have "ev_loop.truncate ?n = ev_loop.truncate (RtcServer rt mn num0)" by (simp add: ev_loop.truncate_def)
  then have n: "el_ok ?n" "wkind ?n pw = None"
    using el_ok_more new_loop_ok by (auto simp: RtcServer_def event_loop.extend_def event_loop_new_def)
  have "ev_loop.truncate ?l = ev_loop.truncate (create_io_event pw Rtc_server_recv_notify ?n)" by (simp add: ev_loop.truncate_def)
  from watch_added [OF n assms(1) this, of READ] obtain v where v: "start_io_event pw r READ ?l = Inr v" "ev_loop.more v = ev_loop.more ?l" by blast
  have f: "rs_workers v = []" "rs_worker_num v = n" "rs_msg_queue v = []" "rs_pipe v = []" "\<not> rs_thread v" "\<not> rs_is_start v"
    using rs_more_eq [OF v(2)] by (simp_all add: RtcServer_def event_loop.extend_def create_io_event_def ev_init_def event_loop_new_def)
  have "\<forall>i \<in> set [0..n - 1]. rtc_env_ok (env i)" using assms(4) by auto
  from rs_create_workers_ok [OF this, of v] obtain vs where
    vs: "rs_create_workers env [0..n - 1] v = Inr (v\<lparr>rs_workers := vs\<rparr>, 0)" "length vs = nat n" "\<forall>v \<in> set vs. rw_holds v [] \<and> rw_pipe v = []"
    using f(1) by auto
  have "rs_init True (Some n) (Some (r, sd)) pw env (RtcServer rt mn num0) = Inr (v\<lparr>rs_workers := vs\<rparr>, 0)"
    using v(1) vs(1) by (simp add: rs_init_def)
  then show ?thesis using f vs(2,3) assms(2,3) by (intro exI conjI) (assumption | simp add: rs_ready_def)+
qed

section \<open>The signalling server\<close>

text \<open>A worker as \<open>create_worker\<close> leaves it.\<close>

definition started_worker :: "sig_worker \<Rightarrow> bool" where
  "started_worker w \<longleftrightarrow> (\<exists>a rt mn p wid tmo r sd pw w0. 0 \<le> r \<and>
     sw_init (Some (r, sd)) pw (SignalingWorker a rt mn p wid tmo) = Inr (w0, 0) \<and> w = fst (sw_start w0))"

lemma sw_init_addr: "sw_init (Some fds) pw w = Inr (w', r) \<Longrightarrow> sw_addr w' = sw_addr w"
  by (cases fds) (auto simp: sw_init_def Let_def dest!: start_io_event_more ev_more_eq simp: create_io_event_def ev_init_def)

definition sig_env_ok :: "sig_worker_env \<Rightarrow> bool" where
  "sig_env_ok e \<longleftrightarrow> (\<exists>r sd. se_pipe e = Some (r, sd) \<and> 0 \<le> r)"

lemma ss_create_worker_ok:
  assumes "sig_env_ok e"
  shows "\<exists>w. ss_create_worker e i s = Inr (s\<lparr>ss_workers := ss_workers s @ [w]\<rparr>, 0) \<and> started_worker w \<and> sw_addr w = se_addr e"
proof -
  let ?n = "SignalingWorker (se_addr e) (se_rt e) (se_mn e) (se_node e) i (so_connection_timeout (ss_options s))"
  obtain r sd where e: "se_pipe e = Some (r, sd)" "0 \<le> r" using assms by (auto simp: sig_env_ok_def)
  from sw_init_ok [OF e] obtain w0 where w0: "sw_init (Some (r, sd)) (se_watcher e) ?n = Inr (w0, 0)" "\<not> is_start w0" unfolding e(1) by blast
  let ?w = "w0\<lparr>is_start := True\<rparr>"
  have st: "sw_start w0 = (?w, True)" using w0(2) by (simp add: sw_start_def)
  have "started_worker ?w" unfolding started_worker_def
    by (rule exI [of _ "se_addr e"], rule exI [of _ "se_rt e"], rule exI [of _ "se_mn e"], rule exI [of _ "se_node e"], rule exI [of _ i],
      rule exI [of _ "so_connection_timeout (ss_options s)"], rule exI [of _ r], rule exI [of _ sd], rule exI [of _ "se_watcher e"], rule exI [of _ w0])
     (use w0(1) e(2) st in simp)
  moreover have "sw_addr ?w = se_addr e" using sw_init_addr [OF w0(1)] by (simp add: SignalingWorker_def event_loop.extend_def)
  ultimately show ?thesis using w0(1) st e(1) by (intro exI [of _ ?w]) (simp add: ss_create_worker_def)
qed

lemma ss_create_workers_ok:
  assumes "\<forall>i \<in> set ks. sig_env_ok (env i)"
  shows "\<exists>ws. ss_create_workers env ks s = Inr (s\<lparr>ss_workers := ss_workers s @ ws\<rparr>, 0) \<and>
    map sw_addr ws = map (\<lambda>i. se_addr (env i)) ks \<and> (\<forall>w \<in> set ws. started_worker w)"
  using assms
proof (induction ks arbitrary: s)
  case Nil
  then show ?case by (intro exI [of _ "[]"]) simp
next
  case (Cons i ks)
  then obtain w where w: "ss_create_worker (env i) i s = Inr (s\<lparr>ss_workers := ss_workers s @ [w]\<rparr>, 0)" "started_worker w" "sw_addr w = se_addr (env i)"
    using ss_create_worker_ok [of "env i" i s] by auto
  let ?s = "s\<lparr>ss_workers := ss_workers s @ [w]\<rparr>"
  from Cons.IH [of ?s] Cons.prems obtain ws where
    ws: "ss_create_workers env ks ?s = Inr (?s\<lparr>ss_workers := ss_workers ?s @ ws\<rparr>, 0)" "map sw_addr ws = map (\<lambda>i. se_addr (env i)) ks"
      "\<forall>w \<in> set ws. started_worker w" by auto
  then show ?case using w by (intro exI [of _ "w # ws"]) simp
qed

lemma ss_more_eq:
  fixes v w :: sig_server
  assumes "ev_loop.more v = ev_loop.more w"
  shows "ss_workers v = ss_workers w" "ss_next_worker_index v = ss_next_worker_index w" "ss_thread v = ss_thread w" "ss_is_start v = ss_is_start w"
    "ss_options v = ss_options w" "ss_closed v = ss_closed w"
  using assms by (cases v; cases w; simp)+

definition listen_ok :: "listen_calls \<Rightarrow> bool" where
  "listen_ok c \<longleftrightarrow> 0 \<le> lc_socket c \<and> 0 \<le> lc_setsockopt c \<and> lc_inet_pton c \<noteq> 0 \<and> 0 \<le> lc_bind c \<and> 0 \<le> lc_listen c"

text \<open>Up to the creation of the workers: the server listens, or gives up.\<close>

lemma ss_init_listens:
  assumes r: "0 \<le> r" and a: "pw \<noteq> iw"
  shows "\<exists>u v. ss_init True (Some opts) (Some (r, sd)) pw calls iw env (SignalingServer rt mn mem) =
      (if listen_ok calls \<and> 0 < so_port opts then ss_create_workers env [0..so_worker_num opts - 1] u else Inr (v, -1)) \<and>
    ss_workers u = [] \<and> ss_next_worker_index u = 0 \<and> \<not> ss_thread u \<and> \<not> ss_is_start u"
proof -
  let ?n = "(SignalingServer rt mn mem)\<lparr>ss_options := opts\<rparr>"
  let ?l = "(create_io_event pw Signaling_server_recv_notify ?n)\<lparr>ss_recv_fd := r, ss_send_fd := sd, ss_pipe_watcher := Some pw\<rparr>"
  have "ev_loop.truncate ?n = ev_loop.truncate (SignalingServer rt mn mem)" by (simp add: ev_loop.truncate_def)
  then have l: "el_ok ?n" "wkind ?n = Map.empty"
    using el_ok_more new_loop_ok by (auto simp: SignalingServer_def event_loop.extend_def event_loop_new_def)
  have "ev_loop.truncate ?l = ev_loop.truncate (create_io_event pw Signaling_server_recv_notify ?n)" by (simp add: ev_loop.truncate_def)
  from watch_added [OF l(1) _ r this, of READ] l(2) obtain v where
    v: "start_io_event pw r READ ?l = Inr v" "el_ok v" "wkind v = [pw \<mapsto> Ev_io]" "ev_loop.more v = ev_loop.more ?l" by auto
  let ?t = "create_tcp_server calls (Some (so_host opts)) (so_port opts)"
  have tcp: "listen_ok calls \<and> 0 < so_port opts \<Longrightarrow> ?t = (lc_socket calls, []) \<and> 0 \<le> lc_socket calls"
    and bad: "\<not> (listen_ok calls \<and> 0 < so_port opts) \<Longrightarrow> fst ?t < 0"
    by (auto simp: create_tcp_server_def listen_ok_def Let_def)
  let ?v = "v\<lparr>ss_listen_fd := lc_socket calls, ss_closed := ss_closed v @ []\<rparr>"
  let ?w = "(create_io_event iw Accept_new_conn ?v)\<lparr>ss_io_watcher := Some iw\<rparr>"
  have tv: "ev_loop.truncate ?v = ev_loop.truncate v" by (simp add: ev_loop.truncate_def)
  have k: "el_ok ?v" "wkind ?v iw = None" using el_ok_more [OF tv] v(2,3) a by auto
  have tw: "ev_loop.truncate ?w = ev_loop.truncate (create_io_event iw Accept_new_conn ?v)" by (simp add: ev_loop.truncate_def)
  define u where "u = (if 0 \<le> lc_socket calls then projr (start_io_event iw (lc_socket calls) READ ?w) else ?w)"
  have u: "0 \<le> lc_socket calls \<Longrightarrow> start_io_event iw (lc_socket calls) READ ?w = Inr u" "ev_loop.more u = ev_loop.more ?w"
    using watch_added [OF k _ tw, of "lc_socket calls" READ] by (auto simp: u_def)
  have f: "ss_workers u = []" "ss_next_worker_index u = 0" "\<not> ss_thread u" "\<not> ss_is_start u"
    using ss_more_eq [OF u(2)] ss_more_eq [OF v(4)]
    by (simp_all add: SignalingServer_def event_loop.extend_def create_io_event_def ev_init_def event_loop_new_def)
  have "\<exists>v'. ss_init True (Some opts) (Some (r, sd)) pw calls iw env (SignalingServer rt mn mem) =
      (if listen_ok calls \<and> 0 < so_port opts then ss_create_workers env [0..so_worker_num opts - 1] u else Inr (v', -1))"
  proof (cases "listen_ok calls \<and> 0 < so_port opts")
    case True
    then show ?thesis using v(1) u(1) tcp [OF True] by (simp add: ss_init_def)
  next
    case False
    then show ?thesis using v(1) bad [OF False] unfolding if_not_P [OF False] by (simp add: ss_init_def split_def Let_def)
  qed
  then show ?thesis using f by blast
qed

lemma ss_init_ok:
  assumes r: "0 \<le> r" and c: "listen_ok calls" "0 < so_port opts" and a: "pw \<noteq> iw"
    and env: "\<forall>i \<in> {0..<so_worker_num opts}. sig_env_ok (env i)" and n: "0 < so_worker_num opts"
  shows "\<exists>s. ss_init True (Some opts) (Some (r, sd)) pw calls iw env (SignalingServer rt mn mem) = Inr (s, 0) \<and> ss_ready s \<and>
    \<not> ss_thread s \<and> \<not> ss_is_start s \<and> map sw_addr (ss_workers s) = map (\<lambda>i. se_addr (env i)) [0..so_worker_num opts - 1] \<and>
    (\<forall>w \<in> set (ss_workers s). started_worker w)"
proof -
  from ss_init_listens [OF r a, of opts sd calls env rt mn mem] c obtain u where
    u: "ss_init True (Some opts) (Some (r, sd)) pw calls iw env (SignalingServer rt mn mem) = ss_create_workers env [0..so_worker_num opts - 1] u"
      "ss_workers u = []" "ss_next_worker_index u = 0" "\<not> ss_thread u" "\<not> ss_is_start u" by auto
  have "\<forall>i \<in> set [0..so_worker_num opts - 1]. sig_env_ok (env i)" using env by auto
  from ss_create_workers_ok [OF this, of u] u(2) obtain ws where
    ws: "ss_create_workers env [0..so_worker_num opts - 1] u = Inr (u\<lparr>ss_workers := ws\<rparr>, 0)"
      "map sw_addr ws = map (\<lambda>i. se_addr (env i)) [0..so_worker_num opts - 1]" "\<forall>w \<in> set ws. started_worker w" by auto
  have "length ws = nat (so_worker_num opts)" using arg_cong [OF ws(2), of length] by simp
  then have rd: "ss_ready (u\<lparr>ss_workers := ws\<rparr>)" using u(3) n by (simp add: ss_ready_def)
  show ?thesis using u rd ws by (intro exI [of _ "u\<lparr>ss_workers := ws\<rparr>"]) simp
qed








section \<open>The configuration and the log\<close>

definition yaml_full :: "yaml_log \<Rightarrow> bool" where
  "yaml_full y \<longleftrightarrow> y_log_dir y \<noteq> None \<and> y_log_name y \<noteq> None \<and> y_log_level y \<noteq> None \<and> y_log_to_stderr y \<noteq> None"

lemma init_general_conf_ok:
  assumes "yaml_full y"
  shows "\<exists>c. init_general_conf True (Some y) p = Inr (p\<lparr>g_general_conf := Some c\<rparr>, 0)"
  using assms by (auto simp: init_general_conf_def load_general_conf_def yaml_full_def Let_def)


lemma new_sink_ok:
  assumes "log_ok st as" "a \<notin> set as"
  shows "log_ok (st\<lparr>lg_sinks := (lg_sinks st)(a \<mapsto> s)\<rparr>) as"
proof -
  let ?h = "(lg_sinks st)(a \<mapsto> s)"
  have "fold (\<lambda>b m. min m (ls_min (the (?h b)))) as d = fold (\<lambda>b m. min m (ls_min (the (lg_sinks st b)))) as d" for d
    by (rule fold_cong) (use assms(2) in auto)
  then show ?thesis using assms by (simp add: log_ok_def sink_list_def min_of_def)
qed

lemma init_log_ok:
  assumes "log_ok (pr_logging p) as" "bo_sink e \<notin> set as"
  shows "\<exists>st x r. init_log e d n l p = Some (Inr (p\<lparr>pr_logging := st, g_log := Some x\<rparr>, r)) \<and> log_ok st (bo_sink e # as)"
proof -
  let ?st = "(pr_logging p)\<lparr>lg_sinks := (lg_sinks (pr_logging p))(bo_sink e \<mapsto> (bo_sink_mem e)\<lparr>ls_next := None\<rparr>)\<rparr>"
  have "lg_sinks ?st (bo_sink e) \<noteq> None" by simp
  from xl_register_ok [OF new_sink_ok [OF assms] this assms(2)] obtain st1 where
    st1: "xl_register (bo_sink e) ?st = Some (Inr st1)" "log_ok st1 (bo_sink e # as)" by blast
  obtain x1 ret where x: "xl_init (bo_dir_ok e) (bo_open_ok e) (bo_open_wf_ok e) (XrtcLog d n l) = (x1, ret)" by fastforce
  have "\<not> xl_running x1" "\<not> xl_thread x1" using x by (auto simp: xl_init_def XrtcLog_def Let_def split: if_splits)
  then obtain x2 b where "xl_start x1 = Inr (x2, b)" by (simp add: xl_start_def)
  then show ?thesis using st1 x by (cases "ret = 0") (auto simp: init_log_def)
qed

section \<open>Properties\<close>

text \<open>An environment in which the start succeeds; nothing is asked of the log files.\<close>

definition boot_ok :: "boot_env \<Rightarrow> sig_options \<Rightarrow> int \<Rightarrow> bool" where
  "boot_ok e opts n \<longleftrightarrow> (\<exists>y. bo_yaml e = Some y \<and> yaml_full y) \<and>
     bo_ss_conf e = Some opts \<and> 0 < so_port opts \<and> 0 < so_worker_num opts \<and> listen_ok (bo_ss_calls e) \<and> bo_ss_pw e \<noteq> bo_ss_iw e \<and>
     (\<exists>r sd. bo_ss_fds e = Some (r, sd) \<and> 0 \<le> r) \<and> (\<forall>i \<in> {0..<so_worker_num opts}. sig_env_ok (bo_ss_env e i)) \<and>
     inj_on (\<lambda>i. se_addr (bo_ss_env e i)) {0..<so_worker_num opts} \<and>
     bo_rs_conf e = Some n \<and> 0 < n \<and> n < 2 ^ 31 \<and> (\<exists>r sd. bo_rs_fds e = Some (r, sd) \<and> 0 \<le> r) \<and> (\<forall>i \<in> {0..<n}. rtc_env_ok (bo_rs_env e i))"

text \<open>
  C3: the start of the server. When the configuration can be read and the system calls succeed, \<open>main\<close>
  creates and starts both servers with the configured numbers of workers, and what runs then is a system
  in its initial state, of which the safety and the answering of requests are proved; the log is
  registered even when its files cannot be opened, which does not stop the start.
\<close>

theorem server_boots:
  assumes "boot_ok e opts n" "log_ok st as" "bo_sink e \<notin> set as"
  shows "\<exists>p s r. boot e (program0 st) = Some (Inr (p, None)) \<and> g_signaling_server p = Some s \<and> g_rtc_server p = Some r \<and>
    ss_is_start s \<and> rs_is_start r \<and> ss_ready s \<and> length (ss_workers s) = nat (so_worker_num opts) \<and> length (rs_workers r) = nat n \<and>
    reachable al nd J \<lparr>ps_ws = ss_workers s, ps_rs = r\<rparr> \<and> log_ok (pr_logging p) (bo_sink e # as)"
proof -
  note b = assms(1) [unfolded boot_ok_def]
  obtain y where y: "bo_yaml e = Some y" "yaml_full y" using b by blast
  obtain sr sd rr rd where fds: "bo_ss_fds e = Some (sr, sd)" "0 \<le> sr" "bo_rs_fds e = Some (rr, rd)" "0 \<le> rr" using b by blast
  let ?n = "so_worker_num opts"
  from init_general_conf_ok [OF y(2), of "program0 st"] obtain c where
    c: "init_general_conf True (Some y) (program0 st) = Inr ((program0 st)\<lparr>g_general_conf := Some c\<rparr>, 0)" by blast
  let ?p1 = "(program0 st)\<lparr>g_general_conf := Some c\<rparr>"
  have "log_ok (pr_logging ?p1) as" using assms(2) by (simp add: program0_def)
  from init_log_ok [OF this assms(3)] obtain st1 x ret where
    l: "init_log e (gc_log_dir c) (gc_log_name c) (gc_log_level c) ?p1 = Some (Inr (?p1\<lparr>pr_logging := st1, g_log := Some x\<rparr>, ret))"
      "log_ok st1 (bo_sink e # as)" by blast
  let ?p2 = "?p1\<lparr>pr_logging := st1, g_log := Some x\<rparr>"
  from ss_init_ok [OF fds(2), of "bo_ss_calls e" opts "bo_ss_pw e" "bo_ss_iw e" "bo_ss_env e" sd "fst (bo_ss_clocks e)" "snd (bo_ss_clocks e)" "bo_ss_mem e"] b
  obtain s where
    s: "ss_init True (Some opts) (Some (sr, sd)) (bo_ss_pw e) (bo_ss_calls e) (bo_ss_iw e) (bo_ss_env e)
        (SignalingServer (fst (bo_ss_clocks e)) (snd (bo_ss_clocks e)) (bo_ss_mem e)) = Inr (s, 0)"
      "ss_ready s" "\<not> ss_thread s" "\<not> ss_is_start s" "map sw_addr (ss_workers s) = map (\<lambda>i. se_addr (bo_ss_env e i)) [0..?n - 1]"
      "\<forall>w \<in> set (ss_workers s). started_worker w" by auto
  from rs_init_ok [OF fds(4), of n "bo_rs_env e" rd "bo_rs_pw e" "fst (bo_rs_clocks e)" "snd (bo_rs_clocks e)" "bo_rs_mem e"] b
  obtain r where
    r: "rs_init True (Some n) (Some (rr, rd)) (bo_rs_pw e) (bo_rs_env e) (RtcServer (fst (bo_rs_clocks e)) (snd (bo_rs_clocks e)) (bo_rs_mem e)) = Inr (r, 0)"
      "rs_ready r" "rs_msg_queue r = []" "rs_pipe r = []" "\<not> rs_thread r" "\<not> rs_is_start r" "length (rs_workers r) = nat n" "\<forall>v \<in> set (rs_workers r). rw_holds v [] \<and> rw_pipe v = []" by auto
  let ?s = "s\<lparr>ss_is_start := True, ss_thread := True\<rparr>" and ?r = "r\<lparr>rs_is_start := True, rs_thread := True\<rparr>"
  let ?p = "?p2\<lparr>g_signaling_server := Some ?s, g_rtc_server := Some ?r\<rparr>"
  have i: "init_signaling_server e ?p2 = Inr (?p2\<lparr>g_signaling_server := Some s\<rparr>, 0)" using s(1) b fds(1) by (simp add: init_signaling_server_def)
  have j: "init_rtc_server e (?p2\<lparr>g_signaling_server := Some s\<rparr>) = Inr (?p2\<lparr>g_signaling_server := Some s, g_rtc_server := Some r\<rparr>, 0)"
    using r(1) b fds(3) by (simp add: init_rtc_server_def)
  have "boot e (program0 st) = Some (Inr (?p, None))"
    unfolding boot_def y(1) c using l(1) i j s(3,4) r(5,6) by (simp add: ss_start_def rs_start_def)
  moreover have "length (ss_workers s) = nat ?n" using arg_cong [OF s(5), of length] by simp
  moreover have "sys_init \<lparr>ps_ws = ss_workers ?s, ps_rs = ?r\<rparr>"
  proof -
    have "inj_on (\<lambda>i. se_addr (bo_ss_env e i)) (set [0..?n - 1])" using b by (simp add: atLeastLessThanPlusOne_atLeastAtMost_int [of 0 "?n - 1", simplified])
    then have "distinct (map sw_addr (ss_workers s))" unfolding s(5) by (simp add: distinct_map)
    then show ?thesis using s(6) r(2-4,8) unfolding sys_init_def started_worker_def by (simp add: rs_ready_def)
  qed
  then have "reachable al nd J \<lparr>ps_ws = ss_workers ?s, ps_rs = ?r\<rparr>" by (rule reachable.start)
  moreover have "ss_ready ?s" using s(2) by (simp add: ss_ready_def)
  moreover have "length (rs_workers ?r) = nat n" using r(7) by simp
  ultimately show ?thesis using l(2) by (intro exI [of _ ?p] exI [of _ ?s] exI [of _ ?r]) simp
qed



section \<open>Witnesses\<close>

definition demo_boot :: boot_env where
  "demo_boot = \<lparr>bo_yaml = Some \<lparr>y_log_dir = Some [], y_log_name = Some [], y_log_level = Some [], y_log_to_stderr = Some True\<rparr>,
     bo_sink = 9, bo_sink_mem = \<lparr>ls_next = None, ls_min = LS_NONE\<rparr>, bo_dir_ok = False, bo_open_ok = False, bo_open_wf_ok = False,
     bo_ss_clocks = (0, 0), bo_ss_mem = \<lparr>so_host = [], so_port = 0, so_worker_num = 0, so_connection_timeout = 0\<rparr>,
     bo_ss_conf = Some \<lparr>so_host = [], so_port = 8080, so_worker_num = 2, so_connection_timeout = 30\<rparr>, bo_ss_fds = Some (3, 4), bo_ss_pw = 1,
     bo_ss_calls = \<lparr>lc_socket = 5, lc_setsockopt = 0, lc_inet_pton = 1, lc_bind = 0, lc_listen = 0\<rparr>, bo_ss_iw = 2,
     bo_ss_env = (\<lambda>i. \<lparr>se_addr = nat i, se_rt = 0, se_mn = 0, se_node = 0, se_pipe = Some (6, 7), se_watcher = 0\<rparr>),
     bo_rs_clocks = (0, 0), bo_rs_mem = 0, bo_rs_conf = Some 1, bo_rs_fds = Some (8, 9), bo_rs_pw = 1,
     bo_rs_env = (\<lambda>i. \<lparr>we_rt = 0, we_mn = 0, we_node = 0, we_pipe = Some (10, 11), we_watcher = 0\<rparr>)\<rparr>"

lemma demo_boot_ok: "boot_ok demo_boot \<lparr>so_host = [], so_port = 8080, so_worker_num = 2, so_connection_timeout = 30\<rparr> 1"
  by (auto simp: boot_ok_def demo_boot_def yaml_full_def listen_ok_def sig_env_ok_def rtc_env_ok_def inj_on_def)

theorem server_boots_witness:
  "\<exists>p s. boot demo_boot (program0 (log_init LS_INFO Map.empty)) = Some (Inr (p, None)) \<and> g_signaling_server p = Some s \<and> length (ss_workers s) = 2"
  using server_boots [OF demo_boot_ok log_init_ok, of LS_INFO Map.empty demo_al False "demo_json 1"] by auto


end
