(* ===== verification/Spec2Isabelle.thy ===== *)
theory Spec2Isabelle
  imports Xrtc_Prelude Fifo_Spec Lock_Free_Queue Xhead Crc32 Sds Slice Sds_Text Buffer Byte_Buffer String_Encode String_Builder Zmalloc Sds_Heap
    Conf Log Logging Logging_Proofs Ev_Heap Ev_Loop Ev_Loop_Inv Event_Loop
    Ev_Epoll Ev_Epoll_Proofs Ev_Poll Ev_Run Ev_Run_Proofs Ev_Props Socket Rtc_Msg Msg_Queue Tcp_Connection Conn_Proofs Conn_Memory
    Conn_Props Signaling_Worker Worker_Inv Worker_Safe Worker_Props Signaling_Server Rtc_Worker Rtc_Server
    Worker_Frames Push_Path Server_Main
begin

text \<open>
  Verification of the screen-sharing signalling server \<open>xrtcserver\<close> (\<open>src/cpp/xrtcserver/src\<close>) and of the
  code below it that carries its behaviour: libev with its epoll backend
  (\<open>src/cpp/xrtcserver/3rdlibs/libev\<close>) and parts of the base library (\<open>src/cpp/rtcbase/src/rtc_base\<close>).

  \<^bold>\<open>The program.\<close> A \<open>SignalingServer\<close> thread accepts TCP connections and hands them in turn to
  \<open>SignalingWorker\<close> threads through a lock-free queue and a pipe. A worker reads requests (an \<open>xhead_t\<close>
  header and a JSON body) into an sds string, turns a PUSH request into an \<open>RtcMsg\<close> and gives it to the
  \<open>RtcServer\<close> thread, which passes it to the \<open>RtcWorker\<close> of the stream; the answer comes back to the
  worker, is queued on the connection and written when the socket accepts it. Each thread runs an
  \<open>EventLoop\<close>, a wrapper around libev. A log thread writes the log files.

  \<^bold>\<open>Theories.\<close>
  \<^item> \<open>Xrtc_Prelude\<close>: machine types, faults, C conversions, byte order, buffers, paths in a heap.
  \<^item> \<open>Fifo_Spec\<close>, \<open>Lock_Free_Queue\<close> (\<open>base/lock_free_queue.h\<close>): the queue interface as a locale and its
    interpretation; \<open>produce\<close> and \<open>consume\<close> as whole calls and as an interleaving of one producer and
    one consumer, statement by statement, on sequentially consistent memory. Memory safety, first-in
    first-out order and the absence of leaks.
  \<^item> \<open>Xhead\<close>, \<open>Rtc_Msg\<close>, \<open>Msg_Queue\<close>, \<open>Crc32\<close>, \<open>Slice\<close>, \<open>Sds\<close>, \<open>Sds_Text\<close>: the wire header, messages, the mutex-protected
    message queues, the checksum with its bit-serial reference, slices and dynamic strings. \<open>Sds_Text\<close>
    has the round trip of quoting and parsing.
  \<^item> \<open>Buffer\<close>, \<open>Byte_Buffer\<close>, \<open>String_Encode\<close>, \<open>String_Builder\<close>, \<open>Zmalloc\<close>: more of the base library. Buffers with their
    consistency condition, writing and reading of values in network order, hexadecimal and other texts,
    string builders, and the allocator below the dynamic strings with its count of used memory.
  \<^item> \<open>Sds_Heap\<close>, \<open>Conn_Memory\<close>: the strings of a connection as bytes in the memory of the allocator, which refine the values of
    \<open>Sds\<close>, and all memory that a connection owns, from its constructor to its destructor.
  \<^item> \<open>Conf\<close>, \<open>Log\<close>, \<open>Socket\<close>: configuration, log queues and files, socket helpers. The YAML library and
    the system calls are arguments.
  \<^item> \<open>Logging\<close>, \<open>Logging_Proofs\<close> (\<open>rtc_base/logging.cc\<close>): the macro \<open>RTC_LOG\<close>, the composition of a line, the linked
    list of sinks and the settings; a message is followed from the macro to the file it is written to.
  \<^item> \<open>Ev_Heap\<close>, \<open>Ev_Loop\<close>, \<open>Ev_Loop_Inv\<close>: the four-ary timer heap, the pending queues, the watcher lists, starting
    and stopping of io and timer watchers, \<open>timers_reify\<close> and \<open>ev_invoke_pending\<close>; the invariant \<open>loop_ok\<close>
    and that every operation keeps it.
  \<^item> \<open>Ev_Epoll\<close>, \<open>Ev_Epoll_Proofs\<close>, \<open>Ev_Poll\<close>: the epoll backend. The kernel is an argument \<open>ctl\<close> with a state of any
    type; \<open>epoll_doc\<close> says what its documentation promises, \<open>epoll_sync\<close> that libev and the kernel agree.
  \<^item> \<open>Ev_Run\<close>, \<open>Ev_Run_Proofs\<close>, \<open>Ev_Reach\<close>, \<open>Ev_Props\<close>: clocks, blocking times, one iteration of \<open>ev_run\<close>, the loop, the self check
    \<open>ev_verify\<close>; the states that the operations of the wrapper and iterations of the loop reach together with the kernel
    (\<open>ev_reach\<close>), for callbacks that use those operations as their preconditions say; the properties of libev.
  \<^item> \<open>Event_Loop\<close> (\<open>base/event_loop.cpp\<close>): the wrapper; the locale \<open>io_events\<close> is what the connections rely on.
  \<^item> \<open>Tcp_Connection\<close>, \<open>Conn_Proofs\<close>, \<open>Conn_Props\<close>: a connection's parser and its reply queue.
  \<^item> \<open>Signaling_Worker\<close>, \<open>Worker_Inv\<close>, \<open>Worker_Safe\<close>, \<open>Worker_Props\<close>: the worker with every handler, its invariant
    \<open>worker_ok\<close> (each connection owns exactly its two watchers, which libev has registered) and what the handlers do.
  \<^item> \<open>Signaling_Server\<close>, \<open>Rtc_Worker\<close>, \<open>Rtc_Server\<close>: the other threads.
  \<^item> \<open>Worker_Frames\<close>, \<open>Push_Path\<close>: the running server, with its signalling workers, the media server and its workers
    connected by queues and pipes. An action is one callback of one thread, and actions interleave in any
    order; the invariant \<open>sys_inv\<close> gives that no reachable state has a faulty next action, and a push request
    is followed from the last byte read to the last byte of its answer. \<open>Worker_Frames\<close> has what each handler
    leaves alone.
  \<^item> \<open>Server_Main\<close> (\<open>main.cpp\<close>): the start of the process. When it succeeds, what runs is an initial state of the
    system of \<open>Push_Path\<close>; its errors.

  \<^bold>\<open>Conventions.\<close> A use of a freed or null object, an access outside a buffer, a failed assertion and
  the end of the process are values of type \<open>fault\<close>, returned as \<open>Inl\<close>. A loop that may not end is a
  \<open>partial_function (option)\<close> and \<open>None\<close> is not returning; loops that end are proved to do so. No
  fuel is used. Addresses that \<open>new\<close> returns are arguments, and \<open>new\<close> does not fail. What the kernel, the YAML and JSON
  libraries and the peers do is an argument of the operation that asks them.
  C integers are \<open>int\<close> or \<open>nat\<close> with the conversions \<open>to_int32\<close> and \<open>to_size_t\<close>, or words.

  \<^bold>\<open>Not modelled.\<close> Thread creation and joining beyond the flags that record them, and in \<open>Push_Path\<close> the
  shutdown of the media server; the weak memory
  model (the lock-free queue's pointers are not atomic in the source); libev's signal, child, stat,
  periodic, idle, prepare, check, fork, async and embed watchers and its other backends, which the server does not use;
  floating-point rounding of libev's times (real numbers; the one conversion to \<open>float\<close> is modelled);
  the rest of the WebRTC base library, the vendored libraries (absl, jsoncpp, yaml-cpp, OpenSSL), the
  signalling web server in Go and the browser client.
\<close>

end
